(* ===== verification/Prelude.thy ===== *)
theory Prelude
  imports Main "HOL-Library.Word" "HOL-Library.AList"
begin

text \<open>
  What the components share: the machine integers of the Rust sources and their saturating
  operations, decimal printing (\<open>format!("{n}")\<close>), valid UTF-8, the parts of \<open>str\<close> the sources use
  (\<open>len\<close>, \<open>trim\<close>, \<open>is_char_boundary\<close>, \<open>starts_with\<close>), and generic lemmas on lists. A Rust string is its UTF-8 bytes: a \<open>string\<close> (one \<open>char\<close> per byte), so
  \<open>length\<close> is \<open>str::len\<close>. The collections name the simplification sets of the components.
\<close>

named_theorems harness_simps \<open>equations of the harness reducer and the fold\<close>
named_theorems driver_simps \<open>equations of the driver's small operations\<close>
named_theorems store_simps \<open>equations of the store's operations\<close>

section \<open>Machine integers\<close>

type_synonym u32 = "32 word"
type_synonym uuid = "128 word"

definition saturating_add :: "'a::len word \<Rightarrow> 'a word \<Rightarrow> 'a word" where
  "saturating_add a b = (if unat a + unat b < 2 ^ LENGTH('a) then a + b else - 1)"

definition saturating_sub :: "'a::len word \<Rightarrow> 'a word \<Rightarrow> 'a word" where
  "saturating_sub a b = (if a < b then 0 else a - b)"

definition checked_add :: "'a::len word \<Rightarrow> 'a word \<Rightarrow> 'a word option" where
  "checked_add a b = (if unat a + unat b < 2 ^ LENGTH('a) then Some (a + b) else None)"

lemma unat_max_word: "unat (- 1 :: 'a::len word) = 2 ^ LENGTH('a) - 1"
  by (simp add: unsigned_minus_1_eq_mask mask_eq_exp_minus_1)

lemma unat_add_no_overflow:
  fixes a b :: "'a::len word"
  assumes "unat a + unat b < 2 ^ LENGTH('a)"
  shows "unat (a + b) = unat a + unat b"
  using assms by (simp add: unat_word_ariths)

lemma unat_saturating_add:
  fixes a b :: "'a::len word"
  shows "unat (saturating_add a b) = min (unat a + unat b) (2 ^ LENGTH('a) - 1)"
  by (auto simp: saturating_add_def unat_add_no_overflow unat_max_word min_def)

lemma unat_saturating_sub: "unat (saturating_sub a b) = unat a - unat b"
  by (auto simp: saturating_sub_def unat_sub word_less_nat_alt not_less word_le_nat_alt)

lemma unat_Suc_no_overflow:
  fixes a b :: "'a::len word"
  assumes "a < b"
  shows "unat (a + 1) = Suc (unat a)"
proof -
  have "unat a < unat b" using assms by (simp add: word_less_nat_alt)
  moreover have "unat b < 2 ^ LENGTH('a)" by (rule unsigned_less)
  ultimately have "Suc (unat a) < 2 ^ LENGTH('a)" by linarith
  then have "unat a + unat (1 :: 'a word) < 2 ^ LENGTH('a)" by simp
  then have "unat (a + 1) = unat a + unat (1 :: 'a word)" by (rule unat_add_no_overflow)
  then show ?thesis by simp
qed

lemma word_succ_le:
  fixes a b :: "'a::len word"
  assumes "a < b"
  shows "a + 1 \<le> b" "1 \<le> a + 1"
  using assms by (simp_all add: word_le_nat_alt unat_Suc_no_overflow word_less_nat_alt)

lemma saturating_add_0 [simp]: "saturating_add a 0 = a"
  using unsigned_less [of a] by (auto simp: saturating_add_def)

lemma min_add_cap: "min (min a c + b) c = min (a + b) (c :: nat)"
  by simp

section \<open>Decimal printing\<close>

definition digit :: "nat \<Rightarrow> char" where
  "digit d = ''0123456789'' ! d"

fun dec :: "nat \<Rightarrow> string" where
  "dec n = (if n < 10 then [digit n] else dec (n div 10) @ [digit (n mod 10)])"

declare dec.simps [simp del]

definition digit_value :: "char \<Rightarrow> nat" where
  "digit_value c = of_char c - 48"

definition undec :: "string \<Rightarrow> nat" where
  "undec s = foldl (\<lambda>n c. n * 10 + digit_value c) 0 s"

text \<open>\<open>i64::to_string\<close>\<close>

definition dec_int :: "int \<Rightarrow> string" where
  "dec_int n = (if n < 0 then ''-'' @ dec (nat (- n)) else dec (nat n))"

lemma less_10_cases:
  fixes d :: nat
  assumes "d < 10"
  shows "d = 0 \<or> d = 1 \<or> d = 2 \<or> d = 3 \<or> d = 4 \<or> d = 5 \<or> d = 6 \<or> d = 7 \<or> d = 8 \<or> d = 9"
  using assms by arith

lemma digit_value_digit: "d < 10 \<Longrightarrow> digit_value (digit d) = d"
  by (drule less_10_cases) (auto simp: digit_def digit_value_def)

lemma digit_not_separator: "d < 10 \<Longrightarrow> digit d \<noteq> CHR '':'' \<and> digit d \<noteq> CHR ''/''"
  by (drule less_10_cases) (auto simp: digit_def)

lemma undec_dec [simp]: "undec (dec n) = n"
proof (induction n rule: dec.induct)
  case (1 n)
  show ?case
  proof (cases "n < 10")
    case True
    then show ?thesis by (subst dec.simps) (simp add: undec_def digit_value_digit)
  next
    case False
    with "1" have "undec (dec (n div 10)) = n div 10" by simp
    with False show ?thesis
      by (subst dec.simps) (simp add: undec_def digit_value_digit)
  qed
qed

lemma dec_inject [simp]: "dec m = dec n \<longleftrightarrow> m = n"
  by (metis undec_dec)

lemma dec_no_separator: "CHR '':'' \<notin> set (dec n) \<and> CHR ''/'' \<notin> set (dec n)"
proof (induction n rule: dec.induct)
  case (1 n)
  then show ?case
    using digit_not_separator [of n] digit_not_separator [of "n mod 10"]
    by (cases "n < 10") (auto simp: dec.simps [of n])
qed

section \<open>Valid UTF-8\<close>

text \<open>\<open>str::from_utf8(..).is_ok()\<close>\<close>

definition between :: "nat \<Rightarrow> nat \<Rightarrow> char \<Rightarrow> bool" where
  "between lo hi c \<longleftrightarrow> lo \<le> of_char c \<and> of_char c \<le> hi"

fun is_utf8 :: "string \<Rightarrow> bool" where
  "is_utf8 [] = True"
| "is_utf8 (a # s) =
     (if between 0x00 0x7F a then is_utf8 s
      else
        (case s of
           b # s2 \<Rightarrow>
             if between 0xC2 0xDF a \<and> between 0x80 0xBF b then is_utf8 s2
             else
               (case s2 of
                  c # s3 \<Rightarrow>
                    if (between 0xE0 0xE0 a \<and> between 0xA0 0xBF b \<or> between 0xE1 0xEC a \<and> between 0x80 0xBF b
                        \<or> between 0xED 0xED a \<and> between 0x80 0x9F b \<or> between 0xEE 0xEF a \<and> between 0x80 0xBF b)
                       \<and> between 0x80 0xBF c then is_utf8 s3
                    else
                      (case s3 of
                         d # s4 \<Rightarrow>
                           (between 0xF0 0xF0 a \<and> between 0x90 0xBF b \<or> between 0xF1 0xF3 a \<and> between 0x80 0xBF b
                            \<or> between 0xF4 0xF4 a \<and> between 0x80 0x8F b)
                           \<and> between 0x80 0xBF c \<and> between 0x80 0xBF d \<and> is_utf8 s4
                       | [] \<Rightarrow> False)
                | [] \<Rightarrow> False)
         | [] \<Rightarrow> False))"

lemma digit_byte: "d < 10 \<Longrightarrow> between 0x00 0x7F (digit d)"
  by (drule less_10_cases) (auto simp: digit_def between_def)

lemma is_utf8_append: "list_all (between 0x00 0x7F) s \<Longrightarrow> is_utf8 (s @ rest) = is_utf8 rest"
  by (induction s) simp_all

lemma dec_bytes: "list_all (between 0x00 0x7F) (dec n)"
proof (induction n rule: dec.induct)
  case (1 n)
  then show ?case
    using digit_byte [of n] digit_byte [of "n mod 10"] by (cases "n < 10") (auto simp: dec.simps [of n])
qed

lemma dec_int_utf8: "is_utf8 (dec_int n)"
  using is_utf8_append [OF dec_bytes, of _ "[]"] by (simp add: dec_int_def between_def)

lemma dec_length: "n < 10 ^ Suc k \<Longrightarrow> length (dec n) \<le> Suc k"
proof (induction k arbitrary: n)
  case 0
  then show ?case by (simp add: dec.simps [of n])
next
  case (Suc k)
  then have "n div 10 < 10 ^ Suc k" by (simp add: less_mult_imp_div_less)
  from Suc.IH [OF this] show ?case by (simp add: dec.simps [of n])
qed

lemma split_at_separator:
  assumes "c \<notin> set xs" and "c \<notin> set ys" and "xs @ c # us = ys @ c # vs"
  shows "xs = ys \<and> us = vs"
proof -
  have "takeWhile (\<lambda>x. x \<noteq> c) (xs @ c # us) = xs"
    using assms(1) by (subst takeWhile_append2) auto
  moreover have "takeWhile (\<lambda>x. x \<noteq> c) (ys @ c # vs) = ys"
    using assms(2) by (subst takeWhile_append2) auto
  ultimately have "xs = ys" using assms(3) by metis
  with assms(3) show ?thesis by simp
qed

section \<open>Strings\<close>

definition is_prefix :: "string \<Rightarrow> string \<Rightarrow> bool" where
  "is_prefix p s = (take (length p) s = p)"

text \<open>The code points of the Unicode property \<open>White_Space\<close>, in UTF-8: what \<open>str::trim\<close> removes.\<close>

definition white_space :: "string list" where
  "white_space =
     [[CHR 0x09], [CHR 0x0A], [CHR 0x0B], [CHR 0x0C], [CHR 0x0D], [CHR 0x20],
      [CHR 0xC2, CHR 0x85], [CHR 0xC2, CHR 0xA0], [CHR 0xE1, CHR 0x9A, CHR 0x80],
      [CHR 0xE2, CHR 0x80, CHR 0x80], [CHR 0xE2, CHR 0x80, CHR 0x81], [CHR 0xE2, CHR 0x80, CHR 0x82],
      [CHR 0xE2, CHR 0x80, CHR 0x83], [CHR 0xE2, CHR 0x80, CHR 0x84], [CHR 0xE2, CHR 0x80, CHR 0x85],
      [CHR 0xE2, CHR 0x80, CHR 0x86], [CHR 0xE2, CHR 0x80, CHR 0x87], [CHR 0xE2, CHR 0x80, CHR 0x88],
      [CHR 0xE2, CHR 0x80, CHR 0x89], [CHR 0xE2, CHR 0x80, CHR 0x8A], [CHR 0xE2, CHR 0x80, CHR 0xA8],
      [CHR 0xE2, CHR 0x80, CHR 0xA9], [CHR 0xE2, CHR 0x80, CHR 0xAF], [CHR 0xE2, CHR 0x81, CHR 0x9F],
      [CHR 0xE3, CHR 0x80, CHR 0x80]]"

text \<open>\<open>s.trim().is_empty()\<close>: the string is white space to its end.\<close>

function trim_is_empty :: "string \<Rightarrow> bool" where
  "trim_is_empty s =
     (if s = [] then True
      else (case find (\<lambda>w. is_prefix w s) white_space of
              None \<Rightarrow> False
            | Some w \<Rightarrow> if w = [] then False else trim_is_empty (drop (length w) s)))"
  by pat_completeness auto
termination
  by (relation "measure length") (auto simp: is_prefix_def)

declare trim_is_empty.simps [simp del]

lemma trim_is_empty_Nil [simp]: "trim_is_empty []"
  by (simp add: trim_is_empty.simps)

lemma find_prefix_shorter:
  assumes "find (\<lambda>w. w \<noteq> [] \<and> is_prefix (f w) t) ws = Some w" and "length (f w) = length w"
  shows "length t - length w < length t"
proof -
  from assms(1) have "w \<noteq> []" "take (length (f w)) t = f w" by (auto simp: find_Some_iff is_prefix_def)
  then have "0 < length w" "length w \<le> length t" using assms(2) by (simp, metis length_take min.cobounded1)
  then show ?thesis by linarith
qed

text \<open>\<open>str::trim\<close>: white space off both ends.\<close>

function trim_start :: "string \<Rightarrow> string" where
  "trim_start s =
     (case find (\<lambda>w. w \<noteq> [] \<and> is_prefix w s) white_space of None \<Rightarrow> s | Some w \<Rightarrow> trim_start (drop (length w) s))"
  by pat_completeness auto
termination
  by (relation "measure length") (auto dest!: find_prefix_shorter [of "\<lambda>w. w"])

function trim_end :: "string \<Rightarrow> string" where
  "trim_end s =
     (case find (\<lambda>w. w \<noteq> [] \<and> is_prefix (rev w) (rev s)) white_space of
        None \<Rightarrow> s | Some w \<Rightarrow> trim_end (take (length s - length w) s))"
  by pat_completeness auto
termination
  by (relation "measure length") (auto dest!: find_prefix_shorter [of rev])

declare trim_start.simps [simp del] trim_end.simps [simp del]

text \<open>\<open>str::is_char_boundary\<close>: the start, the end, or a byte that is not a continuation byte.\<close>

definition is_char_boundary :: "string \<Rightarrow> nat \<Rightarrow> bool" where
  "is_char_boundary s i =
     (i = 0 \<or> i = length s
      \<or> (i < length s \<and> \<not> (128 \<le> (of_char (s ! i) :: nat) \<and> (of_char (s ! i) :: nat) < 192)))"

section \<open>Lists\<close>

lemma card_less_Suc_snoc:
  "card {k. k < Suc m \<and> Q k} = card {k. k < m \<and> Q k} + (if Q m then 1 else 0)"
proof (cases "Q m")
  case True
  then have "{k. k < Suc m \<and> Q k} = insert m {k. k < m \<and> Q k}"
    by (auto simp: less_Suc_eq)
  with True show ?thesis by simp
next
  case False
  then have "{k. k < Suc m \<and> Q k} = {k. k < m \<and> Q k}"
    by (auto simp: less_Suc_eq)
  with False show ?thesis by simp
qed

text \<open>The first binding of each key of an association list is what \<open>AList.clearjunk\<close> keeps.\<close>

lemma delete_snoc: "AList.delete k (xs @ [(k', v)]) = AList.delete k xs @ (if k = k' then [] else [(k', v)])"
  by (simp add: AList.delete_eq)

lemma clearjunk_snoc:
  "AList.clearjunk (xs @ [(k, v)]) =
     (if k \<in> fst ` set xs then AList.clearjunk xs else AList.clearjunk xs @ [(k, v)])"
proof (induction xs rule: AList.clearjunk.induct)
  case (2 p ps)
  have "k \<in> fst ` set (AList.delete (fst p) ps) \<longleftrightarrow> k \<noteq> fst p \<and> k \<in> fst ` set ps"
    by (auto simp: AList.delete_eq)
  with 2 show ?case by (auto simp: delete_snoc)
qed simp

lemma snoc_eq_append_Cons:
  "xs @ [x] = pre @ y # post \<longleftrightarrow>
     (post = [] \<and> pre = xs \<and> y = x) \<or> (\<exists>post'. post = post' @ [x] \<and> xs = pre @ y # post')"
  by (cases post rule: rev_cases) auto

lemma unat_of_nat_small: "n < 2 ^ LENGTH('a) \<Longrightarrow> unat (of_nat n :: 'a::len word) = n"
  by (simp add: unat_of_nat)

end
