(* ===== verification/Protocol_Types.thy ===== *)
theory Protocol_Types
  imports Prelude
begin

text \<open>
  The data of the protocol crate (\<open>crates/protocol/src\<close>): ids, model messages, tools, policy
  decisions, the harness and dispatch states, effects, run specs and events. A struct is a
  record whose field names carry a prefix for their struct, an enum is a datatype; the two
  enums that share variant names (\<open>HarnessState\<close>, \<open>DispatchPhase\<close>) carry the prefixes
  \<open>H\<close> and \<open>D\<close>, a memory scope \<open>Scope\<close>, and the two event payloads that share a name with an
  effect or a struct carry \<open>P\<close>.
\<close>

section \<open>Ids (id.rs)\<close>

text \<open>An id is a newtype of a UUID. \<open>new\<close> draws a fresh one: where the sources call it, the
  model takes the drawn UUID from the environment.\<close>

datatype run_id = RunId (run_uuid: uuid)
datatype agent_id = AgentId (agent_uuid: uuid)
datatype step_id = StepId (step_uuid: uuid)
datatype event_id = EventId (event_uuid: uuid)
datatype artifact_id = ArtifactId (artifact_uuid: uuid)
datatype tool_id = ToolId (tool_uuid: uuid)
datatype approval_id = ApprovalId (approval_uuid: uuid)
datatype invocation_id = InvocationId (invocation_uuid: uuid)
datatype message_id = MessageId (message_uuid: uuid)

text \<open>The operations of the \<open>uuid\<close> crate that the sources rely on.\<close>

record uuid_ops =
  uuid_to_string :: "uuid \<Rightarrow> string"
  uuid_as_bytes :: "uuid \<Rightarrow> string"
  uuid_new_v5 :: "uuid \<Rightarrow> string \<Rightarrow> uuid"

section \<open>Run specs (spec.rs)\<close>

type_synonym capability = string

datatype execution_placement = Local | Reverse | Box

datatype credential_source = BringYourOwn string | PlatformGateway

datatype model_provider = OpenAI | Anthropic | Gemini | SystemOne

record work_model =
  wm_provider :: model_provider
  wm_model_name :: string
  wm_credential :: credential_source

record owner =
  ow_issuer :: string
  ow_subject :: string
  ow_tenant :: string

record limits =
  max_steps :: u32
  max_model_calls :: u32

record lineage =
  lin_parent :: "run_id option"
  lin_root :: "run_id option"
  lin_hop :: u32

definition lineage_default :: lineage where
  "lineage_default = \<lparr>lin_parent = None, lin_root = None, lin_hop = 0\<rparr>"

record run_spec =
  rs_run_id :: run_id
  rs_owner :: owner
  rs_agent_id :: agent_id
  rs_agent_version :: string
  rs_input :: string
  rs_placement :: execution_placement
  rs_work_model :: work_model
  rs_capabilities :: "capability list"
  rs_limits :: limits
  rs_metadata :: "string \<rightharpoonup> string"
  rs_lineage :: lineage

definition same_principal :: "owner \<Rightarrow> owner \<Rightarrow> bool" where
  "same_principal self other = (ow_issuer self = ow_issuer other \<and> ow_subject self = ow_subject other)"

definition spec_root :: "run_spec \<Rightarrow> run_id" where
  "spec_root spec = (case lin_root (rs_lineage spec) of None \<Rightarrow> rs_run_id spec | Some r \<Rightarrow> r)"

section \<open>Model messages, tools, policy (model.rs, tool.rs, policy.rs)\<close>

datatype message_role = RoleSystem | RoleUser | RoleAssistant

record model_message =
  mm_role :: message_role
  mm_text :: string

record usage =
  us_input_tokens :: "64 word"
  us_output_tokens :: "64 word"

record model_request =
  mr_provider :: model_provider
  mr_model_name :: string
  mr_prompt :: string

record tool_descriptor =
  td_id :: tool_id
  td_name :: string
  td_description :: string
  td_input_schema :: string
  td_output_schema :: string
  td_required_capability :: capability

datatype policy_decision =
  Allow | Deny string | RequireApproval | Modify | Limit | Redirect

section \<open>Harness and dispatch states (phase.rs)\<close>

definition MAX_RETRIES :: u32 where
  "MAX_RETRIES = 2"

definition MAX_DELEGATION_HOPS :: u32 where
  "MAX_DELEGATION_HOPS = 8"

definition MAX_CHILDREN :: u32 where
  "MAX_CHILDREN = 10"

definition MAX_MESSAGE_BYTES :: nat where
  "MAX_MESSAGE_BYTES = 32 * 1024"

definition MAX_ASK_TIMEOUT_SECS :: u32 where
  "MAX_ASK_TIMEOUT_SECS = 24 * 60 * 60"

datatype failure_class =
    FAgent | FModel | FTool | FPolicy | FEnvironment | FInfrastructure | FTimeout | FBudget
  | FDependency | FUserCancellation

datatype harness_state =
    HIdle
  | HRunning u32 u32 bool
  | HWaitingForTool u32 u32 string invocation_id
  | HWaitingForMessage u32 u32 message_id
  | HCompleted string
  | HFailed failure_class string
  | HCancelled

fun harness_is_terminal :: "harness_state \<Rightarrow> bool" where
  "harness_is_terminal (HCompleted outcome) = True"
| "harness_is_terminal (HFailed cls message) = True"
| "harness_is_terminal HCancelled = True"
| "harness_is_terminal _ = False"

fun is_running :: "harness_state \<Rightarrow> bool" where
  "is_running (HRunning s a b) = True"
| "is_running _ = False"

datatype dispatch_phase =
    DCreated | DQueued | DScheduled | DProvisioning | DStarting | DRunning
  | DWaiting string | DAwaitingApproval approval_id | DPaused | DRecovering
  | DCompleted string | DFailed failure_class string | DCancelled | DExpired

fun dispatch_is_terminal :: "dispatch_phase \<Rightarrow> bool" where
  "dispatch_is_terminal (DCompleted outcome) = True"
| "dispatch_is_terminal (DFailed cls message) = True"
| "dispatch_is_terminal DCancelled = True"
| "dispatch_is_terminal DExpired = True"
| "dispatch_is_terminal _ = False"

section \<open>Effects (effect.rs)\<close>

datatype memory_scope =
    ScopeStep | ScopeRun | ScopeSession | ScopeAgent | ScopeWorkspace | ScopeUser
  | ScopeOrganization | ScopeGlobal

datatype effect =
    ModelCall string
  | ToolCall string string invocation_id
  | MemoryRead memory_scope string
  | MemoryWrite memory_scope string string
  | Execute string
  | Delegate agent_id string
  | SendMessage agent_id string bool "message_id option" "u32 option"
  | AskUser string
  | RequestApproval approval_id string
  | Wait string
  | PublishArtifact artifact_id string string
  | Complete string

fun is_complete :: "effect \<Rightarrow> bool" where
  "is_complete (Complete outcome) = True"
| "is_complete _ = False"

fun is_model_call :: "effect \<Rightarrow> bool" where
  "is_model_call (ModelCall prompt) = True"
| "is_model_call _ = False"

section \<open>Events (event.rs)\<close>

type_synonym timestamp = int

datatype actor = ActorSystem | ActorAgent | ActorPolicy | ActorTool | ActorGateway

record event_envelope =
  env_event_id :: event_id
  env_event_type :: string
  env_run_id :: run_id
  env_step_id :: "step_id option"
  env_parent_run_id :: "run_id option"
  env_agent_id :: agent_id
  env_agent_version :: string
  env_at :: timestamp
  env_actor :: actor
  env_caused_by :: "event_id option"

datatype event_payload =
    RunCreated
  | RunQueued
  | RunScheduled
  | RunProvisioning
  | RunStarting
  | RunStarted
  | RunWaiting string
  | RunAwaitingApproval approval_id
  | RunPaused
  | RunRecovering
  | RunResumed
  | RunCompleted string
  | RunFailed failure_class string
  | RunCancelled
  | RunExpired
  | UserMessage string
  | StepRetried
  | StepAdvanced
  | EffectDecided effect
  | EffectAuthorized effect
  | EffectDenied effect string
  | PToolResult string invocation_id u32 u32 string
  | ModelResponded model_message "usage option"
  | PMemoryRead memory_scope string "string option"
  | MemoryWritten memory_scope string string
  | ChildStarted run_id agent_id limits
  | DelegateRefused agent_id string
  | MessageSent message_id agent_id bool
  | MessageRefused agent_id string
  | MessageReceived message_id agent_id run_id string "message_id option"
  | AskTimedOut message_id
  | UserAsked message_id string
  | UserAskRefused string
  | UserAnswered message_id string

fun event_type :: "event_payload \<Rightarrow> string" where
  "event_type RunCreated = ''run.created''"
| "event_type RunQueued = ''run.queued''"
| "event_type RunScheduled = ''run.scheduled''"
| "event_type RunProvisioning = ''run.provisioning''"
| "event_type RunStarting = ''run.starting''"
| "event_type RunStarted = ''run.started''"
| "event_type (RunWaiting reason) = ''run.waiting''"
| "event_type (RunAwaitingApproval a) = ''run.awaiting_approval''"
| "event_type RunPaused = ''run.paused''"
| "event_type RunRecovering = ''run.recovering''"
| "event_type RunResumed = ''run.resumed''"
| "event_type (RunCompleted outcome) = ''run.completed''"
| "event_type (RunFailed c m) = ''run.failed''"
| "event_type RunCancelled = ''run.cancelled''"
| "event_type RunExpired = ''run.expired''"
| "event_type (UserMessage text) = ''message.user''"
| "event_type StepRetried = ''step.retried''"
| "event_type StepAdvanced = ''step.advanced''"
| "event_type (EffectDecided e) = ''effect.decided''"
| "event_type (EffectAuthorized e) = ''effect.authorized''"
| "event_type (EffectDenied e r) = ''effect.denied''"
| "event_type (PToolResult n i s a out) = ''tool.result''"
| "event_type (ModelResponded m u) = ''model.responded''"
| "event_type (PMemoryRead s k v) = ''memory.read''"
| "event_type (MemoryWritten s k v) = ''memory.written''"
| "event_type (ChildStarted r a l) = ''child.started''"
| "event_type (DelegateRefused a r) = ''delegate.refused''"
| "event_type (MessageSent m a e) = ''message.sent''"
| "event_type (MessageRefused a r) = ''message.refused''"
| "event_type (MessageReceived m a r b t) = ''message.received''"
| "event_type (AskTimedOut m) = ''message.ask_timed_out''"
| "event_type (UserAsked m p) = ''user.asked''"
| "event_type (UserAskRefused r) = ''user.ask_refused''"
| "event_type (UserAnswered m t) = ''user.answered''"

record event =
  ev_envelope :: event_envelope
  ev_payload :: event_payload

record event_source =
  src_run_id :: run_id
  src_parent_run_id :: "run_id option"
  src_agent_id :: agent_id
  src_agent_version :: string
  src_step_id :: "step_id option"
  src_actor :: actor
  src_caused_by :: "event_id option"
  src_at :: timestamp

definition event_source_new :: "run_id \<Rightarrow> agent_id \<Rightarrow> string \<Rightarrow> actor \<Rightarrow> timestamp \<Rightarrow> event_source" where
  "event_source_new run agent version act at =
     \<lparr>src_run_id = run, src_parent_run_id = None, src_agent_id = agent, src_agent_version = version,
      src_step_id = None, src_actor = act, src_caused_by = None, src_at = at\<rparr>"

definition for_spec :: "run_spec \<Rightarrow> actor \<Rightarrow> timestamp \<Rightarrow> event_source" where
  "for_spec spec act at =
     (event_source_new (rs_run_id spec) (rs_agent_id spec) (rs_agent_version spec) act at)
       \<lparr>src_parent_run_id := lin_parent (rs_lineage spec)\<rparr>"

text \<open>\<open>Event::record\<close>, with the event id that \<open>EventId::new\<close> draws.\<close>

definition record_event :: "event_id \<Rightarrow> event_source \<Rightarrow> event_payload \<Rightarrow> event" where
  "record_event fresh source payload =
     \<lparr>ev_envelope = \<lparr>env_event_id = fresh, env_event_type = event_type payload,
        env_run_id = src_run_id source, env_step_id = src_step_id source,
        env_parent_run_id = src_parent_run_id source, env_agent_id = src_agent_id source,
        env_agent_version = src_agent_version source, env_at = src_at source,
        env_actor = src_actor source, env_caused_by = src_caused_by source\<rparr>,
      ev_payload = payload\<rparr>"

lemma ev_payload_record_event [simp]: "ev_payload (record_event fresh source payload) = payload"
  by (simp add: record_event_def)

section \<open>Terminal payloads\<close>

text \<open>The payloads that end a run's log: the driver's \<open>is_run_end\<close> and the store's \<open>is_terminal\<close>
  are the same match.\<close>

fun is_run_end :: "event_payload \<Rightarrow> bool" where
  "is_run_end (RunCompleted outcome) = True"
| "is_run_end (RunFailed cls message) = True"
| "is_run_end RunCancelled = True"
| "is_run_end RunExpired = True"
| "is_run_end _ = False"

abbreviation is_end_event :: "event \<Rightarrow> bool" where
  "is_end_event ev \<equiv> is_run_end (ev_payload ev)"

text \<open>A log whose terminal event, if it has one, is its last.\<close>

definition terminal_last :: "event list \<Rightarrow> bool" where
  "terminal_last log = list_all (\<lambda>ev. \<not> is_end_event ev) (butlast log)"

lemma terminal_last_append:
  "list_all (\<lambda>ev. \<not> is_end_event ev) xs \<Longrightarrow> terminal_last ys \<Longrightarrow> terminal_last (xs @ ys)"
  by (auto simp: terminal_last_def butlast_append list_all_iff dest: in_set_butlastD)

section \<open>Sample data\<close>

text \<open>A small spec and events, used where a theorem is applied to a concrete run.\<close>

definition sample_spec :: run_spec where
  "sample_spec =
     \<lparr>rs_run_id = RunId 1, rs_owner = \<lparr>ow_issuer = ''iss'', ow_subject = ''sub'', ow_tenant = ''ten''\<rparr>,
      rs_agent_id = AgentId 2, rs_agent_version = ''1'', rs_input = ''go'', rs_placement = Local,
      rs_work_model = \<lparr>wm_provider = OpenAI, wm_model_name = ''m'', wm_credential = PlatformGateway\<rparr>,
      rs_capabilities = [''model.call'', ''memory.read'', ''memory.write'', ''agent.delegate'',
        ''agent.message'', ''user.ask''],
      rs_limits = \<lparr>max_steps = 4, max_model_calls = 3\<rparr>, rs_metadata = Map.empty,
      rs_lineage = lineage_default\<rparr>"

definition sample_event :: "event_payload \<Rightarrow> event" where
  "sample_event payload = record_event (EventId 7) (for_spec sample_spec ActorAgent 0) payload"

lemma ev_payload_sample [simp]: "ev_payload (sample_event payload) = payload"
  by (simp add: sample_event_def)

end
