(* ===== verification/Run_Identity.thy ===== *)
theory Run_Identity
  imports Protocol_Types
begin

text \<open>
  Who a run is and whose memory it reaches: the spec builder with its derived child ids
  (\<open>crates/protocol/src/spec.rs\<close>) and the ids that key memory (\<open>effect.rs\<close>).
  The \<open>uuid\<close> crate is a parameter (\<open>uuid_ops\<close>); the locale \<open>uuid_text\<close> states what its
  documentation promises of the canonical text and the bytes, and is interpreted on the
  hyphenated hexadecimal form. The lemmas show that the name a child id is hashed from and
  the id of a memory owner determine what they were made from.
\<close>

section \<open>The interface of the uuid crate\<close>

locale uuid_text =
  fixes to_text :: "uuid \<Rightarrow> string" and to_bytes :: "uuid \<Rightarrow> string"
  assumes to_text_inj: "to_text u = to_text v \<Longrightarrow> u = v"
    and to_text_length: "length (to_text u) = 36"
    and to_bytes_inj: "to_bytes u = to_bytes v \<Longrightarrow> u = v"
    and to_bytes_length: "length (to_bytes u) = 16"
begin

lemma to_text_eq: "to_text u = to_text v \<longleftrightarrow> u = v"
  using to_text_inj by blast

lemma text_prefix: "to_text u @ xs = to_text v @ ys \<longleftrightarrow> u = v \<and> xs = ys"
  by (auto simp: to_text_length to_text_eq)

lemma bytes_prefix: "to_bytes u @ xs = to_bytes v @ ys \<longleftrightarrow> u = v \<and> xs = ys"
  using to_bytes_inj by (auto simp: to_bytes_length)

end

abbreviation uuid_ops_ok :: "uuid_ops \<Rightarrow> bool" where
  "uuid_ops_ok ops \<equiv> uuid_text (uuid_to_string ops) (uuid_as_bytes ops)"

section \<open>The canonical text and bytes\<close>

definition digits :: "nat \<Rightarrow> nat \<Rightarrow> nat \<Rightarrow> nat list" where
  "digits b n x = map (\<lambda>i. x div b ^ i mod b) (rev [0..<n])"

lemma digits_inject:
  assumes "digits b n x = digits b n y" and "0 < b"
  shows "x mod b ^ n = y mod b ^ n"
  using assms(1)
proof (induction n)
  case (Suc n)
  from Suc.prems have "x div b ^ n mod b = y div b ^ n mod b" and "digits b n x = digits b n y"
    by (simp_all add: digits_def)
  with Suc.IH have "x mod (b ^ n * b) = y mod (b ^ n * b)" by (simp add: mod_mult2_eq)
  then show ?case by (simp add: mult.commute)
qed simp

lemma length_digits [simp]: "length (digits b n x) = n"
  by (simp add: digits_def)

lemma digits_less: "0 < b \<Longrightarrow> d \<in> set (digits b n x) \<Longrightarrow> d < b"
  by (auto simp: digits_def)

definition hex_digit :: "nat \<Rightarrow> char" where
  "hex_digit d = ''0123456789abcdef'' ! d"

lemma hex_digit_inj: "inj_on hex_digit {..<16}"
proof -
  have "distinct ''0123456789abcdef''" by simp
  then show ?thesis
    by (auto simp: inj_on_def hex_digit_def nth_eq_iff_index_eq)
qed

definition hyphenated :: "uuid \<Rightarrow> string" where
  "hyphenated u =
     (let ds = map hex_digit (digits 16 32 (unat u)) in
      take 8 ds @ ''-'' @ take 4 (drop 8 ds) @ ''-'' @ take 4 (drop 12 ds) @ ''-''
        @ take 4 (drop 16 ds) @ ''-'' @ drop 20 ds)"

definition big_endian :: "uuid \<Rightarrow> string" where
  "big_endian u = map (char_of :: nat \<Rightarrow> char) (digits 256 16 (unat u))"

lemma unat_inject_mod:
  assumes "unat u mod b ^ n = unat v mod b ^ n" and "b ^ n = 2 ^ 128"
  shows "u = (v :: uuid)"
proof -
  have "unat w < b ^ n" for w :: uuid
  proof -
    have "unat w < 2 ^ LENGTH(128)" by (rule unsigned_less)
    with assms(2) show ?thesis by simp
  qed
  with assms(1) show ?thesis by (simp add: word_unat_eq_iff)
qed

lemma map_digits_inj:
  assumes "map f (digits b n x) = map f (digits b n y)" and "inj_on f {..<b}" and "0 < b"
  shows "digits b n x = digits b n y"
proof (rule map_inj_on [OF assms(1)])
  have "set (digits b n x) \<union> set (digits b n y) \<subseteq> {..<b}"
    using digits_less [OF assms(3)] by auto
  then show "inj_on f (set (digits b n x) \<union> set (digits b n y))"
    using assms(2) by (rule inj_on_subset [rotated])
qed

lemma four_groups:
  assumes "length xs = 32" and "length ys = 32"
    and "take 8 xs @ c # take 4 (drop 8 xs) @ c # take 4 (drop 12 xs) @ c # take 4 (drop 16 xs) @ c # drop 20 xs
       = take 8 ys @ c # take 4 (drop 8 ys) @ c # take 4 (drop 12 ys) @ c # take 4 (drop 16 ys) @ c # drop 20 ys"
  shows "xs = ys"
proof -
  have pieces: "zs = take 8 zs @ take 4 (drop 8 zs) @ take 4 (drop 12 zs) @ take 4 (drop 16 zs) @ drop 20 zs"
    for zs :: "'a list"
  proof -
    have "drop n zs = take k (drop n zs) @ drop (k + n) zs" for n k
      by (metis append_take_drop_id drop_drop)
    from this [of 0 8] this [of 8 4] this [of 12 4] this [of 16 4] show ?thesis by simp
  qed
  from assms have "take 8 xs = take 8 ys" "take 4 (drop 8 xs) = take 4 (drop 8 ys)"
    "take 4 (drop 12 xs) = take 4 (drop 12 ys)" "take 4 (drop 16 xs) = take 4 (drop 16 ys)"
    "drop 20 xs = drop 20 ys"
    by auto
  then show ?thesis using pieces [of xs] pieces [of ys] by metis
qed

interpretation canonical: uuid_text hyphenated big_endian
proof
  fix u v :: uuid
  show "length (hyphenated u) = 36" by (simp add: hyphenated_def Let_def)
  show "length (big_endian u) = 16" by (simp add: big_endian_def)
  show "u = v" if "big_endian u = big_endian v"
  proof -
    have "inj_on (char_of :: nat \<Rightarrow> char) {..<256}"
      by (rule inj_on_inverseI [of _ "of_char :: char \<Rightarrow> nat"]) simp
    with that have "digits 256 16 (unat u) = digits 256 16 (unat v)"
      by (intro map_digits_inj) (auto simp: big_endian_def)
    then show ?thesis
      by (intro unat_inject_mod [of u 256 16 v] digits_inject) simp_all
  qed
  show "u = v" if "hyphenated u = hyphenated v"
  proof -
    have "map hex_digit (digits 16 32 (unat u)) = map hex_digit (digits 16 32 (unat v))"
      using that unfolding hyphenated_def Let_def append_Cons append_Nil
      by (rule four_groups [rotated 2]) simp_all
    then have "digits 16 32 (unat u) = digits 16 32 (unat v)"
      by (rule map_digits_inj) (simp_all add: hex_digit_inj)
    then show ?thesis
      by (intro unat_inject_mod [of u 16 32 v] digits_inject) simp_all
  qed
qed

section \<open>The spec builder (spec.rs)\<close>

text \<open>A draft has a value or none for each part the typestate tracks; \<open>build\<close> is \<open>None\<close> where
  an \<open>expect\<close> of the source would panic. \<open>RunId::new\<close> is the argument \<open>fresh\<close>.\<close>

record child_of =
  co_parent :: run_id
  co_root :: run_id
  co_hop :: u32
  co_step :: u32

record spec_draft =
  dr_owner :: "owner option"
  dr_agent_id :: "agent_id option"
  dr_agent_version :: "string option"
  dr_input :: "string option"
  dr_placement :: "execution_placement option"
  dr_work_model :: "work_model option"
  dr_capabilities :: "capability list"
  dr_limits :: limits
  dr_metadata :: "string \<rightharpoonup> string"
  dr_child_of :: "child_of option"

definition CHILD_RUN_NAMESPACE :: uuid where
  "CHILD_RUN_NAMESPACE = 0x6f8b1c2e4a7d4e5b9c3f2d1a0b8e7c6d"

definition builder_new :: spec_draft where
  "builder_new =
     \<lparr>dr_owner = None, dr_agent_id = None, dr_agent_version = None, dr_input = None,
      dr_placement = None, dr_work_model = None, dr_capabilities = [],
      dr_limits = \<lparr>max_steps = 8, max_model_calls = 4\<rparr>, dr_metadata = Map.empty, dr_child_of = None\<rparr>"

definition set_owner :: "owner \<Rightarrow> spec_draft \<Rightarrow> spec_draft" where
  "set_owner own draft = draft\<lparr>dr_owner := Some own\<rparr>"

definition set_agent :: "agent_id \<Rightarrow> string \<Rightarrow> spec_draft \<Rightarrow> spec_draft" where
  "set_agent agent version draft = draft\<lparr>dr_agent_id := Some agent, dr_agent_version := Some version\<rparr>"

definition set_input :: "string \<Rightarrow> spec_draft \<Rightarrow> spec_draft" where
  "set_input inp draft = draft\<lparr>dr_input := Some inp\<rparr>"

definition set_placement :: "execution_placement \<Rightarrow> spec_draft \<Rightarrow> spec_draft" where
  "set_placement placement draft = draft\<lparr>dr_placement := Some placement\<rparr>"

definition set_work_model :: "work_model \<Rightarrow> spec_draft \<Rightarrow> spec_draft" where
  "set_work_model model draft = draft\<lparr>dr_work_model := Some model\<rparr>"

definition set_capabilities :: "capability list \<Rightarrow> spec_draft \<Rightarrow> spec_draft" where
  "set_capabilities caps draft = draft\<lparr>dr_capabilities := caps\<rparr>"

definition set_limits :: "limits \<Rightarrow> spec_draft \<Rightarrow> spec_draft" where
  "set_limits lims draft = draft\<lparr>dr_limits := lims\<rparr>"

definition set_metadata :: "(string \<rightharpoonup> string) \<Rightarrow> spec_draft \<Rightarrow> spec_draft" where
  "set_metadata meta draft = draft\<lparr>dr_metadata := meta\<rparr>"

definition set_child_of :: "run_spec \<Rightarrow> u32 \<Rightarrow> spec_draft \<Rightarrow> spec_draft" where
  "set_child_of parent step draft =
     draft\<lparr>dr_child_of := Some \<lparr>co_parent = rs_run_id parent, co_root = spec_root parent,
       co_hop = saturating_add (lin_hop (rs_lineage parent)) 1, co_step = step\<rparr>\<rparr>"

definition to_le_bytes :: "u32 \<Rightarrow> string" where
  "to_le_bytes w = map (char_of :: nat \<Rightarrow> char) (rev (digits 256 4 (unat w)))"

definition child_name :: "uuid_ops \<Rightarrow> child_of \<Rightarrow> agent_id \<Rightarrow> string \<Rightarrow> string" where
  "child_name ops child agent inp =
     uuid_as_bytes ops (run_uuid (co_root child)) @ uuid_as_bytes ops (run_uuid (co_parent child))
     @ to_le_bytes (co_step child) @ uuid_as_bytes ops (agent_uuid agent) @ inp"

definition build_id :: "uuid_ops \<Rightarrow> uuid \<Rightarrow> spec_draft \<Rightarrow> agent_id \<Rightarrow> string \<Rightarrow> run_id \<times> lineage" where
  "build_id ops fresh draft agent inp =
     (case dr_child_of draft of
        None \<Rightarrow> (RunId fresh, lineage_default)
      | Some child \<Rightarrow>
          (RunId (uuid_new_v5 ops CHILD_RUN_NAMESPACE (child_name ops child agent inp)),
           \<lparr>lin_parent = Some (co_parent child), lin_root = Some (co_root child), lin_hop = co_hop child\<rparr>))"

definition build :: "uuid_ops \<Rightarrow> uuid \<Rightarrow> spec_draft \<Rightarrow> run_spec option" where
  "build ops fresh draft =
     (case (dr_agent_id draft, dr_input draft, dr_owner draft, dr_agent_version draft,
            dr_placement draft, dr_work_model draft) of
        (Some agent, Some inp, Some own, Some version, Some placement, Some model) \<Rightarrow>
          (case build_id ops fresh draft agent inp of (run, lin) \<Rightarrow>
             Some \<lparr>rs_run_id = run, rs_owner = own, rs_agent_id = agent, rs_agent_version = version,
               rs_input = inp, rs_placement = placement, rs_work_model = model,
               rs_capabilities = dr_capabilities draft, rs_limits = dr_limits draft,
               rs_metadata = dr_metadata draft, rs_lineage = lin\<rparr>)
      | _ \<Rightarrow> None)"

lemmas builder_defs =
  builder_new_def set_owner_def set_agent_def set_input_def set_placement_def set_work_model_def
  set_capabilities_def set_limits_def set_metadata_def set_child_of_def build_def build_id_def

lemma to_le_bytes_length [simp]: "length (to_le_bytes w) = 4"
  by (simp add: to_le_bytes_def)

lemma char_of_inj_bytes: "inj_on (char_of :: nat \<Rightarrow> char) {..<256}"
  by (rule inj_on_inverseI [of _ "of_char :: char \<Rightarrow> nat"]) simp

lemma to_le_bytes_inject [simp]: "to_le_bytes v = to_le_bytes w \<longleftrightarrow> v = w"
proof
  assume "to_le_bytes v = to_le_bytes w"
  then have "digits 256 4 (unat v) = digits 256 4 (unat w)"
    by (intro map_digits_inj [OF _ char_of_inj_bytes]) (simp_all add: to_le_bytes_def flip: rev_map)
  then have "unat v mod 256 ^ 4 = unat w mod 256 ^ 4" by (rule digits_inject) simp
  moreover have "unat u < 256 ^ 4" for u :: u32
    using unsigned_less [of u] by (simp add: word_less_nat_alt)
  ultimately show "v = w" by (simp add: word_unat_eq_iff)
qed simp

text \<open>The child, the way the driver asks for it: the same five parts as the doc of \<open>child_of\<close>.\<close>

lemma child_name_inject:
  assumes "uuid_ops_ok ops"
  shows "child_name ops c a i = child_name ops c' a' i' \<longleftrightarrow>
    co_root c = co_root c' \<and> co_parent c = co_parent c' \<and> co_step c = co_step c' \<and> a = a' \<and> i = i'"
proof -
  have le: "to_le_bytes v @ xs = to_le_bytes w @ ys \<longleftrightarrow> v = w \<and> xs = ys" for v w xs ys
    by simp
  show ?thesis
    by (simp only: child_name_def le uuid_text.bytes_prefix [OF assms])
      (auto intro: run_id.expand agent_id.expand)
qed

section \<open>Whose memory (effect.rs)\<close>

definition SESSION_ID :: string where
  "SESSION_ID = ''session_id''"

definition WORKSPACE_ID :: string where
  "WORKSPACE_ID = ''workspace_id''"

definition joined :: "string list \<Rightarrow> string" where
  "joined parts = concat (map (\<lambda>part. dec (length part) @ '':'' @ part) parts)"

definition named_in :: "run_spec \<Rightarrow> string \<Rightarrow> string option" where
  "named_in spec key =
     (case rs_metadata spec key of
        None \<Rightarrow> None
      | Some nm \<Rightarrow> if nm = [] then None else Some (joined [nm]))"

definition memory_owner_id :: "uuid_ops \<Rightarrow> run_spec \<Rightarrow> memory_scope \<Rightarrow> u32 \<Rightarrow> string option" where
  "memory_owner_id ops spec scope step =
     (let own = rs_owner spec;
          user = joined [ow_issuer own, ow_subject own];
          organization = joined [ow_issuer own, ow_tenant own];
          run = uuid_to_string ops (run_uuid (rs_run_id spec))
      in case scope of
           ScopeStep \<Rightarrow> Some (run @ ''/'' @ dec (unat step))
         | ScopeRun \<Rightarrow> Some run
         | ScopeAgent \<Rightarrow> Some (user @ joined [uuid_to_string ops (agent_uuid (rs_agent_id spec))])
         | ScopeUser \<Rightarrow> Some user
         | ScopeOrganization \<Rightarrow> Some organization
         | ScopeSession \<Rightarrow>
             map_option (\<lambda>nm. user @ joined [ow_tenant own] @ nm) (named_in spec SESSION_ID)
         | ScopeWorkspace \<Rightarrow> map_option (\<lambda>nm. organization @ nm) (named_in spec WORKSPACE_ID)
         | ScopeGlobal \<Rightarrow> None)"

lemma joined_append: "joined (ps @ qs) = joined ps @ joined qs"
  by (simp add: joined_def)

lemma joined_part: "dec (length p) @ CHR '':'' # p @ xs = dec (length q) @ CHR '':'' # q @ ys \<longleftrightarrow> p = q \<and> xs = ys"
proof
  assume "dec (length p) @ CHR '':'' # p @ xs = dec (length q) @ CHR '':'' # q @ ys"
  then have "dec (length p) = dec (length q) \<and> p @ xs = q @ ys"
    using dec_no_separator by (intro split_at_separator) auto
  then show "p = q \<and> xs = ys" by (auto simp: append_eq_append_conv)
qed simp

lemma joined_inject: "joined ps = joined qs \<longleftrightarrow> ps = qs"
proof (induction ps arbitrary: qs)
  case Nil
  show ?case by (cases qs) (simp_all add: joined_def)
next
  case (Cons p ps)
  have unfold: "joined (r # rs) = dec (length r) @ CHR '':'' # r @ joined rs" for r rs
    by (simp add: joined_def)
  show ?case
    by (cases qs) (simp add: joined_def, simp only: unfold joined_part Cons list.inject)
qed

text \<open>The specification: who owns the memory of a scope, as data.\<close>

datatype memory_owner =
    OwnerStep run_id u32
  | OwnerRun run_id
  | OwnerAgent string string agent_id
  | OwnerUser string string
  | OwnerOrganization string string
  | OwnerSession string string string string
  | OwnerWorkspace string string string

definition memory_owner_of :: "run_spec \<Rightarrow> memory_scope \<Rightarrow> u32 \<Rightarrow> memory_owner option" where
  "memory_owner_of spec scope step =
     (let own = rs_owner spec; iss = ow_issuer own; sub = ow_subject own; ten = ow_tenant own;
          meta = (\<lambda>key. case rs_metadata spec key of Some (c # cs) \<Rightarrow> Some (c # cs) | _ \<Rightarrow> None)
      in case scope of
           ScopeStep \<Rightarrow> Some (OwnerStep (rs_run_id spec) step)
         | ScopeRun \<Rightarrow> Some (OwnerRun (rs_run_id spec))
         | ScopeAgent \<Rightarrow> Some (OwnerAgent iss sub (rs_agent_id spec))
         | ScopeUser \<Rightarrow> Some (OwnerUser iss sub)
         | ScopeOrganization \<Rightarrow> Some (OwnerOrganization iss ten)
         | ScopeSession \<Rightarrow> map_option (OwnerSession iss sub ten) (meta SESSION_ID)
         | ScopeWorkspace \<Rightarrow> map_option (OwnerWorkspace iss ten) (meta WORKSPACE_ID)
         | ScopeGlobal \<Rightarrow> None)"

fun owner_text :: "uuid_ops \<Rightarrow> memory_owner \<Rightarrow> string" where
  "owner_text ops (OwnerStep run step) = uuid_to_string ops (run_uuid run) @ ''/'' @ dec (unat step)"
| "owner_text ops (OwnerRun run) = uuid_to_string ops (run_uuid run)"
| "owner_text ops (OwnerAgent iss sub agent) = joined [iss, sub, uuid_to_string ops (agent_uuid agent)]"
| "owner_text ops (OwnerUser iss sub) = joined [iss, sub]"
| "owner_text ops (OwnerOrganization iss ten) = joined [iss, ten]"
| "owner_text ops (OwnerSession iss sub ten nm) = joined [iss, sub, ten, nm]"
| "owner_text ops (OwnerWorkspace iss ten nm) = joined [iss, ten, nm]"

fun owner_scope :: "memory_owner \<Rightarrow> memory_scope" where
  "owner_scope (OwnerStep run step) = ScopeStep"
| "owner_scope (OwnerRun run) = ScopeRun"
| "owner_scope (OwnerAgent iss sub agent) = ScopeAgent"
| "owner_scope (OwnerUser iss sub) = ScopeUser"
| "owner_scope (OwnerOrganization iss ten) = ScopeOrganization"
| "owner_scope (OwnerSession iss sub ten nm) = ScopeSession"
| "owner_scope (OwnerWorkspace iss ten nm) = ScopeWorkspace"

lemma memory_owner_id_refines:
  "memory_owner_id ops spec scope step = map_option (owner_text ops) (memory_owner_of spec scope step)"
proof -
  have parts: "joined [a, b] @ joined [c] = joined [a, b, c]"
    "joined [a, b] @ joined [c] @ joined [d] = joined [a, b, c, d]" for a b c d
    by (simp_all flip: joined_append)
  show ?thesis
    by (cases scope)
      (simp_all add: memory_owner_id_def memory_owner_of_def Let_def named_in_def parts
        split: option.split list.split)
qed

lemma memory_owner_scope: "memory_owner_of spec scope step = Some own \<Longrightarrow> owner_scope own = scope"
  by (cases scope) (auto simp: memory_owner_of_def Let_def)

lemma owner_text_inject:
  assumes "uuid_ops_ok ops" and "owner_scope a = owner_scope b" and "owner_text ops a = owner_text ops b"
  shows "a = b"
proof -
  note eqs = uuid_text.to_text_eq [OF assms(1)] uuid_text.text_prefix [OF assms(1)] joined_inject
  show ?thesis
    using assms(2,3)
    by (cases a; cases b) (auto simp: eqs word_unat_eq_iff intro: run_id.expand agent_id.expand)
qed

section \<open>Properties\<close>

definition canonical_ops :: uuid_ops where
  "canonical_ops = \<lparr>uuid_to_string = hyphenated, uuid_as_bytes = big_endian, uuid_new_v5 = (\<lambda>ns name. ns)\<rparr>"

lemma canonical_ops_ok: "uuid_ops_ok canonical_ops"
  by (simp add: canonical_ops_def canonical.uuid_text_axioms)

text \<open>The id that keys memory names its owner and nobody else: for one scope, two runs (at any
  steps) have the same memory id if and only if the issuer, subject, tenant, agent, session,
  workspace, run and step that scope depends on are the same. No choice of strings by a tenant
  makes its id collide with another's.\<close>

theorem memory_owner_id_isolates:
  assumes "uuid_ops_ok ops"
  shows "memory_owner_id ops spec1 scope step1 = memory_owner_id ops spec2 scope step2 \<longleftrightarrow>
    memory_owner_of spec1 scope step1 = memory_owner_of spec2 scope step2"
proof -
  have "memory_owner_of spec1 scope step1 = memory_owner_of spec2 scope step2"
    if "memory_owner_of spec1 scope step1 = Some a" "memory_owner_of spec2 scope step2 = Some b"
      "owner_text ops a = owner_text ops b" for a b
    using that owner_text_inject [OF assms, of a b] memory_owner_scope by metis
  then show ?thesis
    by (cases "memory_owner_of spec1 scope step1"; cases "memory_owner_of spec2 scope step2")
      (auto simp: memory_owner_id_refines)
qed

theorem memory_owner_id_isolates_witness:
  "memory_owner_id canonical_ops sample_spec ScopeUser 1
     \<noteq> memory_owner_id canonical_ops
         (sample_spec\<lparr>rs_owner := \<lparr>ow_issuer = ''is'', ow_subject = ''ssub'', ow_tenant = ''ten''\<rparr>\<rparr>) ScopeUser 1"
  using memory_owner_id_isolates [OF canonical_ops_ok, of sample_spec ScopeUser 1
      "sample_spec\<lparr>rs_owner := \<lparr>ow_issuer = ''is'', ow_subject = ''ssub'', ow_tenant = ''ten''\<rparr>\<rparr>" 1]
  by (simp add: memory_owner_of_def sample_spec_def)

text \<open>The name a child's id is derived from is made of its root, parent, step, agent and input
  alone, and determines all five: the same request names the same run, and a change in any of the
  five changes the name that is hashed.\<close>

theorem child_name_determines_request:
  assumes "uuid_ops_ok ops"
    and "dr_child_of (set_child_of p1 s1 d1) = Some c1" and "dr_child_of (set_child_of p2 s2 d2) = Some c2"
  shows "child_name ops c1 a1 i1 = child_name ops c2 a2 i2 \<longleftrightarrow>
    (spec_root p1, rs_run_id p1, s1, a1, i1) = (spec_root p2, rs_run_id p2, s2, a2, i2)"
  using assms by (auto simp: child_name_inject set_child_of_def)

theorem child_name_determines_request_witness:
  "child_name canonical_ops \<lparr>co_parent = RunId 1, co_root = RunId 1, co_hop = 1, co_step = 2\<rparr> (AgentId 3) ''a''
     \<noteq> child_name canonical_ops \<lparr>co_parent = RunId 1, co_root = RunId 1, co_hop = 1, co_step = 3\<rparr> (AgentId 3) ''a''"
  using child_name_determines_request [OF canonical_ops_ok, of sample_spec 2 builder_new _ sample_spec 3
      builder_new, of "\<lparr>co_parent = RunId 1, co_root = RunId 1, co_hop = 1, co_step = 2\<rparr>"
      "\<lparr>co_parent = RunId 1, co_root = RunId 1, co_hop = 1, co_step = 3\<rparr>" "AgentId 3" "''a''" "AgentId 3" "''a''"]
  by (simp add: set_child_of_def sample_spec_def spec_root_def lineage_default_def saturating_add_def)

text \<open>A draft on which the five typestate setters ran, in any order and with the optional setters
  between them, builds: none of the \<open>expect\<close>s panics. The child it builds has its parent's root, its
  parent as parent and one hop more (saturating).\<close>

theorem built_child:
  assumes "dr_owner draft \<noteq> None" and "dr_agent_id draft \<noteq> None" and "dr_agent_version draft \<noteq> None"
    and "dr_input draft \<noteq> None" and "dr_placement draft \<noteq> None" and "dr_work_model draft \<noteq> None"
  shows "\<exists>spec. build ops fresh (set_child_of parent step draft) = Some spec
    \<and> spec_root spec = spec_root parent \<and> lin_parent (rs_lineage spec) = Some (rs_run_id parent)
    \<and> unat (lin_hop (rs_lineage spec)) = min (unat (lin_hop (rs_lineage parent)) + 1) (2 ^ 32 - 1)
    \<and> rs_capabilities spec = dr_capabilities draft \<and> rs_limits spec = dr_limits draft
    \<and> rs_metadata spec = dr_metadata draft \<and> dr_owner draft = Some (rs_owner spec)
    \<and> dr_agent_id draft = Some (rs_agent_id spec) \<and> dr_input draft = Some (rs_input spec)"
  using assms by (auto simp: builder_defs unat_saturating_add spec_root_def)

theorem built_child_witness:
  "\<exists>spec. build canonical_ops 9
     (set_child_of sample_spec 2 (set_work_model (rs_work_model sample_spec) (set_placement Local (set_input ''i''
        (set_agent (AgentId 4) ''1'' (set_owner (rs_owner sample_spec) builder_new)))))) = Some spec
     \<and> lin_parent (rs_lineage spec) = Some (RunId 1)"
  using built_child [of "set_work_model (rs_work_model sample_spec) (set_placement Local (set_input ''i''
        (set_agent (AgentId 4) ''1'' (set_owner (rs_owner sample_spec) builder_new))))" canonical_ops 9 sample_spec 2]
  by (auto simp: set_owner_def set_agent_def set_input_def set_placement_def set_work_model_def sample_spec_def)

end
