(* ===== verification/Harness_Reduce.thy ===== *)
theory Harness_Reduce
  imports Protocol_Types
begin

text \<open>
  The two state machines of a run and the fold of its log
  (\<open>crates/protocol/src/reduce.rs\<close>, \<open>fold.rs\<close>): \<open>reduce_dispatch\<close> and \<open>reduce\<close> take a state
  and an event, \<open>fold_run\<close> (\<open>fold\<close> in the source) runs both over a log and counts the budget.
  The counters are \<open>u32\<close> words: \<open>+ 1\<close> wraps, the given budgets saturate.
  The lemmas show which states every log can reach, what each event may change, and what the
  counters count.
\<close>

section \<open>The reducers (reduce.rs)\<close>

definition reduce_dispatch :: "dispatch_phase \<Rightarrow> event \<Rightarrow> dispatch_phase" where
  "reduce_dispatch state event =
     (if dispatch_is_terminal state then state
      else case (state, ev_payload event) of
        (DCreated, RunQueued) \<Rightarrow> DQueued
      | (DQueued, RunScheduled) \<Rightarrow> DScheduled
      | (DScheduled, RunProvisioning) \<Rightarrow> DProvisioning
      | (DProvisioning, RunStarting) \<Rightarrow> DStarting
      | (DStarting, RunStarted) \<Rightarrow> DRunning
      | (DCreated, RunStarted) \<Rightarrow> DRunning
      | (DRunning, RunWaiting reason) \<Rightarrow> DWaiting reason
      | (DRunning, RunAwaitingApproval approval) \<Rightarrow> DAwaitingApproval approval
      | (DRunning, RunPaused) \<Rightarrow> DPaused
      | (DRunning, RunRecovering) \<Rightarrow> DRecovering
      | (DWaiting r, RunResumed) \<Rightarrow> DRunning
      | (DAwaitingApproval a, RunResumed) \<Rightarrow> DRunning
      | (DPaused, RunResumed) \<Rightarrow> DRunning
      | (DRecovering, RunResumed) \<Rightarrow> DRunning
      | (DRunning, RunCompleted outcome) \<Rightarrow> DCompleted outcome
      | (DWaiting r, RunCompleted outcome) \<Rightarrow> DCompleted outcome
      | (DAwaitingApproval a, RunCompleted outcome) \<Rightarrow> DCompleted outcome
      | (DPaused, RunCompleted outcome) \<Rightarrow> DCompleted outcome
      | (DRecovering, RunCompleted outcome) \<Rightarrow> DCompleted outcome
      | (_, RunFailed cls message) \<Rightarrow> DFailed cls message
      | (_, RunCancelled) \<Rightarrow> DCancelled
      | (_, RunExpired) \<Rightarrow> DExpired
      | _ \<Rightarrow> state)"

definition applicable :: "harness_state \<Rightarrow> effect \<Rightarrow> run_spec \<Rightarrow> bool" where
  "applicable state eff spec =
     (case state of
        HRunning step attempt answered \<Rightarrow>
          (case eff of
             ToolCall name input invocation \<Rightarrow>
               \<not> answered \<and> 1 \<le> step \<and> step \<le> max_steps (rs_limits spec)
           | Complete outcome \<Rightarrow> True
           | ModelCall prompt \<Rightarrow> True
           | MemoryRead scope key \<Rightarrow> True
           | MemoryWrite scope key val \<Rightarrow> True
           | Delegate agent task \<Rightarrow> True
           | SendMessage agent body expects_reply reply_to timeout \<Rightarrow> \<not> (expects_reply \<and> answered)
           | AskUser prompt \<Rightarrow> \<not> answered
           | Execute cmd \<Rightarrow> False
           | RequestApproval approval reason \<Rightarrow> False
           | Wait reason \<Rightarrow> False
           | PublishArtifact artifact name body \<Rightarrow> False)
      | _ \<Rightarrow> False)"

definition answer_ask :: "harness_state \<Rightarrow> message_id \<Rightarrow> harness_state \<times> effect list" where
  "answer_ask state message =
     (case state of
        HWaitingForMessage step attempt waiting \<Rightarrow>
          if waiting = message then (HRunning step attempt True, []) else (state, [])
      | other \<Rightarrow> (other, []))"

definition on_authorized :: "harness_state \<Rightarrow> effect \<Rightarrow> run_spec \<Rightarrow> harness_state \<times> effect list" where
  "on_authorized state eff spec =
     (if \<not> applicable state eff spec then (state, [])
      else case state of
        HRunning step attempt answered \<Rightarrow>
          (case eff of
             ToolCall name input invocation \<Rightarrow> (HWaitingForTool step attempt name invocation, [eff])
           | Complete outcome \<Rightarrow> (HCompleted outcome, [])
           | _ \<Rightarrow> (state, [eff]))
      | _ \<Rightarrow> (state, []))"

definition awaits_message :: "harness_state \<Rightarrow> message_id \<Rightarrow> harness_state \<times> effect list" where
  "awaits_message state message =
     (case state of
        HRunning step attempt False \<Rightarrow> (HWaitingForMessage step attempt message, [])
      | other \<Rightarrow> (other, []))"

definition end_active :: "harness_state \<Rightarrow> harness_state \<Rightarrow> harness_state \<times> effect list" where
  "end_active state ended =
     (case state of
        HRunning step attempt answered \<Rightarrow> (ended, [])
      | HWaitingForTool step attempt name invocation \<Rightarrow> (ended, [])
      | HWaitingForMessage step attempt message \<Rightarrow> (ended, [])
      | other \<Rightarrow> (other, []))"

definition reduce :: "harness_state \<Rightarrow> event \<Rightarrow> run_spec \<Rightarrow> harness_state \<times> effect list" where
  "reduce state event spec =
     (if harness_is_terminal state then (state, [])
      else case ev_payload event of
        RunStarted \<Rightarrow> (case state of HIdle \<Rightarrow> (HRunning 1 0 False, []) | other \<Rightarrow> (other, []))
      | EffectAuthorized eff \<Rightarrow> on_authorized state eff spec
      | PToolResult name invocation step attempt out \<Rightarrow>
          (case state of
             HWaitingForTool waiting_step waiting_attempt waiting_name waiting_invocation \<Rightarrow>
               if step = waiting_step \<and> attempt = waiting_attempt \<and> name = waiting_name
                  \<and> invocation = waiting_invocation
               then (HRunning waiting_step waiting_attempt True, [])
               else (state, [])
           | _ \<Rightarrow> (state, []))
      | MessageSent message to expects_reply \<Rightarrow>
          if expects_reply then awaits_message state message else (state, [])
      | UserAsked message prompt \<Rightarrow> awaits_message state message
      | MessageReceived message from from_run body reply_to \<Rightarrow>
          (case reply_to of None \<Rightarrow> (state, []) | Some m \<Rightarrow> answer_ask state m)
      | AskTimedOut message \<Rightarrow> answer_ask state message
      | UserAnswered message txt \<Rightarrow> answer_ask state message
      | StepRetried \<Rightarrow>
          (case state of
             HRunning step attempt True \<Rightarrow>
               if attempt < MAX_RETRIES then (HRunning step (attempt + 1) False, []) else (state, [])
           | other \<Rightarrow> (other, []))
      | StepAdvanced \<Rightarrow>
          (case state of
             HRunning step attempt True \<Rightarrow>
               if step < max_steps (rs_limits spec) then (HRunning (step + 1) 0 False, [])
               else (state, [])
           | other \<Rightarrow> (other, []))
      | RunCompleted outcome \<Rightarrow>
          (case state of
             HRunning step attempt answered \<Rightarrow> (HCompleted outcome, [])
           | other \<Rightarrow> (other, []))
      | RunFailed cls message \<Rightarrow> end_active state (HFailed cls message)
      | RunCancelled \<Rightarrow> end_active state HCancelled
      | RunExpired \<Rightarrow> end_active state (HFailed FTimeout ''run expired'')
      | _ \<Rightarrow> (state, []))"

section \<open>The fold (fold.rs)\<close>

record run_state =
  st_run_id :: run_id
  harness :: harness_state
  dispatch :: dispatch_phase
  steps :: u32
  model_calls :: u32
  children :: u32
  given_steps :: u32
  given_model_calls :: u32

definition run_state_init :: "run_spec \<Rightarrow> run_state" where
  "run_state_init spec =
     \<lparr>st_run_id = rs_run_id spec, harness = HIdle, dispatch = DCreated, steps = 0, model_calls = 0,
      children = 0, given_steps = 0, given_model_calls = 0\<rparr>"

text \<open>The counting \<open>match\<close> of the loop; \<open>started\<close> is the set of child ids seen so far.\<close>

definition count_event :: "event_payload \<Rightarrow> run_state \<times> run_id set \<Rightarrow> run_state \<times> run_id set" where
  "count_event payload acc =
     (case acc of (st, started) \<Rightarrow>
       (case payload of
          EffectDecided eff \<Rightarrow>
            if is_complete eff \<and> is_running (harness st) then (st, started)
            else (st\<lparr>steps := steps st + 1\<rparr>, started)
        | EffectAuthorized eff \<Rightarrow>
            if is_model_call eff then (st\<lparr>model_calls := model_calls st + 1\<rparr>, started)
            else (st, started)
        | ChildStarted run agent lims \<Rightarrow>
            if run \<in> started then (st, started)
            else (st\<lparr>children := children st + 1,
                     given_steps := saturating_add (given_steps st) (max_steps lims),
                     given_model_calls := saturating_add (given_model_calls st) (max_model_calls lims)\<rparr>,
                  insert run started)
        | _ \<Rightarrow> (st, started)))"

definition fold_step :: "run_spec \<Rightarrow> run_state \<times> run_id set \<Rightarrow> event \<Rightarrow> run_state \<times> run_id set" where
  "fold_step spec acc ev =
     (case count_event (ev_payload ev) acc of (st, started) \<Rightarrow>
        (st\<lparr>dispatch := reduce_dispatch (dispatch st) ev,
            harness := fst (reduce (harness st) ev spec)\<rparr>, started))"

definition fold_acc :: "run_spec \<Rightarrow> event list \<Rightarrow> run_state \<times> run_id set" where
  "fold_acc spec events = foldl (fold_step spec) (run_state_init spec, {}) events"

definition fold_run :: "run_spec \<Rightarrow> event list \<Rightarrow> run_state" where
  "fold_run spec events = fst (fold_acc spec events)"

section \<open>Equations of one more event\<close>

lemma fold_acc_Nil [simp]: "fold_acc spec [] = (run_state_init spec, {})"
  by (simp add: fold_acc_def)

lemma fold_acc_snoc: "fold_acc spec (events @ [ev]) = fold_step spec (fold_acc spec events) ev"
  by (simp add: fold_acc_def)

lemma fold_run_Nil [simp]: "fold_run spec [] = run_state_init spec"
  by (simp add: fold_run_def)

lemma run_state_init_simps [simp]:
  "harness (run_state_init spec) = HIdle" "dispatch (run_state_init spec) = DCreated"
  "steps (run_state_init spec) = 0" "model_calls (run_state_init spec) = 0"
  "children (run_state_init spec) = 0" "given_steps (run_state_init spec) = 0"
  "given_model_calls (run_state_init spec) = 0" "st_run_id (run_state_init spec) = rs_run_id spec"
  by (simp_all add: run_state_init_def)

lemma count_event_keeps [simp]:
  "harness (fst (count_event p acc)) = harness (fst acc)"
  "dispatch (fst (count_event p acc)) = dispatch (fst acc)"
  "st_run_id (fst (count_event p acc)) = st_run_id (fst acc)"
  by (auto simp: count_event_def split: prod.splits event_payload.splits)

lemma harness_snoc [harness_simps]:
  "harness (fold_run spec (events @ [ev])) = fst (reduce (harness (fold_run spec events)) ev spec)"
  by (simp add: fold_run_def fold_acc_snoc fold_step_def split: prod.splits)
    (metis count_event_keeps(1) fst_conv)

lemma dispatch_snoc [harness_simps]:
  "dispatch (fold_run spec (events @ [ev])) = reduce_dispatch (dispatch (fold_run spec events)) ev"
  by (simp add: fold_run_def fold_acc_snoc fold_step_def split: prod.splits)
    (metis count_event_keeps(2) fst_conv)

lemma fold_run_id [simp]: "st_run_id (fold_run spec events) = rs_run_id spec"
proof (induction events rule: rev_induct)
  case (snoc ev events)
  then show ?case
    by (simp add: fold_run_def fold_acc_snoc fold_step_def split: prod.splits)
      (metis count_event_keeps(3) fst_conv)
qed simp

text \<open>The loop as two passes: the harness alone, and the counters given the harness.\<close>

definition counts_as_step :: "harness_state \<Rightarrow> event_payload \<Rightarrow> bool" where
  "counts_as_step h payload =
     (case payload of EffectDecided eff \<Rightarrow> \<not> (is_complete eff \<and> is_running h) | _ \<Rightarrow> False)"

definition counts_as_model_call :: "event_payload \<Rightarrow> bool" where
  "counts_as_model_call payload = (case payload of EffectAuthorized eff \<Rightarrow> is_model_call eff | _ \<Rightarrow> False)"

lemma steps_snoc [harness_simps]:
  "steps (fold_run spec (events @ [ev])) =
     steps (fold_run spec events)
       + (if counts_as_step (harness (fold_run spec events)) (ev_payload ev) then 1 else 0)"
  by (simp add: fold_run_def fold_acc_snoc fold_step_def count_event_def counts_as_step_def
      split: prod.splits event_payload.splits)

lemma model_calls_snoc [harness_simps]:
  "model_calls (fold_run spec (events @ [ev])) =
     model_calls (fold_run spec events) + (if counts_as_model_call (ev_payload ev) then 1 else 0)"
  by (simp add: fold_run_def fold_acc_snoc fold_step_def count_event_def counts_as_model_call_def
      split: prod.splits event_payload.splits)

section \<open>What one event may do\<close>

lemmas reduce_defs =
  reduce_def on_authorized_def answer_ask_def awaits_message_def end_active_def applicable_def

lemmas reduce_splits =
  event_payload.splits harness_state.splits effect.splits bool.splits option.splits if_splits

lemma reduce_terminal [simp]: "harness_is_terminal state \<Longrightarrow> reduce state ev spec = (state, [])"
  by (simp add: reduce_def)

lemma reduce_dispatch_terminal [simp]: "dispatch_is_terminal state \<Longrightarrow> reduce_dispatch state ev = state"
  by (simp add: reduce_dispatch_def)

lemma reduce_not_running: "\<not> is_running state \<Longrightarrow> snd (reduce state ev spec) = []"
  by (cases state) (auto simp: reduce_defs split: event_payload.splits option.splits)

lemma on_authorized_acts:
  "applicable state eff spec \<longleftrightarrow> on_authorized state eff spec \<noteq> (state, [])"
  by (cases state) (auto simp: on_authorized_def applicable_def split: effect.splits)

text \<open>A log's harness, event by event, from any state: what \<open>fold_run\<close> computes for the harness.\<close>

definition run_harness :: "run_spec \<Rightarrow> harness_state \<Rightarrow> event list \<Rightarrow> harness_state" where
  "run_harness spec h events = foldl (\<lambda>h ev. fst (reduce h ev spec)) h events"

lemma run_harness_simps [simp]:
  "run_harness spec h [] = h"
  "run_harness spec h (ev # events) = run_harness spec (fst (reduce h ev spec)) events"
  "run_harness spec h (events @ evs) = run_harness spec (run_harness spec h events) evs"
  by (simp_all add: run_harness_def)

lemma run_harness_terminal [simp]: "harness_is_terminal h \<Longrightarrow> run_harness spec h events = h"
  by (induction events) auto

lemma harness_fold_run: "harness (fold_run spec events) = run_harness spec HIdle events"
  by (induction events rule: rev_induct) (simp_all add: harness_simps)

lemma harness_append [harness_simps]:
  "harness (fold_run spec (events @ evs)) = run_harness spec (harness (fold_run spec events)) evs"
  by (simp add: harness_fold_run)

definition run_dispatch :: "dispatch_phase \<Rightarrow> event list \<Rightarrow> dispatch_phase" where
  "run_dispatch d events = foldl reduce_dispatch d events"

lemma run_dispatch_simps [simp]:
  "run_dispatch d [] = d"
  "run_dispatch d (ev # events) = run_dispatch (reduce_dispatch d ev) events"
  "run_dispatch d (events @ evs) = run_dispatch (run_dispatch d events) evs"
  by (simp_all add: run_dispatch_def)

lemma run_dispatch_terminal [simp]: "dispatch_is_terminal d \<Longrightarrow> run_dispatch d events = d"
  by (induction events) auto

lemma dispatch_fold_run: "dispatch (fold_run spec events) = run_dispatch DCreated events"
  by (induction events rule: rev_induct) (simp_all add: harness_simps)

lemma dispatch_append [harness_simps]:
  "dispatch (fold_run spec (events @ evs)) = run_dispatch (dispatch (fold_run spec events)) evs"
  by (simp add: dispatch_fold_run)

section \<open>The invariant of the harness\<close>

text \<open>The step is at least 1 and never beyond the limit (a limit of 0 still starts step 1, where no
  tool call is applicable), and an attempt never passes the retry cap.\<close>

definition step_ok :: "run_spec \<Rightarrow> u32 \<Rightarrow> u32 \<Rightarrow> bool" where
  "step_ok spec step attempt =
     (1 \<le> step \<and> step \<le> max 1 (max_steps (rs_limits spec)) \<and> attempt \<le> MAX_RETRIES)"

fun harness_wf :: "run_spec \<Rightarrow> harness_state \<Rightarrow> bool" where
  "harness_wf spec (HRunning step attempt answered) = step_ok spec step attempt"
| "harness_wf spec (HWaitingForTool step attempt name invocation) =
     (step_ok spec step attempt \<and> step \<le> max_steps (rs_limits spec))"
| "harness_wf spec (HWaitingForMessage step attempt message) = step_ok spec step attempt"
| "harness_wf spec _ = True"

lemma step_ok_first [simp]: "step_ok spec 1 0"
  by (simp add: step_ok_def)

lemma step_ok_retry: "step_ok spec step attempt \<Longrightarrow> attempt < MAX_RETRIES \<Longrightarrow> step_ok spec step (attempt + 1)"
  by (simp add: step_ok_def word_succ_le)

lemma step_ok_advance:
  "step_ok spec step attempt \<Longrightarrow> step < max_steps (rs_limits spec) \<Longrightarrow> step_ok spec (step + 1) 0"
  by (simp add: step_ok_def word_succ_le le_max_iff_disj)

lemma harness_wf_reduce: "harness_wf spec state \<Longrightarrow> harness_wf spec (fst (reduce state ev spec))"
  by (cases state)
    (auto simp: reduce_defs step_ok_retry step_ok_advance
      split: event_payload.splits effect.splits bool.splits option.splits)

lemma harness_wf_run: "harness_wf spec h \<Longrightarrow> harness_wf spec (run_harness spec h events)"
  by (induction events arbitrary: h) (auto intro: harness_wf_reduce)

section \<open>Waiting\<close>

text \<open>The payloads that answer a wait, and the ones that end it with the run.\<close>

definition answers :: "harness_state \<Rightarrow> event_payload \<Rightarrow> bool" where
  "answers state payload =
     (case state of
        HWaitingForTool s a n i \<Rightarrow> \<exists>out. payload = PToolResult n i s a out
      | HWaitingForMessage s a m \<Rightarrow>
          (\<exists>m' fr run body. payload = MessageReceived m' fr run body (Some m))
          \<or> payload = AskTimedOut m \<or> (\<exists>t. payload = UserAnswered m t)
      | _ \<Rightarrow> False)"

definition ends_wait :: "event_payload \<Rightarrow> bool" where
  "ends_wait payload = (payload = RunCancelled \<or> payload = RunExpired \<or> (\<exists>c m. payload = RunFailed c m))"

fun is_waiting :: "harness_state \<Rightarrow> bool" where
  "is_waiting (HWaitingForTool s a n i) = True"
| "is_waiting (HWaitingForMessage s a m) = True"
| "is_waiting _ = False"

fun at_step :: "harness_state \<Rightarrow> (u32 \<times> u32) option" where
  "at_step (HRunning s a b) = Some (s, a)"
| "at_step (HWaitingForTool s a n i) = Some (s, a)"
| "at_step (HWaitingForMessage s a m) = Some (s, a)"
| "at_step _ = None"

lemma waiting_reduce:
  assumes "is_waiting state"
  shows "fst (reduce state ev spec) =
     (if answers state (ev_payload ev)
      then (case at_step state of Some (s, a) \<Rightarrow> HRunning s a True | None \<Rightarrow> state)
      else case ev_payload ev of
        RunFailed c m \<Rightarrow> HFailed c m
      | RunCancelled \<Rightarrow> HCancelled
      | RunExpired \<Rightarrow> HFailed FTimeout ''run expired''
      | _ \<Rightarrow> state)"
  using assms
  by (cases state) (auto simp: reduce_defs answers_def split: event_payload.splits option.splits)

lemma reduce_changes_step:
  assumes "at_step state = Some (s, a)" and "at_step (fst (reduce state ev spec)) = Some (s', a')"
  shows "(s', a') = (s, a)
    \<or> (ev_payload ev = StepRetried \<and> s' = s \<and> a' = a + 1 \<and> a < MAX_RETRIES)
    \<or> (ev_payload ev = StepAdvanced \<and> s' = s + 1 \<and> a' = 0 \<and> s < max_steps (rs_limits spec))"
  using assms
  by (cases state) (auto simp: reduce_defs split: event_payload.splits effect.splits bool.splits option.splits if_splits)

section \<open>The counters\<close>

definition decided_steps :: "run_spec \<Rightarrow> event list \<Rightarrow> nat set" where
  "decided_steps spec events =
     {i. i < length events
         \<and> counts_as_step (harness (fold_run spec (take i events))) (ev_payload (events ! i))}"

lemma decided_steps_snoc:
  "card (decided_steps spec (events @ [ev])) = card (decided_steps spec events)
     + (if counts_as_step (harness (fold_run spec events)) (ev_payload ev) then 1 else 0)"
proof -
  have "decided_steps spec events =
      {i. i < length events
         \<and> counts_as_step (harness (fold_run spec (take i (events @ [ev]))))
             (ev_payload ((events @ [ev]) ! i))}"
    by (auto simp: decided_steps_def nth_append)
  then show ?thesis
    by (simp add: decided_steps_def card_less_Suc_snoc)
qed

lemma steps_word_count: "steps (fold_run spec events) = of_nat (card (decided_steps spec events))"
  by (induction events rule: rev_induct)
    (simp_all add: decided_steps_snoc harness_simps, simp add: decided_steps_def)

lemma card_decided_steps_le: "card (decided_steps spec events) \<le> length events"
proof -
  have "decided_steps spec events \<subseteq> {..<length events}" by (auto simp: decided_steps_def)
  then show ?thesis using card_mono [of "{..<length events}"] by fastforce
qed

lemma model_calls_word_count:
  "model_calls (fold_run spec events) =
     of_nat (length (filter (\<lambda>ev. counts_as_model_call (ev_payload ev)) events))"
  by (induction events rule: rev_induct) (simp_all add: harness_simps)

section \<open>The children's budgets\<close>

definition child_start :: "event_payload \<Rightarrow> (run_id \<times> limits) list" where
  "child_start payload = (case payload of ChildStarted run agent lims \<Rightarrow> [(run, lims)] | _ \<Rightarrow> [])"

definition child_starts :: "event list \<Rightarrow> (run_id \<times> limits) list" where
  "child_starts events = concat (map (child_start \<circ> ev_payload) events)"

definition started_children :: "event list \<Rightarrow> (run_id \<times> limits) list" where
  "started_children events = AList.clearjunk (child_starts events)"

lemma child_starts_snoc: "child_starts (events @ [ev]) = child_starts events @ child_start (ev_payload ev)"
  by (simp add: child_starts_def)

lemma started_set: "snd (fold_acc spec events) = fst ` set (child_starts events)"
proof (induction events rule: rev_induct)
  case (snoc ev events)
  then show ?case
    by (cases "fold_acc spec events"; cases "ev_payload ev")
      (auto simp: child_starts_snoc child_start_def fold_acc_snoc fold_step_def count_event_def)
qed (simp add: child_starts_def)

lemma started_children_snoc:
  "started_children (events @ [ev]) =
     (case ev_payload ev of
        ChildStarted run agent lims \<Rightarrow>
          if run \<in> fst ` set (child_starts events) then started_children events
          else started_children events @ [(run, lims)]
      | _ \<Rightarrow> started_children events)"
  by (simp add: started_children_def child_starts_snoc child_start_def clearjunk_snoc
      split: event_payload.split)

lemma children_snoc [harness_simps]:
  "children (fold_run spec (events @ [ev])) =
     (case ev_payload ev of
        ChildStarted run agent lims \<Rightarrow>
          if run \<in> fst ` set (child_starts events) then children (fold_run spec events)
          else children (fold_run spec events) + 1
      | _ \<Rightarrow> children (fold_run spec events))"
  using started_set [of spec events]
  by (cases "fold_acc spec events")
    (simp add: fold_run_def fold_acc_snoc fold_step_def count_event_def split: event_payload.split)

lemma given_snoc [harness_simps]:
  "given_steps (fold_run spec (events @ [ev])) =
     (case ev_payload ev of
        ChildStarted run agent lims \<Rightarrow>
          if run \<in> fst ` set (child_starts events) then given_steps (fold_run spec events)
          else saturating_add (given_steps (fold_run spec events)) (max_steps lims)
      | _ \<Rightarrow> given_steps (fold_run spec events))"
  "given_model_calls (fold_run spec (events @ [ev])) =
     (case ev_payload ev of
        ChildStarted run agent lims \<Rightarrow>
          if run \<in> fst ` set (child_starts events) then given_model_calls (fold_run spec events)
          else saturating_add (given_model_calls (fold_run spec events)) (max_model_calls lims)
      | _ \<Rightarrow> given_model_calls (fold_run spec events))"
  using started_set [of spec events]
  by (cases "fold_acc spec events",
      simp add: fold_run_def fold_acc_snoc fold_step_def count_event_def split: event_payload.split)+

lemma children_word_count: "children (fold_run spec events) = of_nat (length (started_children events))"
proof (induction events rule: rev_induct)
  case Nil
  then show ?case by (simp add: started_children_def child_starts_def)
next
  case (snoc ev events)
  then show ?case
    by (simp add: children_snoc started_children_snoc split: event_payload.split)
qed

lemma given_count:
  "unat (given_steps (fold_run spec events)) =
     min (\<Sum>(run, lims) \<leftarrow> started_children events. unat (max_steps lims)) (2 ^ 32 - 1)"
  "unat (given_model_calls (fold_run spec events)) =
     min (\<Sum>(run, lims) \<leftarrow> started_children events. unat (max_model_calls lims)) (2 ^ 32 - 1)"
proof (induction events rule: rev_induct)
  case Nil
  show "unat (given_steps (fold_run spec [])) =
     min (\<Sum>(run, lims) \<leftarrow> started_children []. unat (max_steps lims)) (2 ^ 32 - 1)"
    "unat (given_model_calls (fold_run spec [])) =
     min (\<Sum>(run, lims) \<leftarrow> started_children []. unat (max_model_calls lims)) (2 ^ 32 - 1)"
    by (simp_all add: started_children_def child_starts_def)
next
  case (snoc ev events)
  show "unat (given_steps (fold_run spec (events @ [ev]))) =
     min (\<Sum>(run, lims) \<leftarrow> started_children (events @ [ev]). unat (max_steps lims)) (2 ^ 32 - 1)"
    "unat (given_model_calls (fold_run spec (events @ [ev]))) =
     min (\<Sum>(run, lims) \<leftarrow> started_children (events @ [ev]). unat (max_model_calls lims)) (2 ^ 32 - 1)"
    using snoc
    by (simp_all add: given_snoc started_children_snoc unat_saturating_add min_add_cap
        split: event_payload.split)
qed

lemma length_started_children: "length (started_children events) \<le> length events"
proof -
  have "length (child_start p) \<le> 1" for p
    by (simp add: child_start_def split: event_payload.split)
  then have "length (child_starts events) \<le> length events"
    by (induction events rule: rev_induct) (simp_all add: child_starts_snoc, simp add: child_starts_def, metis add_mono_thms_linordered_semiring(1) One_nat_def Suc_eq_plus1)
  with AList.length_clearjunk [of "child_starts events"] show ?thesis
    by (simp add: started_children_def)
qed

section \<open>The phases together\<close>

fun dispatch_started :: "dispatch_phase \<Rightarrow> bool" where
  "dispatch_started DRunning = True"
| "dispatch_started (DWaiting r) = True"
| "dispatch_started (DAwaitingApproval a) = True"
| "dispatch_started DPaused = True"
| "dispatch_started DRecovering = True"
| "dispatch_started _ = False"

lemma reduce_dispatch_ends:
  "dispatch_is_terminal (reduce_dispatch d ev) \<longleftrightarrow>
     dispatch_is_terminal d \<or> ends_wait (ev_payload ev)
     \<or> (\<exists>out. ev_payload ev = RunCompleted out) \<and> dispatch_started d"
  by (cases d; cases "ev_payload ev") (simp_all add: reduce_dispatch_def ends_wait_def)

lemma dispatch_terminal_split:
  "dispatch_is_terminal (dispatch (fold_run spec events)) \<longleftrightarrow>
      (\<exists>pre ev post. events = pre @ ev # post
         \<and> (ends_wait (ev_payload ev)
            \<or> (\<exists>out. ev_payload ev = RunCompleted out) \<and> dispatch_started (dispatch (fold_run spec pre))))"
proof (induction events rule: rev_induct)
  case (snoc e events)
  have split: "(\<exists>pre ev post. events @ [e] = pre @ ev # post \<and> P pre ev) \<longleftrightarrow>
      P events e \<or> (\<exists>pre ev post. events = pre @ ev # post \<and> P pre ev)" for P
    by (auto simp: snoc_eq_append_Cons)
  show ?case by (simp only: split dispatch_snoc reduce_dispatch_ends snoc) blast
qed simp

lemma failed_dispatch_terminal:
  "(\<exists>cls msg. harness (fold_run spec events) = HFailed cls msg) \<or> harness (fold_run spec events) = HCancelled
     \<Longrightarrow> dispatch_is_terminal (dispatch (fold_run spec events))"
proof (induction events rule: rev_induct)
  case (snoc ev events)
  show ?case
  proof (cases "ends_wait (ev_payload ev)")
    case True
    then show ?thesis by (simp add: dispatch_snoc reduce_dispatch_ends)
  next
    case False
    then have "(\<exists>cls msg. harness (fold_run spec events) = HFailed cls msg) \<or> harness (fold_run spec events) = HCancelled"
      using snoc.prems
      by (auto simp: harness_snoc reduce_defs ends_wait_def split: event_payload.splits harness_state.splits effect.splits bool.splits option.splits if_splits)
    with snoc.IH show ?thesis by (simp add: dispatch_snoc)
  qed
qed simp

section \<open>Properties\<close>

text \<open>Every log, well formed or not, folds to a harness state whose step is at least 1 and at
  most the limit (or 1 when the limit is 0), whose attempt never passes \<open>MAX_RETRIES\<close>, and which
  waits for a tool only within the limit.\<close>

theorem harness_reachable_wf: "harness_wf spec (harness (fold_run spec events))"
  by (simp add: harness_fold_run harness_wf_run)


text \<open>An ended run stays as it ended: once the harness (or the dispatch phase) of a log is
  terminal, every longer log has the same one.\<close>

theorem ended_is_final:
  assumes "harness_is_terminal (harness (fold_run spec events))"
    and "dispatch_is_terminal (dispatch (fold_run spec events))"
  shows "harness (fold_run spec (events @ later)) = harness (fold_run spec events)
    \<and> dispatch (fold_run spec (events @ later)) = dispatch (fold_run spec events)"
  using assms by (simp add: harness_append dispatch_append)

theorem ended_is_final_witness:
  "harness (fold_run sample_spec (map sample_event [RunStarted, RunFailed FTool ''x''] @ [sample_event RunStarted]))
     = HFailed FTool ''x''"
proof -
  have 1: "harness (fold_run sample_spec (map sample_event [RunStarted, RunFailed FTool ''x''])) = HFailed FTool ''x''"
    by (simp add: harness_fold_run reduce_defs)
  have 2: "dispatch (fold_run sample_spec (map sample_event [RunStarted, RunFailed FTool ''x''])) = DFailed FTool ''x''"
    by (simp add: dispatch_fold_run reduce_dispatch_def)
  show ?thesis
    using ended_is_final [of sample_spec "map sample_event [RunStarted, RunFailed FTool ''x'']"
        "[sample_event RunStarted]"] 1 2 by simp
qed

text \<open>A waiting harness leaves its wait in exactly two ways: the answer to that very wait (the
  tool result with the same tool, invocation, step and attempt; the reply, timeout or user answer
  of the awaited message), which marks the step answered, or the end of the run.\<close>

theorem wait_left_only_by_own_answer:
  assumes "is_waiting (harness (fold_run spec events))"
    and "harness (fold_run spec (events @ [ev])) \<noteq> harness (fold_run spec events)"
  shows "(answers (harness (fold_run spec events)) (ev_payload ev)
      \<and> (\<exists>s a. at_step (harness (fold_run spec events)) = Some (s, a)
            \<and> harness (fold_run spec (events @ [ev])) = HRunning s a True))
    \<or> (ends_wait (ev_payload ev) \<and> harness_is_terminal (harness (fold_run spec (events @ [ev]))))"
proof (cases "answers (harness (fold_run spec events)) (ev_payload ev)")
  case True
  with assms(1) show ?thesis
    by (cases "harness (fold_run spec events)") (simp_all add: harness_snoc waiting_reduce)
next
  case False
  with assms show ?thesis
    by (simp add: harness_snoc waiting_reduce ends_wait_def split: event_payload.splits)
qed

theorem wait_left_only_by_own_answer_witness:
  "harness (fold_run sample_spec
     (map sample_event [RunStarted, UserAsked (MessageId 3) ''q''] @ [sample_event (UserAnswered (MessageId 3) ''yes'')]))
   = HRunning 1 0 True"
proof -
  let ?log = "map sample_event [RunStarted, UserAsked (MessageId 3) ''q'']"
  have "harness (fold_run sample_spec ?log) = HWaitingForMessage 1 0 (MessageId 3)"
    by (simp add: harness_fold_run reduce_defs)
  then show ?thesis
    using wait_left_only_by_own_answer [of sample_spec ?log "sample_event (UserAnswered (MessageId 3) ''yes'')"]
    by (simp add: harness_snoc [of _ "?log", simplified] reduce_defs ends_wait_def)
qed

text \<open>What the budget counters of a log count, for a log short enough for a \<open>u32\<close>: the steps are
  the decisions except a completion decided while running, the model calls the authorized model
  calls, the children the distinct child ids, and the given budgets the sum over each child's
  first start, capped at the largest \<open>u32\<close>.\<close>

theorem fold_counts:
  assumes "length events < 2 ^ 32"
  shows "unat (steps (fold_run spec events)) = card (decided_steps spec events)
    \<and> unat (model_calls (fold_run spec events)) =
          length (filter (\<lambda>ev. counts_as_model_call (ev_payload ev)) events)
    \<and> unat (children (fold_run spec events)) = length (started_children events)
    \<and> unat (given_steps (fold_run spec events)) =
          min (\<Sum>(run, lims) \<leftarrow> started_children events. unat (max_steps lims)) (2 ^ 32 - 1)
    \<and> unat (given_model_calls (fold_run spec events)) =
          min (\<Sum>(run, lims) \<leftarrow> started_children events. unat (max_model_calls lims)) (2 ^ 32 - 1)"
proof -
  have small: "n \<le> length events \<Longrightarrow> unat (of_nat n :: u32) = n" for n
    using assms by (simp add: unat_of_nat_small)
  then show ?thesis
    by (simp only: steps_word_count model_calls_word_count children_word_count given_count
        card_decided_steps_le length_started_children length_filter_le simp_thms)
qed

theorem fold_counts_witness:
  "unat (children (fold_run sample_spec
      (map sample_event [RunStarted, ChildStarted (RunId 5) (AgentId 6) \<lparr>max_steps = 2, max_model_calls = 1\<rparr>,
         ChildStarted (RunId 5) (AgentId 6) \<lparr>max_steps = 2, max_model_calls = 1\<rparr>]))) = 1"
  using fold_counts [of "map sample_event [RunStarted,
      ChildStarted (RunId 5) (AgentId 6) \<lparr>max_steps = 2, max_model_calls = 1\<rparr>,
      ChildStarted (RunId 5) (AgentId 6) \<lparr>max_steps = 2, max_model_calls = 1\<rparr>]" sample_spec]
  by (simp add: started_children_def child_starts_def child_start_def)

text \<open>The dispatch phase of a log is terminal exactly when the log has a failure, a cancellation or
  an expiry, or a completion that came after the run had started; and a harness that failed or was
  cancelled has a terminal dispatch phase. (A completion before the start ends neither.)\<close>

theorem dispatch_terminal_iff:
  "(dispatch_is_terminal (dispatch (fold_run spec events)) \<longleftrightarrow>
      (\<exists>pre ev post. events = pre @ ev # post
         \<and> (ends_wait (ev_payload ev)
            \<or> (\<exists>out. ev_payload ev = RunCompleted out) \<and> dispatch_started (dispatch (fold_run spec pre)))))
   \<and> (\<forall>cls msg. harness (fold_run spec events) = HFailed cls msg \<longrightarrow>
        dispatch_is_terminal (dispatch (fold_run spec events)))
   \<and> (harness (fold_run spec events) = HCancelled \<longrightarrow>
        dispatch_is_terminal (dispatch (fold_run spec events)))"
  using failed_dispatch_terminal [of spec events] dispatch_terminal_split [of spec events] by blast

theorem dispatch_terminal_iff_witness:
  "dispatch_is_terminal (dispatch (fold_run sample_spec (map sample_event [RunStarted, RunCancelled])))"
proof -
  have "harness (fold_run sample_spec (map sample_event [RunStarted, RunCancelled])) = HCancelled"
    by (simp add: harness_fold_run reduce_defs)
  then show ?thesis
    using dispatch_terminal_iff [of sample_spec "map sample_event [RunStarted, RunCancelled]"] by blast
qed

end
