(* ===== verification/Authorizer.thy ===== *)
theory Authorizer
  imports Run_Identity Harness_Reduce
begin

text \<open>
  The policy (\<open>crates/protocol/src/authorizer.rs\<close>): the decision on an effect for a spec and the
  tools of the host. The lemmas show what an allowed effect is entitled to: its capability, the
  hop and size bounds of messages and delegations, and an owner for the memory it reaches.
\<close>

definition MODEL_CALL :: string where "MODEL_CALL = ''model.call''"
definition MEMORY_READ :: string where "MEMORY_READ = ''memory.read''"
definition MEMORY_WRITE :: string where "MEMORY_WRITE = ''memory.write''"
definition AGENT_DELEGATE :: string where "AGENT_DELEGATE = ''agent.delegate''"
definition AGENT_MESSAGE :: string where "AGENT_MESSAGE = ''agent.message''"
definition USER_ASK :: string where "USER_ASK = ''user.ask''"

definition allow_capability :: "run_spec \<Rightarrow> string \<Rightarrow> policy_decision" where
  "allow_capability spec name =
     (if list_ex (\<lambda>held. held = name) (rs_capabilities spec) then Allow
      else Deny (''missing capability: '' @ name))"

definition allow_memory :: "uuid_ops \<Rightarrow> run_spec \<Rightarrow> string \<Rightarrow> memory_scope \<Rightarrow> policy_decision" where
  "allow_memory ops spec cap scope =
     (let decision = allow_capability spec cap in
      if decision \<noteq> Allow then decision
      else if scope = ScopeGlobal
        then Deny ''global memory is shared by every tenant and is not offered''
      else if memory_owner_id ops spec scope 0 \<noteq> None then decision
      else let key = (case scope of ScopeWorkspace \<Rightarrow> WORKSPACE_ID | _ \<Rightarrow> SESSION_ID)
           in Deny (''no '' @ key @ '' in the run's metadata''))"

definition check_message :: "run_spec \<Rightarrow> effect \<Rightarrow> policy_decision" where
  "check_message spec eff =
     (case eff of
        SendMessage to body expects_reply reply_to timeout_secs \<Rightarrow>
          (let starts_task = (reply_to = None \<or> expects_reply) in
           if starts_task \<and> MAX_DELEGATION_HOPS \<le> lin_hop (rs_lineage spec)
             then Deny (''messaging is already '' @ dec (unat MAX_DELEGATION_HOPS) @ '' hops deep'')
           else if MAX_MESSAGE_BYTES < length body
             then Deny (''a message body is at most '' @ dec MAX_MESSAGE_BYTES @ '' bytes'')
           else case timeout_secs of
             Some seconds \<Rightarrow>
               if \<not> expects_reply then Deny ''only an ask has a timeout''
               else if \<not> (1 \<le> seconds \<and> seconds \<le> MAX_ASK_TIMEOUT_SECS)
                 then Deny (''an ask waits at most '' @ dec (unat MAX_ASK_TIMEOUT_SECS) @ '' seconds'')
               else Allow
           | None \<Rightarrow> Allow)
      | _ \<Rightarrow> Allow)"

definition authorize :: "uuid_ops \<Rightarrow> run_spec \<Rightarrow> effect \<Rightarrow> tool_descriptor list \<Rightarrow> policy_decision" where
  "authorize ops spec eff tools =
     (case eff of
        Complete outcome \<Rightarrow> Allow
      | ModelCall prompt \<Rightarrow> allow_capability spec MODEL_CALL
      | MemoryRead scope key \<Rightarrow> allow_memory ops spec MEMORY_READ scope
      | MemoryWrite scope key val \<Rightarrow> allow_memory ops spec MEMORY_WRITE scope
      | ToolCall name inp invocation \<Rightarrow>
          (case find (\<lambda>tool. td_name tool = name) tools of
             Some tool \<Rightarrow> allow_capability spec (td_required_capability tool)
           | None \<Rightarrow> Deny (''unknown tool: '' @ name))
      | Delegate agent inp \<Rightarrow>
          (case allow_capability spec AGENT_DELEGATE of
             Allow \<Rightarrow>
               if MAX_DELEGATION_HOPS \<le> lin_hop (rs_lineage spec)
               then Deny (''delegation is already '' @ dec (unat MAX_DELEGATION_HOPS) @ '' hops deep'')
               else Allow
           | decision \<Rightarrow> decision)
      | SendMessage to body expects_reply reply_to timeout_secs \<Rightarrow>
          (case allow_capability spec AGENT_MESSAGE of
             Allow \<Rightarrow> check_message spec eff
           | decision \<Rightarrow> decision)
      | AskUser prompt \<Rightarrow>
          (case allow_capability spec USER_ASK of
             Allow \<Rightarrow>
               if trim_is_empty prompt then Deny ''a question is empty''
               else if MAX_MESSAGE_BYTES < length prompt
                 then Deny (''a question is over '' @ dec MAX_MESSAGE_BYTES @ '' bytes'')
               else Allow
           | decision \<Rightarrow> decision)
      | Execute cmd \<Rightarrow> Deny ''effect is not implemented in this slice''
      | RequestApproval approval reason \<Rightarrow> Deny ''effect is not implemented in this slice''
      | Wait reason \<Rightarrow> Deny ''effect is not implemented in this slice''
      | PublishArtifact artifact name body \<Rightarrow> Deny ''effect is not implemented in this slice'')"

section \<open>What is allowed\<close>

lemma allow_capability_iff: "allow_capability spec name = Allow \<longleftrightarrow> name \<in> set (rs_capabilities spec)"
  by (auto simp: allow_capability_def list_ex_iff)

lemma allow_capability_cases:
  "allow_capability spec name = Allow \<or> allow_capability spec name = Deny (''missing capability: '' @ name)"
  by (simp add: allow_capability_def)

lemma memory_owner_id_step:
  "memory_owner_id ops spec scope s = None \<longleftrightarrow> memory_owner_id ops spec scope s' = None"
  by (cases scope) (simp_all add: memory_owner_id_def Let_def)

lemma allow_memory_iff:
  "allow_memory ops spec cap scope = Allow \<longleftrightarrow>
     cap \<in> set (rs_capabilities spec) \<and> memory_owner_id ops spec scope step \<noteq> None"
  using memory_owner_id_step [of ops spec scope 0 step]
  by (auto simp: allow_memory_def Let_def allow_capability_iff memory_owner_id_def)

text \<open>The capability an effect needs; \<open>None\<close> when it needs none, or names no known tool.\<close>

fun needed_capability :: "tool_descriptor list \<Rightarrow> effect \<Rightarrow> capability option" where
  "needed_capability tools (ModelCall prompt) = Some ''model.call''"
| "needed_capability tools (MemoryRead scope key) = Some ''memory.read''"
| "needed_capability tools (MemoryWrite scope key val) = Some ''memory.write''"
| "needed_capability tools (ToolCall name inp invocation) =
     map_option td_required_capability (find (\<lambda>tool. td_name tool = name) tools)"
| "needed_capability tools (Delegate agent inp) = Some ''agent.delegate''"
| "needed_capability tools (SendMessage to body ask reply timeout) = Some ''agent.message''"
| "needed_capability tools (AskUser prompt) = Some ''user.ask''"
| "needed_capability tools _ = None"

text \<open>Whether an effect starts a task one hop further.\<close>

fun starts_new_task :: "effect \<Rightarrow> bool" where
  "starts_new_task (Delegate agent inp) = True"
| "starts_new_task (SendMessage to body ask reply timeout) = (reply = None \<or> ask)"
| "starts_new_task _ = False"

text \<open>The bounds on what an effect carries.\<close>

fun within_bounds :: "effect \<Rightarrow> bool" where
  "within_bounds (SendMessage to body ask reply timeout) =
     (length body \<le> 32768 \<and> (\<forall>t. timeout = Some t \<longrightarrow> ask \<and> 1 \<le> unat t \<and> unat t \<le> 86400))"
| "within_bounds (AskUser prompt) = (\<not> trim_is_empty prompt \<and> length prompt \<le> 32768)"
| "within_bounds _ = True"

fun memory_scope_of :: "effect \<Rightarrow> memory_scope option" where
  "memory_scope_of (MemoryRead scope key) = Some scope"
| "memory_scope_of (MemoryWrite scope key val) = Some scope"
| "memory_scope_of _ = None"

text \<open>The effects that no spec is allowed.\<close>

fun is_unimplemented :: "effect \<Rightarrow> bool" where
  "is_unimplemented (Execute cmd) = True"
| "is_unimplemented (RequestApproval approval reason) = True"
| "is_unimplemented (Wait reason) = True"
| "is_unimplemented (PublishArtifact artifact name body) = True"
| "is_unimplemented _ = False"

lemmas capability_names =
  MODEL_CALL_def MEMORY_READ_def MEMORY_WRITE_def AGENT_DELEGATE_def AGENT_MESSAGE_def USER_ASK_def

lemma word_bounds:
  fixes t h :: u32
  shows "1 \<le> t \<longleftrightarrow> 1 \<le> unat t" "t \<le> MAX_ASK_TIMEOUT_SECS \<longleftrightarrow> unat t \<le> 86400"
    "MAX_DELEGATION_HOPS \<le> h \<longleftrightarrow> \<not> unat h < 8"
  by (simp_all add: word_le_nat_alt MAX_ASK_TIMEOUT_SECS_def MAX_DELEGATION_HOPS_def not_less)

lemma check_message_iff:
  "check_message spec (SendMessage to body ask reply timeout) = Allow \<longleftrightarrow>
     ((reply = None \<or> ask) \<longrightarrow> unat (lin_hop (rs_lineage spec)) < 8)
     \<and> within_bounds (SendMessage to body ask reply timeout)"
  unfolding check_message_def Let_def effect.case word_bounds
  by (auto simp: MAX_MESSAGE_BYTES_def split: option.splits)

lemma case_allow:
  "(case d of Allow \<Rightarrow> x | Deny r \<Rightarrow> Deny r | RequireApproval \<Rightarrow> RequireApproval | Modify \<Rightarrow> Modify
     | Limit \<Rightarrow> Limit | Redirect \<Rightarrow> Redirect) = Allow \<longleftrightarrow> d = Allow \<and> x = Allow"
  by (cases d) auto

lemma if_allow: "(if c then Deny r else x) = Allow \<longleftrightarrow> \<not> c \<and> x = Allow"
  by simp

lemma authorize_allow_iff:
  "authorize ops spec eff tools = Allow \<longleftrightarrow>
     is_complete eff
     \<or> (\<exists>cap. needed_capability tools eff = Some cap \<and> cap \<in> set (rs_capabilities spec))
       \<and> (starts_new_task eff \<longrightarrow> unat (lin_hop (rs_lineage spec)) < 8)
       \<and> within_bounds eff
       \<and> (\<forall>scope. memory_scope_of eff = Some scope \<longrightarrow> memory_owner_id ops spec scope step \<noteq> None)"
proof (cases eff)
  case (ToolCall name inp invocation)
  then show ?thesis by (auto simp: authorize_def allow_capability_iff split: option.splits)
qed (simp_all only: authorize_def effect.case case_allow if_allow word_bounds check_message_iff,
     auto simp: allow_capability_iff allow_memory_iff [where step = step] capability_names
       MAX_MESSAGE_BYTES_def)

lemma authorize_allow_or_deny: "authorize ops spec eff tools = Allow \<or> (\<exists>r. authorize ops spec eff tools = Deny r)"
  by (cases eff) (auto simp: authorize_def allow_memory_def check_message_def allow_capability_def Let_def
      split: option.splits)

section \<open>Properties\<close>

text \<open>C15. An effect is allowed exactly when it is a completion, or the spec holds the capability the
  effect needs (for a tool call, the one of the first tool of that name), a task it starts is less
  than eight hops deep, its body and timeout are within bounds, and the memory it names has an
  owner at every step (the code checks step 0 only). The effects that are not implemented are
  never allowed.\<close>

theorem authorize_allows_exactly:
  "(authorize ops spec eff tools = Allow \<longleftrightarrow>
     is_complete eff
     \<or> (\<exists>cap. needed_capability tools eff = Some cap \<and> cap \<in> set (rs_capabilities spec))
       \<and> (starts_new_task eff \<longrightarrow> unat (lin_hop (rs_lineage spec)) < 8)
       \<and> within_bounds eff
       \<and> (\<forall>scope. memory_scope_of eff = Some scope \<longrightarrow> memory_owner_id ops spec scope step \<noteq> None))
   \<and> (is_unimplemented eff \<longrightarrow> authorize ops spec eff tools \<noteq> Allow)
   \<and> (authorize ops spec eff tools \<noteq> Allow \<longrightarrow> (\<exists>reason. authorize ops spec eff tools = Deny reason))"
proof -
  have "is_unimplemented eff \<Longrightarrow> authorize ops spec eff tools \<noteq> Allow"
    by (cases eff) (simp_all add: authorize_def)
  then show ?thesis
    using authorize_allow_iff [of ops spec eff tools step] authorize_allow_or_deny [of ops spec eff tools]
    by blast
qed

theorem authorize_allows_exactly_witness:
  "authorize canonical_ops sample_spec (SendMessage (AgentId 3) ''hi'' True None (Some 60)) [] = Allow
   \<and> authorize canonical_ops sample_spec (MemoryRead ScopeSession ''k'') [] \<noteq> Allow"
proof
  have "''agent.message'' \<in> set (rs_capabilities sample_spec)" "unat (lin_hop (rs_lineage sample_spec)) < 8"
    by (simp_all add: sample_spec_def lineage_default_def)
  then show "authorize canonical_ops sample_spec (SendMessage (AgentId 3) ''hi'' True None (Some 60)) [] = Allow"
    using authorize_allows_exactly [of canonical_ops sample_spec
        "SendMessage (AgentId 3) ''hi'' True None (Some 60)" "[]" 1] by simp
  have "memory_owner_id canonical_ops sample_spec ScopeSession 1 = None"
    by (simp add: memory_owner_id_def sample_spec_def named_in_def Let_def)
  then show "authorize canonical_ops sample_spec (MemoryRead ScopeSession ''k'') [] \<noteq> Allow"
    using authorize_allows_exactly [of canonical_ops sample_spec "MemoryRead ScopeSession ''k''" "[]" 1]
    by simp
qed

end
