(* ===== verification/Harness_Memory.thy ===== *)
theory Harness_Memory
  imports Run_Identity
begin

text \<open>
  The memory of the harness (\<open>crates/harness/src/memory.rs\<close>). The trait \<open>Memory\<close> is the locale
  \<open>memory_laws\<close>: what a read returns after a write. \<open>InMemory\<close> interprets it, and
  \<open>RunMemory\<close>, which keeps run and step memory itself and passes the other scopes on, is shown to
  keep the laws of whatever it shares (a \<open>sublocale\<close>). Interior mutability is explicit state.
\<close>

section \<open>The types\<close>

datatype store_error = StoreError (error_message: string)

record memory_key =
  mk_scope :: memory_scope
  mk_owner_id :: string

text \<open>\<open>Mutex<BTreeMap<(MemoryKey, String), String>>\<close>; a writer that panicked holding the lock leaves it
  poisoned.\<close>

record in_memory =
  im_values :: "memory_key \<times> string \<rightharpoonup> string"
  im_poisoned :: bool

definition in_memory_default :: in_memory where
  "in_memory_default = \<lparr>im_values = Map.empty, im_poisoned = False\<rparr>"

definition in_memory_read :: "in_memory \<Rightarrow> memory_key \<Rightarrow> string \<Rightarrow> store_error + string option" where
  "in_memory_read m own key = Inr (im_values m (own, key))"

definition in_memory_write ::
    "in_memory \<Rightarrow> memory_key \<Rightarrow> string \<Rightarrow> string \<Rightarrow> (store_error + unit) \<times> in_memory" where
  "in_memory_write m own key val =
     (if im_poisoned m then (Inl (StoreError ''memory lock poisoned''), m)
      else (Inr (), m\<lparr>im_values := (im_values m)((own, key) \<mapsto> val)\<rparr>))"

record 'm run_memory =
  rm_shared :: 'm
  rm_own :: in_memory

definition run_memory_new :: "'m \<Rightarrow> 'm run_memory" where
  "run_memory_new shared = \<lparr>rm_shared = shared, rm_own = in_memory_default\<rparr>"

definition holder_is_own :: "memory_key \<Rightarrow> bool" where
  "holder_is_own own = (case mk_scope own of ScopeRun \<Rightarrow> True | ScopeStep \<Rightarrow> True | _ \<Rightarrow> False)"

definition run_memory_read ::
    "('m \<Rightarrow> memory_key \<Rightarrow> string \<Rightarrow> store_error + string option)
       \<Rightarrow> 'm run_memory \<Rightarrow> memory_key \<Rightarrow> string \<Rightarrow> store_error + string option" where
  "run_memory_read shared_read m own key =
     (if holder_is_own own then in_memory_read (rm_own m) own key else shared_read (rm_shared m) own key)"

definition run_memory_write ::
    "('m \<Rightarrow> memory_key \<Rightarrow> string \<Rightarrow> string \<Rightarrow> (store_error + unit) \<times> 'm)
       \<Rightarrow> 'm run_memory \<Rightarrow> memory_key \<Rightarrow> string \<Rightarrow> string \<Rightarrow> (store_error + unit) \<times> 'm run_memory" where
  "run_memory_write shared_write m own key val =
     (if holder_is_own own
      then (case in_memory_write (rm_own m) own key val of (r, o') \<Rightarrow> (r, m\<lparr>rm_own := o'\<rparr>))
      else (case shared_write (rm_shared m) own key val of (r, s') \<Rightarrow> (r, m\<lparr>rm_shared := s'\<rparr>)))"

section \<open>The contract of the trait\<close>

locale memory_laws =
  fixes rd :: "'m \<Rightarrow> memory_key \<Rightarrow> string \<Rightarrow> store_error + string option"
    and wr :: "'m \<Rightarrow> memory_key \<Rightarrow> string \<Rightarrow> string \<Rightarrow> (store_error + unit) \<times> 'm"
  assumes read_own_write: "wr m own key val = (Inr (), m') \<Longrightarrow> rd m' own key = Inr (Some val)"
    and read_other: "wr m own key val = (Inr (), m') \<Longrightarrow> (own', key') \<noteq> (own, key) \<Longrightarrow> rd m' own' key' = rd m own' key'"
    and failed_write: "wr m own key val = (Inl e, m') \<Longrightarrow> m' = m"
begin

lemma write_keeps_others:
  assumes "(own', key') \<noteq> (own, key)"
  shows "rd (snd (wr m own key val)) own' key' = rd m own' key'"
proof (cases "wr m own key val")
  case (Pair r m')
  then show ?thesis
    using assms read_other [of m own key val m' own' key'] failed_write [of m own key val _ m']
    by (cases r) auto
qed

text \<open>A series of writes, whatever their results.\<close>

definition writes :: "(memory_key \<times> string \<times> string) list \<Rightarrow> 'm \<Rightarrow> 'm" where
  "writes ws m = foldl (\<lambda>m (own, key, val). snd (wr m own key val)) m ws"

lemma writes_keep_other_owner:
  assumes "own' \<notin> fst ` set ws"
  shows "rd (writes ws m) own' key' = rd m own' key'"
  using assms
proof (induction ws arbitrary: m)
  case (Cons w ws)
  then show ?case by (cases w) (auto simp: writes_def write_keeps_others)
qed (simp add: writes_def)

end

interpretation in_mem: memory_laws in_memory_read in_memory_write
  by unfold_locales (auto simp: in_memory_read_def in_memory_write_def split: if_splits)

locale shared_memory = memory_laws rd wr
  for rd :: "'m \<Rightarrow> memory_key \<Rightarrow> string \<Rightarrow> store_error + string option"
    and wr :: "'m \<Rightarrow> memory_key \<Rightarrow> string \<Rightarrow> string \<Rightarrow> (store_error + unit) \<times> 'm"

sublocale shared_memory \<subseteq> of_run: memory_laws "run_memory_read rd" "run_memory_write wr"
proof
  fix m m' :: "'m run_memory" and own key val
  assume ok: "run_memory_write wr m own key val = (Inr (), m')"
  show "run_memory_read rd m' own key = Inr (Some val)"
    using ok read_own_write in_mem.read_own_write
    by (auto simp: run_memory_read_def run_memory_write_def split: if_splits prod.splits)
  show "run_memory_read rd m' own' key' = run_memory_read rd m own' key'"
    if "(own', key') \<noteq> (own, key)" for own' key'
    using ok that read_other in_mem.read_other
    by (auto simp: run_memory_read_def run_memory_write_def split: if_splits prod.splits)
next
  fix m m' :: "'m run_memory" and own key val e
  assume "run_memory_write wr m own key val = (Inl e, m')"
  then show "m' = m"
    using failed_write in_mem.failed_write
    by (auto simp: run_memory_write_def split: if_splits prod.splits)
qed

interpretation run_mem: shared_memory in_memory_read in_memory_write
  by unfold_locales

section \<open>Properties\<close>

text \<open>The key the driver reads and writes under, for a run of a spec.\<close>

definition spec_memory_key :: "uuid_ops \<Rightarrow> run_spec \<Rightarrow> memory_scope \<Rightarrow> u32 \<Rightarrow> memory_key option" where
  "spec_memory_key ops spec scope step =
     map_option (\<lambda>nm. \<lparr>mk_scope = scope, mk_owner_id = nm\<rparr>) (memory_owner_id ops spec scope step)"

lemma spec_memory_key_inject:
  assumes "uuid_ops_ok ops"
    and "spec_memory_key ops spec1 scope1 step1 = Some k" and "spec_memory_key ops spec2 scope2 step2 = Some k"
  shows "memory_owner_of spec1 scope1 step1 = memory_owner_of spec2 scope2 step2"
proof -
  from assms(2,3) obtain a b where own: "memory_owner_of spec1 scope1 step1 = Some a"
      "memory_owner_of spec2 scope2 step2 = Some b"
    and same: "owner_text ops a = owner_text ops b" "scope1 = scope2"
    by (auto simp: spec_memory_key_def memory_owner_id_refines)
  then show ?thesis using owner_text_inject [OF assms(1), of a b] memory_owner_scope by metis
qed

text \<open>C14. Memory isolation through the map a run uses (its own map for run and step memory, the
  shared map for the rest): whatever a series of writes does, successful or refused, a read under
  one owner's key is unchanged when no write was made for that owner, where owners are compared
  as data and not as the ids that key the map.\<close>

theorem memory_isolation:
  assumes "uuid_ops_ok ops"
    and "spec_memory_key ops spec scope step = Some own"
    and "\<forall>(k, key, val) \<in> set ws. \<exists>spec' scope' step'. spec_memory_key ops spec' scope' step' = Some k
           \<and> memory_owner_of spec' scope' step' \<noteq> memory_owner_of spec scope step"
  shows "run_memory_read in_memory_read
      (foldl (\<lambda>m (k, key, val). snd (run_memory_write in_memory_write m k key val)) m ws) own key
    = run_memory_read in_memory_read m own key"
proof -
  have "own \<notin> fst ` set ws"
    using assms(3) spec_memory_key_inject [OF assms(1,2)] by fastforce
  then show ?thesis
    using run_mem.of_run.writes_keep_other_owner [of own ws m key]
    by (simp add: run_mem.of_run.writes_def)
qed

theorem memory_isolation_witness:
  "run_memory_read in_memory_read
     (foldl (\<lambda>m (k, key, val). snd (run_memory_write in_memory_write m k key val))
        (run_memory_new in_memory_default)
        [(\<lparr>mk_scope = ScopeUser, mk_owner_id = ''2:is4:ssub''\<rparr>, ''k'', ''v'')])
     \<lparr>mk_scope = ScopeUser, mk_owner_id = ''3:iss3:sub''\<rparr> ''k'' = Inr None"
proof -
  let ?other = "sample_spec\<lparr>rs_owner := \<lparr>ow_issuer = ''is'', ow_subject = ''ssub'', ow_tenant = ''ten''\<rparr>\<rparr>"
  have own: "spec_memory_key canonical_ops sample_spec ScopeUser 0 = Some \<lparr>mk_scope = ScopeUser, mk_owner_id = ''3:iss3:sub''\<rparr>"
    by (simp add: spec_memory_key_def memory_owner_id_def Let_def sample_spec_def joined_def dec.simps digit_def)
  have "spec_memory_key canonical_ops ?other ScopeUser 0 = Some \<lparr>mk_scope = ScopeUser, mk_owner_id = ''2:is4:ssub''\<rparr>"
    by (simp add: spec_memory_key_def memory_owner_id_def Let_def sample_spec_def joined_def dec.simps digit_def)
  moreover have "memory_owner_of ?other ScopeUser 0 \<noteq> memory_owner_of sample_spec ScopeUser 0"
    by (simp add: memory_owner_of_def sample_spec_def)
  ultimately have "\<forall>(k, key, val) \<in> set [(\<lparr>mk_scope = ScopeUser, mk_owner_id = ''2:is4:ssub''\<rparr>, ''k'', ''v'')].
      \<exists>spec' scope' step'. spec_memory_key canonical_ops spec' scope' step' = Some k
        \<and> memory_owner_of spec' scope' step' \<noteq> memory_owner_of sample_spec ScopeUser 0"
    by auto
  from memory_isolation [OF canonical_ops_ok own this, of "run_memory_new in_memory_default" "''k''"]
  show ?thesis
    by (simp add: run_memory_read_def holder_is_own_def in_memory_read_def run_memory_new_def in_memory_default_def)
qed

end
