(* ===== verification/Driver.thy ===== *)
theory Driver
  imports Authorizer Harness_Memory
begin

text \<open>
  The driver (\<open>crates/harness/src/driver.rs\<close> with the request types of \<open>spawner.rs\<close>,
  \<open>message.rs\<close>, \<open>decider.rs\<close> and \<open>model.rs\<close>): it owns a run's log, asks the decider, authorizes,
  performs effects and appends what happened. Everything outside the driver (the clock, fresh
  ids, the tools, the model, the memory, the spawner, the deliverer, the decider and the caller's
  boundary check) is a function that takes and returns the outside world \<open>'w\<close>, so an operation of
  the driver is a function from a driver and a world to a driver and a world. The loop of
  \<open>run_until\<close> is a \<open>partial_function\<close>: that it returns is a theorem.
\<close>

section \<open>Requests and views\<close>

record child_request =
  cr_parent :: run_spec
  cr_step :: u32
  cr_agent_id :: agent_id
  cr_input :: string
  cr_limits :: limits

record started_child =
  sc_run_id :: run_id
  sc_limits :: limits

record delegate_target =
  tg_agent_id :: agent_id
  tg_name :: string
  tg_description :: string

record message_request =
  mq_from :: run_spec
  mq_decision :: u32
  mq_to :: agent_id
  mq_body :: string
  mq_expects_reply :: bool
  mq_reply_to :: "message_id option"
  mq_timeout_secs :: "u32 option"
  mq_limits :: "limits option"

record sent_message =
  sm_message_id :: message_id
  sm_task :: "started_child option"

record skill =
  sk_name :: string
  sk_body :: string

record decision_view =
  vw_spec :: run_spec
  vw_state :: run_state
  vw_events :: "event list"
  vw_tools :: "tool_descriptor list"
  vw_skills :: "skill list"
  vw_agents :: "delegate_target list"
  vw_messaging :: bool
  vw_asking :: bool
  vw_steps_exhausted :: bool
  vw_model_calls_exhausted :: bool

datatype decider_error = DeciderError string

datatype boundary = Continue | Cancel | Pause

datatype resume_error = NotStartable dispatch_phase

section \<open>The outside world\<close>

record 'w tool =
  tl_descriptor :: tool_descriptor
  tl_call :: "string \<Rightarrow> 'w \<Rightarrow> (string + string) \<times> 'w"

type_synonym 'w spawner = "child_request \<Rightarrow> 'w \<Rightarrow> (string + started_child) \<times> 'w"
type_synonym 'w deliverer = "message_request \<Rightarrow> 'w \<Rightarrow> (string + sent_message) \<times> 'w"

record 'w io =
  io_uuid :: uuid_ops
  io_now :: "'w \<Rightarrow> timestamp \<times> 'w"
  io_new :: "'w \<Rightarrow> uuid \<times> 'w"
  io_tools :: "'w tool list"
  io_complete :: "model_request \<Rightarrow> 'w \<Rightarrow> (string + model_message \<times> usage option) \<times> 'w"
  io_read :: "memory_key \<Rightarrow> string \<Rightarrow> 'w \<Rightarrow> (store_error + string option) \<times> 'w"
  io_write :: "memory_key \<Rightarrow> string \<Rightarrow> string \<Rightarrow> 'w \<Rightarrow> (store_error + unit) \<times> 'w"
  io_decide :: "decision_view \<Rightarrow> 'w \<Rightarrow> (decider_error + effect) \<times> 'w"

definition descriptors :: "'w io \<Rightarrow> tool_descriptor list" where
  "descriptors io = map tl_descriptor (io_tools io)"

section \<open>The driver\<close>

record 'w driver =
  dv_spec :: run_spec
  dv_events :: "event list"
  dv_skills :: "skill list"
  dv_loaded :: "'w tool list option"
  dv_spawner :: "'w spawner option"
  dv_deliverer :: "'w deliverer option"
  dv_user_questions :: bool
  dv_targets :: "delegate_target list"
  dv_pending :: "effect list"
  dv_undecided :: "(harness_state \<times> effect) option"
  dv_resumed :: bool

type_synonym 'w dstate = "'w driver \<times> 'w"

definition driver_new :: "run_spec \<Rightarrow> event list \<Rightarrow> 'w driver" where
  "driver_new spec events =
     \<lparr>dv_spec = spec, dv_events = events, dv_skills = [], dv_loaded = None, dv_spawner = None,
      dv_deliverer = None, dv_user_questions = False, dv_targets = [], dv_pending = [],
      dv_undecided = None, dv_resumed = False\<rparr>"

definition driver_state :: "'w driver \<Rightarrow> run_state" where
  "driver_state d = fold_run (dv_spec d) (dv_events d)"

definition log_ended :: "'w driver \<Rightarrow> bool" where
  "log_ended d = list_ex is_end_event (dv_events d)"

definition push :: "'w io \<Rightarrow> event_payload \<Rightarrow> actor \<Rightarrow> 'w dstate \<Rightarrow> 'w dstate" where
  "push io payload act s =
     (case s of (d, w) \<Rightarrow>
      case io_now io w of (at, w1) \<Rightarrow>
      case io_new io w1 of (fresh, w2) \<Rightarrow>
        (d\<lparr>dv_events := dv_events d @ [record_event (EventId fresh) (for_spec (dv_spec d) act at) payload]\<rparr>,
         w2))"

definition effects_of_last :: "run_spec \<Rightarrow> event list \<Rightarrow> effect list" where
  "effects_of_last spec events =
     (if events = [] then []
      else snd (reduce (harness (fold_run spec (butlast events))) (last events) spec))"

fun describe :: "harness_state \<Rightarrow> string" where
  "describe HIdle = ''idle''"
| "describe (HRunning step attempt True) = ''running, answered''"
| "describe (HRunning step attempt False) = ''running''"
| "describe (HWaitingForTool step attempt name invocation) = ''waiting for a tool''"
| "describe (HWaitingForMessage step attempt message) = ''waiting for a reply''"
| "describe (HCompleted outcome) = ''finished''"
| "describe (HFailed cls message) = ''finished''"
| "describe HCancelled = ''finished''"

definition boot :: "'w io \<Rightarrow> run_spec \<Rightarrow> 'w \<Rightarrow> 'w dstate" where
  "boot io spec w = push io RunStarted ActorSystem (driver_new spec [], w)"

definition boot_with_catalog ::
    "'w io \<Rightarrow> run_spec \<Rightarrow> 'w tool list \<Rightarrow> skill list \<Rightarrow> 'w \<Rightarrow> 'w dstate" where
  "boot_with_catalog io spec tools skills w =
     (case boot io spec w of (d, w') \<Rightarrow> (d\<lparr>dv_loaded := Some tools, dv_skills := skills\<rparr>, w'))"

definition resume :: "'w io \<Rightarrow> run_spec \<Rightarrow> event list \<Rightarrow> 'w \<Rightarrow> (resume_error + 'w driver) \<times> 'w" where
  "resume io spec events w =
     (let started = list_ex (\<lambda>ev. ev_payload ev = RunStarted) events;
          ended = list_ex is_end_event events;
          driver = driver_new spec events;
          state = driver_state driver
      in if ended then (Inr driver, w)
         else if \<not> started then
           (case dispatch state of
              DCreated \<Rightarrow> (case push io RunStarted ActorSystem (driver, w) of (d, w') \<Rightarrow> (Inr d, w'))
            | DStarting \<Rightarrow> (case push io RunStarted ActorSystem (driver, w) of (d, w') \<Rightarrow> (Inr d, w'))
            | other \<Rightarrow> (Inl (NotStartable other), w))
         else
           (let driver = driver\<lparr>dv_resumed := True\<rparr> in
            case harness state of
              HCompleted outcome \<Rightarrow>
                (case push io (RunCompleted outcome) ActorSystem (driver, w) of (d, w') \<Rightarrow> (Inr d, w'))
            | h \<Rightarrow>
                if \<not> harness_is_terminal h then
                  (case ev_payload (last events) of
                     EffectDecided eff \<Rightarrow>
                       (Inr (driver\<lparr>dv_undecided := Some (harness (fold_run spec (butlast events)), eff)\<rparr>), w)
                   | _ \<Rightarrow> (Inr (driver\<lparr>dv_pending := effects_of_last spec events\<rparr>), w))
                else (Inr driver, w)))"

definition with_deliverer :: "'w deliverer \<Rightarrow> 'w driver \<Rightarrow> 'w driver" where
  "with_deliverer deliverer d = d\<lparr>dv_deliverer := Some deliverer\<rparr>"

definition with_user_questions :: "'w driver \<Rightarrow> 'w driver" where
  "with_user_questions d = d\<lparr>dv_user_questions := True\<rparr>"

definition with_spawner :: "'w spawner \<Rightarrow> delegate_target list \<Rightarrow> 'w driver \<Rightarrow> 'w driver" where
  "with_spawner spawner targets d = d\<lparr>dv_spawner := Some spawner, dv_targets := targets\<rparr>"

definition cancel :: "'w io \<Rightarrow> 'w dstate \<Rightarrow> 'w dstate" where
  "cancel io s = push io RunCancelled ActorSystem s"

definition retry :: "'w io \<Rightarrow> 'w dstate \<Rightarrow> 'w dstate" where
  "retry io s = push io StepRetried ActorSystem s"

definition deliver_tool_result ::
    "'w io \<Rightarrow> string \<Rightarrow> invocation_id \<Rightarrow> string \<Rightarrow> 'w dstate \<Rightarrow> bool \<times> 'w dstate" where
  "deliver_tool_result io name invocation out s =
     (case harness (driver_state (fst s)) of
        HWaitingForTool step attempt expected_name expected_invocation \<Rightarrow>
          if name \<noteq> expected_name \<or> invocation \<noteq> expected_invocation then (False, s)
          else (True, push io (PToolResult name invocation step attempt out) ActorTool s)
      | _ \<Rightarrow> (False, s))"

section \<open>Deciding\<close>

definition authorize_decided :: "'w io \<Rightarrow> harness_state \<Rightarrow> effect \<Rightarrow> 'w dstate \<Rightarrow> effect list \<times> 'w dstate" where
  "authorize_decided io h eff s =
     (let spec = dv_spec (fst s) in
      case authorize (io_uuid io) spec eff (descriptors io) of
        Allow \<Rightarrow>
          if \<not> applicable h eff spec
          then ([], push io (EffectDenied eff (''not applicable while '' @ describe h)) ActorSystem s)
          else
            (let s1 = push io (EffectAuthorized eff) ActorPolicy s;
                 s2 = (case eff of
                         Complete outcome \<Rightarrow>
                           (case harness (driver_state (fst s1)) of
                              HCompleted out \<Rightarrow> push io (RunCompleted outcome) ActorSystem s1
                            | _ \<Rightarrow> s1)
                       | _ \<Rightarrow> s1)
             in (effects_of_last spec (dv_events (fst s2)), s2))
      | Deny reason \<Rightarrow> ([], push io (EffectDenied eff reason) ActorPolicy s)
      | _ \<Rightarrow> ([], push io (EffectDenied eff ''effect is not implemented in this slice'') ActorPolicy s))"

definition steps_spent :: "run_spec \<Rightarrow> run_state \<Rightarrow> bool" where
  "steps_spent spec state =
     (max_steps (rs_limits spec) \<le> saturating_add (steps state) (given_steps state))"

definition model_calls_spent :: "run_spec \<Rightarrow> run_state \<Rightarrow> bool" where
  "model_calls_spent spec state =
     (max_model_calls (rs_limits spec) \<le> saturating_add (model_calls state) (given_model_calls state))"

definition over_budget :: "run_spec \<Rightarrow> run_state \<Rightarrow> effect \<Rightarrow> bool" where
  "over_budget spec state eff =
     (if is_complete eff \<and> is_running (harness state) then False
      else if is_model_call eff then steps_spent spec state \<or> model_calls_spent spec state
      else steps_spent spec state)"

definition view_of :: "'w io \<Rightarrow> 'w driver \<Rightarrow> run_state \<Rightarrow> decision_view" where
  "view_of io d state =
     \<lparr>vw_spec = dv_spec d, vw_state = state, vw_events = dv_events d, vw_tools = descriptors io,
      vw_skills = dv_skills d, vw_agents = dv_targets d, vw_messaging = (dv_deliverer d \<noteq> None),
      vw_asking = dv_user_questions d, vw_steps_exhausted = steps_spent (dv_spec d) state,
      vw_model_calls_exhausted = model_calls_spent (dv_spec d) state\<rparr>"

definition decide :: "'w io \<Rightarrow> 'w dstate \<Rightarrow> (decider_error + effect list) \<times> 'w dstate" where
  "decide io s =
     (case s of (d, w) \<Rightarrow>
       let state = driver_state d in
       if harness_is_terminal (harness state) then (Inr [], s)
       else case io_decide io (view_of io d state) w of
         (Inl e, w1) \<Rightarrow> (Inl e, (d, w1))
       | (Inr eff, w1) \<Rightarrow>
           if over_budget (dv_spec d) state eff
           then (Inr [], push io (RunFailed FBudget ''limit hit'') ActorSystem (d, w1))
           else
             (case authorize_decided io (harness state) eff
                     (push io (EffectDecided eff) ActorAgent (d, w1)) of
                (effs, s2) \<Rightarrow> (Inr effs, s2)))"

section \<open>Performing\<close>

definition driver_memory_key :: "'w io \<Rightarrow> 'w driver \<Rightarrow> memory_scope \<Rightarrow> memory_key option" where
  "driver_memory_key io d scope =
     (let step = (case harness (driver_state d) of
                    HRunning step attempt answered \<Rightarrow> step
                  | HWaitingForTool step attempt name invocation \<Rightarrow> step
                  | _ \<Rightarrow> 0)
      in map_option (\<lambda>nm. \<lparr>mk_scope = scope, mk_owner_id = nm\<rparr>)
           (memory_owner_id (io_uuid io) (dv_spec d) scope step))"

fun scope_debug :: "memory_scope \<Rightarrow> string" where
  "scope_debug ScopeStep = ''Step''"
| "scope_debug ScopeRun = ''Run''"
| "scope_debug ScopeSession = ''Session''"
| "scope_debug ScopeAgent = ''Agent''"
| "scope_debug ScopeWorkspace = ''Workspace''"
| "scope_debug ScopeUser = ''User''"
| "scope_debug ScopeOrganization = ''Organization''"
| "scope_debug ScopeGlobal = ''Global''"

definition fail_unowned :: "'w io \<Rightarrow> memory_scope \<Rightarrow> 'w dstate \<Rightarrow> 'w dstate" where
  "fail_unowned io scope s =
     push io (RunFailed FPolicy (''memory '' @ scope_debug scope @ '': the run names no owner for it''))
       ActorSystem s"

definition fail_memory :: "'w io \<Rightarrow> string \<Rightarrow> 'w dstate \<Rightarrow> 'w dstate" where
  "fail_memory io operation s =
     push io (RunFailed FInfrastructure (''memory '' @ operation @ '': store unavailable'')) ActorSystem s"

definition carve :: "run_spec \<Rightarrow> run_state \<Rightarrow> string + limits" where
  "carve spec state =
     (let lims = rs_limits spec;
          left = (\<lambda>mx used given. saturating_sub mx (saturating_add used given));
          steps_left = left (max_steps lims) (steps state) (given_steps state);
          model_calls_left = left (max_model_calls lims) (model_calls state) (given_model_calls state)
      in if \<not> is_running (harness state) then Inl ''the run is not running''
         else if MAX_CHILDREN \<le> children state
           then Inl (''already started '' @ dec (unat MAX_CHILDREN) @ '' children'')
         else if steps_left < 2 \<or> model_calls_left < 2
           then Inl ''not enough budget left to give a child''
         else Inr \<lparr>max_steps = steps_left div 2, max_model_calls = model_calls_left div 2\<rparr>)"

definition spawn_child ::
    "'w driver \<Rightarrow> u32 \<Rightarrow> agent_id \<Rightarrow> string \<Rightarrow> limits \<Rightarrow> 'w \<Rightarrow> (string + started_child) \<times> 'w" where
  "spawn_child d step agent inp given w =
     (case dv_spawner d of
        None \<Rightarrow> (Inl ''no agent spawner is configured'', w)
      | Some spawner \<Rightarrow>
          spawner \<lparr>cr_parent = dv_spec d, cr_step = step, cr_agent_id = agent, cr_input = inp,
                   cr_limits = given\<rparr> w)"

definition delegate :: "'w io \<Rightarrow> agent_id \<Rightarrow> string \<Rightarrow> 'w dstate \<Rightarrow> 'w dstate" where
  "delegate io agent inp s =
     (case s of (d, w) \<Rightarrow>
       let state = driver_state d;
           step = (case harness state of HRunning step attempt answered \<Rightarrow> step | _ \<Rightarrow> 0);
           (started, w1) = (case carve (dv_spec d) state of
                              Inl reason \<Rightarrow> (Inl reason, w)
                            | Inr given \<Rightarrow> spawn_child d step agent inp given w);
           payload = (case started of
                        Inr child \<Rightarrow> ChildStarted (sc_run_id child) agent (sc_limits child)
                      | Inl reason \<Rightarrow> DelegateRefused agent reason)
       in push io payload ActorSystem (d, w1))"

definition ask_user :: "'w io \<Rightarrow> string \<Rightarrow> 'w dstate \<Rightarrow> 'w dstate" where
  "ask_user io prompt s =
     (case s of (d, w) \<Rightarrow>
       if dv_user_questions d
       then (case io_new io w of (fresh, w1) \<Rightarrow>
               push io (UserAsked (MessageId fresh) prompt) ActorSystem (d, w1))
       else push io (UserAskRefused ''the run cannot wait for an answer'') ActorSystem s)"

definition message_limits :: "'w driver \<Rightarrow> run_state \<Rightarrow> bool \<Rightarrow> string + limits option" where
  "message_limits d state starts_task =
     (if \<not> is_running (harness state) then Inl ''the run is not running''
      else if dv_deliverer d = None then Inl ''no message deliverer is configured''
      else if starts_task then (case carve (dv_spec d) state of Inl e \<Rightarrow> Inl e | Inr l \<Rightarrow> Inr (Some l))
      else Inr None)"

definition hand_over ::
    "'w driver \<Rightarrow> message_request \<Rightarrow> 'w \<Rightarrow> (string + sent_message) \<times> 'w" where
  "hand_over d request w =
     (case dv_deliverer d of
        None \<Rightarrow> (Inl ''no message deliverer is configured'', w)
      | Some deliverer \<Rightarrow> deliverer request w)"

definition send_message ::
    "'w io \<Rightarrow> agent_id \<Rightarrow> string \<Rightarrow> bool \<Rightarrow> message_id option \<Rightarrow> u32 option \<Rightarrow> 'w dstate \<Rightarrow> 'w dstate" where
  "send_message io to body expects_reply reply_to timeout_secs s =
     (case s of (d, w) \<Rightarrow>
       let state = driver_state d;
           starts_task = (reply_to = None \<or> expects_reply);
           (sent, w1) =
             (case message_limits d state starts_task of
                Inl reason \<Rightarrow> (Inl reason, w)
              | Inr lims \<Rightarrow>
                  hand_over d \<lparr>mq_from = dv_spec d, mq_decision = steps state, mq_to = to, mq_body = body,
                    mq_expects_reply = expects_reply, mq_reply_to = reply_to,
                    mq_timeout_secs = timeout_secs, mq_limits = lims\<rparr> w)
       in case sent of
            Inr msg \<Rightarrow>
              (let s1 = (case sm_task msg of
                           Some task \<Rightarrow> push io (ChildStarted (sc_run_id task) to (sc_limits task)) ActorSystem (d, w1)
                         | None \<Rightarrow> (d, w1))
               in push io (MessageSent (sm_message_id msg) to expects_reply) ActorSystem s1)
          | Inl reason \<Rightarrow> push io (MessageRefused to reason) ActorSystem (d, w1))"

text \<open>One round of the loop of \<open>perform\<close>, per kind of effect. The flag is False where the source
  returns from \<open>perform\<close>.\<close>

definition perform_tool :: "'w io \<Rightarrow> string \<Rightarrow> string \<Rightarrow> invocation_id \<Rightarrow> 'w dstate \<Rightarrow> bool \<times> 'w dstate" where
  "perform_tool io name inp invocation s =
     (case s of (d, w) \<Rightarrow>
       case harness (driver_state d) of
         HWaitingForTool step attempt waiting_name waiting_invocation \<Rightarrow>
           if waiting_name \<noteq> name \<or> waiting_invocation \<noteq> invocation then (True, s)
           else
             (case find (\<lambda>tool. td_name (tl_descriptor tool) = name) (io_tools io) of
                None \<Rightarrow> (False, push io (RunFailed FTool (''unknown tool: '' @ name)) ActorSystem s)
              | Some tool \<Rightarrow>
                  (case tl_call tool inp w of
                     (Inr out, w1) \<Rightarrow> (True, snd (deliver_tool_result io name invocation out (d, w1)))
                   | (Inl message, w1) \<Rightarrow> (False, push io (RunFailed FTool message) ActorSystem (d, w1))))
       | _ \<Rightarrow> (True, s))"

definition perform_model :: "'w io \<Rightarrow> string \<Rightarrow> 'w dstate \<Rightarrow> bool \<times> 'w dstate" where
  "perform_model io prompt s =
     (case s of (d, w) \<Rightarrow>
       let model = rs_work_model (dv_spec d);
           request = \<lparr>mr_provider = wm_provider model, mr_model_name = wm_model_name model, mr_prompt = prompt\<rparr>
       in case io_complete io request w of
            (Inr (message, usg), w1) \<Rightarrow> (True, push io (ModelResponded message usg) ActorGateway (d, w1))
          | (Inl message, w1) \<Rightarrow> (True, push io (RunFailed FDependency message) ActorGateway (d, w1)))"

definition perform_read :: "'w io \<Rightarrow> memory_scope \<Rightarrow> string \<Rightarrow> 'w dstate \<Rightarrow> bool \<times> 'w dstate" where
  "perform_read io scope key s =
     (case s of (d, w) \<Rightarrow>
       case driver_memory_key io d scope of
         None \<Rightarrow> (False, fail_unowned io scope s)
       | Some own \<Rightarrow>
           (case io_read io own key w of
              (Inr val, w1) \<Rightarrow> (True, push io (PMemoryRead scope key val) ActorSystem (d, w1))
            | (Inl e, w1) \<Rightarrow> (False, fail_memory io ''read'' (d, w1))))"

definition perform_write :: "'w io \<Rightarrow> memory_scope \<Rightarrow> string \<Rightarrow> string \<Rightarrow> 'w dstate \<Rightarrow> bool \<times> 'w dstate" where
  "perform_write io scope key val s =
     (case s of (d, w) \<Rightarrow>
       case driver_memory_key io d scope of
         None \<Rightarrow> (False, fail_unowned io scope s)
       | Some own \<Rightarrow>
           (case io_write io own key val w of
              (Inr u, w1) \<Rightarrow> (True, push io (MemoryWritten scope key val) ActorSystem (d, w1))
            | (Inl e, w1) \<Rightarrow> (False, fail_memory io ''write'' (d, w1))))"

definition perform_one :: "'w io \<Rightarrow> effect \<Rightarrow> 'w dstate \<Rightarrow> bool \<times> 'w dstate" where
  "perform_one io eff s =
     (case eff of
        ToolCall name inp invocation \<Rightarrow> perform_tool io name inp invocation s
      | ModelCall prompt \<Rightarrow> perform_model io prompt s
      | MemoryRead scope key \<Rightarrow> perform_read io scope key s
      | MemoryWrite scope key val \<Rightarrow> perform_write io scope key val s
      | Delegate agent inp \<Rightarrow> (True, delegate io agent inp s)
      | SendMessage to body expects_reply reply_to timeout_secs \<Rightarrow>
          (True, send_message io to body expects_reply reply_to timeout_secs s)
      | AskUser prompt \<Rightarrow> (True, ask_user io prompt s)
      | _ \<Rightarrow> (True, s))"

fun perform :: "'w io \<Rightarrow> effect list \<Rightarrow> 'w dstate \<Rightarrow> 'w dstate" where
  "perform io [] s = s"
| "perform io (eff # effs) s =
     (case perform_one io eff s of (go_on, s1) \<Rightarrow> if go_on then perform io effs s1 else s1)"

definition advance_answered_step :: "'w io \<Rightarrow> 'w dstate \<Rightarrow> 'w dstate" where
  "advance_answered_step io s =
     (case harness (driver_state (fst s)) of
        HRunning step attempt True \<Rightarrow>
          if max_steps (rs_limits (dv_spec (fst s))) \<le> step then s
          else push io StepAdvanced ActorSystem s
      | _ \<Rightarrow> s)"

section \<open>The loop\<close>

text \<open>One round of the loop of \<open>run_until\<close>: \<open>Inl\<close> with the result where the source returns,
  \<open>Inr\<close> where it goes round again.\<close>

definition run_round ::
    "'w io \<Rightarrow> ('w driver \<Rightarrow> 'w \<Rightarrow> boundary \<times> 'w) \<Rightarrow> 'w dstate \<Rightarrow> ((decider_error + unit) + unit) \<times> 'w dstate" where
  "run_round io at_boundary s =
     (if harness_is_terminal (harness (driver_state (fst s))) \<or> log_ended (fst s) then (Inl (Inr ()), s)
      else case at_boundary (fst s) (snd s) of
        (Cancel, w1) \<Rightarrow> (Inl (Inr ()), cancel io (fst s, w1))
      | (Pause, w1) \<Rightarrow> (Inl (Inr ()), (fst s, w1))
      | (Continue, w1) \<Rightarrow>
          (case harness (driver_state (fst s)) of
             HWaitingForMessage step attempt message \<Rightarrow> (Inl (Inr ()), (fst s, w1))
           | _ \<Rightarrow>
               (case decide io (fst s, w1) of
                  (Inl e, s1) \<Rightarrow> (Inl (Inl e), s1)
                | (Inr effs, s1) \<Rightarrow>
                    if effs = [] then
                      (if harness_is_terminal (harness (driver_state (fst s1))) then (Inl (Inr ()), s1)
                       else (Inr (), s1))
                    else (Inr (), advance_answered_step io (perform io effs s1)))))"

partial_function (option) run_loop ::
    "'w io \<Rightarrow> ('w driver \<Rightarrow> 'w \<Rightarrow> boundary \<times> 'w) \<Rightarrow> 'w dstate \<Rightarrow> ((decider_error + unit) \<times> 'w dstate) option" where
  "run_loop io at_boundary s =
     (case run_round io at_boundary s of
        (Inl r, s1) \<Rightarrow> Some (r, s1)
      | (Inr u, s1) \<Rightarrow> run_loop io at_boundary s1)"

text \<open>What \<open>run_until\<close> does before its loop: it authorizes a decision the log was cut after, and
  finishes the step the log was cut in.\<close>

definition run_start :: "'w io \<Rightarrow> 'w dstate \<Rightarrow> 'w dstate" where
  "run_start io s =
     (let (d, w) = s;
          pending = dv_pending d;
          (pending1, s1) =
            (case dv_undecided d of
               Some (h, eff) \<Rightarrow>
                 authorize_decided io h eff (d\<lparr>dv_pending := [], dv_undecided := None\<rparr>, w)
             | None \<Rightarrow> (pending, (d\<lparr>dv_pending := []\<rparr>, w)))
      in if dv_resumed (fst s1)
         then advance_answered_step io (perform io pending1 ((fst s1)\<lparr>dv_resumed := False\<rparr>, snd s1))
         else s1)"

definition run_until ::
    "'w io \<Rightarrow> ('w driver \<Rightarrow> 'w \<Rightarrow> boundary \<times> 'w) \<Rightarrow> 'w dstate \<Rightarrow> ((decider_error + unit) \<times> 'w dstate) option" where
  "run_until io at_boundary s = run_loop io at_boundary (run_start io s)"

definition run_to_completion :: "'w io \<Rightarrow> 'w dstate \<Rightarrow> ((decider_error + unit) \<times> 'w dstate) option" where
  "run_to_completion io s = run_until io (\<lambda>d w. (Continue, w)) s"

text \<open>\<open>run_loaded\<close> runs with the driver's own tools.\<close>

definition run_loaded :: "'w io \<Rightarrow> 'w dstate \<Rightarrow> ((decider_error + unit) \<times> 'w dstate) option" where
  "run_loaded io s =
     (case s of (d, w) \<Rightarrow>
       let tools = (case dv_loaded d of Some ts \<Rightarrow> ts | None \<Rightarrow> []) in
       map_option (\<lambda>(r, (d', w')). (r, (d'\<lparr>dv_loaded := Some tools\<rparr>, w')))
         (run_to_completion (io\<lparr>io_tools := tools\<rparr>) (d\<lparr>dv_loaded := None\<rparr>, w)))"

end
