(* ===== verification/Driver_Log.thy ===== *)
theory Driver_Log
  imports Driver
begin

text \<open>
  What a driver may write. \<open>may_append\<close> is an abstract machine over logs, one rule per kind of
  event, with the guards a correct driver has to respect; \<open>writes_log\<close> says that an operation
  changed the log of a driver, and only that, by steps of the machine. The lemmas show it of every
  operation of the driver, of one round of its loop, and that the rounds come to an end.
\<close>

section \<open>What may be appended to a log\<close>

text \<open>The abstract machine of a run: which payload may follow a log. The driver is shown below to
  append nothing else, so a property of the machine holds for every log a driver writes.\<close>

definition log_open :: "event list \<Rightarrow> bool" where
  "log_open log = (\<not> list_ex is_end_event log)"

definition log_live :: "run_spec \<Rightarrow> event list \<Rightarrow> bool" where
  "log_live spec log = (log_open log \<and> \<not> harness_is_terminal (harness (fold_run spec log)))"

definition last_payload :: "event list \<Rightarrow> event_payload option" where
  "last_payload log = (if log = [] then None else Some (ev_payload (last log)))"

text \<open>The payloads that record how an authorized effect came out.\<close>

definition outcome :: "harness_state \<Rightarrow> effect \<Rightarrow> event_payload \<Rightarrow> bool" where
  "outcome h eff p =
     (case eff of
        ToolCall name inp invocation \<Rightarrow>
          \<exists>step attempt out. h = HWaitingForTool step attempt name invocation
            \<and> p = PToolResult name invocation step attempt out
      | ModelCall prompt \<Rightarrow> \<exists>message usg. p = ModelResponded message usg
      | MemoryRead scope key \<Rightarrow> \<exists>val. p = PMemoryRead scope key val
      | MemoryWrite scope key val \<Rightarrow> p = MemoryWritten scope key val
      | Delegate agent inp \<Rightarrow> \<exists>reason. p = DelegateRefused agent reason
      | SendMessage to body ask reply timeout \<Rightarrow>
          (\<exists>reason. p = MessageRefused to reason) \<or> is_running h \<and> (\<exists>m. p = MessageSent m to ask)
      | AskUser prompt \<Rightarrow> (\<exists>m. p = UserAsked m prompt) \<or> (\<exists>reason. p = UserAskRefused reason)
      | _ \<Rightarrow> False)"

text \<open>The budget a child may be asked for: what is carved, or nothing for a plain reply.\<close>

fun child_request_for :: "run_spec \<Rightarrow> run_state \<Rightarrow> effect \<Rightarrow> agent_id \<Rightarrow> limits option \<Rightarrow> bool" where
  "child_request_for spec state (Delegate a inp) agent given =
     (agent = a \<and> (\<exists>g. given = Some g \<and> carve spec state = Inr g))"
| "child_request_for spec state (SendMessage to body ask reply timeout) agent given =
     (agent = to \<and> is_running (harness state)
      \<and> (if reply = None \<or> ask then \<exists>g. given = Some g \<and> carve spec state = Inr g else given = None))"
| "child_request_for spec state _ agent given = False"

inductive may_append ::
    "uuid_ops \<Rightarrow> tool_descriptor list \<Rightarrow> (limits option \<Rightarrow> limits \<Rightarrow> bool) \<Rightarrow> run_spec
       \<Rightarrow> event list \<Rightarrow> event_payload \<Rightarrow> bool"
  for ops :: uuid_ops and tools :: "tool_descriptor list" and lims_ok :: "limits option \<Rightarrow> limits \<Rightarrow> bool"
    and spec :: run_spec where
  Decide: "log_live spec log \<Longrightarrow> \<not> over_budget spec (fold_run spec log) eff
    \<Longrightarrow> may_append ops tools lims_ok spec log (EffectDecided eff)"
| Denied: "log_live spec log \<Longrightarrow> last_payload log = Some (EffectDecided eff)
    \<Longrightarrow> may_append ops tools lims_ok spec log (EffectDenied eff reason)"
| Authorize: "log_live spec log \<Longrightarrow> last_payload log = Some (EffectDecided eff)
    \<Longrightarrow> authorize ops spec eff tools = Allow \<Longrightarrow> applicable (harness (fold_run spec log)) eff spec
    \<Longrightarrow> may_append ops tools lims_ok spec log (EffectAuthorized eff)"
| Completed: "log_open log \<Longrightarrow> harness (fold_run spec log) = HCompleted out
    \<Longrightarrow> may_append ops tools lims_ok spec log (RunCompleted out)"
| Failed: "log_live spec log \<Longrightarrow> may_append ops tools lims_ok spec log (RunFailed cls message)"
| Cancelled: "log_live spec log \<Longrightarrow> may_append ops tools lims_ok spec log RunCancelled"
| Advance: "log_live spec log \<Longrightarrow> harness (fold_run spec log) = HRunning step attempt True
    \<Longrightarrow> step < max_steps (rs_limits spec) \<Longrightarrow> may_append ops tools lims_ok spec log StepAdvanced"
| Outcome: "log_live spec log \<Longrightarrow> last_payload log = Some (EffectAuthorized eff)
    \<Longrightarrow> outcome (harness (fold_run spec log)) eff p \<Longrightarrow> may_append ops tools lims_ok spec log p"
| Child: "log_live spec log \<Longrightarrow> last_payload log = Some (EffectAuthorized eff)
    \<Longrightarrow> child_request_for spec (fold_run spec log) eff agent given \<Longrightarrow> lims_ok given lims
    \<Longrightarrow> may_append ops tools lims_ok spec log (ChildStarted run agent lims)"
| Sent: "log_live spec (log @ [task]) \<Longrightarrow> last_payload log = Some (EffectAuthorized (SendMessage to body ask reply timeout))
    \<Longrightarrow> is_running (harness (fold_run spec log)) \<Longrightarrow> ev_payload task = ChildStarted run to lims
    \<Longrightarrow> may_append ops tools lims_ok spec (log @ [task]) (MessageSent m to ask)"

definition recorded_for :: "run_spec \<Rightarrow> event \<Rightarrow> bool" where
  "recorded_for spec ev =
     (env_run_id (ev_envelope ev) = rs_run_id spec \<and> env_agent_id (ev_envelope ev) = rs_agent_id spec
      \<and> env_agent_version (ev_envelope ev) = rs_agent_version spec
      \<and> env_parent_run_id (ev_envelope ev) = lin_parent (rs_lineage spec)
      \<and> env_event_type (ev_envelope ev) = event_type (ev_payload ev))"

definition log_step ::
    "uuid_ops \<Rightarrow> tool_descriptor list \<Rightarrow> (limits option \<Rightarrow> limits \<Rightarrow> bool) \<Rightarrow> run_spec
       \<Rightarrow> event list \<Rightarrow> event list \<Rightarrow> bool" where
  "log_step ops tools lims_ok spec log log' =
     (\<exists>ev. log' = log @ [ev] \<and> may_append ops tools lims_ok spec log (ev_payload ev) \<and> recorded_for spec ev)"

abbreviation log_steps ::
    "uuid_ops \<Rightarrow> tool_descriptor list \<Rightarrow> (limits option \<Rightarrow> limits \<Rightarrow> bool) \<Rightarrow> run_spec
       \<Rightarrow> event list \<Rightarrow> event list \<Rightarrow> bool" where
  "log_steps ops tools lims_ok spec \<equiv> (log_step ops tools lims_ok spec)\<^sup>*\<^sup>*"

section \<open>The operations append what they may\<close>

text \<open>An operation changes the log of a driver and nothing else of it, by steps of the machine.\<close>

definition writes_log ::
    "'w io \<Rightarrow> (limits option \<Rightarrow> limits \<Rightarrow> bool) \<Rightarrow> 'w dstate \<Rightarrow> 'w dstate \<Rightarrow> bool" where
  "writes_log io lims_ok s s' =
     (fst s' = (fst s)\<lparr>dv_events := dv_events (fst s')\<rparr>
      \<and> log_steps (io_uuid io) (descriptors io) lims_ok (dv_spec (fst s)) (dv_events (fst s)) (dv_events (fst s')))"

lemma writes_log_refl [simp]: "writes_log io lims_ok (d, w) (d, w')"
  by (simp add: writes_log_def)

lemma writes_log_spec: "writes_log io lims_ok s s' \<Longrightarrow> dv_spec (fst s') = dv_spec (fst s)"
  unfolding writes_log_def by (metis (no_types, lifting) driver.select_convs(1) driver.surjective driver.update_convs(2))

lemma writes_log_trans [trans]:
  assumes "writes_log io lims_ok s s1" and "writes_log io lims_ok s1 s2"
  shows "writes_log io lims_ok s s2"
  using assms writes_log_spec [OF assms(1)] unfolding writes_log_def
  by (metis (no_types, lifting) driver.surjective driver.update_convs(2) rtranclp_trans)

lemma push_driver [driver_simps]:
  "\<exists>ev. fst (push io p act s) = (fst s)\<lparr>dv_events := dv_events (fst s) @ [ev]\<rparr> \<and> ev_payload ev = p
     \<and> recorded_for (dv_spec (fst s)) ev"
  by (auto simp: push_def recorded_for_def record_event_def for_spec_def event_source_new_def split: prod.splits)

lemma push_fields [simp]:
  "dv_spec (fst (push io p act s)) = dv_spec (fst s)"
  "dv_spawner (fst (push io p act s)) = dv_spawner (fst s)"
  "dv_deliverer (fst (push io p act s)) = dv_deliverer (fst s)"
  "dv_pending (fst (push io p act s)) = dv_pending (fst s)"
  "dv_undecided (fst (push io p act s)) = dv_undecided (fst s)"
  "dv_resumed (fst (push io p act s)) = dv_resumed (fst s)"
  by (auto simp: push_def split: prod.splits)

lemma push_last [simp]:
  "last_payload (dv_events (fst (push io p act s))) = Some p"
  "butlast (dv_events (fst (push io p act s))) = dv_events (fst s)"
  using push_driver [of io p act s] by (auto simp: last_payload_def)

lemma writes_log_push:
  assumes "may_append (io_uuid io) (descriptors io) lims_ok (dv_spec (fst s)) (dv_events (fst s)) p"
  shows "writes_log io lims_ok s (push io p act s)"
  using push_driver [of io p act s] assms
  by (auto simp: writes_log_def log_step_def intro!: r_into_rtranclp)

lemma reduce_payload: "ev_payload ev = ev_payload ev' \<Longrightarrow> reduce h ev spec = reduce h ev' spec"
  by (simp add: reduce_def)

lemma harness_push:
  "harness (driver_state (fst (push io p act s))) =
     fst (reduce (harness (driver_state (fst s))) (sample_event p) (dv_spec (fst s)))"
proof -
  obtain ev where "fst (push io p act s) = (fst s)\<lparr>dv_events := dv_events (fst s) @ [ev]\<rparr>"
    and "ev_payload ev = ev_payload (sample_event p)"
    using push_driver [of io p act s] by auto
  then show ?thesis
    using reduce_payload [of ev "sample_event p"] by (simp add: driver_state_def harness_snoc)
qed

lemma log_open_push: "log_open (dv_events (fst (push io p act s))) \<longleftrightarrow> log_open (dv_events (fst s)) \<and> \<not> is_run_end p"
  using push_driver [of io p act s] by (auto simp: log_open_def)

lemma log_live_push:
  "log_live (dv_spec (fst s)) (dv_events (fst (push io p act s))) \<longleftrightarrow>
     log_open (dv_events (fst s)) \<and> \<not> is_run_end p
     \<and> \<not> harness_is_terminal (fst (reduce (harness (driver_state (fst s))) (sample_event p) (dv_spec (fst s))))"
  using harness_push [of io p act s] by (simp add: log_live_def log_open_push driver_state_def)


lemma driver_state_harness: "harness (fold_run (dv_spec d) (dv_events d)) = harness (driver_state d)"
  by (simp add: driver_state_def)

text \<open>A driver that is about to perform an effect: its log is live and ends with the authorization.\<close>

definition about_to :: "'w dstate \<Rightarrow> effect \<Rightarrow> bool" where
  "about_to s eff =
     (log_live (dv_spec (fst s)) (dv_events (fst s)) \<and> last_payload (dv_events (fst s)) = Some (EffectAuthorized eff))"

lemma about_to_world: "about_to (d, w) eff \<longleftrightarrow> about_to (d, w') eff"
  by (simp add: about_to_def)

lemma push_outcome:
  assumes "about_to (d, w) eff" and "outcome (harness (driver_state d)) eff p"
  shows "writes_log io lims_ok (d, w) (push io p act (d, w'))"
proof -
  have "writes_log io lims_ok (d, w') (push io p act (d, w'))"
    using assms by (intro writes_log_push Outcome [of _ _ eff]) (simp_all add: about_to_def driver_state_def)
  then show ?thesis by (rule writes_log_trans [OF writes_log_refl])
qed

lemma push_failed:
  assumes "about_to (d, w) eff"
  shows "writes_log io lims_ok (d, w) (push io (RunFailed cls message) act (d, w'))"
proof -
  have "writes_log io lims_ok (d, w') (push io (RunFailed cls message) act (d, w'))"
    using assms by (intro writes_log_push Failed) (simp add: about_to_def)
  then show ?thesis by (rule writes_log_trans [OF writes_log_refl])
qed

lemma perform_tool_writes:
  assumes "about_to (d, w) (ToolCall name inp invocation)"
  shows "writes_log io lims_ok (d, w) (snd (perform_tool io name inp invocation (d, w)))"
  using push_outcome [OF assms] push_failed [OF assms]
  by (auto simp: perform_tool_def deliver_tool_result_def outcome_def
      split: harness_state.splits option.splits prod.splits sum.splits)

lemma perform_model_writes:
  assumes "about_to (d, w) (ModelCall prompt)"
  shows "writes_log io lims_ok (d, w) (snd (perform_model io prompt (d, w)))"
  using push_outcome [OF assms] push_failed [OF assms]
  by (auto simp: perform_model_def outcome_def Let_def split: prod.splits sum.splits)

lemma perform_read_writes:
  assumes "about_to (d, w) (MemoryRead scope key)"
  shows "writes_log io lims_ok (d, w) (snd (perform_read io scope key (d, w)))"
  using push_outcome [OF assms] push_failed [OF assms]
  by (auto simp: perform_read_def outcome_def fail_unowned_def fail_memory_def
      split: option.splits prod.splits sum.splits)

lemma perform_write_writes:
  assumes "about_to (d, w) (MemoryWrite scope key val)"
  shows "writes_log io lims_ok (d, w) (snd (perform_write io scope key val (d, w)))"
  using push_outcome [OF assms] push_failed [OF assms]
  by (auto simp: perform_write_def outcome_def fail_unowned_def fail_memory_def
      split: option.splits prod.splits sum.splits)

lemma ask_user_writes:
  assumes "about_to (d, w) (AskUser prompt)"
  shows "writes_log io lims_ok (d, w) (ask_user io prompt (d, w))"
  using push_outcome [OF assms] by (auto simp: ask_user_def outcome_def split: prod.splits)

text \<open>What the spawner and the deliverer of a driver promise about the children they start.\<close>

definition children_ok :: "(limits option \<Rightarrow> limits \<Rightarrow> bool) \<Rightarrow> 'w driver \<Rightarrow> bool" where
  "children_ok lims_ok d =
     ((\<forall>spawner request w child w'. dv_spawner d = Some spawner \<longrightarrow> spawner request w = (Inr child, w')
         \<longrightarrow> lims_ok (Some (cr_limits request)) (sc_limits child))
      \<and> (\<forall>deliverer request w msg w' task. dv_deliverer d = Some deliverer
         \<longrightarrow> deliverer request w = (Inr msg, w') \<longrightarrow> sm_task msg = Some task
         \<longrightarrow> lims_ok (mq_limits request) (sc_limits task)))"

lemma push_child:
  assumes "about_to (d, w) eff" and "child_request_for (dv_spec d) (driver_state d) eff agent given"
    and "lims_ok given lims"
  shows "writes_log io lims_ok (d, w) (push io (ChildStarted run agent lims) act (d, w'))"
proof -
  have "writes_log io lims_ok (d, w') (push io (ChildStarted run agent lims) act (d, w'))"
    using assms by (intro writes_log_push Child [of _ _ eff]) (simp_all add: about_to_def driver_state_def)
  then show ?thesis by (rule writes_log_trans [OF writes_log_refl])
qed

lemma delegate_writes:
  assumes "about_to (d, w) (Delegate agent inp)" and "children_ok lims_ok d"
  shows "writes_log io lims_ok (d, w) (delegate io agent inp (d, w))"
proof -
  have started: "lims_ok (Some given) (sc_limits child)"
    if "spawn_child d step agent inp given w = (Inr child, w1)" for given step child w1
    using that assms(2) by (fastforce simp: spawn_child_def children_ok_def split: option.splits)
  show ?thesis
    using push_outcome [OF assms(1)] push_child [OF assms(1)] started
    by (auto simp: delegate_def Let_def outcome_def split: prod.splits sum.splits)
qed

lemma message_limits_ok:
  assumes "message_limits d (driver_state d) (reply = None \<or> ask) = Inr given"
  shows "child_request_for (dv_spec d) (driver_state d) (SendMessage to body ask reply timeout) to given
    \<and> is_running (harness (driver_state d))"
  using assms by (auto simp: message_limits_def split: if_splits sum.splits)

lemma push_sent:
  assumes "about_to (d, w) (SendMessage to body ask reply timeout)" and "is_running (harness (driver_state d))"
  shows "writes_log io lims_ok (push io (ChildStarted run to lims) act (d, w'))
    (push io (MessageSent m to ask) act' (push io (ChildStarted run to lims) act (d, w')))"
proof (rule writes_log_push)
  obtain task where task: "fst (push io (ChildStarted run to lims) act (d, w')) = d\<lparr>dv_events := dv_events d @ [task]\<rparr>"
    "ev_payload task = ChildStarted run to lims"
    using push_driver [of io "ChildStarted run to lims" act "(d, w')"] by auto
  have h: "fst (reduce (harness (driver_state d)) (sample_event (ChildStarted run to lims)) (dv_spec d))
      = harness (driver_state d)" by (simp add: reduce_def)
  have live: "log_live (dv_spec d) (dv_events d @ [task])"
    using assms task log_live_push [of "(d, w')" io "ChildStarted run to lims" act] h
    by (simp add: about_to_def log_live_def driver_state_def)
  show "may_append (io_uuid io) (descriptors io) lims_ok
      (dv_spec (fst (push io (ChildStarted run to lims) act (d, w'))))
      (dv_events (fst (push io (ChildStarted run to lims) act (d, w')))) (MessageSent m to ask)"
    using live assms task by (auto simp: about_to_def driver_state_def intro!: Sent)
qed

lemma send_message_writes:
  assumes "about_to (d, w) (SendMessage to body ask reply timeout)" and "children_ok lims_ok d"
  shows "writes_log io lims_ok (d, w) (send_message io to body ask reply timeout (d, w))"
proof (cases "message_limits d (driver_state d) (reply = None \<or> ask)")
  case (Inl reason)
  with push_outcome [OF assms(1), of "MessageRefused to reason"] show ?thesis
    by (auto simp: send_message_def Let_def outcome_def)
next
  case (Inr given)
  note req = message_limits_ok [OF Inr, of to body timeout]
  obtain r w1 where sent: "hand_over d \<lparr>mq_from = dv_spec d, mq_decision = steps (driver_state d), mq_to = to,
      mq_body = body, mq_expects_reply = ask, mq_reply_to = reply, mq_timeout_secs = timeout,
      mq_limits = given\<rparr> w = (r, w1)" by fastforce
  have lims: "lims_ok given (sc_limits task)" if "r = Inr msg" "sm_task msg = Some task" for msg task
    using sent that assms(2) by (fastforce simp: hand_over_def children_ok_def split: option.splits)
  have child: "writes_log io lims_ok (d, w)
      (push io (MessageSent m to ask) act' (push io (ChildStarted run to (sc_limits task)) act (d, w1)))"
    if "r = Inr msg" "sm_task msg = Some task" for msg task run m act act'
  proof -
    have "writes_log io lims_ok (d, w) (push io (ChildStarted run to (sc_limits task)) act (d, w1))"
      using req lims [OF that] by (intro push_child [OF assms(1)]) auto
    also have "writes_log io lims_ok \<dots> (push io (MessageSent m to ask) act' \<dots>)"
      using push_sent [OF assms(1)] req by blast
    finally show ?thesis .
  qed
  show ?thesis
    using Inr sent req child push_outcome [OF assms(1)]
    by (auto simp: send_message_def Let_def outcome_def split: sum.splits option.splits)
qed

lemma perform_one_writes:
  assumes "about_to s eff" and "children_ok lims_ok (fst s)"
  shows "writes_log io lims_ok s (snd (perform_one io eff s))"
proof (cases s)
  case (Pair d w)
  with assms show ?thesis
    by (cases eff) (simp_all add: perform_one_def perform_tool_writes perform_model_writes perform_read_writes
        perform_write_writes delegate_writes send_message_writes ask_user_writes)
qed

lemma perform_writes:
  assumes "about_to s eff" and "children_ok lims_ok (fst s)"
  shows "writes_log io lims_ok s (perform io [eff] s)"
  using perform_one_writes [OF assms, of io] by (cases "perform_one io eff s") auto

lemma advance_writes:
  assumes "log_open (dv_events (fst s))"
  shows "writes_log io lims_ok s (advance_answered_step io s)"
proof -
  have "writes_log io lims_ok s (push io StepAdvanced ActorSystem s)"
    if "harness (driver_state (fst s)) = HRunning step attempt True"
      "step < max_steps (rs_limits (dv_spec (fst s)))" for step attempt
    using that assms by (intro writes_log_push Advance) (auto simp: log_live_def driver_state_def)
  then show ?thesis
    by (cases s) (auto simp: advance_answered_step_def not_le split: harness_state.splits bool.splits)
qed

section \<open>Deciding\<close>

text \<open>What \<open>authorize_decided\<close> does, by cases: it denies, authorizes an effect to perform, or
  completes the run.\<close>

lemma effects_of_push:
  "effects_of_last (dv_spec (fst s)) (dv_events (fst (push io p act s))) =
     snd (reduce (harness (driver_state (fst s))) (sample_event p) (dv_spec (fst s)))"
proof -
  obtain ev where "dv_events (fst (push io p act s)) = dv_events (fst s) @ [ev]"
    and "ev_payload ev = ev_payload (sample_event p)"
    using push_driver [of io p act s] by auto
  then show ?thesis
    using reduce_payload [of ev "sample_event p"] by (simp add: effects_of_last_def driver_state_def)
qed

lemma on_authorized_running:
  assumes "applicable h eff spec"
  shows "\<not> is_complete eff \<Longrightarrow> snd (reduce h (sample_event (EffectAuthorized eff)) spec) = [eff]"
    and "eff = Complete out \<Longrightarrow> fst (reduce h (sample_event (EffectAuthorized eff)) spec) = HCompleted out"
  using assms
  by (auto simp: applicable_def reduce_def on_authorized_def split: harness_state.splits effect.splits)

lemma authorize_decided_cases [consumes 2, case_names denied acts completes]:
  assumes "authorize_decided io h eff s = (effs, s')" and "h = harness (driver_state (fst s))"
  obtains (denied) reason act where "effs = []" "s' = push io (EffectDenied eff reason) act s"
      "\<not> (authorize (io_uuid io) (dv_spec (fst s)) eff (descriptors io) = Allow \<and> applicable h eff (dv_spec (fst s)))"
  | (acts) "effs = [eff]" "\<not> is_complete eff" "s' = push io (EffectAuthorized eff) ActorPolicy s"
      "authorize (io_uuid io) (dv_spec (fst s)) eff (descriptors io) = Allow" "applicable h eff (dv_spec (fst s))"
  | (completes) out where "effs = []" "eff = Complete out" "applicable h eff (dv_spec (fst s))"
      "s' = push io (RunCompleted out) ActorSystem (push io (EffectAuthorized eff) ActorPolicy s)"
proof (cases "authorize (io_uuid io) (dv_spec (fst s)) eff (descriptors io) = Allow \<and> applicable h eff (dv_spec (fst s))")
  case False
  then have "\<exists>reason act. effs = [] \<and> s' = push io (EffectDenied eff reason) act s"
    using assms(1) by (auto simp: authorize_decided_def Let_def split: policy_decision.splits if_splits)
  with False denied show thesis by blast
next
  case True
  note run = on_authorized_running [OF conjunct2 [OF True]]
  show thesis
  proof (cases "is_complete eff")
    case False
    then have "s' = push io (EffectAuthorized eff) ActorPolicy s" "effs = [eff]"
      using assms True effects_of_push [of s io "EffectAuthorized eff" ActorPolicy] run(1)
      by (cases eff; simp add: authorize_decided_def Let_def)+
    with False True acts show thesis by blast
  next
    case complete: True
    then obtain out where eff: "eff = Complete out" by (cases eff) auto
    have "harness (driver_state (fst (push io (EffectAuthorized eff) ActorPolicy s))) = HCompleted out"
      using run(2) [OF eff] assms(2) by (simp add: harness_push)
    then have "s' = push io (RunCompleted out) ActorSystem (push io (EffectAuthorized eff) ActorPolicy s)"
      "effs = []"
      using assms True eff effects_of_push [of "push io (EffectAuthorized eff) ActorPolicy s" io "RunCompleted out" ActorSystem]
      by (simp_all add: authorize_decided_def Let_def)
    with eff True completes show thesis by blast
  qed
qed

text \<open>A driver whose log ends with a decision made in the state the log folds to.\<close>

definition just_decided :: "'w dstate \<Rightarrow> effect \<Rightarrow> bool" where
  "just_decided s eff =
     (log_live (dv_spec (fst s)) (dv_events (fst s)) \<and> last_payload (dv_events (fst s)) = Some (EffectDecided eff))"

lemma authorize_decided_writes:
  assumes "authorize_decided io (harness (driver_state (fst s))) eff s = (effs, s')" and "just_decided s eff"
  shows "writes_log io lims_ok s s'
    \<and> (effs = [] \<or> effs = [eff] \<and> about_to s' eff)"
  using assms(1) refl
proof (cases rule: authorize_decided_cases)
  case (denied reason act)
  then show ?thesis
    using assms(2) by (auto simp: just_decided_def intro!: writes_log_push Denied)
next
  case acts
  have "writes_log io lims_ok s s'"
    unfolding acts using acts assms(2) by (intro writes_log_push Authorize) (auto simp: just_decided_def driver_state_def)
  moreover have "about_to s' eff"
    using acts assms(2) log_live_push [of s io "EffectAuthorized eff" ActorPolicy]
    by (auto simp: about_to_def just_decided_def log_live_def reduce_def on_authorized_def applicable_def
        split: harness_state.splits effect.splits)
  ultimately show ?thesis using acts by simp
next
  case (completes out)
  let ?s1 = "push io (EffectAuthorized eff) ActorPolicy s"
  have "authorize (io_uuid io) (dv_spec (fst s)) eff (descriptors io) = Allow"
    using completes by (simp add: authorize_def)
  then have "writes_log io lims_ok s ?s1"
    using completes assms(2) by (intro writes_log_push Authorize) (auto simp: just_decided_def driver_state_def)
  also have "writes_log io lims_ok ?s1 s'"
    unfolding completes(4)
    using completes assms(2) on_authorized_running(2) [OF completes(3,2)]
    by (intro writes_log_push Completed)
      (auto simp: just_decided_def log_live_def log_open_push harness_push driver_state_harness simp del: push_fields(1))
  finally show ?thesis using completes by simp
qed

lemma decided_harness:
  "harness (driver_state (fst (push io (EffectDecided eff) act s))) = harness (driver_state (fst s))"
  by (simp add: harness_push reduce_def)

lemma decide_cases [consumes 2, case_names error budget decided]:
  assumes "decide io s = (r, s')" and "log_live (dv_spec (fst s)) (dv_events (fst s))"
  obtains e w1 where "r = Inl e" "s' = (fst s, w1)"
  | w1 where "r = Inr []" "s' = push io (RunFailed FBudget ''limit hit'') ActorSystem (fst s, w1)"
  | eff w1 effs where "r = Inr effs" "\<not> over_budget (dv_spec (fst s)) (driver_state (fst s)) eff"
      "authorize_decided io (harness (driver_state (fst (push io (EffectDecided eff) ActorAgent (fst s, w1))))) eff
         (push io (EffectDecided eff) ActorAgent (fst s, w1)) = (effs, s')"
proof -
  have "\<not> harness_is_terminal (harness (driver_state (fst s)))"
    using assms(2) by (simp add: log_live_def driver_state_def)
  then show thesis
    using assms(1) that
    by (cases s) (auto simp: decide_def Let_def decided_harness split: prod.splits sum.splits if_splits)
qed

lemma decided_just:
  assumes "log_live (dv_spec (fst s)) (dv_events (fst s))"
  shows "just_decided (push io (EffectDecided eff) act s) eff"
  using assms log_live_push [of s io "EffectDecided eff" act]
  by (simp add: just_decided_def log_live_def reduce_def driver_state_def)

lemma decide_writes:
  assumes "decide io s = (r, s')" and "log_live (dv_spec (fst s)) (dv_events (fst s))"
  shows "writes_log io lims_ok s s' \<and> (\<forall>effs. r = Inr effs \<longrightarrow> effs = [] \<or> (\<exists>eff. effs = [eff] \<and> about_to s' eff))"
  using assms
proof (cases rule: decide_cases)
  case (error e w1)
  then show ?thesis by (cases s) simp
next
  case (budget w1)
  have "writes_log io lims_ok (fst s, w1) s'"
    unfolding budget using assms(2) by (intro writes_log_push Failed) simp
  with budget show ?thesis
    using writes_log_trans [OF writes_log_refl [of io lims_ok "fst s" "snd s" w1]] by simp
next
  case (decided eff w1 effs)
  let ?s1 = "push io (EffectDecided eff) ActorAgent (fst s, w1)"
  have "writes_log io lims_ok s (fst s, w1)" by (cases s) simp
  also have "writes_log io lims_ok \<dots> ?s1"
    using assms(2) decided(2) by (intro writes_log_push Decide) (simp_all add: driver_state_def)
  finally have "writes_log io lims_ok s ?s1" .
  moreover have "just_decided ?s1 eff" using assms(2) by (intro decided_just) simp
  ultimately show ?thesis
    using authorize_decided_writes [OF decided(3)] writes_log_trans decided(1) by blast
qed

section \<open>Closed logs\<close>

lemma writes_log_only_log: "writes_log io lims_ok s s' \<Longrightarrow> \<exists>log. fst s' = (fst s)\<lparr>dv_events := log\<rparr>"
  by (auto simp: writes_log_def)

lemma may_append_open: "may_append ops tools lims_ok spec log p \<Longrightarrow> log_open log"
  by (induction rule: may_append.induct) (auto simp: log_live_def)

definition settled :: "run_spec \<Rightarrow> event list \<Rightarrow> bool" where
  "settled spec log = (log_open log \<or> \<not> is_running (harness (fold_run spec log)))"

lemma ending_harness:
  "is_run_end p \<Longrightarrow> ev_payload ev = p \<Longrightarrow> \<not> is_running (fst (reduce h ev spec))"
  by (cases p; cases h) (auto simp: reduce_def end_active_def)

lemma settled_step: "log_step ops tools lims_ok spec log log' \<Longrightarrow> settled spec log'"
  by (auto simp: log_step_def settled_def log_open_def harness_snoc ending_harness dest!: may_append_open)

lemma settled_steps: "log_steps ops tools lims_ok spec log log' \<Longrightarrow> settled spec log \<Longrightarrow> settled spec log'"
  by (induction rule: rtranclp_induct) (auto intro: settled_step)

lemma settled_writes:
  "writes_log io lims_ok s s' \<Longrightarrow> settled (dv_spec (fst s)) (dv_events (fst s))
     \<Longrightarrow> settled (dv_spec (fst s')) (dv_events (fst s'))"
  using settled_steps writes_log_spec by (metis writes_log_def)

lemma advance_writes_settled:
  assumes "settled (dv_spec (fst s)) (dv_events (fst s))"
  shows "writes_log io lims_ok s (advance_answered_step io s)"
proof (cases "log_open (dv_events (fst s))")
  case True
  then show ?thesis by (rule advance_writes)
next
  case False
  with assms have "advance_answered_step io s = s"
    by (auto simp: settled_def advance_answered_step_def driver_state_def split: harness_state.splits bool.splits)
  then show ?thesis by (cases s) simp
qed

lemma live_settled: "log_live spec log \<Longrightarrow> settled spec log"
  by (simp add: log_live_def settled_def)

lemma children_ok_writes: "writes_log io lims_ok s s' \<Longrightarrow> children_ok lims_ok (fst s') = children_ok lims_ok (fst s)"
proof -
  have "children_ok lims_ok (d\<lparr>dv_events := log\<rparr>) = children_ok lims_ok d" for d :: "'a driver" and log
    by (simp add: children_ok_def)
  then show "writes_log io lims_ok s s' \<Longrightarrow> children_ok lims_ok (fst s') = children_ok lims_ok (fst s)"
    using writes_log_only_log [of io lims_ok s s'] by auto
qed

lemma perform_advance_writes:
  assumes "about_to s eff" and "children_ok lims_ok (fst s)"
  shows "writes_log io lims_ok s (advance_answered_step io (perform io [eff] s))"
proof -
  have "writes_log io lims_ok s (perform io [eff] s)" using assms by (rule perform_writes)
  also have "writes_log io lims_ok \<dots> (advance_answered_step io \<dots>)"
    using calculation assms(1) by (intro advance_writes_settled settled_writes [OF calculation])
      (simp add: about_to_def live_settled)
  finally show ?thesis .
qed

section \<open>Rounds of the loop\<close>

lemma live_iff: "log_live (dv_spec d) (dv_events d) \<longleftrightarrow> \<not> (harness_is_terminal (harness (driver_state d)) \<or> log_ended d)"
  by (auto simp: log_live_def log_open_def log_ended_def driver_state_def)

lemma run_round_cases [consumes 1, case_names ended cancelled paused waiting error stopped again acted]:
  assumes "run_round io b s = (x, s')"
  obtains "\<not> log_live (dv_spec (fst s)) (dv_events (fst s))" "x = Inl (Inr ())" "s' = s"
  | w1 where "log_live (dv_spec (fst s)) (dv_events (fst s))" "b (fst s) (snd s) = (Cancel, w1)"
      "x = Inl (Inr ())" "s' = cancel io (fst s, w1)"
  | w1 where "log_live (dv_spec (fst s)) (dv_events (fst s))" "b (fst s) (snd s) = (Pause, w1)"
      "x = Inl (Inr ())" "s' = (fst s, w1)"
  | w1 st at m where "log_live (dv_spec (fst s)) (dv_events (fst s))" "b (fst s) (snd s) = (Continue, w1)"
      "harness (driver_state (fst s)) = HWaitingForMessage st at m" "x = Inl (Inr ())" "s' = (fst s, w1)"
  | w1 e where "log_live (dv_spec (fst s)) (dv_events (fst s))" "b (fst s) (snd s) = (Continue, w1)"
      "decide io (fst s, w1) = (Inl e, s')" "x = Inl (Inl e)"
  | w1 where "log_live (dv_spec (fst s)) (dv_events (fst s))" "b (fst s) (snd s) = (Continue, w1)"
      "decide io (fst s, w1) = (Inr [], s')" "x = Inl (Inr ())"
      "harness_is_terminal (harness (driver_state (fst s')))"
  | w1 where "log_live (dv_spec (fst s)) (dv_events (fst s))" "b (fst s) (snd s) = (Continue, w1)"
      "decide io (fst s, w1) = (Inr [], s')" "x = Inr ()"
      "\<not> harness_is_terminal (harness (driver_state (fst s')))"
  | w1 eff effs s1 where "log_live (dv_spec (fst s)) (dv_events (fst s))" "b (fst s) (snd s) = (Continue, w1)"
      "decide io (fst s, w1) = (Inr (eff # effs), s1)" "x = Inr ()"
      "s' = advance_answered_step io (perform io (eff # effs) s1)"
proof (cases "log_live (dv_spec (fst s)) (dv_events (fst s))")
  case False
  then have "harness_is_terminal (harness (driver_state (fst s))) \<or> log_ended (fst s)"
    by (simp only: live_iff not_not)
  then have "run_round io b s = (Inl (Inr ()), s)" by (simp only: run_round_def if_True)
  with assms have "x = Inl (Inr ())" "s' = s" by simp_all
  with False show thesis by (rule that(1))
next
  case True
  then have go: "\<not> (harness_is_terminal (harness (driver_state (fst s))) \<or> log_ended (fst s))"
    by (simp add: live_iff)
  obtain y w1 where b: "b (fst s) (snd s) = (y, w1)" by fastforce
  show thesis
  proof (cases "y = Continue \<and> \<not> (\<exists>st at m. harness (driver_state (fst s)) = HWaitingForMessage st at m)")
    case False
    show thesis
    proof (cases y)
      case Continue
      with False obtain st at m where "harness (driver_state (fst s)) = HWaitingForMessage st at m" by blast
      with assms that(4) True go b Continue show thesis by (simp add: run_round_def)
    next
      case Cancel
      with assms that(2) True go b show thesis by (simp add: run_round_def)
    next
      case Pause
      with assms that(3) True go b show thesis by (simp add: run_round_def)
    qed
  next
    case cont: True
    obtain r s1 where dec: "decide io (fst s, w1) = (r, s1)" by (rule prod.exhaust)
    have round: "run_round io b s =
       (case r of
          Inl e \<Rightarrow> (Inl (Inl e), s1)
        | Inr effs \<Rightarrow>
            if effs = [] then
              (if harness_is_terminal (harness (driver_state (fst s1))) then (Inl (Inr ()), s1) else (Inr (), s1))
            else (Inr (), advance_answered_step io (perform io effs s1)))"
      using go b cont dec by (cases "harness (driver_state (fst s))") (simp_all add: run_round_def)
    have cnt: "b (fst s) (snd s) = (Continue, w1)" using b cont by simp
    show thesis
    proof (cases r)
      case (Inl e)
      then show thesis using that(5) [OF True cnt] dec round assms by simp
    next
      case (Inr effs)
      show thesis
      proof (cases effs)
        case Nil
        then show thesis
          using that(6,7) [OF True cnt] dec round assms Inr
          by (cases "harness_is_terminal (harness (driver_state (fst s1)))") simp_all
      next
        case (Cons eff effs')
        then have "x = Inr ()" "s' = advance_answered_step io (perform io (eff # effs') s1)"
          using round assms Inr by (simp_all del: perform.simps)
        then show thesis using that(8) [OF True cnt] dec Inr Cons by blast
      qed
    qed
  qed
qed

lemma run_round_writes:
  assumes "run_round io b s = (x, s')" and "children_ok lims_ok (fst s)"
  shows "writes_log io lims_ok s s'"
proof -
  have world: "writes_log io lims_ok s (fst s, w1)" for w1 by (cases s) simp
  from assms(1) show ?thesis
  proof (cases rule: run_round_cases)
    case (cancelled w1)
    note world
    also have "writes_log io lims_ok (fst s, w1) s'"
      unfolding cancelled cancel_def using cancelled by (intro writes_log_push Cancelled) simp
    finally show ?thesis .
  next
    case (error w1 e)
    note world
    also have "writes_log io lims_ok (fst s, w1) s'" using error decide_writes by fastforce
    finally show ?thesis .
  next
    case (stopped w1)
    note world
    also have "writes_log io lims_ok (fst s, w1) s'" using stopped decide_writes by fastforce
    finally show ?thesis .
  next
    case (again w1)
    note world
    also have "writes_log io lims_ok (fst s, w1) s'" using again decide_writes by fastforce
    finally show ?thesis .
  next
    case (acted w1 eff effs s1)
    note world
    also have dec: "writes_log io lims_ok (fst s, w1) s1" using acted decide_writes by fastforce
    finally have "writes_log io lims_ok s s1" .
    moreover have "effs = []" "about_to s1 eff" using acted decide_writes by fastforce+
    moreover have "children_ok lims_ok (fst s1)" using children_ok_writes [OF dec] assms(2) by simp
    ultimately show ?thesis
      using writes_log_trans perform_advance_writes acted(5) by metis
  qed (use world in \<open>cases s; simp\<close>)+
qed

section \<open>The loop ends\<close>

lemma steps_push:
  "steps (driver_state (fst (push io p act s))) =
     steps (driver_state (fst s)) + (if counts_as_step (harness (driver_state (fst s))) p then 1 else 0)"
  using push_driver [of io p act s] by (auto simp: driver_state_def steps_snoc)

lemma deliver_steps: "steps (driver_state (fst (snd (deliver_tool_result io name invocation out s)))) = steps (driver_state (fst s))"
  by (auto simp: deliver_tool_result_def steps_push counts_as_step_def split: harness_state.splits)

lemma perform_one_steps: "steps (driver_state (fst (snd (perform_one io eff s)))) = steps (driver_state (fst s))"
proof (cases s)
  case (Pair d w)
  then show ?thesis
    by (cases eff)
      (auto simp: perform_one_def perform_tool_def perform_model_def perform_read_def perform_write_def
        delegate_def send_message_def ask_user_def fail_unowned_def fail_memory_def Let_def
        deliver_steps steps_push counts_as_step_def
        split: harness_state.splits option.splits prod.splits sum.splits)
qed

lemma perform_steps: "steps (driver_state (fst (perform io effs s))) = steps (driver_state (fst s))"
proof (induction effs arbitrary: s)
  case (Cons eff effs)
  then show ?case using perform_one_steps [of io eff s] by (cases "perform_one io eff s") auto
qed simp

lemma advance_steps: "steps (driver_state (fst (advance_answered_step io s))) = steps (driver_state (fst s))"
  by (auto simp: advance_answered_step_def steps_push counts_as_step_def split: harness_state.splits bool.splits)

lemma unat_u32_le: "unat (x :: u32) \<le> 2 ^ 32 - 1"
proof -
  have "unat x < 2 ^ LENGTH(32)" by (rule unsigned_less)
  then show ?thesis by simp
qed

lemma steps_left:
  assumes "\<not> steps_spent spec state"
  shows "steps state < max_steps (rs_limits spec)"
  using assms unat_u32_le [of "max_steps (rs_limits spec)"]
  by (auto simp: steps_spent_def word_less_nat_alt word_le_nat_alt unat_saturating_add)

lemma authorize_decided_steps:
  assumes "authorize_decided io (harness (driver_state (fst s))) eff s = (effs, s')"
  shows "steps (driver_state (fst s')) = steps (driver_state (fst s))
    \<and> (is_complete eff \<longrightarrow> is_running (harness (driver_state (fst s))) \<longrightarrow> log_ended (fst s'))"
  using assms refl
proof (cases rule: authorize_decided_cases)
  case (denied reason act)
  have "applicable (harness (driver_state (fst s))) eff (dv_spec (fst s))
      \<and> authorize (io_uuid io) (dv_spec (fst s)) eff (descriptors io) = Allow"
    if "is_complete eff" "is_running (harness (driver_state (fst s)))"
    using that by (cases eff; cases "harness (driver_state (fst s))") (simp_all add: applicable_def authorize_def)
  with denied show ?thesis by (auto simp: steps_push counts_as_step_def)
next
  case acts
  then show ?thesis by (simp add: steps_push counts_as_step_def)
next
  case (completes out)
  then show ?thesis
    using push_driver [of io "RunCompleted out" ActorSystem "push io (EffectAuthorized eff) ActorPolicy s"]
    by (auto simp: steps_push counts_as_step_def log_ended_def)
qed


lemma decide_steps:
  assumes "decide io s = (Inr effs, s')" and "log_live (dv_spec (fst s)) (dv_events (fst s))"
  shows "log_ended (fst s') \<or>
    steps (driver_state (fst s)) < max_steps (rs_limits (dv_spec (fst s)))
    \<and> steps (driver_state (fst s')) = steps (driver_state (fst s)) + 1"
  using assms
proof (cases rule: decide_cases)
  case (budget w1)
  then show ?thesis
    using push_driver [of io "RunFailed FBudget ''limit hit''" ActorSystem "(fst s, w1)"]
    by (auto simp: log_ended_def)
next
  case (decided eff w1 effs')
  note auth = authorize_decided_steps [OF decided(3)]
  show ?thesis
  proof (cases "is_complete eff \<and> is_running (harness (driver_state (fst s)))")
    case True
    then show ?thesis using auth by (simp add: decided_harness)
  next
    case False
    then have "\<not> steps_spent (dv_spec (fst s)) (driver_state (fst s))"
      using decided(2) by (auto simp: over_budget_def split: if_splits)
    then have "steps (driver_state (fst s)) < max_steps (rs_limits (dv_spec (fst s)))" by (rule steps_left)
    moreover have "steps (driver_state (fst s')) = steps (driver_state (fst s)) + 1"
      using auth False by (simp add: steps_push counts_as_step_def)
    ultimately show ?thesis by simp
  qed
qed simp

lemma children_ok_trivial [simp]: "children_ok (\<lambda>given lims. True) d"
  by (simp add: children_ok_def)

lemma run_round_progress:
  assumes "run_round io b s = (Inr (), s')"
  shows "dv_spec (fst s') = dv_spec (fst s) \<and> (log_ended (fst s') \<or>
    steps (driver_state (fst s)) < max_steps (rs_limits (dv_spec (fst s)))
    \<and> steps (driver_state (fst s')) = steps (driver_state (fst s)) + 1)"
proof
  show "dv_spec (fst s') = dv_spec (fst s)"
    using run_round_writes [OF assms children_ok_trivial] by (rule writes_log_spec)
  from assms show "log_ended (fst s') \<or>
    steps (driver_state (fst s)) < max_steps (rs_limits (dv_spec (fst s)))
    \<and> steps (driver_state (fst s')) = steps (driver_state (fst s)) + 1"
  proof (cases rule: run_round_cases)
    case (again w1)
    then show ?thesis using decide_steps [OF again(3)] by simp
  next
    case (acted w1 eff effs s1)
    have one: "effs = []" "about_to s1 eff" using acted decide_writes by fastforce+
    have "steps (driver_state (fst s')) = steps (driver_state (fst s1))"
      unfolding acted(5) by (simp add: advance_steps perform_steps del: perform.simps)
    moreover have "\<not> log_ended (fst s1)"
      using one(2) by (simp add: about_to_def live_iff)
    ultimately show ?thesis using decide_steps [OF acted(3)] acted(1) by simp
  qed simp_all
qed

text \<open>The total correctness rule of the loop: it returns, from the last round of a series of rounds
  that keep \<open>P\<close>.\<close>

lemma run_loop_total:
  assumes "P s" and "\<And>s s1. P s \<Longrightarrow> run_round io b s = (Inr (), s1) \<Longrightarrow> P s1"
  shows "\<exists>s0 r s1. P s0 \<and> run_round io b s0 = (Inl r, s1) \<and> run_loop io b s = Some (r, s1)"
  using assms(1)
proof (induction "(if log_ended (fst s) then 0
      else Suc (unat (max_steps (rs_limits (dv_spec (fst s)))) - unat (steps (driver_state (fst s)))))"
    arbitrary: s rule: less_induct)
  case less
  obtain x s1 where round: "run_round io b s = (x, s1)" by (rule prod.exhaust)
  show ?case
  proof (cases x)
    case (Inl r)
    then have "run_loop io b s = Some (r, s1)" using round by (simp add: run_loop.simps)
    with Inl round less.prems show ?thesis by blast
  next
    case (Inr u)
    then have again: "run_round io b s = (Inr (), s1)" using round by simp
    have open_log: "\<not> log_ended (fst s)"
    proof
      assume "log_ended (fst s)"
      then have "run_round io b s = (Inl (Inr ()), s)" by (simp add: run_round_def)
      with again show False by simp
    qed
    have "(if log_ended (fst s1) then 0
        else Suc (unat (max_steps (rs_limits (dv_spec (fst s1)))) - unat (steps (driver_state (fst s1)))))
      < (if log_ended (fst s) then 0
        else Suc (unat (max_steps (rs_limits (dv_spec (fst s)))) - unat (steps (driver_state (fst s)))))"
      using run_round_progress [OF again] open_log
      by (auto simp: unat_Suc_no_overflow word_less_nat_alt)
    from less.hyps [OF this assms(2) [OF less.prems again]]
    show ?thesis using again by (simp add: run_loop.simps [of io b s])
  qed
qed

section \<open>Before the loop\<close>

text \<open>What a driver just booted or resumed satisfies: an effect left to perform was authorized by the
  last event of a live log, and a decision left to authorize is that last event, made in the state
  the log folds to.\<close>

definition driver_ok :: "'w driver \<Rightarrow> bool" where
  "driver_ok d =
     (if dv_resumed d then
        (case dv_undecided d of
           Some (h, eff) \<Rightarrow> dv_pending d = [] \<and> h = harness (driver_state d)
             \<and> log_live (dv_spec d) (dv_events d) \<and> last_payload (dv_events d) = Some (EffectDecided eff)
         | None \<Rightarrow> dv_pending d = [] \<and> settled (dv_spec d) (dv_events d)
             \<or> (\<exists>eff. dv_pending d = [eff] \<and> log_live (dv_spec d) (dv_events d)
                  \<and> last_payload (dv_events d) = Some (EffectAuthorized eff)))
      else dv_pending d = [] \<and> dv_undecided d = None)"

abbreviation cleared :: "'w driver \<Rightarrow> 'w driver" where
  "cleared d \<equiv> d\<lparr>dv_pending := [], dv_undecided := None, dv_resumed := False\<rparr>"

lemma driver_state_cleared [simp]:
  "driver_state (d\<lparr>dv_pending := ps\<rparr>) = driver_state d"
  "driver_state (d\<lparr>dv_undecided := u\<rparr>) = driver_state d"
  "driver_state (d\<lparr>dv_resumed := r\<rparr>) = driver_state d"
  by (simp_all add: driver_state_def)

lemma children_ok_cleared [simp]:
  "children_ok l (d\<lparr>dv_pending := ps\<rparr>) = children_ok l d"
  "children_ok l (d\<lparr>dv_undecided := u\<rparr>) = children_ok l d"
  "children_ok l (d\<lparr>dv_resumed := r\<rparr>) = children_ok l d"
  by (simp_all add: children_ok_def)

lemma about_to_cleared [simp]: "about_to (d\<lparr>dv_resumed := r\<rparr>, w) eff = about_to (d, w) eff"
  by (simp add: about_to_def)

lemma writes_log_resumed:
  assumes "writes_log io l (d, w) s'"
  shows "writes_log io l (d\<lparr>dv_resumed := r\<rparr>, w) ((fst s')\<lparr>dv_resumed := r\<rparr>, snd s')"
proof -
  obtain log where "fst s' = d\<lparr>dv_events := log\<rparr>" using writes_log_only_log [OF assms] by auto
  with assms show ?thesis by (simp add: writes_log_def)
qed

lemma run_start_writes:
  assumes "driver_ok d" and "children_ok l d"
  shows "writes_log io l (cleared d, w) (run_start io (d, w))"
proof (cases "dv_resumed d")
  case False
  with assms have "cleared d = d\<lparr>dv_pending := []\<rparr>" "run_start io (d, w) = (d\<lparr>dv_pending := []\<rparr>, w)"
    by (cases d; simp add: run_start_def driver_ok_def Let_def)+
  then show ?thesis by simp
next
  case resumed: True
  show ?thesis
  proof (cases "dv_undecided d")
    case None
    let ?s1 = "(cleared d, w)"
    have start: "run_start io (d, w) = advance_answered_step io (perform io (dv_pending d) ?s1)"
      using None resumed by (cases d) (simp add: run_start_def Let_def)
    from assms(1) resumed None
    consider "dv_pending d = []" "settled (dv_spec d) (dv_events d)"
      | eff where "dv_pending d = [eff]" "log_live (dv_spec d) (dv_events d)"
          "last_payload (dv_events d) = Some (EffectAuthorized eff)"
      by (auto simp: driver_ok_def)
    then show ?thesis
    proof cases
      case 1
      then show ?thesis unfolding start by (auto intro!: advance_writes_settled)
    next
      case (2 eff)
      then have "about_to ?s1 eff" by (simp add: about_to_def)
      then show ?thesis
        unfolding start 2(1) using assms(2) by (intro perform_advance_writes) simp_all
    qed
  next
    case (Some he)
    then obtain h eff where he: "dv_undecided d = Some (h, eff)" by (cases he) auto
    let ?d1 = "d\<lparr>dv_pending := [], dv_undecided := None\<rparr>"
    obtain effs s1 where auth: "authorize_decided io h eff (?d1, w) = (effs, s1)" by (rule prod.exhaust)
    have ok: "h = harness (driver_state d)" "just_decided (?d1, w) eff"
      using assms(1) resumed he by (simp_all add: driver_ok_def just_decided_def)
    have w1: "writes_log io l (?d1, w) s1" "effs = [] \<or> effs = [eff] \<and> about_to s1 eff"
      using authorize_decided_writes [of io "(?d1, w)" eff effs s1 l] auth ok by simp_all
    let ?s2 = "((fst s1)\<lparr>dv_resumed := False\<rparr>, snd s1)"
    have res: "dv_resumed (fst s1)" using writes_log_only_log [OF w1(1)] resumed by auto
    have start: "run_start io (d, w) = advance_answered_step io (perform io effs ?s2)"
      using he auth res by (simp add: run_start_def Let_def)
    have w2: "writes_log io l (cleared d, w) ?s2"
      using writes_log_resumed [OF w1(1), of False] by simp
    have "writes_log io l ?s2 (advance_answered_step io (perform io effs ?s2))"
    proof (cases "effs = []")
      case True
      have "settled (dv_spec (cleared d)) (dv_events (cleared d))"
        using ok(2) by (simp add: just_decided_def live_settled)
      then show ?thesis
        unfolding True using settled_writes [OF w2] by (auto intro!: advance_writes_settled)
    next
      case False
      with w1(2) have "effs = [eff]" "about_to ?s2 eff" by (cases s1; simp)+
      moreover have "children_ok l (fst ?s2)" using children_ok_writes [OF w1(1)] assms(2) by simp
      ultimately show ?thesis using perform_advance_writes by blast
    qed
    then show ?thesis unfolding start by (rule writes_log_trans [OF w2])
  qed
qed

lemma run_until_total:
  assumes "driver_ok d" and "children_ok l d"
  shows "\<exists>s0 r s1. writes_log io l (cleared d, w) s0 \<and> run_round io b s0 = (Inl r, s1)
    \<and> writes_log io l (cleared d, w) s1 \<and> run_until io b (d, w) = Some (r, s1)"
proof -
  have keep: "children_ok l (fst s)" if "writes_log io l (cleared d, w) s" for s
    using children_ok_writes [OF that] assms(2) by simp
  have round: "writes_log io l (cleared d, w) s1"
    if "writes_log io l (cleared d, w) s" "run_round io b s = (x, s1)" for s x s1
    using that(1) run_round_writes [OF that(2) keep [OF that(1)]] by (rule writes_log_trans)
  have "\<exists>s0 r s1. writes_log io l (cleared d, w) s0 \<and> run_round io b s0 = (Inl r, s1)
      \<and> run_loop io b (run_start io (d, w)) = Some (r, s1)"
  proof (rule run_loop_total [where P = "\<lambda>s. writes_log io l (cleared d, w) s"])
    show "writes_log io l (cleared d, w) (run_start io (d, w))" using assms by (rule run_start_writes)
    show "writes_log io l (cleared d, w) s1"
      if "writes_log io l (cleared d, w) s" "run_round io b s = (Inr (), s1)" for s s1
      by (rule round [OF that])
  qed
  then show ?thesis
    unfolding run_until_def using round by blast
qed

end
