(* ===== verification/Driver_Correct.thy ===== *)
theory Driver_Correct
  imports Driver_Log
begin

text \<open>
  The properties of a driver's runs, from the machine of \<open>Driver_Log\<close>: the loop returns, what a
  return means, one terminal event and only at the end, no effect without a decision, a permission
  and a state that acts on it, the budget of steps and model calls including what was given to
  children, and resuming from a stored log.
\<close>

section \<open>Booting and resuming\<close>

lemma reduce_emits:
  "snd (reduce h ev spec) = [] \<or> (\<exists>eff. ev_payload ev = EffectAuthorized eff \<and> snd (reduce h ev spec) = [eff])"
  by (auto simp: reduce_defs split: event_payload.splits harness_state.splits effect.splits bool.splits option.splits)

lemma boot_ok: "driver_ok (fst (boot io spec w))"
  by (simp add: boot_def driver_ok_def driver_new_def)

lemma ok_push_open:
  assumes "\<not> dv_resumed d" and "dv_pending d = []" and "dv_undecided d = None"
  shows "driver_ok (fst (push io p act (d, w)))"
  using assms by (simp add: driver_ok_def)

lemma decided_keeps_harness:
  assumes "ev_payload ev = EffectDecided eff"
  shows "harness (fold_run spec (log @ [ev])) = harness (fold_run spec log)"
  using assms by (simp add: harness_snoc reduce_def)

lemma driver_state_new [simp]: "driver_state (driver_new spec log) = fold_run spec log"
  by (simp add: driver_state_def driver_new_def)

lemma resume_driver_ok:
  fixes io :: "'w io"
  assumes "resume io spec log w = (Inr d, w')"
  shows "driver_ok d"
proof -
  let ?h = "harness (fold_run spec log)"
  consider "list_ex is_end_event log"
    | "\<not> list_ex is_end_event log" "\<not> list_ex (\<lambda>ev. ev_payload ev = RunStarted) log"
    | (cut) "\<not> list_ex is_end_event log" "list_ex (\<lambda>ev. ev_payload ev = RunStarted) log" by blast
  then show ?thesis
  proof cases
    case 1
    with assms show ?thesis by (auto simp: resume_def Let_def driver_ok_def driver_new_def)
  next
    case 2
    with assms show ?thesis
      by (auto simp: resume_def Let_def driver_new_def ok_push_open split: dispatch_phase.splits prod.splits
          dest!: arg_cong [where f = fst])
  next
    case cut
    then obtain pre ev where log: "log = pre @ [ev]" by (cases log rule: rev_cases) auto
    let ?d = "(driver_new spec log)\<lparr>dv_resumed := True\<rparr> :: 'w driver"
    have opened: "log_open log" using cut by (simp add: log_open_def)
    have ok: "driver_ok (?d\<lparr>dv_undecided := u, dv_pending := ps\<rparr>)"
      if "case u of Some (h, eff) \<Rightarrow> ps = [] \<and> h = ?h \<and> log_live spec log \<and> last_payload log = Some (EffectDecided eff)
          | None \<Rightarrow> ps = [] \<or> (\<exists>eff. ps = [eff] \<and> log_live spec log \<and> last_payload log = Some (EffectAuthorized eff))"
      for u ps
      using that opened by (auto simp: driver_ok_def driver_new_def driver_state_def settled_def split: option.splits)
    show ?thesis
    proof (cases "\<exists>out. ?h = HCompleted out")
      case True
      then obtain out where h: "?h = HCompleted out" by blast
      then have d: "d = fst (push io (RunCompleted out) ActorSystem (?d, w))"
        using assms cut by (auto simp: resume_def Let_def split: prod.splits)
      have "settled (dv_spec d) (dv_events d)"
        unfolding d settled_def driver_state_harness harness_push
        using h by simp
      then show ?thesis unfolding d by (simp add: driver_ok_def driver_new_def)
    next
      case False
      then have res: "(if \<not> harness_is_terminal ?h then
           (case ev_payload (last log) of
              EffectDecided eff \<Rightarrow> (Inr (?d\<lparr>dv_undecided := Some (harness (fold_run spec (butlast log)), eff)\<rparr>), w)
            | _ \<Rightarrow> (Inr (?d\<lparr>dv_pending := effects_of_last spec log\<rparr>), w))
           else (Inr ?d, w)) = ((Inr d, w') :: (resume_error + 'w driver) \<times> 'w)"
        using assms cut by (cases ?h) (simp_all add: resume_def Let_def)
      show ?thesis
      proof (cases "harness_is_terminal ?h")
        case True
        with res have "d = ?d\<lparr>dv_undecided := None, dv_pending := []\<rparr>" by (auto simp: driver_new_def)
        then show ?thesis using ok [where u = None and ps = "[]"] by simp
      next
        case running: False
        then have live: "log_live spec log" using opened by (simp add: log_live_def driver_state_def driver_new_def)
        show ?thesis
        proof (cases "\<exists>eff. ev_payload ev = EffectDecided eff")
          case True
          then obtain eff where eff: "ev_payload ev = EffectDecided eff" by blast
          with res running log have "d = ?d\<lparr>dv_undecided := Some (?h, eff), dv_pending := []\<rparr>"
            by (auto simp: driver_new_def decided_keeps_harness)
          then show ?thesis using ok [where u = "Some (?h, eff)" and ps = "[]"] live eff log by (simp add: last_payload_def)
        next
          case False
          with res running log have "d = ?d\<lparr>dv_undecided := None, dv_pending := effects_of_last spec log\<rparr>"
            by (auto simp: driver_new_def split: event_payload.splits)
          then show ?thesis
            using ok [where u = None and ps = "effects_of_last spec log"] live log
              reduce_emits [of "harness (fold_run spec pre)" ev spec]
            by (auto simp: last_payload_def effects_of_last_def)
        qed
      qed
    qed
  qed
qed

section \<open>Invariants of the machine\<close>

inductive_cases authorized_cases: "may_append ops tools l spec log (EffectAuthorized eff)"

lemma log_steps_extend: "log_steps ops tools l spec log log' \<Longrightarrow> \<exists>more_evs. log' = log @ more_evs"
  by (induction rule: rtranclp_induct) (auto simp: log_step_def)

lemma log_steps_nth:
  assumes "log_steps ops tools l spec log log'" and "length log \<le> i" and "i < length log'"
  shows "may_append ops tools l spec (take i log') (ev_payload (log' ! i)) \<and> recorded_for spec (log' ! i)"
  using assms
proof (induction rule: rtranclp_induct)
  case (step log1 log2)
  then obtain ev where ev: "log2 = log1 @ [ev]" "may_append ops tools l spec log1 (ev_payload ev)" "recorded_for spec ev"
    by (auto simp: log_step_def)
  with step show ?case by (cases "i < length log1") (auto simp: nth_append less_Suc_eq)
qed simp

lemma last_payload_take:
  assumes "i < length log" and "last_payload (take i log) = Some p"
  shows "0 < i \<and> ev_payload (log ! (i - 1)) = p"
  using assms by (auto simp: last_payload_def last_conv_nth min_def split: if_splits)

lemma terminal_last_step: "log_step ops tools l spec log log' \<Longrightarrow> terminal_last log'"
  by (auto simp: log_step_def terminal_last_def log_open_def list_all_iff list_ex_iff dest!: may_append_open)

lemma terminal_last_steps: "log_steps ops tools l spec log log' \<Longrightarrow> terminal_last log \<Longrightarrow> terminal_last log'"
  by (induction rule: rtranclp_induct) (auto intro: terminal_last_step)

lemma closed_stays: "log_steps ops tools l spec log log' \<Longrightarrow> \<not> log_open log \<Longrightarrow> log' = log"
  by (induction rule: converse_rtranclp_induct) (auto simp: log_step_def dest: may_append_open)

section \<open>The budget\<close>

text \<open>A child gets no more than what was carved for it, and none where nothing was carved.\<close>

definition child_within :: "limits option \<Rightarrow> limits \<Rightarrow> bool" where
  "child_within given lims =
     (\<exists>g. given = Some g \<and> max_steps lims \<le> max_steps g \<and> max_model_calls lims \<le> max_model_calls g)"

definition within_budget :: "run_spec \<Rightarrow> run_state \<Rightarrow> bool" where
  "within_budget spec st =
     (unat (steps st) + unat (given_steps st) \<le> unat (max_steps (rs_limits spec))
      \<and> unat (model_calls st) + unat (given_model_calls st) \<le> unat (max_model_calls (rs_limits spec)))"

definition call_left :: "run_spec \<Rightarrow> event list \<Rightarrow> bool" where
  "call_left spec log =
     (\<forall>prompt. last_payload log = Some (EffectDecided (ModelCall prompt)) \<longrightarrow>
        unat (model_calls (fold_run spec log)) + unat (given_model_calls (fold_run spec log))
          < unat (max_model_calls (rs_limits spec)))"

lemma spent_iff:
  "steps_spent spec st \<longleftrightarrow> unat (max_steps (rs_limits spec)) \<le> unat (steps st) + unat (given_steps st)"
  "model_calls_spent spec st \<longleftrightarrow>
     unat (max_model_calls (rs_limits spec)) \<le> unat (model_calls st) + unat (given_model_calls st)"
  using unat_u32_le [of "max_steps (rs_limits spec)"] unat_u32_le [of "max_model_calls (rs_limits spec)"]
  by (auto simp: steps_spent_def model_calls_spent_def word_le_nat_alt unat_saturating_add)

lemma unat_div2: "unat (w div 2 :: u32) = unat w div 2"
  by (simp add: unat_div)

lemma carve_bound:
  assumes "carve spec st = Inr g"
  shows "2 * unat (max_steps g) + unat (steps st) + unat (given_steps st) \<le> unat (max_steps (rs_limits spec))
    \<and> 2 * unat (max_model_calls g) + unat (model_calls st) + unat (given_model_calls st)
        \<le> unat (max_model_calls (rs_limits spec))
    \<and> 0 < unat (max_steps g) \<and> 0 < unat (max_model_calls g)
    \<and> is_running (harness st) \<and> unat (children st) < 10"
proof -
  let ?sl = "saturating_sub (max_steps (rs_limits spec)) (saturating_add (steps st) (given_steps st))"
  let ?ml = "saturating_sub (max_model_calls (rs_limits spec)) (saturating_add (model_calls st) (given_model_calls st))"
  have g: "g = \<lparr>max_steps = ?sl div 2, max_model_calls = ?ml div 2\<rparr>" "\<not> ?sl < 2" "\<not> ?ml < 2"
    "is_running (harness st)" "\<not> MAX_CHILDREN \<le> children st"
    using assms by (auto simp: carve_def Let_def split: if_splits)
  have left: "unat (saturating_sub mx (saturating_add a b)) = unat mx - (unat a + unat b)" for mx a b :: u32
    using unat_u32_le [of mx] by (simp add: unat_saturating_sub unat_saturating_add)
  show ?thesis
    using g(2-5) unfolding g(1)
    by (simp add: unat_div2 left word_less_nat_alt word_le_nat_alt MAX_CHILDREN_def)
      linarith
qed

fun counted :: "event_payload \<Rightarrow> bool" where
  "counted (EffectDecided eff) = True"
| "counted (EffectAuthorized eff) = True"
| "counted (ChildStarted run agent lims) = True"
| "counted _ = False"

lemma uncounted_budget:
  assumes "\<not> counted (ev_payload ev)"
  shows "within_budget spec (fold_run spec (log @ [ev])) = within_budget spec (fold_run spec log)"
  using assms
  by (cases "ev_payload ev")
    (simp_all add: within_budget_def steps_snoc model_calls_snoc given_snoc counts_as_step_def counts_as_model_call_def)

lemma outcome_uncounted: "outcome h eff p \<Longrightarrow> \<not> counted p"
  by (auto simp: outcome_def split: effect.splits)

lemma last_payload_snoc [simp]: "last_payload (log @ [ev]) = Some (ev_payload ev)"
  by (simp add: last_payload_def)

lemma unat_plus_one: "unat (a :: u32) < unat (b :: u32) \<Longrightarrow> unat (a + 1) = Suc (unat a)"
  using unat_Suc_no_overflow [of a b] by (simp add: word_less_nat_alt)

definition budget_inv :: "run_spec \<Rightarrow> event list \<Rightarrow> bool" where
  "budget_inv spec log = (within_budget spec (fold_run spec log) \<and> call_left spec log)"

lemma decide_budget:
  assumes "budget_inv spec log" and "\<not> over_budget spec (fold_run spec log) eff"
    and "ev_payload ev = EffectDecided eff"
  shows "budget_inv spec (log @ [ev])"
proof -
  let ?st = "fold_run spec log"
  have "unat (steps ?st) + unat (given_steps ?st) < unat (max_steps (rs_limits spec))"
    if "counts_as_step (harness ?st) (ev_payload ev)"
    using that assms by (auto simp: over_budget_def counts_as_step_def spent_iff split: if_splits)
  then have "within_budget spec (fold_run spec (log @ [ev]))"
    using assms unat_plus_one [of "steps ?st" "max_steps (rs_limits spec)"]
    by (auto simp: budget_inv_def within_budget_def steps_snoc model_calls_snoc given_snoc counts_as_model_call_def)
  moreover have "call_left spec (log @ [ev])"
    using assms(2,3)
    by (auto simp: call_left_def over_budget_def spent_iff model_calls_snoc given_snoc counts_as_model_call_def)
  ultimately show ?thesis by (simp add: budget_inv_def)
qed

lemma authorize_budget:
  assumes "budget_inv spec log" and "last_payload log = Some (EffectDecided eff)"
    and "ev_payload ev = EffectAuthorized eff"
  shows "budget_inv spec (log @ [ev])"
proof -
  let ?st = "fold_run spec log"
  have "unat (model_calls ?st) + unat (given_model_calls ?st) < unat (max_model_calls (rs_limits spec))"
    if "is_model_call eff"
    using that assms(1,2) by (cases eff) (auto simp: budget_inv_def call_left_def)
  then show ?thesis
    using assms unat_plus_one [of "model_calls ?st" "max_model_calls (rs_limits spec)"]
    by (auto simp: budget_inv_def call_left_def within_budget_def steps_snoc model_calls_snoc given_snoc
        counts_as_model_call_def counts_as_step_def)
qed

lemma child_budget:
  assumes "budget_inv spec log" and "child_request_for spec (fold_run spec log) eff agent given"
    and "child_within given lims" and "ev_payload ev = ChildStarted run agent lims"
  shows "budget_inv spec (log @ [ev])"
proof -
  let ?st = "fold_run spec log"
  obtain g where g: "given = Some g" "max_steps lims \<le> max_steps g" "max_model_calls lims \<le> max_model_calls g"
    using assms(3) by (auto simp: child_within_def)
  with assms(2) have "carve spec ?st = Inr g" by (cases eff) (auto split: if_splits)
  note bound = carve_bound [OF this]
  have "unat (max_steps lims) \<le> unat (max_steps g)" "unat (max_model_calls lims) \<le> unat (max_model_calls g)"
    using g by (simp_all add: word_le_nat_alt)
  with bound have "unat (steps ?st) + unat (saturating_add (given_steps ?st) (max_steps lims)) \<le> unat (max_steps (rs_limits spec))"
    "unat (model_calls ?st) + unat (saturating_add (given_model_calls ?st) (max_model_calls lims)) \<le> unat (max_model_calls (rs_limits spec))"
    by (auto simp: unat_saturating_add)
  then show ?thesis
    using assms(1,4)
    by (auto simp: budget_inv_def call_left_def within_budget_def steps_snoc model_calls_snoc given_snoc
        counts_as_model_call_def counts_as_step_def)
qed

lemma budget_step:
  assumes "log_step ops tools child_within spec log log'" and "budget_inv spec log"
  shows "budget_inv spec log'"
proof -
  obtain ev where ev: "log' = log @ [ev]" "may_append ops tools child_within spec log (ev_payload ev)"
    using assms(1) by (auto simp: log_step_def)
  have quiet: "budget_inv spec (log @ [ev])" if "\<not> counted (ev_payload ev)"
    using that assms(2) by (auto simp: budget_inv_def uncounted_budget call_left_def)
  from ev(2) have "budget_inv spec (log @ [ev])"
  proof (cases rule: may_append.cases)
    case (Decide eff)
    then show ?thesis using decide_budget [OF assms(2)] by simp
  next
    case (Authorize eff)
    then show ?thesis using authorize_budget [OF assms(2)] by simp
  next
    case (Outcome eff)
    then show ?thesis using quiet outcome_uncounted by simp
  next
    case (Child eff agent given lims run)
    then show ?thesis using child_budget [OF assms(2)] by simp
  qed (use quiet in simp_all)
  then show ?thesis using ev(1) by simp
qed

lemma budget_steps:
  "log_steps ops tools child_within spec log log' \<Longrightarrow> budget_inv spec log \<Longrightarrow> budget_inv spec log'"
  by (induction rule: rtranclp_induct) (auto intro: budget_step)

section \<open>Properties\<close>

lemma run_until_steps:
  assumes "driver_ok d" and "children_ok l d" and "run_until io b (d, w) = Some (r, (d', w'))"
  shows "log_steps (io_uuid io) (descriptors io) l (dv_spec d) (dv_events d) (dv_events d') \<and> dv_spec d' = dv_spec d"
proof -
  have "writes_log io l (cleared d, w) (d', w')"
    using run_until_total [OF assms(1,2), where io = io and b = b and w = w] assms(3) by fastforce
  then show ?thesis using writes_log_spec [of io l "(cleared d, w)" "(d', w')"] by (simp add: writes_log_def)
qed

text \<open>A world that counts the ids drawn, and a decider that completes at once.\<close>

definition sample_io :: "nat io" where
  "sample_io =
     \<lparr>io_uuid = canonical_ops, io_now = (\<lambda>w. (0, w)), io_new = (\<lambda>w. (of_nat w, Suc w)), io_tools = [],
      io_complete = (\<lambda>request w. (Inl ''no model gateway'', w)), io_read = (\<lambda>own key w. (Inr None, w)),
      io_write = (\<lambda>own key val w. (Inr (), w)), io_decide = (\<lambda>view w. (Inr (Complete ''done''), w))\<rparr>"

abbreviation sample_driver :: "nat driver" where
  "sample_driver \<equiv> fst (boot sample_io sample_spec 0)"

lemma sample_run:
  "map_option (\<lambda>(r, (d, w)). (r, map ev_payload (dv_events d))) (run_to_completion sample_io (sample_driver, 1)) =
     Some (Inr (), [RunStarted, EffectDecided (Complete ''done''), EffectAuthorized (Complete ''done''),
       RunCompleted ''done''])"
  by (simp add: run_to_completion_def run_until_def run_start_def run_loop.simps run_round_def decide_def
      boot_def push_def driver_new_def sample_io_def driver_state_def log_ended_def harness_fold_run
      reduce_defs over_budget_def authorize_decided_def authorize_def effects_of_last_def Let_def)

text \<open>C1. \<open>run_until\<close> returns, whatever the decider, the tools, the model, the memory, the spawner, the
  deliverer and the boundary check answer, and every event it appended is one the machine of
  logs allows after the events before it, recorded for this run.\<close>

theorem run_until_refines:
  assumes "driver_ok d"
  shows "\<exists>r d' w'. run_until io b (d, w) = Some (r, (d', w')) \<and> dv_spec d' = dv_spec d
    \<and> log_steps (io_uuid io) (descriptors io) (\<lambda>given lims. True) (dv_spec d) (dv_events d) (dv_events d')"
proof -
  obtain r d' w' where "run_until io b (d, w) = Some (r, (d', w'))"
    using run_until_total [OF assms children_ok_trivial, where io = io and b = b and w = w]
    by (metis surj_pair)
  with run_until_steps [OF assms children_ok_trivial this] show ?thesis by blast
qed

theorem run_until_refines_witness:
  "\<exists>r d' w'. run_until sample_io (\<lambda>d w. (Continue, w)) (sample_driver, 1) = Some (r, (d', w'))"
  using run_until_refines [OF boot_ok [of sample_io sample_spec 0], of sample_io "\<lambda>d w. (Continue, w)" 1] by blast

text \<open>\<open>run_to_completion\<close> returns Ok only when the run ended (a terminal event in the log, or a
  terminal harness) or its step waits for a reply; and it returns an error only from the decider.\<close>

theorem run_to_completion_result:
  assumes "driver_ok d"
  shows "\<exists>r d' w'. run_to_completion io (d, w) = Some (r, (d', w'))
    \<and> (r = Inr () \<longrightarrow> \<not> log_live (dv_spec d') (dv_events d')
         \<or> (\<exists>step attempt m. harness (driver_state d') = HWaitingForMessage step attempt m))
    \<and> (\<forall>e. r = Inl e \<longrightarrow> (\<exists>view w0 w1. io_decide io view w0 = (Inl e, w1)))"
proof -
  obtain s0 r s1 where last: "run_round io (\<lambda>d w. (Continue, w)) s0 = (Inl r, s1)"
    and run: "run_to_completion io (d, w) = Some (r, s1)"
    using run_until_total [OF assms children_ok_trivial, where io = io and b = "\<lambda>d w. (Continue, w)" and w = w]
    unfolding run_to_completion_def by blast
  have "(r = Inr () \<longrightarrow> \<not> log_live (dv_spec (fst s1)) (dv_events (fst s1))
         \<or> (\<exists>step attempt m. harness (driver_state (fst s1)) = HWaitingForMessage step attempt m))
    \<and> (\<forall>e. r = Inl e \<longrightarrow> (\<exists>view w0 w1. io_decide io view w0 = (Inl e, w1)))"
    using last
  proof (cases rule: run_round_cases)
    case (error w1 e)
    have "\<exists>view w0 w1. io_decide io view w0 = (Inl e, w1)"
      using error(3) by (auto simp: decide_def Let_def split: prod.splits sum.splits if_splits)
    with error show ?thesis by simp
  next
    case (stopped w1)
    then show ?thesis by (simp add: live_iff)
  qed (auto simp: driver_state_def)
  with run show ?thesis by (cases s1) auto
qed

theorem run_to_completion_result_witness:
  "\<exists>d' w'. run_to_completion sample_io (sample_driver, 1) = Some (Inr (), (d', w'))
     \<and> \<not> log_live (dv_spec d') (dv_events d')"
proof -
  obtain r d' w' where run: "run_to_completion sample_io (sample_driver, 1) = Some (r, (d', w'))"
    and res: "r = Inr () \<longrightarrow> \<not> log_live (dv_spec d') (dv_events d')
         \<or> (\<exists>step attempt m. harness (driver_state d') = HWaitingForMessage step attempt m)"
    using run_to_completion_result [OF boot_ok [of sample_io sample_spec 0], of sample_io 1] by blast
  from run sample_run have r: "r = Inr ()" and log: "map ev_payload (dv_events d') =
      [RunStarted, EffectDecided (Complete ''done''), EffectAuthorized (Complete ''done''), RunCompleted ''done'']"
    by simp_all
  then have "harness (driver_state d') = HCompleted ''done''"
    by (auto simp: driver_state_def harness_fold_run map_eq_Cons_conv reduce_defs)
  with run r res show ?thesis by auto
qed

text \<open>C4. A log a driver writes has at most one terminal event, at its end: given a log with none
  before its last event, the run's log has none before its last event, and a log that had ended is
  left as it was.\<close>

theorem run_until_one_terminal:
  assumes "driver_ok d" and "terminal_last (dv_events d)"
    and "run_until io b (d, w) = Some (r, (d', w'))"
  shows "terminal_last (dv_events d') \<and> (log_ended d \<longrightarrow> dv_events d' = dv_events d)"
  using run_until_steps [OF assms(1) children_ok_trivial assms(3)] terminal_last_steps assms(2) closed_stays
  by (fastforce simp: log_ended_def log_open_def)

theorem run_until_one_terminal_witness:
  "\<exists>r d' w'. run_until sample_io (\<lambda>d w. (Continue, w)) (sample_driver, 1) = Some (r, (d', w'))
     \<and> terminal_last (dv_events d')"
proof -
  obtain r d' w' where run: "run_until sample_io (\<lambda>d w. (Continue, w)) (sample_driver, 1) = Some (r, (d', w'))"
    using sample_run by (auto simp: run_to_completion_def)
  have "terminal_last (dv_events sample_driver)"
    by (simp add: terminal_last_def boot_def push_def driver_new_def sample_io_def)
  from run_until_one_terminal [OF boot_ok this run] run show ?thesis by blast
qed

text \<open>The payloads that say how an effect came out, and which effect each belongs to.\<close>

fun is_result :: "event_payload \<Rightarrow> bool" where
  "is_result (PToolResult name invocation step attempt out) = True"
| "is_result (ModelResponded message usg) = True"
| "is_result (PMemoryRead scope key val) = True"
| "is_result (MemoryWritten scope key val) = True"
| "is_result (ChildStarted run agent lims) = True"
| "is_result (DelegateRefused agent reason) = True"
| "is_result (MessageSent m to ask) = True"
| "is_result (MessageRefused to reason) = True"
| "is_result (UserAsked m prompt) = True"
| "is_result (UserAskRefused reason) = True"
| "is_result _ = False"

definition result_of :: "effect \<Rightarrow> event_payload \<Rightarrow> bool" where
  "result_of eff p =
     (case eff of
        ToolCall name inp invocation \<Rightarrow> \<exists>step attempt out. p = PToolResult name invocation step attempt out
      | ModelCall prompt \<Rightarrow> \<exists>message usg. p = ModelResponded message usg
      | MemoryRead scope key \<Rightarrow> \<exists>val. p = PMemoryRead scope key val
      | MemoryWrite scope key val \<Rightarrow> p = MemoryWritten scope key val
      | Delegate agent inp \<Rightarrow> (\<exists>reason. p = DelegateRefused agent reason) \<or> (\<exists>run lims. p = ChildStarted run agent lims)
      | SendMessage to body ask reply timeout \<Rightarrow>
          (\<exists>reason. p = MessageRefused to reason) \<or> (\<exists>run lims. p = ChildStarted run to lims)
          \<or> (\<exists>m. p = MessageSent m to ask)
      | AskUser prompt \<Rightarrow> (\<exists>m. p = UserAsked m prompt) \<or> (\<exists>reason. p = UserAskRefused reason)
      | _ \<Rightarrow> False)"

lemma outcome_result: "outcome h eff p \<Longrightarrow> result_of eff p"
  by (auto simp: outcome_def result_of_def split: effect.splits)

lemma child_result: "child_request_for spec st eff agent given \<Longrightarrow> result_of eff (ChildStarted run agent lims)"
  by (cases eff) (auto simp: result_of_def)

lemma outcome_not_authorized: "\<not> outcome h eff (EffectAuthorized eff')"
  by (simp add: outcome_def split: effect.splits)

lemma may_append_authorized:
  assumes "may_append ops tools l spec log (EffectAuthorized eff)"
  shows "last_payload log = Some (EffectDecided eff) \<and> authorize ops spec eff tools = Allow
    \<and> applicable (harness (fold_run spec log)) eff spec"
  using assms by (cases rule: authorized_cases) (auto simp: outcome_not_authorized)

lemma may_append_result:
  assumes "may_append ops tools l spec log p" and "is_result p"
  shows "\<exists>eff. result_of eff p \<and> (last_payload log = Some (EffectAuthorized eff)
    \<or> (\<exists>pre task. log = pre @ [task] \<and> last_payload pre = Some (EffectAuthorized eff)
        \<and> (\<exists>run agent lims. ev_payload task = ChildStarted run agent lims)))"
  using assms
proof (cases rule: may_append.cases)
  case (Outcome eff)
  then show ?thesis using outcome_result by blast
next
  case (Child eff agent given lims run)
  then show ?thesis using child_result by blast
next
  case (Sent pre task to body ask reply timeout run lims m)
  then have "result_of (SendMessage to body ask reply timeout) p" by (simp add: result_of_def)
  with Sent show ?thesis by blast
qed auto

text \<open>C2. No effect without permission: an authorization that \<open>run_until\<close> appends directly follows the
  decision of the same effect, the policy allows the effect for this spec and these tools, and the
  harness acts on it in the state the log had; and the result of an effect (a tool result, a
  model response, a memory read or write, a message, a question, a child) is appended only right
  after the authorization of that effect (a sent message may follow the child it started).\<close>

theorem run_until_authorized:
  assumes "driver_ok d" and "run_until io b (d, w) = Some (r, (d', w'))"
    and "length (dv_events d) \<le> i" and "i < length (dv_events d')"
  shows "(\<forall>eff. ev_payload (dv_events d' ! i) = EffectAuthorized eff \<longrightarrow>
       0 < i \<and> ev_payload (dv_events d' ! (i - 1)) = EffectDecided eff
       \<and> authorize (io_uuid io) (dv_spec d) eff (descriptors io) = Allow
       \<and> applicable (harness (fold_run (dv_spec d) (take i (dv_events d')))) eff (dv_spec d))
    \<and> (is_result (ev_payload (dv_events d' ! i)) \<longrightarrow>
       (\<exists>eff. result_of eff (ev_payload (dv_events d' ! i)) \<and>
          (0 < i \<and> ev_payload (dv_events d' ! (i - 1)) = EffectAuthorized eff
           \<or> 1 < i \<and> ev_payload (dv_events d' ! (i - 2)) = EffectAuthorized eff
             \<and> (\<exists>run agent lims. ev_payload (dv_events d' ! (i - 1)) = ChildStarted run agent lims))))"
proof -
  let ?log = "dv_events d'"
  have may: "may_append (io_uuid io) (descriptors io) (\<lambda>given lims. True) (dv_spec d) (take i ?log) (ev_payload (?log ! i))"
    using log_steps_nth run_until_steps [OF assms(1) children_ok_trivial assms(2)] assms(3,4) by blast
  have "0 < i \<and> ev_payload (?log ! (i - 1)) = EffectDecided eff
       \<and> authorize (io_uuid io) (dv_spec d) eff (descriptors io) = Allow
       \<and> applicable (harness (fold_run (dv_spec d) (take i ?log))) eff (dv_spec d)"
    if "ev_payload (?log ! i) = EffectAuthorized eff" for eff
    using may_append_authorized [of "io_uuid io" "descriptors io" "\<lambda>given lims. True" "dv_spec d" "take i ?log" eff]
      may that last_payload_take [OF assms(4)] by auto
  moreover have "\<exists>eff. result_of eff (ev_payload (?log ! i)) \<and>
          (0 < i \<and> ev_payload (?log ! (i - 1)) = EffectAuthorized eff
           \<or> 1 < i \<and> ev_payload (?log ! (i - 2)) = EffectAuthorized eff
             \<and> (\<exists>run agent lims. ev_payload (?log ! (i - 1)) = ChildStarted run agent lims))"
    if "is_result (ev_payload (?log ! i))"
  proof -
    from may_append_result [OF may that] obtain eff where res: "result_of eff (ev_payload (?log ! i))"
      and prev: "last_payload (take i ?log) = Some (EffectAuthorized eff)
        \<or> (\<exists>pre task. take i ?log = pre @ [task] \<and> last_payload pre = Some (EffectAuthorized eff)
            \<and> (\<exists>run agent lims. ev_payload task = ChildStarted run agent lims))" by blast
    from prev show ?thesis
    proof
      assume "last_payload (take i ?log) = Some (EffectAuthorized eff)"
      then show ?thesis using res last_payload_take [OF assms(4)] by blast
    next
      assume "\<exists>pre task. take i ?log = pre @ [task] \<and> last_payload pre = Some (EffectAuthorized eff)
            \<and> (\<exists>run agent lims. ev_payload task = ChildStarted run agent lims)"
      then obtain pre task run agent lims where split: "take i ?log = pre @ [task]"
        "last_payload pre = Some (EffectAuthorized eff)" "ev_payload task = ChildStarted run agent lims" by blast
      have "i = Suc (length pre)" using arg_cong [OF split(1), of length] assms(4) by simp
      then have "pre = take (i - 1) ?log" "task = ?log ! (i - 1)"
        using split(1) assms(4) by (auto simp: take_Suc_conv_app_nth)
      with split last_payload_take [of "i - 1" ?log] assms(4) res show ?thesis
        by (fastforce simp: numeral_2_eq_2)
    qed
  qed
  ultimately show ?thesis by blast
qed

theorem run_until_authorized_witness:
  "\<exists>r d' w'. run_until sample_io (\<lambda>d w. (Continue, w)) (sample_driver, 1) = Some (r, (d', w'))
     \<and> authorize canonical_ops sample_spec (Complete ''done'') [] = Allow
     \<and> ev_payload (dv_events d' ! 1) = EffectDecided (Complete ''done'')"
proof -
  obtain r d' w' where run: "run_until sample_io (\<lambda>d w. (Continue, w)) (sample_driver, 1) = Some (r, (d', w'))"
    and log: "map ev_payload (dv_events d') = [RunStarted, EffectDecided (Complete ''done''),
      EffectAuthorized (Complete ''done''), RunCompleted ''done'']"
    using sample_run by (auto simp: run_to_completion_def)
  have len: "length (dv_events sample_driver) = 1" "dv_spec sample_driver = sample_spec" "length (dv_events d') = 4"
    using arg_cong [OF log, of length] by (simp_all add: boot_def push_def driver_new_def sample_io_def)
  have two: "ev_payload (dv_events d' ! 2) = EffectAuthorized (Complete ''done'')"
    using arg_cong [OF log, of "\<lambda>xs. xs ! 2"] len by simp
  have ops: "io_uuid sample_io = canonical_ops" "descriptors sample_io = []"
    by (simp_all add: sample_io_def descriptors_def)
  from run_until_authorized [OF boot_ok run, of 2] len two ops run show ?thesis by auto
qed



end
