(* ===== verification/Workflow.thy ===== *)
theory Workflow
  imports Prelude
begin

text \<open>
  Workflows (\<open>crates/workflow-core/src\<close> and \<open>crates/harness-core/src/reduce.rs\<close>): a program is a
  tree of decisions, a history the records so far, and \<open>walk\<close> finds the next command with a cursor
  into the records. The slice \<open>records[..cursor]\<close> panics out of range, which is a value here
  (\<open>WalkPanic\<close>). The trait \<open>WorkflowDriver\<close> is the locale \<open>workflow_driver\<close>, with what \<open>transition\<close>
  relies on; it is interpreted on the program evaluator and on the two drivers of the crate.
  Variant names shared with the protocol carry \<open>W\<close>.
\<close>

section \<open>Steps and histories (step.rs, driver.rs)\<close>

record tool_spec =
  ts_name :: string
  ts_input :: string

record agent_spec =
  as_agent :: string
  as_input :: string

datatype workflow_command = ExecuteTool tool_spec | WComplete | WFail | SpawnAgent agent_spec

datatype wait_condition = WaitNone

record workflow_step =
  ws_commands :: "workflow_command list"
  ws_wait :: wait_condition

datatype wrecord = RecTool string string | RecAgentSpawned string

record history =
  records :: "wrecord list"

definition history_default :: history where
  "history_default = \<lparr>records = []\<rparr>"

fun is_counter :: "wrecord \<Rightarrow> string option" where
  "is_counter (RecTool name out) = (if name = ''counter'' then Some out else None)"
| "is_counter (RecAgentSpawned agent) = None"

fun find_map :: "('a \<Rightarrow> 'b option) \<Rightarrow> 'a list \<Rightarrow> 'b option" where
  "find_map f [] = None"
| "find_map f (x # xs) = (case f x of Some y \<Rightarrow> Some y | None \<Rightarrow> find_map f xs)"

definition counter_in :: "wrecord list \<Rightarrow> string option" where
  "counter_in rs = find_map is_counter (rev rs)"

definition history_counter :: "history \<Rightarrow> string option" where
  "history_counter h = counter_in (records h)"

section \<open>Effect ids (id.rs)\<close>

datatype wpath = Unrecorded | Zero | Nonzero

record wf_effect_id =
  eid_workflow :: string
  eid_path :: wpath
  eid_sequence :: u32

definition path_of :: "string option \<Rightarrow> wpath" where
  "path_of counter =
     (case counter of
        None \<Rightarrow> Unrecorded
      | Some out \<Rightarrow> if out = ''0'' then Zero else Nonzero)"

definition wf_effect_id :: "string \<Rightarrow> history \<Rightarrow> u32 \<Rightarrow> wf_effect_id" where
  "wf_effect_id workflow h sequence =
     \<lparr>eid_workflow = workflow, eid_path = path_of (history_counter h), eid_sequence = sequence\<rparr>"

section \<open>Programs (program.rs)\<close>

datatype decision =
    WTool string string
  | WSpawnAgent string string
  | WSeq "decision list"
  | DecComplete
  | DecFail
  | OnCounter decision decision decision

record workflow_program =
  root :: decision

definition counter_program :: workflow_program where
  "counter_program = \<lparr>root = OnCounter (WTool ''counter'' []) DecComplete DecFail\<rparr>"

datatype walk_result = Next workflow_command | Done nat | WalkPanic

text \<open>\<open>history.records.get(cursor)\<close>.\<close>

definition record_at :: "history \<Rightarrow> nat \<Rightarrow> wrecord option" where
  "record_at h cursor = (if cursor < length (records h) then Some (records h ! cursor) else None)"

text \<open>The closure \<open>recorded\<close> of \<open>OnCounter\<close>: the outer \<open>None\<close> is the panic of the slice.\<close>

definition recorded_arm :: "history \<Rightarrow> nat \<Rightarrow> 'd \<Rightarrow> 'd \<Rightarrow> 'd option option" where
  "recorded_arm h cursor zero other =
     (if length (records h) < cursor then None
      else Some (case path_of (counter_in (take cursor (records h))) of
                   Unrecorded \<Rightarrow> None | Zero \<Rightarrow> Some zero | Nonzero \<Rightarrow> Some other))"

fun walk :: "decision \<Rightarrow> history \<Rightarrow> nat \<Rightarrow> walk_result"
and walk_seq :: "decision list \<Rightarrow> history \<Rightarrow> nat \<Rightarrow> walk_result" where
  "walk (WTool name inp) h cursor =
     (case record_at h cursor of
        None \<Rightarrow> Next (ExecuteTool \<lparr>ts_name = name, ts_input = inp\<rparr>)
      | Some (RecTool rname out) \<Rightarrow> if rname = name then Done (cursor + 1) else Next WFail
      | Some (RecAgentSpawned agent) \<Rightarrow> Next WFail)"
| "walk (WSpawnAgent agent inp) h cursor =
     (case record_at h cursor of
        None \<Rightarrow> Next (SpawnAgent \<lparr>as_agent = agent, as_input = inp\<rparr>)
      | Some (RecAgentSpawned ragent) \<Rightarrow> if ragent = agent then Done (cursor + 1) else Next WFail
      | Some (RecTool rname out) \<Rightarrow> Next WFail)"
| "walk (WSeq decisions) h cursor = walk_seq decisions h cursor"
| "walk DecComplete h cursor = Next WComplete"
| "walk DecFail h cursor = Next WFail"
| "walk (OnCounter missing zero other) h cursor =
     (case recorded_arm h cursor False True of
        None \<Rightarrow> WalkPanic
      | Some (Some nonzero) \<Rightarrow> if nonzero then walk other h cursor else walk zero h cursor
      | Some None \<Rightarrow>
          (case walk missing h cursor of
             Done after \<Rightarrow>
               (case recorded_arm h after False True of
                  None \<Rightarrow> WalkPanic
                | Some (Some nonzero) \<Rightarrow> if nonzero then walk other h after else walk zero h after
                | Some None \<Rightarrow> Done after)
           | next \<Rightarrow> next))"
| "walk_seq [] h cursor = Done cursor"
| "walk_seq (d # ds) h cursor =
     (case walk d h cursor of
        Done next \<Rightarrow> walk_seq ds h next
      | Next c \<Rightarrow> Next c
      | WalkPanic \<Rightarrow> WalkPanic)"

definition evaluate_program :: "workflow_program \<Rightarrow> history \<Rightarrow> workflow_step option" where
  "evaluate_program program h =
     (case walk (root program) h 0 of
        Next command \<Rightarrow> Some \<lparr>ws_commands = [command], ws_wait = WaitNone\<rparr>
      | Done n \<Rightarrow> Some \<lparr>ws_commands = [WFail], ws_wait = WaitNone\<rparr>
      | WalkPanic \<Rightarrow> None)"

definition counter_branch :: "history \<Rightarrow> workflow_step option" where
  "counter_branch h = evaluate_program counter_program h"

definition join_branch :: "history \<Rightarrow> workflow_step option" where
  "join_branch h =
     Some \<lparr>ws_commands = [ExecuteTool \<lparr>ts_name = ''counter'', ts_input = []\<rparr>,
             ExecuteTool \<lparr>ts_name = ''counter'', ts_input = []\<rparr>], ws_wait = WaitNone\<rparr>"

record handle =
  hd_sequence :: u32
  hd_command :: workflow_command

definition spawn_handle :: "u32 \<Rightarrow> workflow_command \<Rightarrow> handle" where
  "spawn_handle sequence command = \<lparr>hd_sequence = sequence, hd_command = command\<rparr>"

section \<open>Transitions (harness-core)\<close>

datatype workflow_run = RunOpen | RunDone | RunFail | RunInvalid

fun is_tool_command :: "workflow_command \<Rightarrow> bool" where
  "is_tool_command (ExecuteTool t) = True"
| "is_tool_command _ = False"

definition transition :: "(history \<Rightarrow> workflow_step option) \<Rightarrow> history \<Rightarrow> (workflow_run \<times> workflow_command list) option" where
  "transition driver h =
     (case driver h of
        None \<Rightarrow> None
      | Some step \<Rightarrow>
          let commands = ws_commands step;
              next = (case commands of
                        [] \<Rightarrow> RunInvalid
                      | [ExecuteTool t] \<Rightarrow> RunOpen
                      | [SpawnAgent a] \<Rightarrow> RunOpen
                      | [WComplete] \<Rightarrow> RunDone
                      | [WFail] \<Rightarrow> RunFail
                      | joined \<Rightarrow> if list_all is_tool_command joined then RunOpen else RunInvalid)
          in Some (next, commands))"

section \<open>The contract of a driver\<close>

definition valid_step :: "workflow_step \<Rightarrow> bool" where
  "valid_step step = (length (ws_commands step) = 1 \<or> ws_commands step \<noteq> [] \<and> list_all is_tool_command (ws_commands step))"

locale workflow_driver =
  fixes evaluate :: "history \<Rightarrow> workflow_step option"
  assumes evaluates: "\<exists>step. evaluate h = Some step \<and> valid_step step"
begin

lemma transition_valid: "\<exists>run commands. transition evaluate h = Some (run, commands) \<and> run \<noteq> RunInvalid \<and> commands \<noteq> []"
proof -
  obtain step where step: "evaluate h = Some step" "valid_step step" using evaluates by blast
  then show ?thesis
    by (cases step) (auto simp: transition_def valid_step_def length_Suc_conv Let_def
        split: list.splits workflow_command.splits)
qed

end

section \<open>Walking\<close>

lemma record_at_append: "cursor < length (records h) \<Longrightarrow> record_at (h\<lparr>records := records h @ rs\<rparr>) cursor = record_at h cursor"
  by (simp add: record_at_def nth_append)

lemma recorded_arm_append:
  "cursor \<le> length (records h) \<Longrightarrow> recorded_arm (h\<lparr>records := records h @ rs\<rparr>) cursor z x = recorded_arm h cursor z x"
  by (simp add: recorded_arm_def)

text \<open>The walk stays inside the records and moves only forward.\<close>

fun in_range :: "history \<Rightarrow> nat \<Rightarrow> walk_result \<Rightarrow> bool" where
  "in_range h cursor (Next c) = True"
| "in_range h cursor (Done n) = (cursor \<le> n \<and> n \<le> length (records h))"
| "in_range h cursor WalkPanic = False"

lemma recorded_arm_in_range:
  "cursor \<le> length (records h) \<Longrightarrow> \<exists>a. recorded_arm h cursor False True = Some a"
  by (simp add: recorded_arm_def)

lemma in_range_step:
  assumes "in_range h cursor r" and "\<And>n. cursor \<le> n \<Longrightarrow> n \<le> length (records h) \<Longrightarrow> in_range h n (k n)"
  shows "in_range h cursor (case r of Done n \<Rightarrow> k n | Next c \<Rightarrow> Next c | WalkPanic \<Rightarrow> WalkPanic)"
proof (cases r)
  case (Done n)
  with assms have "cursor \<le> n" "in_range h n (k n)" by simp_all
  with Done show ?thesis by (cases "k n") auto
qed (use assms in simp_all)

text \<open>\<open>OnCounter\<close> in range: the arm the records before the cursor select, or \<open>missing\<close> and then the
  arm the records before its end select.\<close>

definition arm_at :: "history \<Rightarrow> nat \<Rightarrow> 'd \<Rightarrow> 'd \<Rightarrow> 'd option" where
  "arm_at h cursor zero other =
     (case path_of (counter_in (take cursor (records h))) of
        Unrecorded \<Rightarrow> None | Zero \<Rightarrow> Some zero | Nonzero \<Rightarrow> Some other)"

lemma walk_OnCounter:
  assumes "cursor \<le> length (records h)"
    and "\<And>n. walk missing h cursor = Done n \<Longrightarrow> n \<le> length (records h)"
  shows "walk (OnCounter missing zero other) h cursor =
    (case arm_at h cursor zero other of
       Some arm \<Rightarrow> walk arm h cursor
     | None \<Rightarrow>
         (case walk missing h cursor of
            Done n \<Rightarrow> (case arm_at h n zero other of Some arm \<Rightarrow> walk arm h n | None \<Rightarrow> Done n)
          | Next c \<Rightarrow> Next c
          | WalkPanic \<Rightarrow> WalkPanic))"
  using assms
  by (cases "walk missing h cursor") (simp_all add: recorded_arm_def arm_at_def split: wpath.split)

declare walk.simps(6) [simp del]

lemma arm_at_cases: "arm_at h n zero other = Some arm \<Longrightarrow> arm = zero \<or> arm = other"
  by (auto simp: arm_at_def split: wpath.splits)

lemma walk_in_range: "cursor \<le> length (records h) \<Longrightarrow> in_range h cursor (walk d h cursor)"
proof (induction d arbitrary: cursor)
  case (WSeq ds)
  have "in_range h cursor (walk_seq ds h cursor)"
    using WSeq
  proof (induction ds arbitrary: cursor)
    case (Cons d ds)
    then show ?case
      using in_range_step [of h cursor "walk d h cursor" "walk_seq ds h"] by simp
  qed simp
  then show ?case by simp
next
  case (OnCounter missing zero other)
  have m: "in_range h cursor (walk missing h cursor)" using OnCounter by simp
  have arm: "in_range h n (walk a h n)" if "n \<le> length (records h)" "arm_at h k zero other = Some a" for n k a
    using that arm_at_cases OnCounter by metis
  have "in_range h cursor (case walk missing h cursor of
            Done n \<Rightarrow> (case arm_at h n zero other of Some a \<Rightarrow> walk a h n | None \<Rightarrow> Done n)
          | Next c \<Rightarrow> Next c | WalkPanic \<Rightarrow> WalkPanic)"
    using m by (rule in_range_step) (auto split: option.split intro: arm)
  then show ?case
    using OnCounter.prems m arm
    by (subst walk_OnCounter) (auto split: option.split)
qed (auto simp: record_at_def split: option.splits wrecord.splits)

section \<open>Verdicts and bounds\<close>

fun issues :: "walk_result \<Rightarrow> bool" where
  "issues (Next (ExecuteTool t)) = True"
| "issues (Next (SpawnAgent a)) = True"
| "issues _ = False"

abbreviation longer :: "history \<Rightarrow> wrecord list \<Rightarrow> history" where
  "longer h rs \<equiv> h\<lparr>records := records h @ rs\<rparr>"

lemma arm_at_append: "cursor \<le> length (records h) \<Longrightarrow> arm_at (longer h rs) cursor z x = arm_at h cursor z x"
  by (simp add: arm_at_def)

lemma walk_seq_stable:
  assumes "\<And>d cursor. d \<in> set ds \<Longrightarrow> cursor \<le> length (records h) \<Longrightarrow> \<not> issues (walk d h cursor)
      \<Longrightarrow> walk d (longer h rs) cursor = walk d h cursor"
    and "cursor \<le> length (records h)" and "\<not> issues (walk_seq ds h cursor)"
  shows "walk_seq ds (longer h rs) cursor = walk_seq ds h cursor"
  using assms
proof (induction ds arbitrary: cursor)
  case (Cons d ds)
  show ?case
  proof (cases "walk d h cursor")
    case (Done n)
    then have "n \<le> length (records h)" using walk_in_range [OF Cons.prems(2), of d] by simp
    then show ?thesis using Cons Done by simp
  qed (use Cons in simp_all)
qed simp

lemma walk_stable:
  "cursor \<le> length (records h) \<Longrightarrow> \<not> issues (walk d h cursor) \<Longrightarrow> walk d (longer h rs) cursor = walk d h cursor"
proof (induction d arbitrary: cursor)
  case (WSeq ds)
  then show ?case using walk_seq_stable [of ds h rs cursor] by simp
next
  case (OnCounter missing zero other)
  have range: "n \<le> length (records h)" if "walk missing h cursor = Done n" for n
    using walk_in_range [OF OnCounter.prems(1), of missing] that by simp
  have arm: "walk a (longer h rs) n = walk a h n"
    if "n \<le> length (records h)" "arm_at h k zero other = Some a" "\<not> issues (walk a h n)" for n k a
    using that arm_at_cases OnCounter.IH(2,3) by metis
  have range': "n \<le> length (records (longer h rs))" if "walk missing (longer h rs) cursor = Done n" for n
    using walk_in_range [of cursor "longer h rs" missing] OnCounter.prems(1) that by simp
  have eq: "walk (OnCounter missing zero other) h cursor =
    (case arm_at h cursor zero other of
       Some arm \<Rightarrow> walk arm h cursor
     | None \<Rightarrow>
         (case walk missing h cursor of
            Done n \<Rightarrow> (case arm_at h n zero other of Some arm \<Rightarrow> walk arm h n | None \<Rightarrow> Done n)
          | Next c \<Rightarrow> Next c
          | WalkPanic \<Rightarrow> WalkPanic))"
    using OnCounter.prems(1) range by (rule walk_OnCounter)
  have eq': "walk (OnCounter missing zero other) (longer h rs) cursor =
      (case arm_at h cursor zero other of
         Some a \<Rightarrow> walk a (longer h rs) cursor
       | None \<Rightarrow>
         (case walk missing (longer h rs) cursor of
            Done n \<Rightarrow> (case arm_at (longer h rs) n zero other of Some a \<Rightarrow> walk a (longer h rs) n | None \<Rightarrow> Done n)
          | Next c \<Rightarrow> Next c
          | WalkPanic \<Rightarrow> WalkPanic))"
    using OnCounter.prems(1) range' by (subst walk_OnCounter) (simp_all add: arm_at_append)
  show ?case
  proof (cases "arm_at h cursor zero other")
    case (Some a)
    then show ?thesis using OnCounter.prems eq eq' arm by simp
  next
    case None
    then have m: "walk missing (longer h rs) cursor = walk missing h cursor"
      using OnCounter.IH(1) OnCounter.prems eq by (cases "walk missing h cursor") simp_all
    show ?thesis
    proof (cases "walk missing h cursor")
      case (Done n)
      then show ?thesis
        using None OnCounter.prems eq eq' m arm range [OF Done]
        by (cases "arm_at h n zero other") (simp_all add: arm_at_append)
    qed (use None eq eq' m in simp_all)
  qed
qed (auto simp: record_at_def nth_append split: option.splits wrecord.splits if_splits)

text \<open>The most records a decision can take.\<close>

primrec calls :: "decision \<Rightarrow> nat" where
  "calls (WTool name inp) = 1"
| "calls (WSpawnAgent agent inp) = 1"
| "calls (WSeq ds) = sum_list (map calls ds)"
| "calls DecComplete = 0"
| "calls DecFail = 0"
| "calls (OnCounter missing zero other) = calls missing + max (calls zero) (calls other)"

definition takes_at_most :: "history \<Rightarrow> nat \<Rightarrow> nat \<Rightarrow> walk_result \<Rightarrow> bool" where
  "takes_at_most h cursor k r =
     ((issues r \<longrightarrow> length (records h) < cursor + k) \<and> (\<forall>n. r = Done n \<longrightarrow> n \<le> cursor + k))"

lemma takes_more: "takes_at_most h cursor k r \<Longrightarrow> k \<le> k' \<Longrightarrow> takes_at_most h cursor k' r"
  by (auto simp: takes_at_most_def)

lemma takes_step:
  assumes "takes_at_most h cursor k r"
    and "\<And>n. r = Done n \<Longrightarrow> takes_at_most h n k' (f n)"
  shows "takes_at_most h cursor (k + k') (case r of Done n \<Rightarrow> f n | Next c \<Rightarrow> Next c | WalkPanic \<Rightarrow> WalkPanic)"
  using assms by (cases r) (fastforce simp: takes_at_most_def)+

lemma walk_takes: "cursor \<le> length (records h) \<Longrightarrow> takes_at_most h cursor (calls d) (walk d h cursor)"
proof (induction d arbitrary: cursor)
  case (WSeq ds)
  have "takes_at_most h cursor (sum_list (map calls ds)) (walk_seq ds h cursor)"
    using WSeq
  proof (induction ds arbitrary: cursor)
    case (Cons d ds)
    have "n \<le> length (records h)" if "walk d h cursor = Done n" for n
      using walk_in_range [OF Cons.prems(2), of d] that by simp
    then show ?case
      using takes_step [of h cursor "calls d" "walk d h cursor" "sum_list (map calls ds)" "walk_seq ds h"] Cons
      by simp
  qed (simp add: takes_at_most_def)
  then show ?case by simp
next
  case (OnCounter missing zero other)
  have range: "n \<le> length (records h)" if "walk missing h cursor = Done n" for n
    using walk_in_range [OF OnCounter.prems(1), of missing] that by simp
  have arm: "takes_at_most h n (max (calls zero) (calls other)) (walk a h n)"
    if "n \<le> length (records h)" "arm_at h k zero other = Some a" for n k a
    using that arm_at_cases OnCounter.IH(2,3) takes_more by (metis max.cobounded1 max.cobounded2)
  have missing: "takes_at_most h cursor (calls missing + max (calls zero) (calls other))
     (case walk missing h cursor of
        Done n \<Rightarrow> (case arm_at h n zero other of Some a \<Rightarrow> walk a h n | None \<Rightarrow> Done n)
      | Next c \<Rightarrow> Next c | WalkPanic \<Rightarrow> WalkPanic)"
    using OnCounter.IH(1) [OF OnCounter.prems]
  proof (rule takes_step)
    show "takes_at_most h n (max (calls zero) (calls other))
        (case arm_at h n zero other of Some a \<Rightarrow> walk a h n | None \<Rightarrow> Done n)"
      if "walk missing h cursor = Done n" for n
      using arm [OF range [OF that]] by (cases "arm_at h n zero other") (auto simp: takes_at_most_def)
  qed
  have eq: "walk (OnCounter missing zero other) h cursor =
    (case arm_at h cursor zero other of
       Some arm \<Rightarrow> walk arm h cursor
     | None \<Rightarrow>
         (case walk missing h cursor of
            Done n \<Rightarrow> (case arm_at h n zero other of Some arm \<Rightarrow> walk arm h n | None \<Rightarrow> Done n)
          | Next c \<Rightarrow> Next c
          | WalkPanic \<Rightarrow> WalkPanic))"
    using OnCounter.prems range by (rule walk_OnCounter)
  show ?case
  proof (cases "arm_at h cursor zero other")
    case (Some a)
    then show ?thesis
      using takes_more [OF arm [OF OnCounter.prems Some] le_add2, of "calls missing"] eq by simp
  qed (use missing eq in simp)
qed (auto simp: takes_at_most_def record_at_def split: option.splits wrecord.splits)

section \<open>The drivers of the crate keep the contract\<close>

lemma evaluate_program_cases:
  "\<exists>command. evaluate_program program h = Some \<lparr>ws_commands = [command], ws_wait = WaitNone\<rparr>
     \<and> (walk (root program) h 0 = Next command \<or> (\<exists>n. walk (root program) h 0 = Done n) \<and> command = WFail)"
  using walk_in_range [of 0 h "root program"] by (cases "walk (root program) h 0") (auto simp: evaluate_program_def)

interpretation program_driver: workflow_driver "evaluate_program program" for program
proof
  fix h
  show "\<exists>step. evaluate_program program h = Some step \<and> valid_step step"
    using evaluate_program_cases [of program h] by (auto simp: valid_step_def)
qed

interpretation counter_driver: workflow_driver counter_branch
proof
  fix h
  show "\<exists>step. counter_branch h = Some step \<and> valid_step step"
    unfolding counter_branch_def by (rule program_driver.evaluates)
qed

interpretation join_driver: workflow_driver join_branch
  by unfold_locales (simp add: join_branch_def valid_step_def)

fun verdict :: "workflow_command \<Rightarrow> workflow_run" where
  "verdict (ExecuteTool t) = RunOpen"
| "verdict (SpawnAgent a) = RunOpen"
| "verdict WComplete = RunDone"
| "verdict WFail = RunFail"

lemma transition_program:
  obtains c where "transition (evaluate_program program) h = Some (verdict c, [c])"
    "walk (root program) h 0 = Next c \<or> (\<exists>n. walk (root program) h 0 = Done n) \<and> c = WFail"
proof -
  obtain c where "evaluate_program program h = Some \<lparr>ws_commands = [c], ws_wait = WaitNone\<rparr>"
    "walk (root program) h 0 = Next c \<or> (\<exists>n. walk (root program) h 0 = Done n) \<and> c = WFail"
    using evaluate_program_cases [of program h] by blast
  then show thesis by (intro that [of c]) (cases c; simp add: transition_def)+
qed

lemma verdict_open: "verdict c = RunOpen \<longleftrightarrow> issues (Next c)"
  by (cases c) simp_all

lemma issues_open:
  assumes "issues (walk (root program) h 0)" and "transition (evaluate_program program) h = Some (run, commands)"
  shows "run = RunOpen"
proof -
  obtain c where "transition (evaluate_program program) h = Some (verdict c, [c])"
    "walk (root program) h 0 = Next c \<or> (\<exists>n. walk (root program) h 0 = Done n) \<and> c = WFail"
    by (rule transition_program)
  with assms show ?thesis by (auto simp: verdict_open)
qed

section \<open>Properties\<close>

text \<open>A workflow program is evaluated without a panic on every history, to one command; the three
  drivers of the crate (a program, the counter branch, the join) give a step that a run can take,
  never \<open>Invalid\<close>.\<close>

theorem workflow_always_steps:
  "(\<exists>run command. transition (evaluate_program program) h = Some (run, [command]) \<and> run \<noteq> RunInvalid)
   \<and> (\<exists>run commands. transition counter_branch h = Some (run, commands) \<and> run \<noteq> RunInvalid)
   \<and> (\<exists>commands. transition join_branch h = Some (RunOpen, commands) \<and> length commands = 2)"
proof -
  have "\<exists>run command. transition (evaluate_program program) h = Some (run, [command]) \<and> run \<noteq> RunInvalid"
  proof -
    obtain c where "transition (evaluate_program program) h = Some (verdict c, [c])"
      by (rule transition_program)
    moreover have "verdict c \<noteq> RunInvalid" by (cases c) simp_all
    ultimately show ?thesis by blast
  qed
  moreover have "transition join_branch h = Some (RunOpen, ws_commands (the (join_branch h)))"
    by (simp add: transition_def join_branch_def)
  ultimately show ?thesis
    using counter_driver.transition_valid [of h] by (auto simp: join_branch_def)
qed

text \<open>A verdict is final: once a program's run completed or failed on a history, it has the same
  verdict and command on every longer history.\<close>

theorem workflow_verdict_final:
  assumes "transition (evaluate_program program) h = Some (run, commands)" and "run \<noteq> RunOpen"
  shows "transition (evaluate_program program) (h\<lparr>records := records h @ rs\<rparr>) = Some (run, commands)"
proof -
  have "\<not> issues (walk (root program) h 0)" using issues_open assms by blast
  then have "walk (root program) (h\<lparr>records := records h @ rs\<rparr>) 0 = walk (root program) h 0"
    by (intro walk_stable) simp_all
  with assms(1) show ?thesis by (simp add: transition_def evaluate_program_def)
qed

theorem workflow_verdict_final_witness:
  "transition (evaluate_program counter_program)
     (\<lparr>records = [RecTool ''counter'' ''0'']\<rparr>\<lparr>records := [RecTool ''counter'' ''0''] @ [RecAgentSpawned ''a'']\<rparr>)
   = Some (RunDone, [WComplete])"
  using workflow_verdict_final [of counter_program "\<lparr>records = [RecTool ''counter'' ''0'']\<rparr>" RunDone
      "[WComplete]" "[RecAgentSpawned ''a'']"]
  by (simp add: transition_def evaluate_program_def counter_program_def walk.simps(6) recorded_arm_def path_of_def
      counter_in_def record_at_def)

text \<open>A program's run ends: with as many records as its tool calls and spawns, counted along
  its longest branch, it has completed or failed, whatever the records say.\<close>

theorem workflow_run_ends:
  assumes "calls (root program) \<le> length (records h)"
  shows "\<exists>run command. transition (evaluate_program program) h = Some (run, [command])
    \<and> (run = RunDone \<and> command = WComplete \<or> run = RunFail \<and> command = WFail)"
proof -
  have "\<not> issues (walk (root program) h 0)"
    using walk_takes [of 0 h "root program"] assms by (auto simp: takes_at_most_def)
  moreover obtain c where c: "transition (evaluate_program program) h = Some (verdict c, [c])"
    "walk (root program) h 0 = Next c \<or> (\<exists>n. walk (root program) h 0 = Done n) \<and> c = WFail"
    by (rule transition_program)
  ultimately have "c = WComplete \<or> c = WFail" by (cases c) auto
  with c(1) show ?thesis by auto
qed

theorem workflow_run_ends_witness:
  "\<exists>run command. transition (evaluate_program counter_program) \<lparr>records = [RecTool ''counter'' ''7'']\<rparr>
     = Some (run, [command]) \<and> run \<noteq> RunOpen"
  using workflow_run_ends [of counter_program "\<lparr>records = [RecTool ''counter'' ''7'']\<rparr>"]
  by (force simp: counter_program_def)

end
