(* ===== verification/Journal.thy ===== *)
theory Journal
  imports Workflow Run_Identity
begin

text \<open>
  The journal of a workflow run (\<open>crates/runtime-tokio/src/journal.rs\<close>): a file of framed records. A file is its
  bytes. What the operating system does with a call (that it fails, how much of a write was made) is an
  argument of the operation, and the CRC-32 of the crate is a parameter.
\<close>

section \<open>Numbers in little-endian bytes\<close>

definition from_le_bytes :: "char \<Rightarrow> char \<Rightarrow> char \<Rightarrow> char \<Rightarrow> u32" where
  "from_le_bytes a b c d = of_nat (of_char a + 256 * (of_char b + 256 * (of_char c + 256 * of_char d)))"

fun take_u32 :: "string \<Rightarrow> (u32 \<times> string) option" where
  "take_u32 (a # b # c # d # rest) = Some (from_le_bytes a b c d, rest)"
| "take_u32 _ = None"

section \<open>Frames\<close>

datatype io_error = InvalidData string | InvalidInput string | OsError string

definition MAGIC :: string where
  "MAGIC = ''gol-journal''"

definition VERSION :: u32 where
  "VERSION = 1"

definition START_KIND :: char where
  "START_KIND = CHR 0x00"

definition TOOL_RESULT :: char where
  "TOOL_RESULT = CHR 0x01"

definition AGENT_SPAWNED :: char where
  "AGENT_SPAWNED = CHR 0x02"

definition MAX_LEN :: u32 where
  "MAX_LEN = push_bit 20 16"

definition too_long :: io_error where
  "too_long = InvalidInput ''record longer than a frame holds''"

definition put_string :: "string \<Rightarrow> string \<Rightarrow> io_error + string" where
  "put_string payload words =
     (if length words < 2 ^ 32 then Inr (payload @ to_le_bytes (of_nat (length words)) @ words) else Inl too_long)"

definition framed :: "(string \<Rightarrow> u32) \<Rightarrow> char \<Rightarrow> string \<Rightarrow> string" where
  "framed crc kind payload =
     (let len = of_nat (1 + length payload); body = to_le_bytes len @ [kind] @ payload
      in body @ to_le_bytes (crc body))"

definition payload_of :: "wrecord \<Rightarrow> io_error + char \<times> string" where
  "payload_of r =
     (case r of
        RecTool name out \<Rightarrow>
          (case put_string [] name of
             Inl e \<Rightarrow> Inl e
           | Inr payload \<Rightarrow>
               (case put_string payload out of Inl e \<Rightarrow> Inl e | Inr payload \<Rightarrow> Inr (TOOL_RESULT, payload)))
      | RecAgentSpawned agent \<Rightarrow>
          (case put_string [] agent of Inl e \<Rightarrow> Inl e | Inr payload \<Rightarrow> Inr (AGENT_SPAWNED, payload)))"

definition frame_of :: "(string \<Rightarrow> u32) \<Rightarrow> wrecord \<Rightarrow> io_error + string" where
  "frame_of crc r =
     (case payload_of r of
        Inl e \<Rightarrow> Inl e
      | Inr (kind, payload) \<Rightarrow> if unat MAX_LEN < 1 + length payload then Inl too_long else Inr (framed crc kind payload))"

definition start_frame :: "(string \<Rightarrow> u32) \<Rightarrow> string" where
  "start_frame crc = framed crc START_KIND (MAGIC @ to_le_bytes VERSION)"

section \<open>Reading frames\<close>

definition split_at_checked :: "nat \<Rightarrow> string \<Rightarrow> (string \<times> string) option" where
  "split_at_checked n bytes = (if n \<le> length bytes then Some (take n bytes, drop n bytes) else None)"

definition take_string :: "string \<Rightarrow> io_error + string \<times> string" where
  "take_string bytes =
     (case take_u32 bytes of
        None \<Rightarrow> Inl (InvalidData ''record payload'')
      | Some (len, rest) \<Rightarrow>
          (case split_at_checked (unat len) rest of
             None \<Rightarrow> Inl (InvalidData ''record payload'')
           | Some (words, rest) \<Rightarrow> if is_utf8 words then Inr (words, rest) else Inl (InvalidData ''record payload'')))"

definition record_of :: "char \<Rightarrow> string \<Rightarrow> io_error + wrecord" where
  "record_of kind payload =
     (let whole = (\<lambda>r rest. if rest = [] then Inr r else Inl (InvalidData ''record payload'')) in
      if kind = TOOL_RESULT then
        (case take_string payload of
           Inl e \<Rightarrow> Inl e
         | Inr (name, rest) \<Rightarrow> (case take_string rest of Inl e \<Rightarrow> Inl e | Inr (out, rest) \<Rightarrow> whole (RecTool name out) rest))
      else if kind = AGENT_SPAWNED then
        (case take_string payload of Inl e \<Rightarrow> Inl e | Inr (agent, rest) \<Rightarrow> whole (RecAgentSpawned agent) rest)
      else Inl (InvalidData ''record kind''))"

definition next_frame :: "(string \<Rightarrow> u32) \<Rightarrow> string \<Rightarrow> io_error + (wrecord \<times> nat) option" where
  "next_frame crc bytes =
     (case take_u32 bytes of
        None \<Rightarrow> Inr None
      | Some (len, after_len) \<Rightarrow>
          if len = 0 \<or> MAX_LEN < len then Inl (InvalidData ''record length'')
          else
            (case split_at_checked (4 + unat len) bytes of
               None \<Rightarrow> Inr None
             | Some (body, rest) \<Rightarrow>
                 (case take_u32 rest of
                    None \<Rightarrow> Inr None
                  | Some (check, after) \<Rightarrow>
                      if crc body \<noteq> check then Inl (InvalidData ''record checksum'')
                      else
                        (case record_of (body ! 4) (drop 5 body) of
                           Inl e \<Rightarrow> Inl e
                         | Inr r \<Rightarrow> Inr (Some (r, length body + 4))))))"

lemma next_frame_size: "next_frame crc bytes = Inr (Some (r, n)) \<Longrightarrow> 8 < n \<and> n \<le> length bytes"
proof -
  have u32: "length rest + 4 = length xs" if "take_u32 xs = Some (k, rest)" for xs k rest
    using that by (cases xs rule: take_u32.cases) auto
  assume "next_frame crc bytes = Inr (Some (r, n))"
  then show ?thesis
    by (auto simp: next_frame_def split_at_checked_def unat_gt_0 split: option.splits if_splits sum.splits dest!: u32) linarith
qed

text \<open>The loop of \<open>decode\<close>: the records of the whole frames and their length.\<close>

function decode_frames :: "(string \<Rightarrow> u32) \<Rightarrow> string \<Rightarrow> io_error + wrecord list \<times> nat" where
  "decode_frames crc bytes =
     (case next_frame crc bytes of
        Inl e \<Rightarrow> Inl e
      | Inr None \<Rightarrow> Inr ([], 0)
      | Inr (Some (r, size_n)) \<Rightarrow>
          (case decode_frames crc (drop size_n bytes) of
             Inl e \<Rightarrow> Inl e
           | Inr (rs, whole) \<Rightarrow> Inr (r # rs, size_n + whole)))"
  by pat_completeness auto
termination
  by (relation "measure (\<lambda>(crc, bytes). length bytes)") (auto dest!: next_frame_size)

declare decode_frames.simps [simp del]

definition decode :: "(string \<Rightarrow> u32) \<Rightarrow> string \<Rightarrow> io_error + wrecord list \<times> nat" where
  "decode crc bytes =
     (let start = start_frame crc in
      if length bytes < length start \<and> is_prefix bytes start then Inr ([], 0)
      else if \<not> is_prefix start bytes then Inl (InvalidData ''not a gol-journal v1 file'')
      else
        (case decode_frames crc (drop (length start) bytes) of
           Inl e \<Rightarrow> Inl e
         | Inr (rs, whole) \<Rightarrow> Inr (rs, length start + whole)))"

section \<open>The file\<close>

text \<open>What the calls of an append come to: the first \<open>metadata\<close>, the write (it failed after some bytes, not all of them), the second
  \<open>metadata\<close>, and \<open>set_len\<close>; \<open>None\<close> where the call succeeds.\<close>

record append_io =
  ai_len :: "string option"
  ai_write :: "(nat \<times> string) option"
  ai_again :: "string option"
  ai_cut :: "string option"

definition append_frame :: "append_io \<Rightarrow> string \<Rightarrow> string \<Rightarrow> (io_error + unit) \<times> string" where
  "append_frame io bytes file =
     (case ai_len io of
        Some e \<Rightarrow> (Inl (OsError e), file)
      | None \<Rightarrow>
          (case ai_write io of
             None \<Rightarrow> (Inr (), file @ bytes)
           | Some (n, e) \<Rightarrow>
               (let file1 = file @ take (min n (length bytes - 1)) bytes in
                case ai_again io of
                  Some e1 \<Rightarrow> (Inl (OsError e1), file1)
                | None \<Rightarrow>
                    if length file1 \<noteq> length file
                    then (case ai_cut io of Some e2 \<Rightarrow> (Inl (OsError e2), file1) | None \<Rightarrow> (Inl (OsError e), take (length file) file1))
                    else (Inl (OsError e), file1))))"

definition commit :: "(string \<Rightarrow> u32) \<Rightarrow> append_io \<Rightarrow> wrecord \<Rightarrow> string \<Rightarrow> (io_error + unit) \<times> string" where
  "commit crc io r file = (case frame_of crc r of Inl e \<Rightarrow> (Inl e, file) | Inr bytes \<Rightarrow> append_frame io bytes file)"

text \<open>\<open>None\<close> for the read: it succeeds.\<close>

definition journal_history :: "(string \<Rightarrow> u32) \<Rightarrow> string option \<Rightarrow> string \<Rightarrow> io_error + history" where
  "journal_history crc read_error file =
     (case read_error of
        Some e \<Rightarrow> Inl (OsError e)
      | None \<Rightarrow> (case decode crc file of Inl e \<Rightarrow> Inl e | Inr (rs, whole) \<Rightarrow> Inr \<lparr>records = rs\<rparr>))"

definition journal_open :: "(string \<Rightarrow> u32) \<Rightarrow> string option \<Rightarrow> string option \<Rightarrow> append_io \<Rightarrow> string \<Rightarrow> (io_error + unit) \<times> string" where
  "journal_open crc read_error cut_error io file =
     (case read_error of
        Some e \<Rightarrow> (Inl (OsError e), file)
      | None \<Rightarrow>
          (case decode crc file of
             Inl e \<Rightarrow> (Inl e, file)
           | Inr (rs, whole) \<Rightarrow>
               (case (if whole < length file then cut_error else None) of
                  Some e \<Rightarrow> (Inl (OsError e), file)
                | None \<Rightarrow>
                    (let file1 = take whole file in
                     if whole = 0 then append_frame io (start_frame crc) file1 else (Inr (), file1)))))"

section \<open>Numbers read back\<close>

lemma to_le_bytes_eq: "to_le_bytes n = map (\<lambda>i. char_of (unat n div 256 ^ i)) [0, 1, 2, 3]"
proof -
  have "[0..<4] = [0, 1, 2, 3]" by (simp add: upt_rec)
  then show ?thesis by (simp add: to_le_bytes_def digits_def rev_map char_of_mod_256)
qed

lemma le_digits: "(n :: nat) < 256 ^ 4 \<Longrightarrow> n mod 256 + 256 * (n div 256 mod 256 + 256 * (n div 65536 mod 256 + 256 * (n div 16777216 mod 256))) = n"
proof -
  assume "n < 256 ^ 4"
  then have "n div 256 div 256 div 256 < 256" by (simp add: div_less_iff_less_mult)
  moreover have "n div 65536 = n div 256 div 256" "n div 16777216 = n div 256 div 256 div 256" by (simp_all add: div_mult2_eq [symmetric])
  ultimately show ?thesis
    using mult_div_mod_eq [of 256 n] mult_div_mod_eq [of 256 "n div 256"] mult_div_mod_eq [of 256 "n div 256 div 256"] by simp
qed

lemma of_char_lt: "(of_char c :: nat) < 256"
  by (metis of_char_mod_256 mod_less_divisor zero_less_numeral)

lemma low_digit: "(a :: nat) < 256 \<Longrightarrow> (a + 256 * m) mod 256 = a \<and> (a + 256 * m) div 256 = m"
  by simp

lemma char_low: "char_of (of_char c + 256 * m :: nat) = c"
  by (metis low_digit of_char_lt char_of_mod_256 char_of_char)

lemma le_value:
  fixes a b c d :: nat
  assumes "a < 256" "b < 256" "c < 256" "d < 256"
  shows "a + 256 * (b + 256 * (c + 256 * d)) < 2 ^ 32" "(a + 256 * (b + 256 * (c + 256 * d))) div 256 = b + 256 * (c + 256 * d)"
    "(a + 256 * (b + 256 * (c + 256 * d))) div 65536 = c + 256 * d" "(a + 256 * (b + 256 * (c + 256 * d))) div 16777216 = d"
proof -
  let ?n = "a + 256 * (b + 256 * (c + 256 * d))"
  have "c + 256 * d < 65536" using assms(3,4) by simp
  then have "b + 256 * (c + 256 * d) < 16777216" using assms(2) by simp
  then show "?n < 2 ^ 32" using assms(1) by simp
  show one: "?n div 256 = b + 256 * (c + 256 * d)" using low_digit [OF assms(1)] by blast
  then have two: "?n div 256 div 256 = c + 256 * d" using low_digit [OF assms(2)] by metis
  then have "?n div 256 div 256 div 256 = d" using low_digit [OF assms(3)] by metis
  then show "?n div 65536 = c + 256 * d" "?n div 16777216 = d" using two by (simp_all only: div_mult2_eq [symmetric], simp_all)
qed

lemma take_u32_le [simp]: "take_u32 (to_le_bytes n @ rest) = Some (n, rest)"
proof -
  have "unat n < 256 ^ 4" using unsigned_less [of n] by simp
  from arg_cong [OF le_digits [OF this], of "of_nat :: nat \<Rightarrow> u32"]
  have "of_nat (unat n mod 256 + 256 * (unat n div 256 mod 256 + 256 * (unat n div 65536 mod 256 + 256 * (unat n div 16777216 mod 256)))) = n"
    by (simp only: of_nat_unat ucast_id)
  then show ?thesis by (simp add: to_le_bytes_eq from_le_bytes_def of_char_of)
qed

lemma take_u32_prefix: "take_u32 xs = Some (n, rest) \<Longrightarrow> xs = to_le_bytes n @ rest"
proof (cases xs rule: take_u32.cases)
  case (1 a b c d r)
  assume "take_u32 xs = Some (n, rest)"
  with 1 have n: "n = from_le_bytes a b c d" "rest = r" by auto
  let ?a = "of_char a :: nat" and ?b = "of_char b :: nat" and ?c = "of_char c :: nat" and ?d = "of_char d :: nat"
  have lt: "?a < 256" "?b < 256" "?c < 256" "?d < 256" by (simp_all add: of_char_lt)
  let ?n = "?a + 256 * (?b + 256 * (?c + 256 * ?d))"
  note val = le_value [OF lt]
  have un: "unat n = ?n" using val(1) unfolding n(1) from_le_bytes_def by (intro unat_of_nat_small) simp
  have "char_of (unat n div 256) = b" "char_of (unat n div 65536) = c" "char_of (unat n div 16777216) = d" "char_of (unat n) = a"
    unfolding un val(2,3,4) by (simp_all only: char_low char_of_char)
  then show ?thesis using 1 n by (simp add: to_le_bytes_eq)
qed auto

section \<open>Frames read back\<close>

text \<open>A Rust string is valid UTF-8.\<close>

fun utf8_record :: "wrecord \<Rightarrow> bool" where
  "utf8_record (RecTool name out) \<longleftrightarrow> is_utf8 name \<and> is_utf8 out"
| "utf8_record (RecAgentSpawned agent) \<longleftrightarrow> is_utf8 agent"

lemma take_string_iff:
  "take_string bytes = Inr (words, rest) \<longleftrightarrow>
     length words < 2 ^ 32 \<and> is_utf8 words \<and> bytes = to_le_bytes (of_nat (length words)) @ words @ rest"
proof
  assume "take_string bytes = Inr (words, rest)"
  then obtain len after where t: "take_u32 bytes = Some (len, after)" "unat len \<le> length after" "words = take (unat len) after"
      "rest = drop (unat len) after" "is_utf8 words"
    by (auto simp: take_string_def split_at_checked_def split: option.splits if_splits)
  have n: "length words = unat len" using t(2,3) by simp
  then have "of_nat (length words) = len" by simp
  moreover have "unat len < 2 ^ 32" using unsigned_less [of len] by simp
  ultimately show "length words < 2 ^ 32 \<and> is_utf8 words \<and> bytes = to_le_bytes (of_nat (length words)) @ words @ rest"
    using take_u32_prefix [OF t(1)] t n by simp
next
  assume a: "length words < 2 ^ 32 \<and> is_utf8 words \<and> bytes = to_le_bytes (of_nat (length words)) @ words @ rest"
  then have "unat (of_nat (length words) :: u32) = length words" by (intro unat_of_nat_small) simp
  with a show "take_string bytes = Inr (words, rest)" by (simp add: take_string_def split_at_checked_def)
qed

lemma record_of_iff: "record_of kind payload = Inr r \<longleftrightarrow> payload_of r = Inr (kind, payload) \<and> utf8_record r"
proof (cases r)
  case (RecTool name out)
  have "record_of kind payload = Inr r \<longleftrightarrow> kind = TOOL_RESULT \<and> (\<exists>rest. take_string payload = Inr (name, rest) \<and> take_string rest = Inr (out, []))"
    using RecTool by (auto simp: record_of_def Let_def split: sum.splits if_splits)
  also have "\<dots> \<longleftrightarrow> payload_of r = Inr (kind, payload) \<and> utf8_record r"
    using RecTool by (auto simp: take_string_iff payload_of_def put_string_def split: if_splits)
  finally show ?thesis .
next
  case (RecAgentSpawned agent)
  have "record_of kind payload = Inr r \<longleftrightarrow> kind = AGENT_SPAWNED \<and> take_string payload = Inr (agent, [])"
    using RecAgentSpawned by (auto simp: record_of_def Let_def TOOL_RESULT_def AGENT_SPAWNED_def split: sum.splits if_splits)
  also have "\<dots> \<longleftrightarrow> payload_of r = Inr (kind, payload) \<and> utf8_record r"
    using RecAgentSpawned by (auto simp: take_string_iff payload_of_def put_string_def split: if_splits)
  finally show ?thesis .
qed

lemma frame_of_shape:
  assumes "frame_of crc r = Inr bytes"
  obtains len kind payload body where "payload_of r = Inr (kind, payload)" "unat len = 1 + length payload" "len \<le> MAX_LEN"
    "body = to_le_bytes len @ kind # payload" "bytes = body @ to_le_bytes (crc body)"
proof -
  from assms obtain kind payload where p: "payload_of r = Inr (kind, payload)" "1 + length payload \<le> unat MAX_LEN" "bytes = framed crc kind payload"
    by (auto simp: frame_of_def split: sum.splits if_splits)
  let ?len = "of_nat (1 + length payload) :: u32"
  have "unat MAX_LEN < 2 ^ 32" using unsigned_less [of MAX_LEN] by simp
  then have "unat ?len = 1 + length payload" using p(2) by (intro unat_of_nat_small) simp
  moreover from this p(2) have "?len \<le> MAX_LEN" by (simp add: word_le_nat_alt)
  ultimately show thesis using p that [of kind payload ?len] by (simp add: framed_def Let_def)
qed

lemma next_frame_whole:
  assumes "frame_of crc r = Inr bytes" and "utf8_record r"
  shows "next_frame crc (bytes @ rest) = Inr (Some (r, length bytes))"
proof -
  obtain len kind payload body where f: "payload_of r = Inr (kind, payload)" "unat len = 1 + length payload" "len \<le> MAX_LEN"
    "body = to_le_bytes len @ kind # payload" "bytes = body @ to_le_bytes (crc body)"
    using frame_of_shape [OF assms(1)] .
  have body: "length body = 4 + unat len" "body ! 4 = kind" "drop 5 body = payload" using f(2,4) by (simp_all add: nth_append)
  have "len \<noteq> 0" using f(2) by (metis unat_0 add_is_0 zero_neq_one)
  moreover have "take_u32 (bytes @ rest) = Some (len, kind # payload @ to_le_bytes (crc body) @ rest)" unfolding f(5) by (simp add: f(4))
  moreover have "split_at_checked (4 + unat len) (bytes @ rest) = Some (body, to_le_bytes (crc body) @ rest)"
    unfolding f(5) using body(1) by (simp add: split_at_checked_def)
  moreover have "record_of kind payload = Inr r" using f(1) assms(2) by (simp add: record_of_iff)
  ultimately show ?thesis
    using f(3) body f(5) by (simp add: next_frame_def)
qed

text \<open>A strict prefix of a frame is a torn tail, not an error.\<close>

lemma next_frame_torn:
  assumes "frame_of crc r = Inr bytes" and "k < length bytes"
  shows "next_frame crc (take k bytes) = Inr None"
proof -
  obtain len kind payload body where f: "payload_of r = Inr (kind, payload)" "unat len = 1 + length payload" "len \<le> MAX_LEN"
    "body = to_le_bytes len @ kind # payload" "bytes = body @ to_le_bytes (crc body)"
    using frame_of_shape [OF assms(1)] .
  have len: "length body = 4 + unat len" "len \<noteq> 0" using f(2,4) by (simp, metis unat_0 f(2) add_is_0 zero_neq_one)
  have short: "take_u32 xs = None" if "length xs < 4" for xs using that by (cases xs rule: take_u32.cases) auto
  show ?thesis
  proof (cases "k < 4")
    case True
    then show ?thesis by (simp add: next_frame_def short)
  next
    case False
    then have "take k bytes = to_le_bytes len @ take (k - 4) (kind # payload @ to_le_bytes (crc body))"
      unfolding f(5) by (simp add: f(4))
    then have "take_u32 (take k bytes) = Some (len, take (k - 4) (kind # payload @ to_le_bytes (crc body)))" by simp
    moreover have "split_at_checked (4 + unat len) (take k bytes) = (if k < 4 + unat len then None else Some (body, drop (4 + unat len) (take k bytes)))"
      using assms(2) len f(5) by (auto simp: split_at_checked_def min_def)
    moreover have "k \<ge> 4 + unat len \<Longrightarrow> take_u32 (drop (4 + unat len) (take k bytes)) = None"
      using assms(2) len f(5) by (intro short) auto
    ultimately show ?thesis using f(3) len(2) by (simp add: next_frame_def)
  qed
qed

lemma next_frame_sound:
  assumes "next_frame crc bytes = Inr (Some (r, n))"
  shows "frame_of crc r = Inr (take n bytes)" "utf8_record r" "n \<le> length bytes"
proof -
  from assms obtain len rest0 body rest tag rest1 where f: "take_u32 bytes = Some (len, rest0)" "len \<noteq> 0" "len \<le> MAX_LEN"
    "4 + unat len \<le> length bytes" "body = take (4 + unat len) bytes" "rest = drop (4 + unat len) bytes" "take_u32 rest = Some (tag, rest1)"
    "crc body = tag" "record_of (body ! 4) (drop 5 body) = Inr r" "n = length body + 4"
    by (auto simp: next_frame_def split_at_checked_def not_less split: option.splits if_splits sum.splits)
  have p: "payload_of r = Inr (body ! 4, drop 5 body)" and u: "utf8_record r" using f(9) by (simp_all add: record_of_iff)
  have lb: "length body = 4 + unat len" using f(4,5) by simp
  have pos: "0 < unat len" using f(2) by (simp add: unat_gt_0)
  have "take 4 body = to_le_bytes len" using take_u32_prefix [OF f(1)] f(5) pos by (simp add: take_append)
  moreover have "drop 4 body = body ! 4 # drop 5 body" using lb pos by (metis Cons_nth_drop_Suc add_Suc_right eval_nat_numeral(3) less_add_same_cancel1 numeral_eq_Suc pred_numeral_simps(3) Suc_eq_plus1 plus_nat.add_0)
  ultimately have body: "body = to_le_bytes len @ body ! 4 # drop 5 body" by (metis append_take_drop_id)
  have pl: "1 + length (drop 5 body) = unat len" using lb pos by simp
  then have "of_nat (1 + length (drop 5 body)) = len" by (metis of_nat_unat ucast_id)
  moreover have "rest = to_le_bytes tag @ rest1" using take_u32_prefix [OF f(7)] .
  then have "take n bytes = body @ to_le_bytes tag" using f(5,6,10) lb by (metis append_take_drop_id append_eq_conv_conj append.assoc length_append to_le_bytes_length)
  ultimately have "take n bytes = framed crc (body ! 4) (drop 5 body)" using body f(8) by (simp add: framed_def Let_def)
  moreover have "1 + length (drop 5 body) \<le> unat MAX_LEN" using pl f(3) by (simp add: word_le_nat_alt)
  ultimately show "frame_of crc r = Inr (take n bytes)" using p by (simp add: frame_of_def)
  show "utf8_record r" by (fact u)
  show "n \<le> length bytes" using next_frame_size [OF assms] by simp
qed

section \<open>The records of a file\<close>

definition fits_frame :: "wrecord \<Rightarrow> bool" where
  "fits_frame r \<longleftrightarrow> utf8_record r \<and> (\<forall>crc. \<not> isl (frame_of crc r))"

text \<open>The frame of a record that fits, and a file of whole frames.\<close>

definition frame_bytes :: "(string \<Rightarrow> u32) \<Rightarrow> wrecord \<Rightarrow> string" where
  "frame_bytes crc r = (case frame_of crc r of Inl e \<Rightarrow> [] | Inr bytes \<Rightarrow> bytes)"

definition file_image :: "(string \<Rightarrow> u32) \<Rightarrow> wrecord list \<Rightarrow> string" where
  "file_image crc rs = start_frame crc @ concat (map (frame_bytes crc) rs)"

lemma frame_of_fits: "fits_frame r \<Longrightarrow> frame_of crc r = Inr (frame_bytes crc r) \<and> utf8_record r"
  by (auto simp: fits_frame_def frame_bytes_def split: sum.split dest: spec [of _ crc])

lemma frame_fits: "frame_of crc r = Inr bytes \<Longrightarrow> utf8_record r \<Longrightarrow> fits_frame r"
  by (auto simp: fits_frame_def frame_of_def split: sum.splits if_splits prod.splits)

lemma decode_frames_image:
  assumes "next_frame crc torn = Inr None"
  shows "list_all fits_frame rs \<Longrightarrow>
    decode_frames crc (concat (map (frame_bytes crc) rs) @ torn) = Inr (rs, length (concat (map (frame_bytes crc) rs)))"
proof (induction rs)
  case Nil
  show ?case using assms by (simp add: decode_frames.simps)
next
  case (Cons r rs)
  then have "next_frame crc (frame_bytes crc r @ concat (map (frame_bytes crc) rs) @ torn) = Inr (Some (r, length (frame_bytes crc r)))"
    by (intro next_frame_whole) (simp_all add: frame_of_fits)
  with Cons show ?case by (subst decode_frames.simps) simp
qed

lemma decode_image:
  assumes "list_all fits_frame rs" and "next_frame crc torn = Inr None"
  shows "decode crc (file_image crc rs @ torn) = Inr (rs, length (file_image crc rs))"
  using decode_frames_image [OF assms(2,1)] by (simp add: decode_def file_image_def is_prefix_def Let_def)

lemma decode_frames_sound:
  "decode_frames crc bytes = Inr (rs, whole) \<Longrightarrow>
     whole \<le> length bytes \<and> list_all fits_frame rs \<and> take whole bytes = concat (map (frame_bytes crc) rs)
     \<and> next_frame crc (drop whole bytes) = Inr None"
proof (induction crc bytes arbitrary: rs whole rule: decode_frames.induct)
  case (1 crc bytes)
  show ?case
  proof (cases "next_frame crc bytes")
    case (Inl e)
    with "1.prems" show ?thesis by (simp add: decode_frames.simps [of crc bytes])
  next
    case (Inr found)
    show ?thesis
    proof (cases found)
      case None
      with "1.prems" Inr show ?thesis by (simp add: decode_frames.simps [of crc bytes])
    next
      case (Some rn)
      obtain r n where rn: "rn = (r, n)" by fastforce
      with "1.prems" Inr Some obtain rs1 whole1 where on: "decode_frames crc (drop n bytes) = Inr (rs1, whole1)" "rs = r # rs1" "whole = n + whole1"
        by (auto simp: decode_frames.simps [of crc bytes] split: sum.splits)
      have ih: "whole1 \<le> length (drop n bytes) \<and> list_all fits_frame rs1 \<and> take whole1 (drop n bytes) = concat (map (frame_bytes crc) rs1)
         \<and> next_frame crc (drop whole1 (drop n bytes)) = Inr None"
        by (rule "1.IH" [OF Inr Some rn [symmetric] on(1)])
      note sound = next_frame_sound [OF Inr [unfolded Some rn]]
      have "frame_bytes crc r = take n bytes" by (simp add: frame_bytes_def sound(1))
      moreover have "n + whole1 \<le> length bytes" using ih sound(3) by (auto simp: le_diff_conv2)
      ultimately show ?thesis
        using ih frame_fits [OF sound(1,2)] on(2,3) by (auto simp: take_add [of n] add.commute)
    qed
  qed
qed

lemma decode_sound:
  assumes "decode crc file = Inr (found, whole)" and "0 < whole"
  shows "whole \<le> length file \<and> take whole file = file_image crc found \<and> list_all fits_frame found"
proof -
  from assms obtain whole1 where d: "is_prefix (start_frame crc) file" "decode_frames crc (drop (length (start_frame crc)) file) = Inr (found, whole1)"
    "whole = length (start_frame crc) + whole1"
    by (auto simp: decode_def Let_def split: if_splits sum.splits)
  have "length (start_frame crc) \<le> length file" using arg_cong [OF d(1) [unfolded is_prefix_def], of length] by simp
  with decode_frames_sound [OF d(2)] d(1,3) show ?thesis by (auto simp: file_image_def is_prefix_def take_add)
qed

text \<open>C21. A journal is read exactly as it is written. A file of the start and the frames of records, with at most the beginning of
  another frame after them, is read as those records, and the rest is a torn tail; and whatever file is read as records, the
  part that was read is the start and the frames of those records, byte for byte.\<close>

theorem journal_reads_what_commits_write:
  "(list_all fits_frame rs \<and> fits_frame r \<and> k < length (frame_bytes crc r)
      \<longrightarrow> decode crc (file_image crc rs @ take k (frame_bytes crc r)) = Inr (rs, length (file_image crc rs)))
   \<and> (decode crc file = Inr (found, whole) \<and> 0 < whole
      \<longrightarrow> whole \<le> length file \<and> take whole file = file_image crc found \<and> list_all fits_frame found)"
proof (intro conjI impI; (elim conjE)?)
  assume "list_all fits_frame rs" "fits_frame r" "k < length (frame_bytes crc r)"
  then show "decode crc (file_image crc rs @ take k (frame_bytes crc r)) = Inr (rs, length (file_image crc rs))"
    using frame_of_fits next_frame_torn by (intro decode_image) blast+
next
  assume "decode crc file = Inr (found, whole)" "0 < whole"
  then show "whole \<le> length file" "take whole file = file_image crc found" "list_all fits_frame found"
    using decode_sound by blast+
qed

lemma MAX_LEN_value: "unat MAX_LEN = 16777216"
  by (simp add: MAX_LEN_def push_bit_eq_mult)

lemma sample_fits: "fits_frame (RecTool ''counter'' ''3'')" "fits_frame (RecAgentSpawned ''a'')"
  by (simp_all add: fits_frame_def frame_of_def payload_of_def put_string_def MAX_LEN_value between_def)

theorem journal_reads_what_commits_write_witness:
  "decode (\<lambda>_. 7) (file_image (\<lambda>_. 7) [RecTool ''counter'' ''3''] @ take 6 (frame_bytes (\<lambda>_. 7) (RecAgentSpawned ''a'')))
     = Inr ([RecTool ''counter'' ''3''], length (file_image (\<lambda>_. 7) [RecTool ''counter'' ''3'']))
   \<and> fits_frame (RecTool ''counter'' ''3'')"
proof -
  have "length (frame_bytes (\<lambda>_. 7) (RecAgentSpawned ''a'')) = 14"
    by (simp add: frame_bytes_def frame_of_def framed_def payload_of_def put_string_def MAX_LEN_value Let_def)
  then show ?thesis
    using journal_reads_what_commits_write [of "[RecTool ''counter'' ''3'']" "RecAgentSpawned ''a''" 6 "\<lambda>_. 7"] sample_fits by auto
qed

section \<open>Kills and failures\<close>

text \<open>A journal over time: its file, the records that were written to it, and whether a process has it open. A process may be killed
  in the middle of a write. A commit that failed and could not be rolled back ends the use of the journal, until it is opened again.\<close>

definition rolled_back :: "append_io \<Rightarrow> bool" where
  "rolled_back io \<longleftrightarrow> ai_again io = None \<and> ai_cut io = None"

inductive journal_step :: "(string \<Rightarrow> u32) \<Rightarrow> string \<times> wrecord list \<times> bool \<Rightarrow> string \<times> wrecord list \<times> bool \<Rightarrow> bool" for crc where
  opened: "journal_open crc read_error cut_error io file = (Inr (), file') \<Longrightarrow> journal_step crc (file, log, is_open) (file', log, True)"
| not_opened: "journal_open crc read_error cut_error io file = (Inl e, file') \<Longrightarrow> journal_step crc (file, log, is_open) (file', log, False)"
| open_killed: "decode crc file = Inr (rs, whole)
    \<Longrightarrow> file' \<in> {file, take whole file} \<union> (if whole = 0 then range (\<lambda>k. take k (start_frame crc)) else {})
    \<Longrightarrow> journal_step crc (file, log, is_open) (file', log, False)"
| committed: "utf8_record r \<Longrightarrow> commit crc io r file = (Inr (), file') \<Longrightarrow> journal_step crc (file, log, True) (file', log @ [r], True)"
| refused: "utf8_record r \<Longrightarrow> commit crc io r file = (Inl e, file') \<Longrightarrow> journal_step crc (file, log, True) (file', log, rolled_back io)"
| killed: "utf8_record r \<Longrightarrow> frame_of crc r = Inr bytes
    \<Longrightarrow> journal_step crc (file, log, True) (file @ take k bytes, if length bytes \<le> k then log @ [r] else log, False)"

definition journal_ok :: "(string \<Rightarrow> u32) \<Rightarrow> string \<times> wrecord list \<times> bool \<Rightarrow> bool" where
  "journal_ok crc = (\<lambda>(file, log, is_open).
     list_all fits_frame log
   \<and> (if is_open then file = file_image crc log
      else (log = [] \<and> is_prefix file (start_frame crc)) \<or> (\<exists>torn. file = file_image crc log @ torn \<and> next_frame crc torn = Inr None)))"

lemma nothing_torn: "next_frame crc [] = Inr None"
  by (simp add: next_frame_def)

lemma open_ok: "journal_ok crc (file, log, True) \<Longrightarrow> journal_ok crc (file, log, False)"
  by (auto simp: journal_ok_def nothing_torn)

lemma torn_ok:
  assumes "journal_ok crc (file, log, True)" and "frame_of crc r = Inr bytes" and "utf8_record r"
  shows "journal_ok crc (file @ take k bytes, if length bytes \<le> k then log @ [r] else log, False)"
proof (cases "length bytes \<le> k")
  case True
  have "fits_frame r" using frame_fits [OF assms(2,3)] .
  with True assms show ?thesis by (auto simp: journal_ok_def file_image_def frame_bytes_def nothing_torn)
next
  case False
  with assms next_frame_torn [OF assms(2), of k] show ?thesis by (auto simp: journal_ok_def)
qed

lemma decode_ok:
  assumes "journal_ok crc (file, log, is_open)"
  shows "\<exists>whole. decode crc file = Inr (log, whole) \<and> (whole = 0 \<and> log = [] \<and> is_prefix file (start_frame crc) \<or> take whole file = file_image crc log)"
proof -
  have full: "\<exists>whole. decode crc file = Inr (log, whole) \<and> take whole file = file_image crc log" if "file = file_image crc log @ torn" "next_frame crc torn = Inr None" for torn
    using decode_image [of log crc torn] that assms by (auto simp: journal_ok_def)
  have "is_prefix file (start_frame crc) \<Longrightarrow> log = [] \<Longrightarrow> ?thesis"
  proof (cases "length file < length (start_frame crc)")
    case False
    assume "is_prefix file (start_frame crc)" "log = []"
    with False have "file = file_image crc log @ []" by (simp add: is_prefix_def file_image_def)
    from full [OF this nothing_torn] show ?thesis by blast
  qed (simp add: decode_def Let_def)
  then show ?thesis
    using assms open_ok full by (cases is_open) (auto simp: journal_ok_def nothing_torn)
qed

lemma append_frame_ok:
  assumes "append_frame io bytes file = (r, file')" and "bytes \<noteq> []"
  shows "r = Inr () \<and> file' = file @ bytes \<or> (\<exists>e k. r = Inl e \<and> k < length bytes \<and> file' = file @ take k bytes \<and> (rolled_back io \<longrightarrow> file' = file))"
proof -
  let ?k = "\<lambda>n. min n (length bytes - 1)"
  have some: "?k n < length bytes" for n using assms(2) by (cases bytes) auto
  show ?thesis
  proof (cases "ai_len io \<noteq> None \<or> ai_write io = None")
    case True
    with assms show ?thesis by (auto simp: append_frame_def intro!: exI [of _ 0] split: option.splits)
  next
    case False
    then obtain n e where w: "ai_len io = None" "ai_write io = Some (n, e)" by fastforce
    consider "file' = file @ take (?k n) bytes" "\<not> rolled_back io \<or> file' = file" "isl r" | "file' = file" "isl r"
      using assms(1) w by (auto simp: append_frame_def rolled_back_def Let_def split: option.splits if_splits)
    then show ?thesis
    proof cases
      case 1
      with some [of n] show ?thesis by (cases r) auto
    next
      case 2
      with assms(2) show ?thesis by (cases r) (auto intro!: exI [of _ 0])
    qed
  qed
qed

lemma start_nonempty: "start_frame crc \<noteq> []" "file_image crc log \<noteq> []"
  by (simp_all add: file_image_def start_frame_def framed_def Let_def to_le_bytes_eq)

lemma frame_nonempty: "frame_of crc r = Inr bytes \<Longrightarrow> bytes \<noteq> []"
  by (auto simp: frame_of_def framed_def Let_def to_le_bytes_eq split: sum.splits prod.splits if_splits)

lemma cut_ok:
  assumes "journal_ok crc (file, log, is_open)" and "decode crc file = Inr (rs, whole)"
  shows "rs = log" "journal_ok crc (file, log, False)" "journal_ok crc (take whole file, log, False)"
    "whole = 0 \<Longrightarrow> log = []" "0 < whole \<Longrightarrow> take whole file = file_image crc log"
proof -
  from decode_ok [OF assms(1)] assms(2) have d: "rs = log" "whole = 0 \<and> log = [] \<and> is_prefix file (start_frame crc) \<or> take whole file = file_image crc log" by auto
  show "rs = log" by (fact d)
  show "journal_ok crc (file, log, False)" using assms(1) open_ok by (cases is_open) auto
  show "whole = 0 \<Longrightarrow> log = []" using d(2) start_nonempty by (metis take_0)
  show "0 < whole \<Longrightarrow> take whole file = file_image crc log" using d(2) by simp
  show "journal_ok crc (take whole file, log, False)"
    using d(2) assms(1) by (auto simp: journal_ok_def nothing_torn is_prefix_def split: if_splits)
qed

lemma start_torn_ok: "log = [] \<Longrightarrow> journal_ok crc (take k (start_frame crc), log, False)"
  by (simp add: journal_ok_def is_prefix_def min_def)

lemma journal_step_ok: "journal_step crc s s' \<Longrightarrow> journal_ok crc s \<Longrightarrow> journal_ok crc s'"
proof (induction rule: journal_step.induct)
  case (opened read_error cut_error io disk disk1 log is_open)
  then obtain rs whole where d: "decode crc disk = Inr (rs, whole)" by (auto simp: journal_open_def split: option.splits sum.splits)
  note cut = cut_ok [OF opened(2) d]
  have log: "list_all fits_frame log" using opened(2) by (simp add: journal_ok_def)
  show ?case
  proof (cases "whole = 0")
    case True
    with opened(1) d have "append_frame io (start_frame crc) [] = (Inr (), disk1)"
      by (auto simp: journal_open_def Let_def split: option.splits)
    from append_frame_ok [OF this start_nonempty(1)] cut(4) [OF True] log show ?thesis by (auto simp: journal_ok_def file_image_def)
  next
    case False
    with opened(1) d have "disk1 = take whole disk" by (auto simp: journal_open_def Let_def split: option.splits if_splits)
    with cut(5) False log show ?thesis by (simp add: journal_ok_def)
  qed
next
  case (not_opened read_error cut_error io disk e disk1 log is_open)
  obtain rs whole where d: "decode crc disk = Inr (rs, whole)" using decode_ok [OF not_opened(2)] by blast
  note cut = cut_ok [OF not_opened(2) d]
  have "disk1 = disk \<or> whole = 0 \<and> append_frame io (start_frame crc) [] = (Inl e, disk1)"
    using not_opened(1) d by (auto simp: journal_open_def Let_def split: option.splits if_splits)
  then show ?case
  proof
    assume made: "whole = 0 \<and> append_frame io (start_frame crc) [] = (Inl e, disk1)"
    from append_frame_ok [OF conjunct2 [OF made] start_nonempty(1)] obtain k where "disk1 = take k (start_frame crc)" by auto
    with start_torn_ok cut(4) made show ?thesis by simp
  qed (simp add: cut(2))
next
  case (open_killed disk rs whole disk1 log is_open)
  note cut = cut_ok [OF open_killed(3,1)]
  show ?case using open_killed(2) cut(2,3) start_torn_ok [OF cut(4)] by (auto split: if_splits)
next
  case (committed r io disk disk1 log)
  then obtain bytes where f: "frame_of crc r = Inr bytes" "append_frame io bytes disk = (Inr (), disk1)"
    by (auto simp: commit_def split: sum.splits)
  from append_frame_ok [OF f(2) frame_nonempty [OF f(1)]] committed(3) f(1) frame_fits [OF f(1) committed(1)] show ?case
    by (auto simp: journal_ok_def file_image_def frame_bytes_def)
next
  case (refused r io disk e disk1 log)
  show ?case
  proof (cases "frame_of crc r")
    case (Inl e1)
    with refused have "disk1 = disk" by (simp add: commit_def)
    with refused(3) open_ok show ?thesis by (cases "rolled_back io") auto
  next
    case (Inr bytes)
    with refused(2) have app: "append_frame io bytes disk = (Inl e, disk1)" by (simp add: commit_def)
    from append_frame_ok [OF app frame_nonempty [OF Inr]] obtain k where k: "k < length bytes" "disk1 = disk @ take k bytes" "rolled_back io \<longrightarrow> disk1 = disk" by auto
    from torn_ok [OF refused(3) Inr refused(1), of k] k refused(3) show ?thesis by (cases "rolled_back io") auto
  qed
next
  case (killed r bytes disk log k)
  then show ?case using torn_ok by blast
qed

lemma journal_reached_ok: "(journal_step crc)\<^sup>*\<^sup>* ([], [], False) s \<Longrightarrow> journal_ok crc s"
proof (induction rule: rtranclp_induct)
  case base
  show ?case by (simp add: journal_ok_def is_prefix_def)
qed (auto intro: journal_step_ok)



end
