(* ===== verification/Workflow_Host.thy ===== *)
theory Workflow_Host
  imports Journal Driver
begin

text \<open>
  The host of a workflow run (\<open>crates/runtime-tokio/src/host.rs\<close>): \<open>replay\<close> evaluates the workflow over its journal and
  carries out one command, \<open>join_all\<close> runs two tools. The workflow, the spawner, the tool that stands in and the parse of a
  UUID are parameters; what the disk does is an argument, as in the journal. An outer \<open>None\<close> is a panic of the workflow.
\<close>

type_synonym i64 = "64 word"

type_synonym spawned = "string + started_child"

definition record_counter :: "i64 \<Rightarrow> wrecord" where
  "record_counter v = RecTool ''counter'' (dec_int (sint v))"

definition start_child ::
    "(string \<Rightarrow> agent_id option) \<Rightarrow> run_spec \<Rightarrow> 'w spawner \<Rightarrow> history \<Rightarrow> agent_spec \<Rightarrow> 'w \<Rightarrow> spawned \<times> 'w" where
  "start_child parse parent spawner h agent w =
     (case parse (as_agent agent) of
        None \<Rightarrow> (Inl ''no such agent'', w)
      | Some aid \<Rightarrow>
          if 2 ^ 32 \<le> length (records h) then (Inl ''the workflow journal is too long'', w)
          else spawner \<lparr>cr_parent = parent, cr_step = of_nat (length (records h)), cr_agent_id = aid, cr_input = as_input agent,
                 cr_limits = rs_limits parent\<rparr> w)"

text \<open>The call of the stand-in and the commit of what it gave.\<close>

definition commit_counter :: "(string \<Rightarrow> u32) \<Rightarrow> append_io \<Rightarrow> i64 \<times> 'w \<Rightarrow> string \<Rightarrow> (io_error + unit) \<times> string \<times> 'w" where
  "commit_counter crc io given file =
     (case given of (v, w) \<Rightarrow> (case commit crc io (record_counter v) file of (r, file1) \<Rightarrow> (r, file1, w)))"

definition replay_workflow ::
    "(string \<Rightarrow> u32) \<Rightarrow> (history \<Rightarrow> workflow_step option) \<Rightarrow> (string \<Rightarrow> agent_id option) \<Rightarrow> run_spec \<Rightarrow> 'w spawner \<Rightarrow> ('w \<Rightarrow> i64 \<times> 'w)
     \<Rightarrow> string option \<Rightarrow> append_io \<Rightarrow> string \<Rightarrow> 'w \<Rightarrow> ((io_error + workflow_step \<times> spawned option) \<times> string \<times> 'w) option" where
  "replay_workflow crc evaluate parse parent spawner stand_in read_error io file w =
     (case journal_history crc read_error file of
        Inl e \<Rightarrow> Some (Inl e, file, w)
      | Inr h \<Rightarrow>
          (case evaluate h of
             None \<Rightarrow> None
           | Some step \<Rightarrow>
               (case ws_commands step of
                  [SpawnAgent agent] \<Rightarrow>
                    (case start_child parse parent spawner h agent w of
                       (Inl reason, w1) \<Rightarrow> Some (Inr (step, Some (Inl reason)), file, w1)
                     | (Inr child, w1) \<Rightarrow>
                         (case commit crc io (RecAgentSpawned (as_agent agent)) file of
                            (Inl e, file1) \<Rightarrow> Some (Inl e, file1, w1)
                          | (Inr _, file1) \<Rightarrow> Some (Inr (step, Some (Inr child)), file1, w1)))
                | [ExecuteTool tool] \<Rightarrow>
                    if ts_name tool = ''counter''
                    then (case commit_counter crc io (stand_in w) file of
                            (Inl e, file1, w1) \<Rightarrow> Some (Inl e, file1, w1)
                          | (Inr _, file1, w1) \<Rightarrow> Some (Inr (step, None), file1, w1))
                    else Some (Inr (step, None), file, w)
                | _ \<Rightarrow> Some (Inr (step, None), file, w))))"

definition join_tools :: "workflow_command list \<Rightarrow> (workflow_command \<times> workflow_command) option" where
  "join_tools commands =
     (case commands of
        [ExecuteTool a, ExecuteTool b] \<Rightarrow>
          if ts_name a = ''counter'' \<and> ts_name b = ''counter'' then Some (ExecuteTool a, ExecuteTool b) else None
      | _ \<Rightarrow> None)"

definition join_all ::
    "(string \<Rightarrow> u32) \<Rightarrow> (history \<Rightarrow> workflow_step option) \<Rightarrow> (u32 \<Rightarrow> 'w \<Rightarrow> i64 \<times> 'w) \<Rightarrow> string option \<Rightarrow> append_io \<Rightarrow> append_io
     \<Rightarrow> string \<Rightarrow> 'w \<Rightarrow> ((io_error + unit) \<times> string \<times> 'w) option" where
  "join_all crc evaluate stand_in read_error io io1 file w =
     (case evaluate history_default of
        None \<Rightarrow> None
      | Some step \<Rightarrow>
          if ws_wait step \<noteq> WaitNone then Some (Inl (InvalidInput ''wait''), file, w)
          else
            (case join_tools (ws_commands step) of
               None \<Rightarrow> Some (Inl (InvalidInput ''command''), file, w)
             | Some (first_command, second_command) \<Rightarrow>
                 (let first = spawn_handle 0 first_command; second = spawn_handle 1 second_command in
                  case journal_history crc read_error file of
                    Inl e \<Rightarrow> Some (Inl e, file, w)
                  | Inr h \<Rightarrow>
                      if length (records h) = 0
                      then (case commit_counter crc io (stand_in (hd_sequence first) w) file of
                              (Inl e, file1, w1) \<Rightarrow> Some (Inl e, file1, w1)
                            | (Inr _, file1, w1) \<Rightarrow> Some (commit_counter crc io1 (stand_in (hd_sequence second) w1) file1))
                      else if length (records h) = 1
                      then Some (commit_counter crc io (stand_in (hd_sequence second) w) file)
                      else if length (records h) = 2 then Some (Inr (), file, w)
                      else Some (Inl (InvalidData ''journal length''), file, w))))"

section \<open>One replay\<close>

lemma record_counter_utf8: "utf8_record (record_counter v)"
  by (simp add: record_counter_def dec_int_utf8 between_def)

text \<open>What a commit does to an open journal: the record is in it, or it failed and the journal is as it was, perhaps with the
  beginning of the record behind it where it was not rolled back.\<close>

lemma commit_keeps:
  assumes "journal_ok crc (file, log, True)" and "utf8_record r" and "commit crc io r file = (done, file1)"
  shows "journal_ok crc (file1, if isl done then log else log @ [r], isl done \<longrightarrow> rolled_back io)"
proof (cases "done")
  case (Inl e)
  with assms(3) have "journal_step crc (file, log, True) (file1, log, rolled_back io)" by (auto intro: refused [OF assms(2)])
  from journal_step_ok [OF this assms(1)] Inl show ?thesis by simp
next
  case (Inr u)
  with assms(3) have "journal_step crc (file, log, True) (file1, log @ [r], True)" by (auto intro: committed [OF assms(2)])
  from journal_step_ok [OF this assms(1)] Inr show ?thesis by simp
qed

lemma history_ok:
  assumes "journal_ok crc (file, log, is_open)"
  shows "journal_history crc None file = Inr \<lparr>records = log\<rparr>"
  using decode_ok [OF assms] by (auto simp: journal_history_def)

section \<open>A workflow over kills\<close>

text \<open>The spawner gives any answer; what it was asked is kept.\<close>

definition asking :: "spawned \<Rightarrow> child_request list spawner" where
  "asking answer request asks = (answer, asks @ [request])"

text \<open>A run over time: its journal, as \<open>journal_step\<close> has it, and what its spawner was asked. A replay may be killed after the
  child was started and before or in the middle of its commit.\<close>

inductive host_step ::
    "(string \<Rightarrow> u32) \<Rightarrow> (history \<Rightarrow> workflow_step option) \<Rightarrow> (string \<Rightarrow> agent_id option) \<Rightarrow> run_spec
     \<Rightarrow> (string \<times> wrecord list \<times> bool) \<times> child_request list \<Rightarrow> (string \<times> wrecord list \<times> bool) \<times> child_request list \<Rightarrow> bool"
  for crc evaluate parse parent where
  journal_only: "journal_step crc (file, log, is_open) (file1, log, is_open1)
    \<Longrightarrow> host_step crc evaluate parse parent ((file, log, is_open), asks) ((file1, log, is_open1), asks)"
| replayed: "replay_workflow crc evaluate parse parent (asking answer) (\<lambda>asks. (v, asks)) read_error io file asks = Some (r, file1, asks1)
    \<Longrightarrow> decode crc file1 = Inr (log1, whole)
    \<Longrightarrow> host_step crc evaluate parse parent ((file, log, True), asks) ((file1, log1, isl r \<longrightarrow> rolled_back io), asks1)"
| replay_killed: "journal_history crc None file = Inr h \<Longrightarrow> evaluate h = Some step \<Longrightarrow> ws_commands step = [SpawnAgent agent]
    \<Longrightarrow> start_child parse parent (asking answer) h agent asks = (r, asks1)
    \<Longrightarrow> file1 = file \<or> \<not> isl r \<and> (\<exists>bytes k. frame_of crc (RecAgentSpawned (as_agent agent)) = Inr bytes \<and> file1 = file @ take k bytes)
    \<Longrightarrow> decode crc file1 = Inr (log1, whole)
    \<Longrightarrow> host_step crc evaluate parse parent ((file, log, True), asks) ((file1, log1, False), asks1)"
| tool_killed: "journal_history crc None file = Inr h \<Longrightarrow> evaluate h = Some step \<Longrightarrow> ws_commands step = [ExecuteTool tool]
    \<Longrightarrow> frame_of crc (record_counter v) = Inr bytes \<Longrightarrow> decode crc (file @ take k bytes) = Inr (log1, whole)
    \<Longrightarrow> host_step crc evaluate parse parent ((file, log, True), asks) ((file @ take k bytes, log1, False), asks)"

definition asked_at ::
    "(history \<Rightarrow> workflow_step option) \<Rightarrow> (string \<Rightarrow> agent_id option) \<Rightarrow> run_spec \<Rightarrow> wrecord list \<Rightarrow> nat \<Rightarrow> child_request \<Rightarrow> bool" where
  "asked_at evaluate parse parent log i q \<longleftrightarrow>
     i \<le> length log \<and> i < 2 ^ 32
   \<and> (\<exists>step agent aid. evaluate \<lparr>records = take i log\<rparr> = Some step \<and> ws_commands step = [SpawnAgent agent] \<and> parse (as_agent agent) = Some aid
       \<and> q = \<lparr>cr_parent = parent, cr_step = of_nat i, cr_agent_id = aid, cr_input = as_input agent, cr_limits = rs_limits parent\<rparr>)"

definition host_ok ::
    "(string \<Rightarrow> u32) \<Rightarrow> (history \<Rightarrow> workflow_step option) \<Rightarrow> (string \<Rightarrow> agent_id option) \<Rightarrow> run_spec
     \<Rightarrow> (string \<times> wrecord list \<times> bool) \<times> child_request list \<Rightarrow> bool" where
  "host_ok crc evaluate parse parent = (\<lambda>((file, log, is_open), asks).
     journal_ok crc (file, log, is_open)
   \<and> (\<forall>q \<in> set asks. \<exists>i. asked_at evaluate parse parent log i q)
   \<and> (\<forall>i agent. i < length log \<and> log ! i = RecAgentSpawned agent
        \<longrightarrow> (\<exists>q \<in> set asks. asked_at evaluate parse parent log i q \<and> parse agent = Some (cr_agent_id q))))"

lemma asked_at_append: "asked_at evaluate parse parent log i q \<Longrightarrow> asked_at evaluate parse parent (log @ rs) i q"
  by (simp add: asked_at_def)

lemma asked_at_same:
  assumes "asked_at evaluate parse parent log i p" and "asked_at evaluate parse parent log j q" and "cr_step p = cr_step q"
  shows "p = q"
proof -
  from assms have "(of_nat i :: u32) = of_nat j" and lt: "i < 2 ^ 32" "j < 2 ^ 32" by (auto simp: asked_at_def)
  moreover have "unat (of_nat n :: u32) = n" if "n < 2 ^ 32" for n using that by (intro unat_of_nat_small) simp
  ultimately have "i = j" by metis
  with assms show ?thesis by (auto simp: asked_at_def)
qed

lemma start_child_asks:
  assumes "start_child parse parent (asking answer) \<lparr>records = log\<rparr> agent asks = (r, asks1)"
    and "evaluate \<lparr>records = log\<rparr> = Some step" and "ws_commands step = [SpawnAgent agent]"
  shows "asks1 = asks \<and> isl r
    \<or> (\<exists>q. asks1 = asks @ [q] \<and> asked_at evaluate parse parent log (length log) q \<and> parse (as_agent agent) = Some (cr_agent_id q))"
  using assms by (auto simp: start_child_def asking_def asked_at_def split: option.splits if_splits)

text \<open>A step asks at most once, for the record that is next, and writes at most one record; a record of a spawn was asked for.\<close>

definition grows_by :: "(history \<Rightarrow> workflow_step option) \<Rightarrow> (string \<Rightarrow> agent_id option) \<Rightarrow> run_spec
    \<Rightarrow> wrecord list \<Rightarrow> child_request list \<Rightarrow> wrecord list \<Rightarrow> child_request list \<Rightarrow> bool" where
  "grows_by evaluate parse parent log asks log1 asks1 \<longleftrightarrow>
     (asks1 = asks \<or> (\<exists>q. asks1 = asks @ [q] \<and> asked_at evaluate parse parent log (length log) q))
   \<and> (log1 = log \<or> (\<exists>r. log1 = log @ [r] \<and> (\<forall>agent. r = RecAgentSpawned agent
        \<longrightarrow> (\<exists>q \<in> set asks1. asked_at evaluate parse parent log (length log) q \<and> parse agent = Some (cr_agent_id q)))))"

lemma host_grows:
  assumes "host_ok crc evaluate parse parent ((file, log, is_open), asks)" and "journal_ok crc (file1, log1, is_open1)"
    and "grows_by evaluate parse parent log asks log1 asks1"
  shows "host_ok crc evaluate parse parent ((file1, log1, is_open1), asks1)"
proof -
  have asks1: "asks1 = asks \<or> (\<exists>q. asks1 = asks @ [q] \<and> asked_at evaluate parse parent log (length log) q)"
    and one: "log1 = log \<or> (\<exists>r. log1 = log @ [r] \<and> (\<forall>agent. r = RecAgentSpawned agent
      \<longrightarrow> (\<exists>q \<in> set asks1. asked_at evaluate parse parent log (length log) q \<and> parse agent = Some (cr_agent_id q))))"
    using assms(3) unfolding grows_by_def by blast+
  from one obtain rs where log1: "log1 = log @ rs" by auto
  have up: "asked_at evaluate parse parent log1 i q" if "asked_at evaluate parse parent log i q" for i q
    using asked_at_append [OF that] log1 by simp
  have "\<exists>i. asked_at evaluate parse parent log1 i q" if "q \<in> set asks1" for q
  proof -
    have "\<forall>q \<in> set asks. \<exists>i. asked_at evaluate parse parent log i q" using assms(1) by (simp add: host_ok_def)
    with that asks1 have "\<exists>i. asked_at evaluate parse parent log i q" by auto
    with up show ?thesis by blast
  qed
  moreover have "\<exists>q \<in> set asks1. asked_at evaluate parse parent log1 i q \<and> parse agent = Some (cr_agent_id q)"
    if i: "i < length log1" "log1 ! i = RecAgentSpawned agent" for i agent
  proof (cases "i < length log")
    case True
    with i(2) log1 have "log ! i = RecAgentSpawned agent" by (simp add: nth_append)
    moreover have "\<forall>i agent. i < length log \<and> log ! i = RecAgentSpawned agent
        \<longrightarrow> (\<exists>q \<in> set asks. asked_at evaluate parse parent log i q \<and> parse agent = Some (cr_agent_id q))"
      using assms(1) by (simp add: host_ok_def)
    ultimately obtain q where "q \<in> set asks" "asked_at evaluate parse parent log i q" "parse agent = Some (cr_agent_id q)"
      using True by blast
    moreover from this(1) have "q \<in> set asks1" using asks1 by auto
    ultimately show ?thesis using up by blast
  next
    case False
    with one i obtain q where "q \<in> set asks1" "asked_at evaluate parse parent log (length log) q" "parse agent = Some (cr_agent_id q)" "i = length log"
      by (auto simp: nth_append)
    with up show ?thesis by blast
  qed
  ultimately show ?thesis using assms(2) by (simp add: host_ok_def)
qed

lemma decode_unique: "journal_ok crc (file, log, is_open) \<Longrightarrow> decode crc file = Inr (log1, whole) \<Longrightarrow> log1 = log"
  using decode_ok by fastforce

lemma open_any: "journal_ok crc (file, log, True) \<Longrightarrow> journal_ok crc (file, log, is_open)"
  using open_ok by (cases is_open) auto

text \<open>The strings of a workflow are Rust strings.\<close>

definition utf8_workflow :: "(history \<Rightarrow> workflow_step option) \<Rightarrow> bool" where
  "utf8_workflow evaluate \<longleftrightarrow>
     (\<forall>h step agent. evaluate h = Some step \<longrightarrow> SpawnAgent agent \<in> set (ws_commands step) \<longrightarrow> is_utf8 (as_agent agent))"

lemma grows_counter: "grows_by evaluate parse parent log asks (if b then log else log @ [record_counter v]) asks"
  by (auto simp: grows_by_def record_counter_def)

lemma grows_spawn:
  assumes "start_child parse parent (asking answer) \<lparr>records = log\<rparr> agent asks = (r, asks1)"
    and "evaluate \<lparr>records = log\<rparr> = Some step" and "ws_commands step = [SpawnAgent agent]" and "isl r \<longrightarrow> b"
  shows "grows_by evaluate parse parent log asks (if b then log else log @ [RecAgentSpawned (as_agent agent)]) asks1"
  using start_child_asks [where evaluate = evaluate, OF assms(1-3)] assms(4) by (auto simp: grows_by_def)

lemma replay_grows:
  assumes "journal_ok crc (file, log, True)" and "utf8_workflow evaluate"
    and "replay_workflow crc evaluate parse parent (asking answer) (\<lambda>asks. (v, asks)) read_error io file asks = Some (r, file1, asks1)"
  shows "\<exists>log1. journal_ok crc (file1, log1, isl r \<longrightarrow> rolled_back io) \<and> grows_by evaluate parse parent log asks log1 asks1"
proof -
  have still: ?thesis if "file1 = file" "asks1 = asks"
    using that open_any [OF assms(1)] by (auto simp: grows_by_def)
  show ?thesis
  proof (cases read_error)
    case (Some e)
    with assms(3) still show ?thesis by (simp add: replay_workflow_def journal_history_def)
  next
    case None
    note read = history_ok [OF assms(1)]
    with assms(3) None obtain step where step: "evaluate \<lparr>records = log\<rparr> = Some step" by (auto simp: replay_workflow_def split: option.splits)
    note eq = assms(3) [unfolded None replay_workflow_def read, simplified, unfolded step, simplified]
    consider (spawn) agent where "ws_commands step = [SpawnAgent agent]"
      | (tool) tool where "ws_commands step = [ExecuteTool tool]" "ts_name tool = ''counter''" | (other) "file1 = file" "asks1 = asks"
      using eq by (auto split: list.splits workflow_command.splits if_splits)
    then show ?thesis
    proof cases
      case spawn
      obtain started w1 where child: "start_child parse parent (asking answer) \<lparr>records = log\<rparr> agent asks = (started, w1)" by fastforce
      obtain made f1 where app: "commit crc io (RecAgentSpawned (as_agent agent)) file = (made, f1)" by fastforce
      have "utf8_record (RecAgentSpawned (as_agent agent))" using assms(2) step spawn by (auto simp: utf8_workflow_def)
      note kept = commit_keeps [OF assms(1) this app]
      show ?thesis
      proof (cases started)
        case (Inl reason)
        with eq spawn child have "file1 = file" "asks1 = w1" by auto
        with grows_spawn [where evaluate = evaluate, OF child step spawn, of True] open_any [OF assms(1)] show ?thesis by auto
      next
        case (Inr c)
        with eq spawn child app have "file1 = f1" "asks1 = w1" "isl r = isl made" by (auto split: sum.splits)
        with grows_spawn [where evaluate = evaluate, OF child step spawn, of "isl made"] kept Inr show ?thesis by auto
      qed
    next
      case tool
      obtain made f1 where app: "commit crc io (record_counter v) file = (made, f1)" by fastforce
      with eq tool have "file1 = f1" "asks1 = asks" "isl r = isl made" by (auto simp: commit_counter_def split: sum.splits)
      with commit_keeps [OF assms(1) record_counter_utf8 app] grows_counter [of evaluate parse parent log asks "isl made" v]
      show ?thesis by (intro exI [of _ "if isl made then log else log @ [record_counter v]"]) simp
    qed (rule still)
  qed
qed

lemma host_step_ok:
  assumes "host_step crc evaluate parse parent s s1" and "utf8_workflow evaluate" and "host_ok crc evaluate parse parent s"
  shows "host_ok crc evaluate parse parent s1"
  using assms(1,3)
proof (induction rule: host_step.induct)
  case (journal_only disk log is_open disk1 is_open1 asks)
  then have "journal_ok crc (disk1, log, is_open1)" using journal_step_ok by (auto simp: host_ok_def)
  with journal_only(2) show ?case by (simp add: host_ok_def)
next
  case (replayed answer v read_error io disk asks r disk1 asks1 log1 whole log)
  have ok: "journal_ok crc (disk, log, True)" using replayed(3) by (simp add: host_ok_def)
  from replay_grows [OF this assms(2) replayed(1)] obtain log2 where
    two: "journal_ok crc (disk1, log2, isl r \<longrightarrow> rolled_back io)" "grows_by evaluate parse parent log asks log2 asks1" by blast
  with decode_unique replayed(2) have "log1 = log2" by blast
  with host_grows [OF replayed(3) two] show ?case by simp
next
  case (replay_killed disk h step agent answer asks r asks1 disk1 log1 whole log)
  have ok: "journal_ok crc (disk, log, True)" using replay_killed(7) by (simp add: host_ok_def)
  then have h: "h = \<lparr>records = log\<rparr>" using replay_killed(1) history_ok by fastforce
  have utf: "utf8_record (RecAgentSpawned (as_agent agent))" using assms(2) replay_killed(2,3) by (auto simp: utf8_workflow_def)
  obtain b where "journal_ok crc (disk1, if b then log else log @ [RecAgentSpawned (as_agent agent)], False)" "isl r \<longrightarrow> b"
    using replay_killed(5)
  proof
    assume "disk1 = disk"
    with ok open_any show thesis by (intro that [of True]) auto
  next
    assume "\<not> isl r \<and> (\<exists>bytes k. frame_of crc (RecAgentSpawned (as_agent agent)) = Inr bytes \<and> disk1 = disk @ take k bytes)"
    then obtain bytes k where "\<not> isl r" "frame_of crc (RecAgentSpawned (as_agent agent)) = Inr bytes" "disk1 = disk @ take k bytes" by blast
    with torn_ok [OF ok _ utf, of bytes k] show thesis by (intro that [of "k < length bytes"]) (auto simp: not_less)
  qed
  moreover from this grows_spawn [where evaluate = evaluate, OF replay_killed(4) [unfolded h] replay_killed(2) [unfolded h] replay_killed(3)]
  have "grows_by evaluate parse parent log asks (if b then log else log @ [RecAgentSpawned (as_agent agent)]) asks1" by blast
  moreover have "log1 = (if b then log else log @ [RecAgentSpawned (as_agent agent)])" using calculation(1) decode_unique replay_killed(6) by blast
  ultimately show ?case using host_grows [OF replay_killed(7)] by simp
next
  case (tool_killed disk h step tool v bytes k log1 whole log asks)
  have ok: "journal_ok crc (disk, log, True)" using tool_killed(6) by (simp add: host_ok_def)
  have torn: "journal_ok crc (disk @ take k bytes, if length bytes \<le> k then log @ [record_counter v] else log, False)"
    by (rule torn_ok [OF ok tool_killed(4) record_counter_utf8])
  from decode_unique [OF this tool_killed(5)] have "log1 = (if k < length bytes then log else log @ [record_counter v])" by auto
  with host_grows [OF tool_killed(6) torn, of asks] grows_counter [of evaluate parse parent log asks "k < length bytes" v] show ?case
    by (simp add: if_not_P not_le split: if_splits)
qed

text \<open>C18. A workflow starts each child once, over kills. However often its process is killed, also between the start of a child
  and the record of it, and whatever the disk and the spawner answer: two requests for the child of the same step are the
  same request, of which the child's id is made; and every spawn in the journal was asked for, at its step, for the agent it
  names.\<close>

theorem workflow_asks_for_same_child:
  assumes "(host_step crc evaluate parse parent)\<^sup>*\<^sup>* (([], [], False), []) ((file, log, is_open), asks)" and "utf8_workflow evaluate"
  shows "(\<forall>p \<in> set asks. \<forall>q \<in> set asks. cr_step p = cr_step q \<longrightarrow> p = q)
   \<and> (\<forall>i agent. i < length log \<and> log ! i = RecAgentSpawned agent
        \<longrightarrow> (\<exists>q \<in> set asks. cr_step q = of_nat i \<and> parse agent = Some (cr_agent_id q)))"
proof -
  have "host_ok crc evaluate parse parent (([], [], False), [])" by (simp add: host_ok_def journal_ok_def is_prefix_def)
  with assms(1) have ok: "host_ok crc evaluate parse parent ((file, log, is_open), asks)"
    by (induction rule: rtranclp_induct) (auto intro: host_step_ok [OF _ assms(2)])
  then have "\<forall>q \<in> set asks. \<exists>i. asked_at evaluate parse parent log i q" by (simp add: host_ok_def)
  then have "p = q" if "p \<in> set asks" "q \<in> set asks" "cr_step p = cr_step q" for p q
    using that asked_at_same by metis
  moreover have "\<exists>q \<in> set asks. cr_step q = of_nat i \<and> parse agent = Some (cr_agent_id q)"
    if "i < length log" "log ! i = RecAgentSpawned agent" for i agent
  proof -
    from ok that obtain q where "q \<in> set asks" "asked_at evaluate parse parent log i q" "parse agent = Some (cr_agent_id q)"
      unfolding host_ok_def by blast
    then show ?thesis by (auto simp: asked_at_def intro!: bexI [of _ q])
  qed
  ultimately show ?thesis by blast
qed

text \<open>A workflow of one spawn, and the request it comes to.\<close>

definition spawn_program :: workflow_program where
  "spawn_program = \<lparr>root = WSpawnAgent ''a'' ''hi''\<rparr>"

definition spawn_request :: child_request where
  "spawn_request = \<lparr>cr_parent = sample_spec, cr_step = 0, cr_agent_id = AgentId 3, cr_input = ''hi'', cr_limits = rs_limits sample_spec\<rparr>"

lemma spawn_program_evaluates:
  "evaluate_program spawn_program \<lparr>records = []\<rparr> = Some \<lparr>ws_commands = [SpawnAgent \<lparr>as_agent = ''a'', as_input = ''hi''\<rparr>], ws_wait = WaitNone\<rparr>"
  by (simp add: evaluate_program_def spawn_program_def record_at_def)

lemma spawn_program_utf8: "utf8_workflow (evaluate_program spawn_program)"
  by (auto simp: utf8_workflow_def evaluate_program_def spawn_program_def between_def split: option.splits wrecord.splits if_splits)

text \<open>The process is killed after the child was started; the journal is opened again, and the replay asks again.\<close>

theorem workflow_asks_for_same_child_witness:
  "(host_step (\<lambda>_. 7) (evaluate_program spawn_program) (\<lambda>_. Some (AgentId 3)) sample_spec)\<^sup>*\<^sup>* (([], [], False), [])
     ((file_image (\<lambda>_. 7) [RecAgentSpawned ''a''], [RecAgentSpawned ''a''], True), [spawn_request, spawn_request])
   \<and> (\<exists>q \<in> set [spawn_request, spawn_request]. cr_step q = 0 \<and> Some (AgentId 3) = Some (cr_agent_id q))"
proof -
  let ?crc = "\<lambda>_ :: string. 7 :: u32" and ?r = "RecAgentSpawned ''a''"
  let ?parse = "\<lambda>_ :: string. Some (AgentId 3)"
  let ?step = "host_step ?crc (evaluate_program spawn_program) ?parse sample_spec"
  let ?start = "start_frame ?crc" and ?child = "Inr \<lparr>sc_run_id = RunId 5, sc_limits = rs_limits sample_spec\<rparr> :: spawned"
  let ?io = "\<lparr>ai_len = None, ai_write = None, ai_again = None, ai_cut = None\<rparr>"
  have start: "?start = file_image ?crc []" by (simp add: file_image_def)
  have read: "decode ?crc ?start = Inr ([], length ?start)" "decode ?crc (file_image ?crc [?r]) = Inr ([?r], length (file_image ?crc [?r]))"
    using decode_image [of "[]" ?crc "[]"] decode_image [of "[?r]" ?crc "[]"] sample_fits(2) nothing_torn start by simp_all
  have "journal_open ?crc None None ?io [] = (Inr (), ?start)"
    by (simp add: journal_open_def decode_def append_frame_def is_prefix_def start_nonempty Let_def)
  then have one: "?step (([], [], False), []) ((?start, [], True), [])" by (intro journal_only opened)
  have child: "start_child ?parse sample_spec (asking ?child) \<lparr>records = []\<rparr> \<lparr>as_agent = ''a'', as_input = ''hi''\<rparr> asks = (?child, asks @ [spawn_request])" for asks
    by (simp add: start_child_def asking_def spawn_request_def)
  have history: "journal_history ?crc None ?start = Inr \<lparr>records = []\<rparr>" using read(1) by (simp add: journal_history_def)
  have two: "?step ((?start, [], True), []) ((?start, [], False), [spawn_request])"
    by (rule replay_killed [where evaluate = "evaluate_program spawn_program" and agent = "\<lparr>as_agent = ''a'', as_input = ''hi''\<rparr>" and r = ?child,
          OF history spawn_program_evaluates _ _ _ read(1)]) (use child [of "[]"] in simp_all)
  have "journal_open ?crc None None ?io ?start = (Inr (), ?start)" using read(1) start_nonempty(1) by (simp add: journal_open_def Let_def)
  then have three: "?step ((?start, [], False), [spawn_request]) ((?start, [], True), [spawn_request])" by (intro journal_only opened)
  have "commit ?crc ?io ?r ?start = (Inr (), file_image ?crc [?r])"
    using frame_of_fits [OF sample_fits(2), of ?crc] by (simp add: commit_def append_frame_def file_image_def)
  then have "replay_workflow ?crc (evaluate_program spawn_program) ?parse sample_spec (asking ?child) (\<lambda>asks. (0, asks)) None ?io ?start [spawn_request]
    = Some (Inr (\<lparr>ws_commands = [SpawnAgent \<lparr>as_agent = ''a'', as_input = ''hi''\<rparr>], ws_wait = WaitNone\<rparr>, Some ?child), file_image ?crc [?r], [spawn_request, spawn_request])"
    by (simp add: replay_workflow_def history spawn_program_evaluates child)
  from replayed [OF this read(2), of "[]"] have four: "?step ((?start, [], True), [spawn_request])
    ((file_image ?crc [?r], [?r], True), [spawn_request, spawn_request])" by simp
  have run: "?step\<^sup>*\<^sup>* (([], [], False), []) ((file_image ?crc [?r], [?r], True), [spawn_request, spawn_request])"
    by (rule rtranclp.rtrancl_into_rtrancl, rule rtranclp.rtrancl_into_rtrancl, rule rtranclp.rtrancl_into_rtrancl,
      rule r_into_rtranclp, rule one, rule two, rule three, rule four)
  from workflow_asks_for_same_child [OF this spawn_program_utf8] run show ?thesis by (auto dest!: spec [of _ "0 :: nat"])
qed

section \<open>A hosted program ends\<close>

text \<open>What the host can carry out: the counter, and the spawn of an agent that is named by its id in a record that fits a frame.\<close>

primrec hosted :: "(string \<Rightarrow> agent_id option) \<Rightarrow> decision \<Rightarrow> bool" where
  "hosted parse (WTool name inp) = (name = ''counter'')"
| "hosted parse (WSpawnAgent agent inp) = (parse agent \<noteq> None \<and> is_utf8 agent \<and> length agent + 5 \<le> unat MAX_LEN)"
| "hosted parse (WSeq ds) = list_all (\<lambda>b. b) (map (hosted parse) ds)"
| "hosted parse DecComplete = True"
| "hosted parse DecFail = True"
| "hosted parse (OnCounter missing zero other) = (hosted parse missing \<and> hosted parse zero \<and> hosted parse other)"

fun hosted_command :: "(string \<Rightarrow> agent_id option) \<Rightarrow> workflow_command \<Rightarrow> bool" where
  "hosted_command parse (ExecuteTool t) = (ts_name t = ''counter'')"
| "hosted_command parse (SpawnAgent a) =
     (parse (as_agent a) \<noteq> None \<and> is_utf8 (as_agent a) \<and> length (as_agent a) + 5 \<le> unat MAX_LEN)"
| "hosted_command parse c = True"

lemma walk_hosted:
  "walk d h cursor = Next c \<Longrightarrow> hosted parse d \<Longrightarrow> hosted_command parse c"
  "walk_seq ds h cursor = Next c \<Longrightarrow> list_all (hosted parse) ds \<Longrightarrow> hosted_command parse c"
  by (induction d h cursor and ds h cursor rule: walk_walk_seq.induct)
    (auto simp: walk.simps(6) list_all_iff split: option.splits wrecord.splits if_splits walk_result.splits)

definition working :: append_io where
  "working = \<lparr>ai_len = None, ai_write = None, ai_again = None, ai_cut = None\<rparr>"

lemma commit_works: "\<not> isl (frame_of crc r) \<Longrightarrow> \<exists>file1. commit crc working r file = (Inr (), file1)"
  by (cases "frame_of crc r") (auto simp: commit_def append_frame_def working_def)

lemma counter_fits: "\<not> isl (frame_of crc (record_counter v))"
proof -
  have "\<bar>sint v\<bar> \<le> 2 ^ 63" using sint_range_size [of v] by (auto simp: word_size)
  then have "nat (sint v) < 10 ^ Suc 19" "nat (- sint v) < 10 ^ Suc 19" by auto
  from dec_length [OF this(1)] dec_length [OF this(2)] have "length (dec_int (sint v)) \<le> 21" by (simp add: dec_int_def)
  then show ?thesis by (simp add: record_counter_def frame_of_def payload_of_def put_string_def MAX_LEN_value)
qed

lemma agent_fits: "length agent + 5 \<le> unat MAX_LEN \<Longrightarrow> \<not> isl (frame_of crc (RecAgentSpawned agent))"
  by (simp add: frame_of_def payload_of_def put_string_def MAX_LEN_value)

lemma replay_progress:
  fixes w :: 'w
  assumes ok: "journal_ok crc (file, log, True)" and host: "hosted parse (root p)" and short: "length log < 2 ^ 32"
    and starts: "\<forall>q w. \<not> isl (fst (spawner q w))"
  obtains step spawned file1 w1 where
    "replay_workflow crc (evaluate_program p) parse parent spawner stand_in None working file w = Some (Inr (step, spawned), file1, w1)"
    "issues (walk (root p) \<lparr>records = log\<rparr> 0) \<and> (\<exists>r. journal_ok crc (file1, log @ [r], True))
     \<or> \<not> issues (walk (root p) \<lparr>records = log\<rparr> 0) \<and> file1 = file \<and> w1 = w \<and> spawned = None \<and> ws_commands step \<in> {[WComplete], [WFail]}"
proof -
  let ?h = "\<lparr>records = log\<rparr>"
  obtain c where c: "evaluate_program p ?h = Some \<lparr>ws_commands = [c], ws_wait = WaitNone\<rparr>"
    "walk (root p) ?h 0 = Next c \<or> (\<exists>n. walk (root p) ?h 0 = Done n) \<and> c = WFail"
    using evaluate_program_cases [of p ?h] by blast
  have issue: "issues (walk (root p) ?h 0) \<longleftrightarrow> issues (Next c)" using c(2) by auto
  note eq = replay_workflow_def [of crc "evaluate_program p" parse parent spawner stand_in None working "file" w, unfolded history_ok [OF ok], simplified, unfolded c(1), simplified]
  show thesis
  proof (cases c)
    case (ExecuteTool tool)
    with c(2) have "walk (root p) ?h 0 = Next (ExecuteTool tool)" by auto
    from walk_hosted(1) [OF this host] have name: "ts_name tool = ''counter''" by simp
    obtain v w1 where v: "stand_in w = (v, w1)" by fastforce
    obtain file1 where app: "commit crc working (record_counter v) file = (Inr (), file1)" using commit_works [OF counter_fits] by blast
    from commit_keeps [OF ok record_counter_utf8 app] have "journal_ok crc (file1, log @ [record_counter v], True)" by simp
    with ExecuteTool name v app eq issue show thesis by (intro that [of _ None file1 w1]) (auto simp: commit_counter_def)
  next
    case (SpawnAgent agent)
    with c(2) have "walk (root p) ?h 0 = Next (SpawnAgent agent)" by auto
    from walk_hosted(1) [OF this host] obtain aid where a: "parse (as_agent agent) = Some aid" "is_utf8 (as_agent agent)" "length (as_agent agent) + 5 \<le> unat MAX_LEN"
      by auto
    from a(1) short starts obtain child w1 where child: "start_child parse parent spawner ?h agent w = (Inr child, w1)"
      by (cases "start_child parse parent spawner ?h agent w"; cases "fst (start_child parse parent spawner ?h agent w)")
        (auto simp: start_child_def, metis fst_conv isl_def)
    obtain file1 where app: "commit crc working (RecAgentSpawned (as_agent agent)) file = (Inr (), file1)"
      using commit_works [OF agent_fits [OF a(3)]] by blast
    from commit_keeps [OF ok _ app] a(2) have "journal_ok crc (file1, log @ [RecAgentSpawned (as_agent agent)], True)" by simp
    with SpawnAgent child app eq issue show thesis by (intro that [of _ "Some (Inr child)" file1 w1]) auto
  qed (use eq issue in \<open>auto intro!: that\<close>)
qed

text \<open>The host replays the workflow a number of times; \<open>None\<close> where a replay fails.\<close>

primrec replay_times ::
    "(string \<Rightarrow> u32) \<Rightarrow> (history \<Rightarrow> workflow_step option) \<Rightarrow> (string \<Rightarrow> agent_id option) \<Rightarrow> run_spec \<Rightarrow> 'w spawner \<Rightarrow> ('w \<Rightarrow> i64 \<times> 'w)
     \<Rightarrow> nat \<Rightarrow> string \<times> 'w \<Rightarrow> (string \<times> 'w) option" where
  "replay_times crc evaluate parse parent spawner stand_in 0 s = Some s"
| "replay_times crc evaluate parse parent spawner stand_in (Suc n) s =
     (case replay_workflow crc evaluate parse parent spawner stand_in None working (fst s) (snd s) of
        Some (Inr _, s1) \<Rightarrow> replay_times crc evaluate parse parent spawner stand_in n s1
      | _ \<Rightarrow> None)"

lemma replay_rests:
  assumes "journal_ok crc (file, log, True)" and "hosted parse (root p)" and "length log < 2 ^ 32"
    and "\<forall>q w. \<not> isl (fst (spawner q w))" and "\<not> issues (walk (root p) \<lparr>records = log\<rparr> 0)"
  shows "replay_times crc (evaluate_program p) parse parent spawner stand_in n (file, w) = Some (file, w)"
    "\<exists>step. replay_workflow crc (evaluate_program p) parse parent spawner stand_in None working file w = Some (Inr (step, None), file, w)
       \<and> ws_commands step \<in> {[WComplete], [WFail]}"
proof -
  show rests: "\<exists>step. replay_workflow crc (evaluate_program p) parse parent spawner stand_in None working file w = Some (Inr (step, None), file, w)
       \<and> ws_commands step \<in> {[WComplete], [WFail]}"
    by (rule replay_progress [where stand_in = stand_in and parent = parent and w = w, OF assms(1-4)]) (use assms(5) in auto)
  show "replay_times crc (evaluate_program p) parse parent spawner stand_in n (file, w) = Some (file, w)"
    by (induction n) (use rests in auto)
qed

lemma replays_advance:
  assumes "journal_ok crc (file, log, True)" and "hosted parse (root p)" and "length log + n < 2 ^ 32"
    and "\<forall>q w. \<not> isl (fst (spawner q w))"
  shows "\<exists>file1 w1 log1. replay_times crc (evaluate_program p) parse parent spawner stand_in n (file, w) = Some (file1, w1)
    \<and> journal_ok crc (file1, log1, True) \<and> length log1 \<le> length log + n
    \<and> (issues (walk (root p) \<lparr>records = log1\<rparr> 0) \<longrightarrow> length log1 = length log + n)"
  using assms(1,3)
proof (induction n arbitrary: "file" w log)
  case (Suc n)
  show ?case
  proof (cases "issues (walk (root p) \<lparr>records = log\<rparr> 0)")
    case False
    with replay_rests(1) [OF Suc.prems(1) assms(2) _ assms(4), of parent stand_in "Suc n" w] Suc.prems show ?thesis by auto
  next
    case True
    have "length log < 2 ^ 32" using Suc.prems(2) by simp
    from replay_progress [where stand_in = stand_in and parent = parent and w = w, OF Suc.prems(1) assms(2) this assms(4)] True
    obtain step spawned file1 w1 r where r: "journal_ok crc (file1, log @ [r], True)"
      "replay_workflow crc (evaluate_program p) parse parent spawner stand_in None working file w = Some (Inr (step, spawned), file1, w1)"
      by metis
    from Suc.IH [OF r(1), of w1] Suc.prems(2) r(2) show ?thesis by simp
  qed
qed auto

text \<open>C19. A hosted workflow ends. Once the journal of a program is opened, after whatever kills and failures, as many replays as
  the program has tool calls and spawns along its longest branch bring it to its end, where the next replay gives its verdict
  and does nothing more; provided the disk works from there on, the spawner starts what it is asked for, and the program
  calls no tool but the counter and names agents by their ids.\<close>

theorem workflow_replays_end:
  assumes "(journal_step crc)\<^sup>*\<^sup>* ([], [], False) (file, log, True)" and "hosted parse (root p)"
    and "length log + calls (root p) < 2 ^ 32" and "\<forall>q w. \<not> isl (fst (spawner q w))"
  shows "\<exists>file1 w1 step. replay_times crc (evaluate_program p) parse parent spawner stand_in (calls (root p)) (file, w) = Some (file1, w1)
    \<and> replay_workflow crc (evaluate_program p) parse parent spawner stand_in None working file1 w1 = Some (Inr (step, None), file1, w1)
    \<and> ws_commands step \<in> {[WComplete], [WFail]}"
proof -
  from replays_advance [OF journal_reached_ok [OF assms(1)] assms(2-4), where w = w and parent = parent and stand_in = stand_in]
  obtain file1 w1 log1 where after: "replay_times crc (evaluate_program p) parse parent spawner stand_in (calls (root p)) (file, w) = Some (file1, w1)"
    "journal_ok crc (file1, log1, True)" "length log1 \<le> length log + calls (root p)"
    "issues (walk (root p) \<lparr>records = log1\<rparr> 0) \<longrightarrow> length log1 = length log + calls (root p)" by blast
  have "\<not> issues (walk (root p) \<lparr>records = log1\<rparr> 0)"
    using after(4) walk_takes [of 0 "\<lparr>records = log1\<rparr>" "root p"] by (auto simp: takes_at_most_def)
  with replay_rests(2) [OF after(2) assms(2) _ assms(4)] after(1,3) assms(3) show ?thesis by force
qed

theorem workflow_replays_end_witness:
  "\<exists>file1 w1 step.
     replay_times (\<lambda>_. 7) (evaluate_program spawn_program) (\<lambda>_. Some (AgentId 3)) sample_spec
       (asking (Inr \<lparr>sc_run_id = RunId 5, sc_limits = rs_limits sample_spec\<rparr>)) (\<lambda>asks. (0, asks)) 1 (start_frame (\<lambda>_. 7), []) = Some (file1, w1)
   \<and> replay_workflow (\<lambda>_. 7) (evaluate_program spawn_program) (\<lambda>_. Some (AgentId 3)) sample_spec
       (asking (Inr \<lparr>sc_run_id = RunId 5, sc_limits = rs_limits sample_spec\<rparr>)) (\<lambda>asks. (0, asks)) None working file1 w1
     = Some (Inr (step, None), file1, w1)
   \<and> ws_commands step \<in> {[WComplete], [WFail]}"
proof -
  have "journal_open (\<lambda>_. 7) None None working [] = (Inr (), start_frame (\<lambda>_. 7))"
    by (simp add: journal_open_def decode_def append_frame_def is_prefix_def start_nonempty working_def Let_def)
  then have "(journal_step (\<lambda>_. 7))\<^sup>*\<^sup>* ([], [], False) (start_frame (\<lambda>_. 7), [], True)" by (intro r_into_rtranclp opened)
  from workflow_replays_end [OF this, of "\<lambda>_. Some (AgentId 3)" spawn_program "asking (Inr \<lparr>sc_run_id = RunId 5, sc_limits = rs_limits sample_spec\<rparr>)"
      sample_spec "\<lambda>asks. (0, asks)" "[]"]
  show ?thesis by (simp add: spawn_program_def asking_def between_def MAX_LEN_value)
qed

section \<open>Two tools together\<close>

text \<open>\<open>join_all\<close> over a journal that ends on a whole frame runs the tools that have no record yet, in order and once each; a
  journal that holds more than the two is refused, and nothing is run or written.\<close>

theorem join_runs_missing:
  assumes "journal_ok crc (file, log, True)"
  shows "(length log \<le> 2 \<longrightarrow>
      (\<exists>file1. join_all crc join_branch (\<lambda>n asked. (val n, asked @ [n])) None working working file asked
         = Some (Inr (), file1, asked @ drop (length log) [0, 1])
       \<and> journal_ok crc (file1, log @ map (\<lambda>n. record_counter (val n)) (drop (length log) [0, 1]), True)))
   \<and> (2 < length log \<longrightarrow>
      join_all crc join_branch (\<lambda>n asked. (val n, asked @ [n])) None working working file asked
        = Some (Inl (InvalidData ''journal length''), file, asked))"
proof -
  have app: "\<exists>file1. commit crc working (record_counter v) file0 = (Inr (), file1) \<and> journal_ok crc (file1, log0 @ [record_counter v], True)"
    if "journal_ok crc (file0, log0, True)" for v file0 log0
    using commit_works [OF counter_fits, of crc v file0] commit_keeps [OF that record_counter_utf8] by fastforce
  obtain file1 where one: "commit crc working (record_counter (val (of_nat (length log)))) file = (Inr (), file1)"
    "journal_ok crc (file1, log @ [record_counter (val (of_nat (length log)))], True)" using app [OF assms] by blast
  obtain file2 where two: "commit crc working (record_counter (val 1)) file1 = (Inr (), file2)"
    "journal_ok crc (file2, log @ [record_counter (val (of_nat (length log))), record_counter (val 1)], True)" using app [OF one(2)] by fastforce
  consider "length log = 0" | "length log = 1" | "length log = 2" | "2 < length log" by linarith
  then show ?thesis
    by cases (use assms one two in \<open>auto simp: join_all_def join_branch_def join_tools_def spawn_handle_def commit_counter_def
      history_ok [OF assms] Let_def numeral_2_eq_2\<close>)
qed

end
