(* ===== verification/Store_Base.thy ===== *)
theory Store_Base
  imports Harness_Memory "HOL-Library.Product_Lexorder" "HOL-Library.Option_ord"
    "HOL-Library.List_Lexorder" "HOL-Library.Char_ord"
begin

text \<open>
  The data of the run store (\<open>crates/server/src/store.rs\<close>) and the state of \<open>InMemoryStore\<close>.
  A \<open>HashMap\<close> is an association list with one binding per key: its order stands for the order
  the map iterates in, which Rust does not specify, so an operation that lists values sorts
  them. A \<open>Mutex\<close> carries the flag that a writer panicked holding it: reads go on, writes are
  refused. The counters that are \<open>u64\<close> in the source count events and puts, and are naturals
  here. Sorting uses the lexicographic orders of pairs, options and strings, as Rust's
  \<open>Ord\<close> does.
\<close>

section \<open>Stored data\<close>

record agent_manifest =
  mf_id :: agent_id
  mf_version :: string
  mf_name :: string
  mf_description :: string
  mf_instructions :: string
  mf_tools :: "string list"
  mf_required_capabilities :: "capability list"

record stored_agent =
  sa_manifest :: agent_manifest
  sa_owner :: owner

datatype put_agent_result = AgentStored | OwnedByOther

record stored_run =
  sr_spec :: run_spec
  sr_events :: "event list"

record stored_artifact =
  ar_id :: artifact_id
  ar_run_id :: run_id
  ar_name :: string
  ar_body :: string

datatype put_run_result = RunStored | RunExisted

datatype append_result = Appended | AppendTerminal | AppendMissing | AppendMoved

record stored_message =
  ms_id :: message_id
  ms_owner :: owner
  ms_from_run :: run_id
  ms_from_agent :: agent_id
  ms_decision :: u32
  ms_to_agent :: agent_id
  ms_body :: string
  ms_expects_reply :: bool
  ms_reply_to :: "message_id option"
  ms_task_run :: "run_id option"
  ms_deadline :: "timestamp option"
  ms_timeout_secs :: "u32 option"
  ms_hop :: u32

datatype put_message_result = MessageStored | MessageExisted stored_message

type_synonym principal_key = "string \<times> string"

record outbox_row =
  row_principal :: principal_key
  row_seq :: nat
  row_run_id :: run_id
  row_run_seq :: nat
  row_stored_ms :: int

record outbox_entry =
  oe_seq :: nat
  oe_run_id :: run_id
  oe_run_seq :: nat
  oe_event :: event

record outbox_page =
  op_entries :: "outbox_entry list"
  op_pruned_through :: nat
  op_last :: nat

record outbox =
  ob_counts :: "(principal_key \<times> nat) list"
  ob_pruned :: "(principal_key \<times> nat) list"
  ob_rows :: "outbox_row list"

record thread_summary =
  th_id :: string
  th_agent_id :: agent_id
  th_started_ms :: int
  th_runs :: nat

datatype stop_scope = StopRun run_id | StopThread string | StopOwner

datatype trigger_id = TriggerId (trigger_uuid: uuid)

datatype trigger_kind = Schedule string string | Webhook u32

datatype missed = RunOnceLate | MissedSkip

record stored_trigger =
  tr_id :: trigger_id
  tr_owner :: owner
  tr_agent_id :: agent_id
  tr_kind :: trigger_kind
  tr_input :: string
  tr_placement :: execution_placement
  tr_work_model :: work_model
  tr_limits :: "limits option"
  tr_missed :: missed
  tr_enabled :: bool
  tr_next_fire_ms :: "int option"
  tr_created_ms :: int
  tr_generation :: nat

section \<open>Locks\<close>

record 'a mutex =
  mx_value :: 'a
  mx_poisoned :: bool

definition mutex_new :: "'a \<Rightarrow> 'a mutex" where
  "mutex_new v = \<lparr>mx_value = v, mx_poisoned = False\<rparr>"

definition lock_read :: "'a mutex \<Rightarrow> 'a" where
  "lock_read m = mx_value m"

definition lock_write :: "'a mutex \<Rightarrow> string \<Rightarrow> store_error + 'a" where
  "lock_write m name =
     (if mx_poisoned m then Inl (StoreError (name @ '' store lock poisoned'')) else Inr (mx_value m))"

section \<open>The store\<close>

record store =
  so_agents :: "(agent_id \<times> stored_agent) list mutex"
  so_runs :: "(run_id \<times> stored_run) list mutex"
  so_artifacts :: "(artifact_id \<times> stored_artifact) list mutex"
  so_messages :: "(message_id \<times> stored_message \<times> bool) list mutex"
  so_outbox :: "outbox mutex"
  so_stops :: "(principal_key \<times> stop_scope \<times> nat) list mutex"
  so_order :: nat
  so_stored :: "(run_id \<times> nat) list mutex"
  so_triggers :: "stored_trigger list mutex"
  so_hints :: "64 word list"

definition store_default :: store where
  "store_default =
     \<lparr>so_agents = mutex_new [], so_runs = mutex_new [], so_artifacts = mutex_new [],
      so_messages = mutex_new [], so_outbox = mutex_new \<lparr>ob_counts = [], ob_pruned = [], ob_rows = []\<rparr>,
      so_stops = mutex_new [], so_order = 0, so_stored = mutex_new [], so_triggers = mutex_new [],
      so_hints = []\<rparr>"

definition principal :: "owner \<Rightarrow> principal_key" where
  "principal own = (ow_issuer own, ow_subject own)"

definition thread_of :: "run_spec \<Rightarrow> string option" where
  "thread_of spec =
     (case rs_metadata spec SESSION_ID of
        None \<Rightarrow> None
      | Some session \<Rightarrow> if session = [] then None else Some session)"

definition created_ms :: "stored_run \<Rightarrow> int" where
  "created_ms run =
     (case sr_events run of [] \<Rightarrow> 0 | ev # evs \<Rightarrow> env_at (ev_envelope ev))"

lemma lock_write_Inr: "lock_write m name = Inr v \<longleftrightarrow> \<not> mx_poisoned m \<and> v = mx_value m"
  by (auto simp: lock_write_def)

lemma same_principal_iff: "same_principal a b \<longleftrightarrow> principal a = principal b"
  by (simp add: same_principal_def principal_def)

lemma map_of_update [simp]: "map_of (AList.update k v m) k' = (if k' = k then Some v else map_of m k')"
  by (simp add: update_conv')

lemma set_update_subset: "set (AList.update k v m) \<subseteq> insert (k, v) (set m)"
  by (induction m) auto

lemma in_update: "(k', v') \<in> set (AList.update k v m) \<Longrightarrow> (k', v') = (k, v) \<or> (k', v') \<in> set m"
  using set_update_subset [of k v m] by blast

section \<open>Wake-up hints\<close>

unbundle bit_operations_syntax

definition fnv_step :: "64 word \<Rightarrow> char \<Rightarrow> 64 word" where
  "fnv_step hash byte = (hash XOR of_nat (of_char byte)) * 0x100000001b3"

definition principal_hint_of :: "string \<Rightarrow> string \<Rightarrow> 64 word" where
  "principal_hint_of issuer subject =
     max (foldl fnv_step 0xcbf29ce484222325 (issuer @ [CHR 0x00] @ subject)) 1"

definition principal_hint :: "owner \<Rightarrow> 64 word" where
  "principal_hint own = principal_hint_of (ow_issuer own) (ow_subject own)"

end
