(* ===== verification/Run_Store.thy ===== *)
theory Run_Store
  imports Store_Base
begin

text \<open>
  Agents, runs, artifacts and the outbox of the in-memory store
  (\<open>crates/server/src/store.rs\<close>: \<open>RunStore\<close>, \<open>OutboxStore\<close> for \<open>InMemoryStore\<close>). An operation
  that locks and writes returns its result with the new store; an error leaves the store as the
  code leaves it. The clock is an argument.
\<close>

section \<open>Batches\<close>

fun position :: "('a \<Rightarrow> bool) \<Rightarrow> 'a list \<Rightarrow> nat option" where
  "position P [] = None"
| "position P (x # xs) = (if P x then Some 0 else map_option Suc (position P xs))"

definition check_one_terminal :: "event list \<Rightarrow> store_error + unit" where
  "check_one_terminal events =
     (let after_terminal = (case position is_end_event events of
                              None \<Rightarrow> False
                            | Some at \<Rightarrow> at + 1 < length events)
      in if after_terminal then Inl (StoreError ''a batch holds an event after its terminal event'')
         else Inr ())"

section \<open>Numbering\<close>

definition count_of :: "(principal_key \<times> nat) list \<Rightarrow> principal_key \<Rightarrow> nat" where
  "count_of counts p = (case map_of counts p of None \<Rightarrow> 0 | Some n \<Rightarrow> n)"

definition number :: "int \<Rightarrow> owner \<Rightarrow> run_id \<Rightarrow> nat \<Rightarrow> nat \<Rightarrow> store \<Rightarrow> (store_error + unit) \<times> store" where
  "number now_ms own run stored count s =
     (case lock_write (so_outbox s) ''outbox'' of
        Inl e \<Rightarrow> (Inl e, s)
      | Inr ob \<Rightarrow>
          (let p = principal own;
               first = count_of (ob_counts ob) p + 1;
               rows = map (\<lambda>n. \<lparr>row_principal = p, row_seq = first + n, row_run_id = run,
                                 row_run_seq = stored + n + 1, row_stored_ms = now_ms\<rparr>) [0..<count]
           in (Inr (),
               s\<lparr>so_outbox := (so_outbox s)\<lparr>mx_value :=
                    ob\<lparr>ob_rows := ob_rows ob @ rows,
                       ob_counts := AList.update p (first + count - 1) (ob_counts ob)\<rparr>\<rparr>,
                 so_hints := so_hints s @ [principal_hint own]\<rparr>)))"

section \<open>Agents and artifacts\<close>

definition put_agent :: "stored_agent \<Rightarrow> store \<Rightarrow> (store_error + put_agent_result) \<times> store" where
  "put_agent agent s =
     (case lock_write (so_agents s) ''agent'' of
        Inl e \<Rightarrow> (Inl e, s)
      | Inr agents \<Rightarrow>
          (let nm = mf_id (sa_manifest agent);
               other = (case map_of agents nm of
                          None \<Rightarrow> False
                        | Some stored \<Rightarrow> \<not> same_principal (sa_owner stored) (sa_owner agent))
           in if other then (Inr OwnedByOther, s)
              else (Inr AgentStored,
                    s\<lparr>so_agents := (so_agents s)\<lparr>mx_value := AList.update nm agent agents\<rparr>\<rparr>)))"

definition get_agent :: "agent_id \<Rightarrow> store \<Rightarrow> stored_agent option" where
  "get_agent nm s = map_of (lock_read (so_agents s)) nm"

definition agents_of :: "owner \<Rightarrow> store \<Rightarrow> stored_agent list" where
  "agents_of own s =
     sort_key (\<lambda>agent. agent_uuid (mf_id (sa_manifest agent)))
       (filter (\<lambda>agent. same_principal (sa_owner agent) own) (map snd (lock_read (so_agents s))))"

definition put_artifact :: "stored_artifact \<Rightarrow> store \<Rightarrow> (store_error + unit) \<times> store" where
  "put_artifact artifact s =
     (case lock_write (so_artifacts s) ''artifact'' of
        Inl e \<Rightarrow> (Inl e, s)
      | Inr artifacts \<Rightarrow>
          (Inr (), s\<lparr>so_artifacts := (so_artifacts s)\<lparr>mx_value := AList.update (ar_id artifact) artifact artifacts\<rparr>\<rparr>))"

definition get_artifact :: "artifact_id \<Rightarrow> store \<Rightarrow> stored_artifact option" where
  "get_artifact nm s = map_of (lock_read (so_artifacts s)) nm"

section \<open>Runs\<close>

definition put_run :: "int \<Rightarrow> stored_run \<Rightarrow> store \<Rightarrow> (store_error + put_run_result) \<times> store" where
  "put_run now_ms run s =
     (case check_one_terminal (sr_events run) of
        Inl e \<Rightarrow> (Inl e, s)
      | Inr u \<Rightarrow>
          (case lock_write (so_runs s) ''run'' of
             Inl e \<Rightarrow> (Inl e, s)
           | Inr runs \<Rightarrow>
               (let nm = rs_run_id (sr_spec run) in
                case map_of runs nm of
                  Some existing \<Rightarrow> (Inr RunExisted, s)
                | None \<Rightarrow>
                    (case number now_ms (rs_owner (sr_spec run)) nm 0 (length (sr_events run)) s of
                       (Inl e, s1) \<Rightarrow> (Inl e, s1)
                     | (Inr v, s1) \<Rightarrow>
                         (let order = so_order s1 + 1; s2 = s1\<lparr>so_order := order\<rparr> in
                          case lock_write (so_stored s2) ''run order'' of
                            Inl e \<Rightarrow> (Inl e, s2)
                          | Inr stored \<Rightarrow>
                              (Inr RunStored,
                               s2\<lparr>so_stored := (so_stored s2)\<lparr>mx_value := AList.update nm order stored\<rparr>,
                                  so_runs := (so_runs s2)\<lparr>mx_value := AList.update nm run runs\<rparr>\<rparr>))))))"

definition append_checked ::
    "int \<Rightarrow> run_id \<Rightarrow> nat option \<Rightarrow> event list \<Rightarrow> store \<Rightarrow> (store_error + append_result) \<times> store" where
  "append_checked now_ms nm seen events s =
     (case check_one_terminal events of
        Inl e \<Rightarrow> (Inl e, s)
      | Inr u \<Rightarrow>
          (case lock_write (so_runs s) ''run'' of
             Inl e \<Rightarrow> (Inl e, s)
           | Inr runs \<Rightarrow>
               (case map_of runs nm of
                  None \<Rightarrow> (Inr AppendMissing, s)
                | Some stored \<Rightarrow>
                    if list_ex is_end_event (sr_events stored) then (Inr AppendTerminal, s)
                    else if (case seen of None \<Rightarrow> False | Some n \<Rightarrow> n \<noteq> length (sr_events stored))
                      then (Inr AppendMoved, s)
                    else
                      (case number now_ms (rs_owner (sr_spec stored)) nm (length (sr_events stored))
                              (length events) s of
                         (Inl e, s1) \<Rightarrow> (Inl e, s1)
                       | (Inr v, s1) \<Rightarrow>
                           (Inr Appended,
                            s1\<lparr>so_runs := (so_runs s1)\<lparr>mx_value :=
                                 AList.update nm (stored\<lparr>sr_events := sr_events stored @ events\<rparr>) runs\<rparr>\<rparr>)))))"

definition append_events :: "int \<Rightarrow> run_id \<Rightarrow> event list \<Rightarrow> store \<Rightarrow> (store_error + append_result) \<times> store" where
  "append_events now_ms nm events s = append_checked now_ms nm None events s"

definition append_events_after ::
    "int \<Rightarrow> run_id \<Rightarrow> nat \<Rightarrow> event list \<Rightarrow> store \<Rightarrow> (store_error + append_result) \<times> store" where
  "append_events_after now_ms nm seen events s = append_checked now_ms nm (Some seen) events s"

definition get_run :: "run_id \<Rightarrow> store \<Rightarrow> stored_run option" where
  "get_run nm s = map_of (lock_read (so_runs s)) nm"

definition run_page :: "run_id \<Rightarrow> nat \<Rightarrow> nat \<Rightarrow> store \<Rightarrow> stored_run option" where
  "run_page nm after limit s =
     map_option (\<lambda>run. run\<lparr>sr_events := take limit (drop after (sr_events run))\<rparr>) (get_run nm s)"

section \<open>The outbox\<close>

text \<open>The entry of a row: its event is read through to the run's log.\<close>

definition row_entry :: "(run_id \<times> stored_run) list \<Rightarrow> outbox_row \<Rightarrow> store_error + outbox_entry" where
  "row_entry runs row =
     (let missing = Inl (StoreError (''outbox entry '' @ dec (row_seq row) @ '' has no event'')) in
      case map_of runs (row_run_id row) of
        None \<Rightarrow> missing
      | Some run \<Rightarrow>
          if row_run_seq row - 1 < length (sr_events run)
          then Inr \<lparr>oe_seq = row_seq row, oe_run_id = row_run_id row, oe_run_seq = row_run_seq row,
                    oe_event = sr_events run ! (row_run_seq row - 1)\<rparr>
          else missing)"

text \<open>Collecting results stops at the first error.\<close>

fun collect_results :: "('e + 'a) list \<Rightarrow> 'e + 'a list" where
  "collect_results [] = Inr []"
| "collect_results (Inl e # rs) = Inl e"
| "collect_results (Inr a # rs) = (case collect_results rs of Inl e \<Rightarrow> Inl e | Inr as \<Rightarrow> Inr (a # as))"

definition outbox_after :: "owner \<Rightarrow> nat \<Rightarrow> nat \<Rightarrow> store \<Rightarrow> store_error + outbox_page" where
  "outbox_after own after limit s =
     (let p = principal own;
          ob = lock_read (so_outbox s);
          rows = take limit (filter (\<lambda>row. row_principal row = p \<and> after < row_seq row) (ob_rows ob));
          runs = lock_read (so_runs s)
      in case collect_results (map (row_entry runs) rows) of
           Inl e \<Rightarrow> Inl e
         | Inr entries \<Rightarrow>
             Inr \<lparr>op_entries = entries, op_pruned_through = count_of (ob_pruned ob) p,
                  op_last = count_of (ob_counts ob) p\<rparr>)"

definition raise_to :: "principal_key \<Rightarrow> nat \<Rightarrow> (principal_key \<times> nat) list \<Rightarrow> (principal_key \<times> nat) list" where
  "raise_to p n m = AList.update p (max (count_of m p) n) m"

definition prune_through :: "int \<Rightarrow> outbox_row list \<Rightarrow> (principal_key \<times> nat) list" where
  "prune_through before rows =
     foldl (\<lambda>m row. if row_stored_ms row < before then raise_to (row_principal row) (row_seq row) m else m) [] rows"

definition prune_outbox :: "int \<Rightarrow> store \<Rightarrow> (store_error + nat) \<times> store" where
  "prune_outbox before s =
     (case lock_write (so_outbox s) ''outbox'' of
        Inl e \<Rightarrow> (Inl e, s)
      | Inr ob \<Rightarrow>
          (let through = prune_through before (ob_rows ob);
               kept = filter (\<lambda>row. case map_of through (row_principal row) of
                                      None \<Rightarrow> True | Some t \<Rightarrow> t < row_seq row) (ob_rows ob);
               pruned = foldl (\<lambda>m (p, t). raise_to p t m) (ob_pruned ob) through
           in (Inr (length (ob_rows ob) - length kept),
               s\<lparr>so_outbox := (so_outbox s)\<lparr>mx_value := ob\<lparr>ob_rows := kept, ob_pruned := pruned\<rparr>\<rparr>\<rparr>)))"

section \<open>Facts about the operations\<close>

lemma position_None: "position P xs = None \<longleftrightarrow> list_all (\<lambda>x. \<not> P x) xs"
  by (induction xs) auto

lemma position_Some: "position P xs = Some i \<Longrightarrow> i < length xs \<and> P (xs ! i) \<and> (\<forall>j < i. \<not> P (xs ! j))"
proof (induction xs arbitrary: i)
  case (Cons x xs)
  then show ?case by (fastforce simp: nth_Cons less_Suc_eq_0_disj split: if_splits nat.splits)
qed simp

lemma check_one_terminal_iff: "check_one_terminal events = Inr u \<longleftrightarrow> terminal_last events"
proof (cases "position is_end_event events")
  case None
  moreover from None have "\<forall>ev \<in> set events. \<not> is_end_event ev" by (simp add: position_None list_all_iff)
  ultimately show ?thesis
    by (auto simp: check_one_terminal_def terminal_last_def list_all_iff dest: in_set_butlastD)
next
  case (Some i)
  note at = position_Some [OF Some]
  show ?thesis
  proof (cases "i + 1 < length events")
    case True
    then have "events ! i \<in> set (butlast events)"
      by (auto simp: in_set_conv_nth nth_butlast intro!: exI [of _ i])
    with True at Some show ?thesis by (auto simp: check_one_terminal_def terminal_last_def list_all_iff)
  next
    case False
    then have "\<forall>ev \<in> set (butlast events). \<not> is_end_event ev"
      using at by (auto simp: in_set_conv_nth nth_butlast)
    with False Some show ?thesis by (auto simp: check_one_terminal_def terminal_last_def list_all_iff)
  qed
qed

lemma check_one_terminal_cases: "check_one_terminal events = Inr () \<or> (\<exists>e. check_one_terminal events = Inl e)"
  by (cases "check_one_terminal events") auto

lemma count_of_update [simp]: "count_of (AList.update p n m) q = (if q = p then n else count_of m q)"
  by (simp add: count_of_def update_conv')

section \<open>The invariant\<close>

definition rows_of :: "principal_key \<Rightarrow> outbox_row list \<Rightarrow> outbox_row list" where
  "rows_of p rows = filter (\<lambda>row. row_principal row = p) rows"

text \<open>One binding per run, under its own id, with a log that ends at its terminal event.\<close>

definition runs_ok :: "(run_id \<times> stored_run) list \<Rightarrow> bool" where
  "runs_ok runs =
     (distinct (map fst runs)
      \<and> list_all (\<lambda>(k, run). rs_run_id (sr_spec run) = k \<and> terminal_last (sr_events run)) runs)"

text \<open>Each principal's rows are numbered without a gap from the last pruned number to its count, and
  each row's event is stored in a run of that principal.\<close>

definition row_ok :: "(run_id \<times> stored_run) list \<Rightarrow> outbox_row \<Rightarrow> bool" where
  "row_ok runs row =
     (\<exists>run. map_of runs (row_run_id row) = Some run \<and> principal (rs_owner (sr_spec run)) = row_principal row
        \<and> 1 \<le> row_run_seq row \<and> row_run_seq row \<le> length (sr_events run))"

definition numbered_ok :: "outbox \<Rightarrow> bool" where
  "numbered_ok ob =
     (\<forall>p. count_of (ob_pruned ob) p \<le> count_of (ob_counts ob) p
        \<and> map row_seq (rows_of p (ob_rows ob)) = [Suc (count_of (ob_pruned ob) p) ..< Suc (count_of (ob_counts ob) p)])"

definition outbox_ok :: "(run_id \<times> stored_run) list \<Rightarrow> outbox \<Rightarrow> bool" where
  "outbox_ok runs ob = (numbered_ok ob \<and> (\<forall>row \<in> set (ob_rows ob). row_ok runs row))"

definition store_ok :: "store \<Rightarrow> bool" where
  "store_ok s =
     (runs_ok (mx_value (so_runs s)) \<and> outbox_ok (mx_value (so_runs s)) (mx_value (so_outbox s))
      \<and> \<not> mx_poisoned (so_stored s))"

lemma store_ok_default: "store_ok store_default"
  by (simp add: store_ok_def store_default_def mutex_new_def runs_ok_def outbox_ok_def numbered_ok_def rows_of_def count_of_def)

lemma runs_ok_update:
  assumes "runs_ok runs" and "rs_run_id (sr_spec run) = nm" and "terminal_last (sr_events run)"
  shows "runs_ok (AList.update nm run runs)"
proof -
  have "set (AList.update nm run runs) \<subseteq> insert (nm, run) (set runs)"
    by (induction runs) auto
  then show ?thesis
    using assms by (auto simp: runs_ok_def list_all_iff distinct_update)
qed

lemma row_ok_update:
  assumes "row_ok runs row"
    and "\<And>old. map_of runs nm = Some old \<Longrightarrow>
      principal (rs_owner (sr_spec run)) = principal (rs_owner (sr_spec old)) \<and> length (sr_events old) \<le> length (sr_events run)"
  shows "row_ok (AList.update nm run runs) row"
  using assms by (auto simp: row_ok_def)

text \<open>What \<open>number\<close> does to the outbox: new rows at the end, numbered on from the count.\<close>

definition new_rows :: "int \<Rightarrow> principal_key \<Rightarrow> nat \<Rightarrow> run_id \<Rightarrow> nat \<Rightarrow> nat \<Rightarrow> outbox_row list" where
  "new_rows now_ms p base run stored count =
     map (\<lambda>n. \<lparr>row_principal = p, row_seq = base + 1 + n, row_run_id = run, row_run_seq = stored + n + 1,
       row_stored_ms = now_ms\<rparr>) [0..<count]"

lemma number_cases:
  obtains (ok) s' where "number now_ms own run stored count s = (Inr (), s')"
      "\<not> mx_poisoned (so_outbox s)"
      "s' = s\<lparr>so_outbox := so_outbox s', so_hints := so_hints s'\<rparr>"
      "so_outbox s' = (so_outbox s)\<lparr>mx_value := (mx_value (so_outbox s))
         \<lparr>ob_rows := ob_rows (mx_value (so_outbox s)) @
            new_rows now_ms (principal own) (count_of (ob_counts (mx_value (so_outbox s))) (principal own)) run stored count,
          ob_counts := AList.update (principal own) (count_of (ob_counts (mx_value (so_outbox s))) (principal own) + count)
            (ob_counts (mx_value (so_outbox s)))\<rparr>\<rparr>"
      "so_hints s' = so_hints s @ [principal_hint own]"
  | (poisoned) e where "number now_ms own run stored count s = (Inl e, s)" "mx_poisoned (so_outbox s)"
proof (cases "mx_poisoned (so_outbox s)")
  case True
  then show thesis using poisoned by (simp add: number_def lock_write_def)
next
  case False
  then show thesis
    by (intro ok [of "snd (number now_ms own run stored count s)"])
      (simp_all add: number_def lock_write_def Let_def new_rows_def)
qed

lemma rows_of_new: "rows_of q (new_rows now_ms p base run stored count) = (if q = p then new_rows now_ms p base run stored count else [])"
  by (auto simp: rows_of_def new_rows_def filter_map o_def)

lemma seq_of_new: "map row_seq (new_rows now_ms p base run stored count) = [Suc base ..< Suc (base + count)]"
proof -
  have "map row_seq (new_rows now_ms p base run stored count) = map (\<lambda>n. n + Suc base) [0..<count]"
    by (simp add: new_rows_def o_def)
  also have "\<dots> = [Suc base ..< count + Suc base]" by (rule map_add_upt)
  finally show ?thesis by (simp add: add.commute del: upt_Suc)
qed

lemma numbered_new:
  assumes "numbered_ok ob"
  shows "numbered_ok (ob\<lparr>ob_rows := ob_rows ob @ new_rows now_ms p (count_of (ob_counts ob) p) run stored count,
      ob_counts := AList.update p (count_of (ob_counts ob) p + count) (ob_counts ob)\<rparr>)"
proof -
  have join: "[Suc a ..< Suc b] @ [Suc b ..< Suc (b + c)] = [Suc a ..< Suc (b + c)]" if "a \<le> b" for a b c :: nat
    using that upt_add_eq_append [of "Suc a" "Suc b" c] by simp
  show ?thesis
    using assms join
    by (auto simp: numbered_ok_def rows_of_new seq_of_new rows_of_def [symmetric] simp del: upt_Suc
        intro: le_trans [OF _ le_add1])
      (auto simp: rows_of_def rows_of_new [unfolded rows_of_def] seq_of_new simp del: upt_Suc)
qed

lemma rows_ok_new:
  assumes "row \<in> set (new_rows now_ms p base nm stored count)" and "map_of runs nm = Some r"
    and "principal (rs_owner (sr_spec r)) = p" and "stored + count \<le> length (sr_events r)"
  shows "row_ok runs row"
  using assms by (auto simp: new_rows_def row_ok_def)

section \<open>The operations keep the invariant\<close>

lemma put_run_cases:
  obtains (stored) s' where "put_run now_ms run s = (Inr RunStored, s')"
      "terminal_last (sr_events run)" "map_of (mx_value (so_runs s)) (rs_run_id (sr_spec run)) = None"
      "mx_value (so_runs s') = AList.update (rs_run_id (sr_spec run)) run (mx_value (so_runs s))"
      "mx_value (so_outbox s') = (mx_value (so_outbox s))
         \<lparr>ob_rows := ob_rows (mx_value (so_outbox s)) @
            new_rows now_ms (principal (rs_owner (sr_spec run)))
              (count_of (ob_counts (mx_value (so_outbox s))) (principal (rs_owner (sr_spec run))))
              (rs_run_id (sr_spec run)) 0 (length (sr_events run)),
          ob_counts := AList.update (principal (rs_owner (sr_spec run)))
            (count_of (ob_counts (mx_value (so_outbox s))) (principal (rs_owner (sr_spec run))) + length (sr_events run))
            (ob_counts (mx_value (so_outbox s)))\<rparr>"
      "mx_poisoned (so_stored s') = mx_poisoned (so_stored s)"
      "s' = s\<lparr>so_outbox := so_outbox s', so_hints := so_hints s', so_order := Suc (so_order s),
         so_stored := so_stored s', so_runs := so_runs s'\<rparr>"
      "mx_value (so_stored s') = AList.update (rs_run_id (sr_spec run)) (Suc (so_order s)) (mx_value (so_stored s))"
  | (unchanged) r where "put_run now_ms run s = (r, s)" "r \<noteq> Inr RunStored"
  | (unordered) e s' where "put_run now_ms run s = (Inl e, s')" "mx_poisoned (so_stored s)"
proof (cases "check_one_terminal (sr_events run)")
  case (Inl e)
  then show thesis using unchanged by (simp add: put_run_def)
next
  case (Inr u)
  let ?nm = "rs_run_id (sr_spec run)" and ?own = "rs_owner (sr_spec run)"
  show thesis
  proof (cases "mx_poisoned (so_runs s) \<or> map_of (mx_value (so_runs s)) ?nm \<noteq> None")
    case True
    have "\<exists>r. put_run now_ms run s = (r, s) \<and> r \<noteq> Inr RunStored"
      by (use True Inr in \<open>auto simp: put_run_def lock_write_def Let_def\<close>)
    then show thesis using unchanged by blast
  next
    case False
    show thesis
    proof (cases rule: number_cases [of now_ms ?own ?nm 0 "length (sr_events run)" s])
      case (poisoned e)
      then show thesis using unchanged Inr False by (simp add: put_run_def lock_write_def)
    next
      case (ok s1)
      have same: "so_stored s1 = so_stored s" "so_runs s1 = so_runs s" "so_order s1 = so_order s"
        by (subst ok(3), simp)+
      show thesis
      proof (cases "mx_poisoned (so_stored s)")
        case True
        then show thesis
          using unordered Inr False ok same by (simp add: put_run_def lock_write_def Let_def)
      next
        case sound: False
        let ?s' = "snd (put_run now_ms run s)"
        have res: "put_run now_ms run s = (Inr RunStored,
          s1\<lparr>so_order := Suc (so_order s),
            so_stored := (so_stored s)\<lparr>mx_value := AList.update ?nm (Suc (so_order s)) (mx_value (so_stored s))\<rparr>,
            so_runs := (so_runs s)\<lparr>mx_value := AList.update ?nm run (mx_value (so_runs s))\<rparr>\<rparr>)"
          using Inr False ok(1) same sound by (simp add: put_run_def lock_write_def Let_def)
        show thesis
        proof (rule stored [of ?s'])
          show "?s' = s\<lparr>so_outbox := so_outbox ?s', so_hints := so_hints ?s', so_order := Suc (so_order s),
             so_stored := so_stored ?s', so_runs := so_runs ?s'\<rparr>"
            unfolding res by (subst ok(3)) simp
        qed (use res ok(4) Inr False check_one_terminal_iff in auto)
      qed
    qed
  qed
qed

lemma put_run_ok:
  assumes "store_ok s"
  shows "store_ok (snd (put_run now_ms run s))"
proof (cases rule: put_run_cases [of now_ms run s])
  case (unchanged r)
  with assms show ?thesis by simp
next
  case (unordered e s')
  with assms show ?thesis by (simp add: store_ok_def)
next
  case (stored s')
  let ?runs = "mx_value (so_runs s')"
  have "runs_ok ?runs" using assms stored by (simp add: store_ok_def runs_ok_update)
  moreover have "numbered_ok (mx_value (so_outbox s'))"
    unfolding stored(5) using assms by (intro numbered_new) (simp add: store_ok_def outbox_ok_def)
  moreover have "row_ok ?runs row" if "row \<in> set (ob_rows (mx_value (so_outbox s')))" for row
  proof -
    from that consider "row \<in> set (ob_rows (mx_value (so_outbox s)))"
      | "row \<in> set (new_rows now_ms (principal (rs_owner (sr_spec run)))
              (count_of (ob_counts (mx_value (so_outbox s))) (principal (rs_owner (sr_spec run))))
              (rs_run_id (sr_spec run)) 0 (length (sr_events run)))"
      unfolding stored(5) by auto
    then show ?thesis
    proof cases
      case 1
      then have "row_ok (mx_value (so_runs s)) row" using assms by (simp add: store_ok_def outbox_ok_def)
      then show ?thesis unfolding stored(4) by (rule row_ok_update) (simp add: stored(3))
    next
      case 2
      then show ?thesis by (rule rows_ok_new [where r = run]) (simp_all add: stored(4))
    qed
  qed
  ultimately show ?thesis using assms stored(1,6) by (simp add: store_ok_def outbox_ok_def)
qed

lemma append_cases:
  obtains (appended) s' old where "append_checked now_ms nm seen events s = (Inr Appended, s')"
      "map_of (mx_value (so_runs s)) nm = Some old" "\<not> list_ex is_end_event (sr_events old)" "terminal_last events"
      "seen = None \<or> seen = Some (length (sr_events old))"
      "mx_value (so_runs s') = AList.update nm (old\<lparr>sr_events := sr_events old @ events\<rparr>) (mx_value (so_runs s))"
      "mx_value (so_outbox s') = (mx_value (so_outbox s))
         \<lparr>ob_rows := ob_rows (mx_value (so_outbox s)) @
            new_rows now_ms (principal (rs_owner (sr_spec old)))
              (count_of (ob_counts (mx_value (so_outbox s))) (principal (rs_owner (sr_spec old))))
              nm (length (sr_events old)) (length events),
          ob_counts := AList.update (principal (rs_owner (sr_spec old)))
            (count_of (ob_counts (mx_value (so_outbox s))) (principal (rs_owner (sr_spec old))) + length events)
            (ob_counts (mx_value (so_outbox s)))\<rparr>"
      "s' = s\<lparr>so_outbox := so_outbox s', so_hints := so_hints s', so_runs := so_runs s'\<rparr>"
  | (unchanged) r where "append_checked now_ms nm seen events s = (r, s)" "r \<noteq> Inr Appended"
proof (cases "check_one_terminal events")
  case (Inl e)
  then show thesis using unchanged by (simp add: append_checked_def)
next
  case (Inr u)
  show thesis
  proof (cases "mx_poisoned (so_runs s) \<or> map_of (mx_value (so_runs s)) nm = None")
    case True
    have "\<exists>r. append_checked now_ms nm seen events s = (r, s) \<and> r \<noteq> Inr Appended"
      by (use True Inr in \<open>auto simp: append_checked_def lock_write_def\<close>)
    then show thesis using unchanged by blast
  next
    case False
    then obtain old where old: "map_of (mx_value (so_runs s)) nm = Some old" by auto
    let ?own = "rs_owner (sr_spec old)"
    show thesis
    proof (cases "list_ex is_end_event (sr_events old) \<or> (case seen of None \<Rightarrow> False | Some n \<Rightarrow> n \<noteq> length (sr_events old))")
      case True
      have "\<exists>r. append_checked now_ms nm seen events s = (r, s) \<and> r \<noteq> Inr Appended"
        by (use True Inr False old in \<open>auto simp: append_checked_def lock_write_def\<close>)
      then show thesis using unchanged by blast
    next
      case go: False
      show thesis
      proof (cases rule: number_cases [of now_ms ?own nm "length (sr_events old)" "length events" s])
        case (poisoned e)
        then show thesis using unchanged Inr False old go by (simp add: append_checked_def lock_write_def)
      next
        case (ok s1)
        have same: "so_runs s1 = so_runs s" by (subst ok(3), simp)
        have res: "append_checked now_ms nm seen events s = (Inr Appended,
            s1\<lparr>so_runs := (so_runs s)\<lparr>mx_value := AList.update nm (old\<lparr>sr_events := sr_events old @ events\<rparr>) (mx_value (so_runs s))\<rparr>\<rparr>)"
          using Inr False old go ok(1) same by (simp add: append_checked_def lock_write_def)
        show thesis
        proof (rule appended [of "snd (append_checked now_ms nm seen events s)" old])
          show "snd (append_checked now_ms nm seen events s) = s\<lparr>so_outbox := so_outbox (snd (append_checked now_ms nm seen events s)),
              so_hints := so_hints (snd (append_checked now_ms nm seen events s)),
              so_runs := so_runs (snd (append_checked now_ms nm seen events s))\<rparr>"
            unfolding res by (subst ok(3)) simp
        qed (use res ok(4) Inr old go check_one_terminal_iff in \<open>auto split: option.splits\<close>)
      qed
    qed
  qed
qed

lemma append_checked_ok:
  assumes "store_ok s"
  shows "store_ok (snd (append_checked now_ms nm seen events s))"
proof (cases rule: append_cases [of now_ms nm seen events s])
  case (unchanged r)
  with assms show ?thesis by simp
next
  case (appended s' old)
  let ?runs = "mx_value (so_runs s')"
  have old: "rs_run_id (sr_spec old) = nm"
    using assms appended(2) by (auto simp: store_ok_def runs_ok_def list_all_iff dest!: map_of_SomeD)
  have "terminal_last (sr_events old @ events)"
    using appended(3,4) by (intro terminal_last_append) (simp add: list_all_iff list_ex_iff)
  then have "runs_ok ?runs"
    unfolding appended(6) using assms old by (intro runs_ok_update) (simp_all add: store_ok_def)
  moreover have "numbered_ok (mx_value (so_outbox s'))"
    unfolding appended(7) using assms by (intro numbered_new) (simp add: store_ok_def outbox_ok_def)
  moreover have "row_ok ?runs row" if "row \<in> set (ob_rows (mx_value (so_outbox s')))" for row
  proof -
    from that consider "row \<in> set (ob_rows (mx_value (so_outbox s)))"
      | "row \<in> set (new_rows now_ms (principal (rs_owner (sr_spec old)))
              (count_of (ob_counts (mx_value (so_outbox s))) (principal (rs_owner (sr_spec old))))
              nm (length (sr_events old)) (length events))"
      unfolding appended(7) by auto
    then show ?thesis
    proof cases
      case 1
      then have "row_ok (mx_value (so_runs s)) row" using assms by (simp add: store_ok_def outbox_ok_def)
      then show ?thesis unfolding appended(6) by (rule row_ok_update) (simp add: appended(2))
    next
      case 2
      then show ?thesis by (rule rows_ok_new [where r = "old\<lparr>sr_events := sr_events old @ events\<rparr>"]) (simp_all add: appended(6))
    qed
  qed
  moreover have "so_stored s' = so_stored s" by (subst appended(8)) simp
  ultimately show ?thesis using assms appended(1) by (simp add: store_ok_def outbox_ok_def)
qed

section \<open>Pruning\<close>

lemma count_of_raise [simp]: "count_of (raise_to p n m) q = (if q = p then max (count_of m p) n else count_of m q)"
  by (simp add: raise_to_def)

lemma count_of_raise_all:
  "distinct (map fst through)
   \<Longrightarrow> count_of (foldl (\<lambda>m (p, t). raise_to p t m) m through) q = max (count_of m q) (count_of through q)"
proof (induction through arbitrary: m)
  case (Cons pt through)
  obtain p t where pt: "pt = (p, t)" by (cases pt)
  have fresh: "count_of through p = 0"
    using Cons.prems pt by (simp add: count_of_def map_of_eq_None_iff [THEN iffD2] split: option.split)
  have "count_of ((p, t) # through) q = (if q = p then t else count_of through q)"
    by (simp add: count_of_def)
  then show ?case
    using Cons.IH [of "raise_to p t m"] Cons.prems fresh by (simp add: pt)
qed (simp add: count_of_def)

lemma distinct_prune_through: "distinct (map fst (prune_through before rows))"
  by (induction rows rule: rev_induct) (simp_all add: prune_through_def raise_to_def distinct_update)

text \<open>The number a principal is pruned through is that of one of its rows, or there is none.\<close>

lemma prune_through_row:
  "map_of (prune_through before rows) p = Some t \<Longrightarrow> t \<in> row_seq ` set (rows_of p rows)"
proof (induction rows arbitrary: t rule: rev_induct)
  case (snoc row rows)
  then show ?case
    by (auto simp: prune_through_def raise_to_def rows_of_def max_def count_of_def split: if_splits option.splits)
qed (simp add: prune_through_def)

text \<open>Every row stored before the bound is at or below that number.\<close>

lemma prune_through_covers:
  "row \<in> set rows \<Longrightarrow> row_stored_ms row < before
   \<Longrightarrow> \<exists>t. map_of (prune_through before rows) (row_principal row) = Some t \<and> row_seq row \<le> t"
proof (induction rows rule: rev_induct)
  case (snoc r rows)
  then show ?case by (auto simp: prune_through_def raise_to_def count_of_def split: option.splits)
qed simp

lemma filter_above_upt: "filter (\<lambda>n. t < n) [Suc a ..< Suc b] = [Suc (max a t) ..< Suc b]"
proof (induction b)
  case (Suc b)
  then show ?case by (cases "t \<le> b"; cases "a \<le> b") (auto simp: max_def)
qed auto

lemma numbered_prune:
  assumes "numbered_ok ob"
  shows "numbered_ok (ob\<lparr>ob_rows := filter (\<lambda>row. case map_of (prune_through before (ob_rows ob)) (row_principal row) of
            None \<Rightarrow> True | Some t \<Rightarrow> t < row_seq row) (ob_rows ob),
      ob_pruned := foldl (\<lambda>m (p, t). raise_to p t m) (ob_pruned ob) (prune_through before (ob_rows ob))\<rparr>)"
    (is "numbered_ok ?ob")
  unfolding numbered_ok_def
proof (intro allI conjI)
  fix p
  let ?t = "count_of (prune_through before (ob_rows ob)) p" and ?a = "count_of (ob_pruned ob) p"
    and ?b = "count_of (ob_counts ob) p"
  have rows: "map row_seq (rows_of p (ob_rows ob)) = [Suc ?a ..< Suc ?b]" and le: "?a \<le> ?b"
    using assms unfolding numbered_ok_def by blast+
  then have seqs: "row_seq ` set (rows_of p (ob_rows ob)) = {Suc ?a ..< Suc ?b}"
    by (metis image_set set_upt)
  have "?t \<le> ?b"
    using prune_through_row [of before "ob_rows ob" p] seqs
    by (auto simp: count_of_def split: option.splits)
  moreover have pr: "count_of (ob_pruned ?ob) p = max ?a ?t"
    by (simp add: count_of_raise_all distinct_prune_through)
  ultimately show "count_of (ob_pruned ?ob) p \<le> count_of (ob_counts ?ob) p" using le by simp
  have "rows_of p (ob_rows ?ob) = filter (\<lambda>row. ?t < row_seq row) (rows_of p (ob_rows ob))"
  proof (cases "map_of (prune_through before (ob_rows ob)) p")
    case None
    have "0 < row_seq row" if "row \<in> set (rows_of p (ob_rows ob))" for row
      using that seqs by fastforce
    with None show ?thesis by (auto simp: rows_of_def count_of_def intro!: filter_cong)
  next
    case (Some t)
    then show ?thesis by (auto simp: rows_of_def count_of_def intro!: filter_cong)
  qed
  then have "map row_seq (rows_of p (ob_rows ?ob)) = filter (\<lambda>n. ?t < n) [Suc ?a ..< Suc ?b]"
    by (simp add: rows [symmetric] filter_map o_def del: upt_Suc)
  then show "map row_seq (rows_of p (ob_rows ?ob)) = [Suc (count_of (ob_pruned ?ob) p) ..< Suc (count_of (ob_counts ?ob) p)]"
    using pr by (simp add: filter_above_upt del: upt_Suc)
qed

lemma prune_outbox_ok:
  assumes "store_ok s"
  shows "store_ok (snd (prune_outbox before s))"
  using assms numbered_prune [of "mx_value (so_outbox s)" before]
  by (auto simp: prune_outbox_def lock_write_def Let_def store_ok_def outbox_ok_def)

section \<open>Reading the outbox\<close>

lemma collect_results_Inr: "\<forall>r \<in> set rs. \<exists>a. r = Inr a \<Longrightarrow> collect_results rs = Inr (map projr rs)"
  by (induction rs) auto

lemma row_entry_ok: "row_ok runs row \<Longrightarrow> \<exists>entry. row_entry runs row = Inr entry \<and> oe_seq entry = row_seq row"
  by (auto simp: row_ok_def row_entry_def)

lemma outbox_after_rows:
  assumes "store_ok s"
  shows "\<exists>page. outbox_after own after limit s = Inr page
    \<and> map oe_seq (op_entries page)
        = take limit [Suc (max (op_pruned_through page) after) ..< Suc (op_last page)]"
proof -
  let ?p = "principal own" and ?ob = "mx_value (so_outbox s)" and ?runs = "mx_value (so_runs s)"
  let ?rows = "take limit (filter (\<lambda>row. row_principal row = ?p \<and> after < row_seq row) (ob_rows ?ob))"
  have "row_ok ?runs row" if "row \<in> set ?rows" for row
    using that assms by (auto simp: store_ok_def outbox_ok_def dest: in_set_takeD)
  then have each: "\<exists>entry. row_entry ?runs row = Inr entry \<and> oe_seq entry = row_seq row" if "row \<in> set ?rows" for row
    using that row_entry_ok by blast
  then have all: "collect_results (map (row_entry ?runs) ?rows) = Inr (map projr (map (row_entry ?runs) ?rows))"
    by (intro collect_results_Inr) auto
  have "map oe_seq (map projr (map (row_entry ?runs) ?rows)) = map row_seq ?rows"
    using each by fastforce
  also have "\<dots> = take limit (filter (\<lambda>n. after < n) (map row_seq (rows_of ?p (ob_rows ?ob))))"
    by (simp add: rows_of_def take_map filter_map o_def conj_commute)
  also have "map row_seq (rows_of ?p (ob_rows ?ob)) = [Suc (count_of (ob_pruned ?ob) ?p) ..< Suc (count_of (ob_counts ?ob) ?p)]"
    using assms unfolding store_ok_def outbox_ok_def numbered_ok_def by blast
  finally show ?thesis
    by (auto simp: outbox_after_def lock_read_def Let_def all filter_above_upt simp del: upt_Suc)
qed

section \<open>Agents\<close>

text \<open>A sequence of puts of agents.\<close>

definition put_agents :: "stored_agent list \<Rightarrow> store \<Rightarrow> store" where
  "put_agents agents s = fold (\<lambda>agent s. snd (put_agent agent s)) agents s"

lemma put_agent_owner:
  assumes "get_agent nm s = Some a"
  shows "\<exists>a'. get_agent nm (snd (put_agent agent s)) = Some a' \<and> same_principal (sa_owner a') (sa_owner a)"
  using assms
  by (auto simp: put_agent_def lock_write_def Let_def get_agent_def lock_read_def same_principal_def split: option.split)

text \<open>An agent's id belongs to the principal that first stored it: whatever is put afterwards, the
  agent under that id is that principal's, and a put by another principal is refused and changes
  nothing.\<close>

theorem agent_owner_kept:
  assumes "get_agent nm s = Some a"
  shows "(\<exists>a'. get_agent nm (put_agents agents s) = Some a' \<and> same_principal (sa_owner a') (sa_owner a))
    \<and> (mf_id (sa_manifest other) = nm \<longrightarrow> \<not> same_principal (sa_owner a) (sa_owner other) \<longrightarrow> \<not> mx_poisoned (so_agents s)
         \<longrightarrow> put_agent other s = (Inr OwnedByOther, s))"
proof
  show "\<exists>a'. get_agent nm (put_agents agents s) = Some a' \<and> same_principal (sa_owner a') (sa_owner a)"
    using assms unfolding put_agents_def
  proof (induction agents arbitrary: s a)
    case (Cons agent agents)
    from put_agent_owner [OF Cons.prems] obtain a' where a': "get_agent nm (snd (put_agent agent s)) = Some a'"
      "same_principal (sa_owner a') (sa_owner a)" by blast
    from Cons.IH [OF a'(1)] a'(2) show ?case by (auto simp: same_principal_def)
  qed (simp add: same_principal_def)
  show "mf_id (sa_manifest other) = nm \<longrightarrow> \<not> same_principal (sa_owner a) (sa_owner other) \<longrightarrow> \<not> mx_poisoned (so_agents s)
         \<longrightarrow> put_agent other s = (Inr OwnedByOther, s)"
    using assms by (auto simp: put_agent_def lock_write_def get_agent_def lock_read_def)
qed

definition sample_agent :: "owner \<Rightarrow> stored_agent" where
  "sample_agent own = \<lparr>sa_manifest = \<lparr>mf_id = AgentId 2, mf_version = ''1'', mf_name = ''a'', mf_description = [], mf_instructions = [],
     mf_tools = [], mf_required_capabilities = []\<rparr>, sa_owner = own\<rparr>"

theorem agent_owner_kept_witness:
  "let own = rs_owner sample_spec; eve = own\<lparr>ow_subject := ''eve''\<rparr>; s = snd (put_agent (sample_agent own) store_default)
   in put_agent (sample_agent eve) s = (Inr OwnedByOther, s)"
proof -
  let ?own = "rs_owner sample_spec"
  let ?s = "snd (put_agent (sample_agent ?own) store_default)"
  have "get_agent (AgentId 2) ?s = Some (sample_agent ?own)" "\<not> mx_poisoned (so_agents ?s)"
    by (simp_all add: put_agent_def store_default_def mutex_new_def lock_write_def Let_def get_agent_def lock_read_def sample_agent_def)
  moreover have "\<not> same_principal (sa_owner (sample_agent ?own)) (sa_owner (sample_agent (?own\<lparr>ow_subject := ''eve''\<rparr>)))"
    by (simp add: sample_agent_def same_principal_def sample_spec_def)
  moreover have "mf_id (sa_manifest (sample_agent x)) = AgentId 2" for x by (simp add: sample_agent_def)
  ultimately show ?thesis using agent_owner_kept [of "AgentId 2" ?s] by (simp add: Let_def)
qed

end
