(* ===== verification/Message_Store.thy ===== *)
theory Message_Store
  imports Store_Base
begin

text \<open>
  Messages between agents (\<open>crates/server/src/store.rs\<close>: \<open>MessageStore\<close> for \<open>InMemoryStore\<close>).
  A binding holds the message and whether it, an ask, is answered. The lemmas show that a run's
  decision sends one message however often it is delivered, and that an ask is answered once.
\<close>

section \<open>Operations\<close>

definition same_send :: "stored_message \<Rightarrow> stored_message \<Rightarrow> bool" where
  "same_send a b \<longleftrightarrow> ms_from_run a = ms_from_run b \<and> ms_decision a = ms_decision b"

definition put_message :: "stored_message \<Rightarrow> store \<Rightarrow> (store_error + put_message_result) \<times> store" where
  "put_message msg s =
     (case lock_write (so_messages s) ''message'' of
        Inl e \<Rightarrow> (Inl e, s)
      | Inr messages \<Rightarrow>
          (case find (\<lambda>(stored, answered). same_send stored msg) (map snd messages) of
             Some (existing, answered) \<Rightarrow> (Inr (MessageExisted existing), s)
           | None \<Rightarrow>
               (Inr MessageStored,
                s\<lparr>so_messages := (so_messages s)\<lparr>mx_value := AList.update (ms_id msg) (msg, False) messages\<rparr>\<rparr>)))"

definition get_message :: "message_id \<Rightarrow> store \<Rightarrow> stored_message option" where
  "get_message nm s = map_option fst (map_of (lock_read (so_messages s)) nm)"

definition ask_of_task :: "run_id \<Rightarrow> store \<Rightarrow> stored_message option" where
  "ask_of_task task s =
     map_option fst
       (find (\<lambda>(msg, answered). \<not> answered \<and> ms_expects_reply msg \<and> ms_task_run msg = Some task)
         (map snd (lock_read (so_messages s))))"

definition answer :: "message_id \<Rightarrow> store \<Rightarrow> (store_error + bool) \<times> store" where
  "answer ask s =
     (case lock_write (so_messages s) ''message'' of
        Inl e \<Rightarrow> (Inl e, s)
      | Inr messages \<Rightarrow>
          (case map_of messages ask of
             None \<Rightarrow> (Inr False, s)
           | Some (msg, answered) \<Rightarrow>
               if answered then (Inr False, s)
               else (Inr True,
                     s\<lparr>so_messages := (so_messages s)\<lparr>mx_value := AList.update ask (msg, True) messages\<rparr>\<rparr>)))"

definition due_ask :: "timestamp \<Rightarrow> stored_message \<times> bool \<Rightarrow> bool" where
  "due_ask now = (\<lambda>(msg, answered). \<not> answered \<and> ms_expects_reply msg
     \<and> (case ms_deadline msg of None \<Rightarrow> False | Some deadline \<Rightarrow> deadline \<le> now))"

definition open_asks_due :: "timestamp \<Rightarrow> store \<Rightarrow> stored_message list" where
  "open_asks_due now s =
     sort_key (\<lambda>msg. message_uuid (ms_id msg)) (map fst (filter (due_ask now) (map snd (lock_read (so_messages s)))))"

section \<open>The invariant\<close>

text \<open>One binding per id, under the message's own id, and one message per run and decision.\<close>

definition messages_ok :: "(message_id \<times> stored_message \<times> bool) list \<Rightarrow> bool" where
  "messages_ok messages =
     (distinct (map fst messages)
      \<and> (\<forall>(nm, msg, answered) \<in> set messages. ms_id msg = nm)
      \<and> (\<forall>(nm, msg, answered) \<in> set messages. \<forall>(nm', msg', answered') \<in> set messages.
           same_send msg msg' \<longrightarrow> nm = nm'))"

lemma find_send_None:
  "find (\<lambda>(stored, answered). same_send stored msg) (map snd messages) = None
   \<longleftrightarrow> (\<forall>(nm, stored, answered) \<in> set messages. \<not> same_send stored msg)"
  by (force simp: find_None_iff)

lemma find_send_Some:
  "find P (map snd messages) = Some (msg, answered) \<Longrightarrow> P (msg, answered) \<and> (\<exists>nm. (nm, msg, answered) \<in> set messages)"
  by (auto simp: find_Some_iff in_set_conv_nth) (metis prod.collapse)

lemma same_send_sym: "same_send a b \<Longrightarrow> same_send b a"
  by (auto simp: same_send_def)

lemma messages_ok_id: "messages_ok messages \<Longrightarrow> (nm, msg, answered) \<in> set messages \<Longrightarrow> ms_id msg = nm"
  by (auto simp: messages_ok_def)

lemma messages_ok_send:
  "messages_ok messages \<Longrightarrow> (nm, msg, answered) \<in> set messages \<Longrightarrow> (nm', msg', answered') \<in> set messages
   \<Longrightarrow> same_send msg msg' \<Longrightarrow> nm = nm'"
  unfolding messages_ok_def by fast

lemma messages_okI:
  assumes "distinct (map fst messages)"
    and "\<And>nm msg answered. (nm, msg, answered) \<in> set messages \<Longrightarrow> ms_id msg = nm"
    and "\<And>nm msg answered nm' msg' answered'. (nm, msg, answered) \<in> set messages
      \<Longrightarrow> (nm', msg', answered') \<in> set messages \<Longrightarrow> same_send msg msg' \<Longrightarrow> nm = nm'"
  shows "messages_ok messages"
  unfolding messages_ok_def using assms by fast

lemma distinct_messages: "messages_ok messages \<Longrightarrow> distinct (map fst messages)"
  by (simp add: messages_ok_def)

lemma messages_ok_put:
  assumes "messages_ok messages" and new: "\<forall>(nm, stored, answered) \<in> set messages. \<not> same_send stored msg"
  shows "messages_ok (AList.update (ms_id msg) (msg, False) messages)"
proof (rule messages_okI)
  have none: "\<not> same_send stored msg" if "(nm, stored, answered) \<in> set messages" for nm stored answered
    using new that by blast
  show "distinct (map fst (AList.update (ms_id msg) (msg, False) messages))"
    using assms(1) by (simp add: distinct_messages distinct_update)
  show "ms_id m = nm" if "(nm, m, a) \<in> set (AList.update (ms_id msg) (msg, False) messages)" for nm m a
    using in_update [OF that] messages_ok_id [OF assms(1)] by blast
  show "nm = nm'" if "(nm, m, a) \<in> set (AList.update (ms_id msg) (msg, False) messages)"
      "(nm', m', a') \<in> set (AList.update (ms_id msg) (msg, False) messages)" "same_send m m'" for nm m a nm' m' a'
    using in_update [OF that(1)] in_update [OF that(2)] that(3) none same_send_sym messages_ok_send [OF assms(1)]
    by blast
qed

lemma messages_ok_answer:
  assumes "messages_ok messages" and "map_of messages ask = Some (msg, False)"
  shows "messages_ok (AList.update ask (msg, True) messages)"
proof (rule messages_okI)
  have old: "(ask, msg, False) \<in> set messages" using assms(2) by (rule map_of_SomeD)
  show "distinct (map fst (AList.update ask (msg, True) messages))"
    using assms(1) by (simp add: distinct_messages distinct_update)
  show "ms_id m = nm" if "(nm, m, a) \<in> set (AList.update ask (msg, True) messages)" for nm m a
    using in_update [OF that] old messages_ok_id [OF assms(1)] by blast
  show "nm = nm'" if "(nm, m, a) \<in> set (AList.update ask (msg, True) messages)"
      "(nm', m', a') \<in> set (AList.update ask (msg, True) messages)" "same_send m m'" for nm m a nm' m' a'
    using in_update [OF that(1)] in_update [OF that(2)] that(3) old messages_ok_send [OF assms(1)]
    by blast
qed

lemma put_message_ok:
  assumes "messages_ok (mx_value (so_messages s))"
  shows "messages_ok (mx_value (so_messages (snd (put_message msg s))))"
proof (cases "find (\<lambda>(stored, answered). same_send stored msg) (map snd (mx_value (so_messages s)))")
  case None
  with messages_ok_put [OF assms, of msg] assms show ?thesis
    by (simp add: put_message_def lock_write_def find_send_None [symmetric])
next
  case (Some found)
  with assms show ?thesis by (cases found) (simp add: put_message_def lock_write_def)
qed

lemma answer_ok:
  assumes "messages_ok (mx_value (so_messages s))"
  shows "messages_ok (mx_value (so_messages (snd (answer ask s))))"
  using assms messages_ok_answer [OF assms, of ask]
  by (auto simp: answer_def lock_write_def split: option.split prod.split)

section \<open>Messages over time\<close>

text \<open>
  The steps of the messages: a send, an answer, and a panic that poisons the lock. A message's id
  is made for its run and decision, so a send meets no other send's message under its id.
\<close>

inductive message_step :: "store \<Rightarrow> store \<Rightarrow> bool" where
  send: "(\<And>stored. get_message (ms_id msg) s = Some stored \<Longrightarrow> same_send stored msg)
    \<Longrightarrow> message_step s (snd (put_message msg s))"
| answered: "message_step s (snd (answer ask s))"
| poison: "message_step s (s\<lparr>so_messages := (so_messages s)\<lparr>mx_poisoned := True\<rparr>\<rparr>)"

definition answered_in :: "store \<Rightarrow> message_id \<Rightarrow> bool" where
  "answered_in s nm = (case map_of (mx_value (so_messages s)) nm of None \<Rightarrow> False | Some (msg, done) \<Rightarrow> done)"

lemma send_fresh:
  assumes "find (\<lambda>(stored, answered). same_send stored msg) (map snd (mx_value (so_messages s))) = None"
    and "\<And>stored. get_message (ms_id msg) s = Some stored \<Longrightarrow> same_send stored msg"
  shows "map_of (mx_value (so_messages s)) (ms_id msg) = None"
proof (rule ccontr)
  assume "map_of (mx_value (so_messages s)) (ms_id msg) \<noteq> None"
  then obtain stored a where at: "map_of (mx_value (so_messages s)) (ms_id msg) = Some (stored, a)" by auto
  then have "same_send stored msg" by (intro assms(2)) (simp add: get_message_def lock_read_def)
  with map_of_SomeD [OF at] assms(1) show False unfolding find_send_None by blast
qed

lemma message_step_keeps:
  assumes "message_step s s'" and "messages_ok (mx_value (so_messages s))"
  shows "messages_ok (mx_value (so_messages s'))"
    and "get_message nm s = Some msg \<Longrightarrow> get_message nm s' = Some msg"
    and "answered_in s nm \<Longrightarrow> answered_in s' nm"
proof -
  show "messages_ok (mx_value (so_messages s'))"
    using assms by (cases rule: message_step.cases) (simp_all add: put_message_ok answer_ok)
  show "get_message nm s' = Some msg" if "get_message nm s = Some msg"
    using assms(1)
  proof (cases rule: message_step.cases)
    case (send new)
    show ?thesis
    proof (cases "find (\<lambda>(stored, answered). same_send stored new) (map snd (mx_value (so_messages s)))")
      case None
      moreover have "ms_id new \<noteq> nm"
        using send_fresh [OF None send(2)] that by (auto simp: get_message_def lock_read_def)
      ultimately show ?thesis using that
        by (simp add: send(1) put_message_def lock_write_def get_message_def lock_read_def)
    qed (use that send(1) in \<open>auto simp: put_message_def lock_write_def\<close>)
  qed (use that in \<open>auto simp: answer_def lock_write_def get_message_def lock_read_def split: option.splits\<close>)
  show "answered_in s' nm" if "answered_in s nm"
    using assms(1)
  proof (cases rule: message_step.cases)
    case (send new)
    show ?thesis
    proof (cases "find (\<lambda>(stored, answered). same_send stored new) (map snd (mx_value (so_messages s)))")
      case None
      moreover have "ms_id new \<noteq> nm"
        using send_fresh [OF None send(2)] that by (auto simp: answered_in_def)
      ultimately show ?thesis using that
        by (simp add: send(1) put_message_def lock_write_def answered_in_def)
    qed (use that send(1) in \<open>auto simp: put_message_def lock_write_def\<close>)
  qed (use that in \<open>auto simp: answer_def lock_write_def answered_in_def split: option.splits\<close>)
qed

lemma message_steps_keep:
  assumes "message_step\<^sup>*\<^sup>* s s'" and "messages_ok (mx_value (so_messages s))"
  shows "messages_ok (mx_value (so_messages s'))
    \<and> (\<forall>nm msg. get_message nm s = Some msg \<longrightarrow> get_message nm s' = Some msg)
    \<and> (\<forall>nm. answered_in s nm \<longrightarrow> answered_in s' nm)"
  using assms by (induction rule: rtranclp_induct) (auto dest: message_step_keeps)

lemma put_message_stored:
  assumes "put_message msg s = (Inr MessageStored, s')"
  shows "get_message (ms_id msg) s' = Some msg"
  using assms
  by (auto simp: put_message_def lock_write_def get_message_def lock_read_def split: if_splits option.splits)

lemma put_message_again:
  assumes "messages_ok (mx_value (so_messages s))" and "get_message nm s = Some msg" and "same_send msg msg'"
    and "\<not> mx_poisoned (so_messages s)"
  shows "put_message msg' s = (Inr (MessageExisted msg), s)"
proof -
  let ?found = "find (\<lambda>(stored, answered). same_send stored msg') (map snd (mx_value (so_messages s)))"
  obtain a where at: "(nm, msg, a) \<in> set (mx_value (so_messages s))"
    using assms(2) by (auto simp: get_message_def lock_read_def dest: map_of_SomeD)
  then have "?found \<noteq> None" using assms(3) unfolding find_send_None by blast
  then obtain m b where found: "?found = Some (m, b)" by (cases ?found) auto
  from find_send_Some [OF found] obtain nm' where m: "same_send m msg'" "(nm', m, b) \<in> set (mx_value (so_messages s))"
    by auto
  moreover have "same_send msg m" using m(1) assms(3) by (simp add: same_send_def)
  ultimately have "nm' = nm" using messages_ok_send [OF assms(1) at] by blast
  then have "m = msg"
    using eq_key_imp_eq_value [OF distinct_messages [OF assms(1)] at, of "(m, b)"] m(2) by simp
  with found assms(4) show ?thesis by (simp add: put_message_def lock_write_def)
qed

lemma answer_answers:
  assumes "answer ask s = (Inr True, s')"
  shows "answered_in s' ask"
  using assms by (auto simp: answer_def lock_write_def answered_in_def split: if_splits option.splits prod.splits)

lemma answer_again:
  assumes "answered_in s ask" and "\<not> mx_poisoned (so_messages s)"
  shows "answer ask s = (Inr False, s)"
  using assms by (auto simp: answer_def lock_write_def answered_in_def split: option.splits)

section \<open>Properties\<close>

definition sample_message :: "nat \<Rightarrow> stored_message" where
  "sample_message n = \<lparr>ms_id = MessageId (of_nat n), ms_owner = rs_owner sample_spec, ms_from_run = RunId 1, ms_from_agent = AgentId 2,
     ms_decision = 3, ms_to_agent = AgentId 4, ms_body = ''hello'', ms_expects_reply = True, ms_reply_to = None, ms_task_run = None,
     ms_deadline = Some 10, ms_timeout_secs = None, ms_hop = 0\<rparr>"

lemma sample_message_put:
  "put_message (sample_message 9) store_default = (Inr MessageStored, snd (put_message (sample_message 9) store_default))"
  "\<not> mx_poisoned (so_messages (snd (put_message (sample_message 9) store_default)))"
  "messages_ok (mx_value (so_messages store_default))"
  by (simp_all add: put_message_def store_default_def mutex_new_def lock_write_def messages_ok_def)

text \<open>A run's decision sends one message: once it is stored, a send of the same run and decision,
  however late and whatever it carries, writes nothing and gets the message that was stored.\<close>

theorem message_sent_once:
  assumes "messages_ok (mx_value (so_messages s))" and "put_message msg s = (Inr MessageStored, s1)"
    and "message_step\<^sup>*\<^sup>* s1 s2" and "same_send msg msg'" and "\<not> mx_poisoned (so_messages s2)"
  shows "put_message msg' s2 = (Inr (MessageExisted msg), s2)"
proof -
  have "messages_ok (mx_value (so_messages s1))" using put_message_ok [OF assms(1), of msg] assms(2) by simp
  from message_steps_keep [OF assms(3) this] put_message_stored [OF assms(2)]
  have "messages_ok (mx_value (so_messages s2))" "get_message (ms_id msg) s2 = Some msg" by blast+
  then show ?thesis using assms(4,5) by (rule put_message_again)
qed

theorem message_sent_once_witness:
  "put_message (sample_message 10) (snd (put_message (sample_message 9) store_default))
     = (Inr (MessageExisted (sample_message 9)), snd (put_message (sample_message 9) store_default))"
  by (rule message_sent_once [OF sample_message_put(3,1) rtranclp.rtrancl_refl _ sample_message_put(2)])
    (simp add: same_send_def sample_message_def)

text \<open>An ask is answered once: after the call that answered it, every later one finds it answered
  and changes nothing, and the ask is not listed as due again.\<close>

theorem ask_answered_once:
  assumes "messages_ok (mx_value (so_messages s))" and "answer ask s = (Inr True, s1)" and "message_step\<^sup>*\<^sup>* s1 s2"
    and "\<not> mx_poisoned (so_messages s2)"
  shows "answer ask s2 = (Inr False, s2) \<and> ask \<notin> ms_id ` set (open_asks_due now s2)"
proof -
  have ok: "messages_ok (mx_value (so_messages s1))" using answer_ok [OF assms(1), of ask] assms(2) by simp
  from message_steps_keep [OF assms(3) ok] answer_answers [OF assms(2)]
  have ok2: "messages_ok (mx_value (so_messages s2))" and ans: "answered_in s2 ask" by blast+
  have "ask \<noteq> ms_id msg" if due: "(nm, msg, False) \<in> set (mx_value (so_messages s2))" for nm msg
  proof
    assume "ask = ms_id msg"
    with messages_ok_id [OF ok2 due] have "map_of (mx_value (so_messages s2)) ask = Some (msg, False)"
      using due distinct_messages [OF ok2] by (simp add: map_of_is_SomeI)
    with ans show False by (simp add: answered_in_def)
  qed
  then have "ask \<notin> ms_id ` set (open_asks_due now s2)"
    by (fastforce simp: open_asks_due_def due_ask_def lock_read_def)
  with answer_again [OF ans assms(4)] show ?thesis by blast
qed

theorem ask_answered_once_witness:
  "let s1 = snd (answer (MessageId 9) (snd (put_message (sample_message 9) store_default)))
   in answer (MessageId 9) s1 = (Inr False, s1) \<and> MessageId 9 \<notin> ms_id ` set (open_asks_due 20 s1)"
proof -
  let ?s = "snd (put_message (sample_message 9) store_default)"
  have ok: "messages_ok (mx_value (so_messages ?s))" by (rule put_message_ok [OF sample_message_put(3)])
  have "answer (MessageId 9) ?s = (Inr True, snd (answer (MessageId 9) ?s))" "\<not> mx_poisoned (so_messages (snd (answer (MessageId 9) ?s)))"
    by (simp_all add: answer_def put_message_def store_default_def mutex_new_def lock_write_def sample_message_def)
  from ask_answered_once [OF ok this(1) rtranclp.rtrancl_refl this(2)] show ?thesis by (simp add: Let_def)
qed

end
