(* ===== verification/Trigger_Store.thy ===== *)
theory Trigger_Store
  imports Store_Base
begin

text \<open>
  The triggers of the in-memory store (\<open>crates/server/src/store.rs\<close>: \<open>TriggerStore\<close> for
  \<open>InMemoryStore\<close>), a list with the oldest first. The lemmas show that no operation of a principal
  touches another's triggers, that the cap of a principal holds, that a rotation never repeats,
  and that one of the schedulers that saw a tick moves it.
\<close>

section \<open>Operations\<close>

text \<open>\<open>iter_mut().find(P)\<close> and a change of what it found.\<close>

fun update_first :: "('a \<Rightarrow> bool) \<Rightarrow> ('a \<Rightarrow> 'a) \<Rightarrow> 'a list \<Rightarrow> 'a list" where
  "update_first P f [] = []"
| "update_first P f (x # xs) = (if P x then f x # xs else x # update_first P f xs)"

definition owned_trigger :: "owner \<Rightarrow> trigger_id \<Rightarrow> stored_trigger \<Rightarrow> bool" where
  "owned_trigger own nm t \<longleftrightarrow> tr_id t = nm \<and> same_principal (tr_owner t) own"

definition is_webhook :: "trigger_kind \<Rightarrow> bool" where
  "is_webhook kind = (case kind of Webhook rotation \<Rightarrow> True | Schedule cron zone \<Rightarrow> False)"

text \<open>A write to the triggers: refused under a poisoned lock.\<close>

definition on_triggers ::
    "store \<Rightarrow> (stored_trigger list \<Rightarrow> 'a \<times> stored_trigger list) \<Rightarrow> (store_error + 'a) \<times> store" where
  "on_triggers s f =
     (case lock_write (so_triggers s) ''triggers'' of
        Inl e \<Rightarrow> (Inl e, s)
      | Inr triggers \<Rightarrow>
          (let (r, triggers') = f triggers
           in (Inr r, s\<lparr>so_triggers := (so_triggers s)\<lparr>mx_value := triggers'\<rparr>\<rparr>)))"

definition put_trigger :: "stored_trigger \<Rightarrow> nat \<Rightarrow> store \<Rightarrow> (store_error + bool) \<times> store" where
  "put_trigger t most s =
     on_triggers s (\<lambda>triggers.
       let kept = length (filter (\<lambda>k. same_principal (tr_owner k) (tr_owner t)) triggers)
       in if most \<le> kept then (False, triggers) else (True, triggers @ [t]))"

definition triggers_of :: "owner \<Rightarrow> store \<Rightarrow> stored_trigger list" where
  "triggers_of own s =
     sort_key (\<lambda>t. (tr_created_ms t, trigger_uuid (tr_id t)))
       (filter (\<lambda>t. same_principal (tr_owner t) own) (lock_read (so_triggers s)))"

definition get_trigger :: "owner \<Rightarrow> trigger_id \<Rightarrow> store \<Rightarrow> stored_trigger option" where
  "get_trigger own nm s = find (owned_trigger own nm) (lock_read (so_triggers s))"

definition set_enabled :: "owner \<Rightarrow> trigger_id \<Rightarrow> bool \<Rightarrow> store \<Rightarrow> (store_error + stored_trigger option) \<times> store" where
  "set_enabled own nm enabled s =
     on_triggers s (\<lambda>triggers.
       (map_option (\<lambda>t. t\<lparr>tr_enabled := enabled\<rparr>) (find (owned_trigger own nm) triggers),
        update_first (owned_trigger own nm) (\<lambda>t. t\<lparr>tr_enabled := enabled\<rparr>) triggers))"

text \<open>The closure of \<open>rotate_webhook\<close>: none for a schedule and for the last rotation.\<close>

definition rotated :: "stored_trigger \<Rightarrow> stored_trigger option" where
  "rotated t =
     (case tr_kind t of
        Webhook rotation \<Rightarrow> map_option (\<lambda>r. t\<lparr>tr_kind := Webhook r\<rparr>) (checked_add rotation 1)
      | Schedule cron zone \<Rightarrow> None)"

definition rotate_webhook :: "owner \<Rightarrow> trigger_id \<Rightarrow> store \<Rightarrow> (store_error + stored_trigger option) \<times> store" where
  "rotate_webhook own nm s =
     on_triggers s (\<lambda>triggers.
       (Option.bind (find (owned_trigger own nm) triggers) rotated,
        update_first (owned_trigger own nm) (\<lambda>t. case rotated t of None \<Rightarrow> t | Some t' \<Rightarrow> t') triggers))"

definition delete_trigger :: "owner \<Rightarrow> trigger_id \<Rightarrow> store \<Rightarrow> (store_error + bool) \<times> store" where
  "delete_trigger own nm s =
     on_triggers s (\<lambda>triggers.
       let kept = filter (\<lambda>t. \<not> owned_trigger own nm t) triggers
       in (length kept < length triggers, kept))"

definition resumed :: "int option \<Rightarrow> stored_trigger \<Rightarrow> stored_trigger" where
  "resumed next_fire t =
     (if tr_enabled t then t
      else t\<lparr>tr_enabled := True, tr_next_fire_ms := next_fire, tr_generation := tr_generation t + 1\<rparr>)"

definition resume_trigger ::
    "owner \<Rightarrow> trigger_id \<Rightarrow> int option \<Rightarrow> store \<Rightarrow> (store_error + stored_trigger option) \<times> store" where
  "resume_trigger own nm next_fire s =
     on_triggers s (\<lambda>triggers.
       (map_option (resumed next_fire) (find (owned_trigger own nm) triggers),
        update_first (owned_trigger own nm) (resumed next_fire) triggers))"

definition due_at :: "int \<Rightarrow> stored_trigger \<Rightarrow> bool" where
  "due_at now_ms t \<longleftrightarrow>
     tr_enabled t \<and> (case tr_next_fire_ms t of None \<Rightarrow> False | Some tick \<Rightarrow> tick \<le> now_ms)"

definition due_triggers :: "int \<Rightarrow> nat \<Rightarrow> store \<Rightarrow> stored_trigger list" where
  "due_triggers now_ms limit s =
     take limit (sort_key (\<lambda>t. (tr_next_fire_ms t, trigger_uuid (tr_id t)))
       (filter (due_at now_ms) (lock_read (so_triggers s))))"

definition advance_trigger ::
    "trigger_id \<Rightarrow> int option \<Rightarrow> int option \<Rightarrow> store \<Rightarrow> (store_error + bool) \<times> store" where
  "advance_trigger nm due next_tick s =
     on_triggers s (\<lambda>triggers.
       let P = (\<lambda>t. tr_id t = nm \<and> tr_next_fire_ms t = due)
       in (find P triggers \<noteq> None, update_first P (\<lambda>t. t\<lparr>tr_next_fire_ms := next_tick\<rparr>) triggers))"

definition webhook_trigger :: "trigger_id \<Rightarrow> store \<Rightarrow> stored_trigger option" where
  "webhook_trigger nm s = find (\<lambda>t. tr_id t = nm \<and> is_webhook (tr_kind t)) (lock_read (so_triggers s))"

definition unscheduled_triggers :: "nat \<Rightarrow> store \<Rightarrow> stored_trigger list" where
  "unscheduled_triggers limit s =
     take limit (filter (\<lambda>t. tr_enabled t \<and> tr_next_fire_ms t = None \<and> \<not> is_webhook (tr_kind t))
       (lock_read (so_triggers s)))"

definition pause_triggers :: "owner \<Rightarrow> store \<Rightarrow> (store_error + nat) \<times> store" where
  "pause_triggers own s =
     on_triggers s (\<lambda>triggers.
       let running = (\<lambda>t. same_principal (tr_owner t) own \<and> tr_enabled t)
       in (length (filter running triggers),
           map (\<lambda>t. if running t then t\<lparr>tr_enabled := False\<rparr> else t) triggers))"

section \<open>Shared facts\<close>

lemma on_triggers_cases:
  obtains (written) r ts where "\<not> mx_poisoned (so_triggers s)" "f (mx_value (so_triggers s)) = (r, ts)"
      "on_triggers s f = (Inr r, s\<lparr>so_triggers := (so_triggers s)\<lparr>mx_value := ts\<rparr>\<rparr>)"
  | (refused) "mx_poisoned (so_triggers s)"
      "on_triggers s f = (Inl (StoreError ''triggers store lock poisoned''), s)"
  by (cases "f (mx_value (so_triggers s))"; cases "mx_poisoned (so_triggers s)")
    (auto simp: on_triggers_def lock_write_def)

lemma map_update_first: "(\<And>x. P x \<Longrightarrow> g (f x) = g x) \<Longrightarrow> map g (update_first P f xs) = map g xs"
  by (induction xs) auto

lemma filter_update_first:
  "(\<And>x. P x \<Longrightarrow> \<not> Q x \<and> \<not> Q (f x)) \<Longrightarrow> filter Q (update_first P f xs) = filter Q xs"
  by (induction xs) auto

lemma filter_length_update_first:
  "(\<And>x. P x \<Longrightarrow> Q (f x) = Q x) \<Longrightarrow> length (filter Q (update_first P f xs)) = length (filter Q xs)"
  by (induction xs) auto

lemma set_update_first: "x \<in> set (update_first P f xs) \<Longrightarrow> x \<in> set xs \<or> (\<exists>y \<in> set xs. P y \<and> x = f y)"
  by (induction xs) (auto split: if_splits)

lemma find_update_first:
  "(\<And>x. P x \<Longrightarrow> P (f x)) \<Longrightarrow> find P (update_first P f xs) = map_option f (find P xs)"
  by (induction xs) auto

lemma same_principal_trans: "same_principal a b \<Longrightarrow> same_principal a c \<longleftrightarrow> same_principal b c"
  by (auto simp: same_principal_iff)

section \<open>Steps\<close>

text \<open>
  The operations of a principal on the triggers, labelled with it. A put names the cap the caller
  passes, and a new trigger has a new id.
\<close>

inductive principal_step :: "nat \<Rightarrow> principal_key \<Rightarrow> store \<Rightarrow> store \<Rightarrow> bool" for most :: nat where
  put: "tr_id t \<notin> tr_id ` set (mx_value (so_triggers s))
    \<Longrightarrow> principal_step most (principal (tr_owner t)) s (snd (put_trigger t most s))"
| enable: "principal_step most (principal own) s (snd (set_enabled own nm enabled s))"
| rotate: "principal_step most (principal own) s (snd (rotate_webhook own nm s))"
| delete: "principal_step most (principal own) s (snd (delete_trigger own nm s))"
| resume: "principal_step most (principal own) s (snd (resume_trigger own nm next_fire s))"
| pause: "principal_step most (principal own) s (snd (pause_triggers own s))"

text \<open>Any step: a principal's, a scheduler's move of a tick, or a panic that poisons the lock.\<close>

inductive trigger_step :: "nat \<Rightarrow> store \<Rightarrow> store \<Rightarrow> bool" for most :: nat where
  by_principal: "principal_step most p s s' \<Longrightarrow> trigger_step most s s'"
| advance: "trigger_step most s (snd (advance_trigger nm due next_tick s))"
| poison: "trigger_step most s (s\<lparr>so_triggers := (so_triggers s)\<lparr>mx_poisoned := True\<rparr>\<rparr>)"

lemmas trigger_op_defs = put_trigger_def set_enabled_def rotate_webhook_def delete_trigger_def
  resume_trigger_def pause_triggers_def advance_trigger_def

definition kept_of :: "principal_key \<Rightarrow> stored_trigger list \<Rightarrow> stored_trigger list" where
  "kept_of p ts = filter (\<lambda>t. principal (tr_owner t) = p) ts"

definition triggers_ok :: "nat \<Rightarrow> stored_trigger list \<Rightarrow> bool" where
  "triggers_ok most ts \<longleftrightarrow> distinct (map tr_id ts) \<and> (\<forall>p. length (kept_of p ts) \<le> most)"

lemma rotated_fields:
  "rotated t = Some t' \<Longrightarrow> t' = t\<lparr>tr_kind := tr_kind t'\<rparr> \<and> tr_id t' = tr_id t \<and> tr_owner t' = tr_owner t
    \<and> tr_next_fire_ms t' = tr_next_fire_ms t"
  by (auto simp: rotated_def split: trigger_kind.splits)

lemma rotated_same [simp]:
  "tr_id (case rotated t of None \<Rightarrow> t | Some t' \<Rightarrow> t') = tr_id t"
  "tr_owner (case rotated t of None \<Rightarrow> t | Some t' \<Rightarrow> t') = tr_owner t"
  by (auto split: option.split dest: rotated_fields)

lemma resumed_same [simp]: "tr_id (resumed n t) = tr_id t" "tr_owner (resumed n t) = tr_owner t"
  by (simp_all add: resumed_def)

lemma kept_of_update_first:
  "(\<And>x. P x \<Longrightarrow> tr_owner (f x) = tr_owner x) \<Longrightarrow> length (kept_of p (update_first P f ts)) = length (kept_of p ts)"
  unfolding kept_of_def by (rule filter_length_update_first) simp

lemma triggers_ok_update_first:
  "triggers_ok most ts \<Longrightarrow> (\<And>x. P x \<Longrightarrow> tr_owner (f x) = tr_owner x \<and> tr_id (f x) = tr_id x)
   \<Longrightarrow> triggers_ok most (update_first P f ts)"
  by (simp add: triggers_ok_def kept_of_update_first map_update_first)

lemma kept_of_filter: "length (kept_of p (filter Q ts)) \<le> length (kept_of p ts)"
  unfolding kept_of_def filter_filter by (induction ts) auto

lemma triggers_ok_filter: "triggers_ok most ts \<Longrightarrow> triggers_ok most (filter Q ts)"
  unfolding triggers_ok_def using kept_of_filter by (meson distinct_map_filter le_trans)

lemma kept_of_map:
  "(\<And>t. tr_owner (f t) = tr_owner t) \<Longrightarrow> kept_of p (map f ts) = map f (kept_of p ts)"
  by (simp add: kept_of_def filter_map o_def)

lemma triggers_ok_put:
  assumes "triggers_ok most ts" and "tr_id t \<notin> tr_id ` set ts"
    and "\<not> most \<le> length (filter (\<lambda>k. same_principal (tr_owner k) (tr_owner t)) ts)"
  shows "triggers_ok most (ts @ [t])"
  using assms by (auto simp: triggers_ok_def kept_of_def same_principal_iff)

lemma principal_step_ok:
  assumes "principal_step most p s s'" and "triggers_ok most (mx_value (so_triggers s))"
  shows "triggers_ok most (mx_value (so_triggers s'))"
  using assms(1)
proof (cases rule: principal_step.cases)
  case (put t)
  then show ?thesis using assms(2)
    by (auto simp: put_trigger_def on_triggers_def lock_write_def Let_def triggers_ok_put)
next
  case (delete own nm)
  then show ?thesis using assms(2)
    by (simp add: delete_trigger_def on_triggers_def lock_write_def Let_def triggers_ok_filter)
next
  case (pause own)
  have "triggers_ok most (map f ts)"
    if "triggers_ok most ts" "\<And>t. tr_owner (f t) = tr_owner t" "\<And>t. tr_id (f t) = tr_id t" for f ts
    using that by (simp add: triggers_ok_def kept_of_map o_def)
  with pause show ?thesis using assms(2)
    by (auto simp: pause_triggers_def on_triggers_def lock_write_def Let_def)
qed (use assms(2) in \<open>auto simp: trigger_op_defs on_triggers_def lock_write_def Let_def intro!: triggers_ok_update_first\<close>)

lemma trigger_step_ok:
  assumes "trigger_step most s s'" and "triggers_ok most (mx_value (so_triggers s))"
  shows "triggers_ok most (mx_value (so_triggers s'))"
  using assms
  by (cases rule: trigger_step.cases)
    (auto simp: advance_trigger_def on_triggers_def lock_write_def Let_def
      intro: principal_step_ok intro!: triggers_ok_update_first)

lemma trigger_steps_ok:
  assumes "(trigger_step most)\<^sup>*\<^sup>* s s'" and "triggers_ok most (mx_value (so_triggers s))"
  shows "triggers_ok most (mx_value (so_triggers s'))"
  using assms by (induction rule: rtranclp_induct) (auto intro: trigger_step_ok)

section \<open>Isolation\<close>

lemma kept_of_other_update:
  "p \<noteq> principal own \<Longrightarrow> (\<And>x. tr_owner (f x) = tr_owner x)
   \<Longrightarrow> kept_of p (update_first (owned_trigger own nm) f ts) = kept_of p ts"
  unfolding kept_of_def by (rule filter_update_first) (auto simp: owned_trigger_def same_principal_iff)

lemma principal_step_other:
  assumes "principal_step most p s s'" and "q \<noteq> p"
  shows "kept_of q (mx_value (so_triggers s')) = kept_of q (mx_value (so_triggers s))"
  using assms(1)
proof (cases rule: principal_step.cases)
  case (put t)
  with assms(2) show ?thesis
    by (auto simp: put_trigger_def on_triggers_def lock_write_def Let_def kept_of_def)
next
  case (delete own nm)
  with assms(2) show ?thesis
    by (auto simp: delete_trigger_def on_triggers_def lock_write_def Let_def kept_of_def owned_trigger_def
        same_principal_iff intro!: filter_cong)
next
  case (pause own)
  have "kept_of q (map f ts) = kept_of q ts"
    if "\<And>t. tr_owner (f t) = tr_owner t" "\<And>t. principal (tr_owner t) = q \<Longrightarrow> f t = t" for f ts
    unfolding kept_of_map [OF that(1)] using that(2) by (auto simp: kept_of_def intro!: map_idI)
  with pause assms(2) show ?thesis
    by (auto simp: pause_triggers_def on_triggers_def lock_write_def Let_def same_principal_iff)
qed (use assms(2) in \<open>auto simp: trigger_op_defs on_triggers_def lock_write_def Let_def kept_of_other_update\<close>)

lemma triggers_of_kept: "triggers_of own s = sort_key (\<lambda>t. (tr_created_ms t, trigger_uuid (tr_id t)))
    (kept_of (principal own) (mx_value (so_triggers s)))"
  by (simp add: triggers_of_def kept_of_def lock_read_def same_principal_iff)

lemma get_trigger_kept: "get_trigger own nm s = find (\<lambda>t. tr_id t = nm) (kept_of (principal own) (mx_value (so_triggers s)))"
proof -
  have "find (owned_trigger own nm) ts = find (\<lambda>t. tr_id t = nm) (kept_of (principal own) ts)" for ts
    by (induction ts) (auto simp: owned_trigger_def kept_of_def same_principal_iff)
  then show ?thesis by (simp add: get_trigger_def lock_read_def)
qed

section \<open>Ticks\<close>

text \<open>The schedulers that fired a tick, one after the other, each with its own next tick.\<close>

fun advance_all :: "trigger_id \<Rightarrow> int option \<Rightarrow> int option list \<Rightarrow> store \<Rightarrow> (store_error + bool) list \<times> store" where
  "advance_all nm due [] s = ([], s)"
| "advance_all nm due (n # ns) s =
     (let (r, s1) = advance_trigger nm due n s; (rs, s2) = advance_all nm due ns s1 in (r # rs, s2))"

definition has_tick :: "trigger_id \<Rightarrow> int option \<Rightarrow> store \<Rightarrow> bool" where
  "has_tick nm due s \<longleftrightarrow> (\<exists>t \<in> set (mx_value (so_triggers s)). tr_id t = nm \<and> tr_next_fire_ms t = due)"

lemma advance_trigger_tick:
  assumes "\<not> mx_poisoned (so_triggers s)"
  shows "fst (advance_trigger nm due n s) = Inr (has_tick nm due s)"
    and "\<not> has_tick nm due s \<Longrightarrow> snd (advance_trigger nm due n s) = s"
    and "distinct (map tr_id (mx_value (so_triggers s))) \<Longrightarrow> n \<noteq> due \<Longrightarrow> \<not> has_tick nm due (snd (advance_trigger nm due n s))"
    and "mx_poisoned (so_triggers (snd (advance_trigger nm due n s))) = mx_poisoned (so_triggers s)"
proof -
  let ?P = "\<lambda>t. tr_id t = nm \<and> tr_next_fire_ms t = due" and ?ts = "mx_value (so_triggers s)"
  let ?f = "\<lambda>t. t\<lparr>tr_next_fire_ms := n\<rparr>"
  have none: "update_first ?P ?f ts = ts" if "\<forall>t \<in> set ts. \<not> ?P t" for ts
    using that by (induction ts) auto
  have moved: "\<not> (\<exists>t \<in> set (update_first ?P ?f ts). ?P t)" if "distinct (map tr_id ts)" "n \<noteq> due" for ts
    using that by (induction ts) (auto intro: rev_image_eqI)
  show "fst (advance_trigger nm due n s) = Inr (has_tick nm due s)"
    using assms by (auto simp: advance_trigger_def on_triggers_def lock_write_def Let_def has_tick_def find_None_iff)
  show "snd (advance_trigger nm due n s) = s" if "\<not> has_tick nm due s"
    using assms that none [of ?ts]
    by (auto simp: advance_trigger_def on_triggers_def lock_write_def Let_def has_tick_def)
  show "\<not> has_tick nm due (snd (advance_trigger nm due n s))" if "distinct (map tr_id ?ts)" "n \<noteq> due"
    using assms moved [OF that]
    by (auto simp: advance_trigger_def on_triggers_def lock_write_def Let_def has_tick_def)
  show "mx_poisoned (so_triggers (snd (advance_trigger nm due n s))) = mx_poisoned (so_triggers s)"
    using assms by (auto simp: advance_trigger_def on_triggers_def lock_write_def Let_def)
qed

lemma advance_all_lost:
  assumes "\<not> mx_poisoned (so_triggers s)" and "\<not> has_tick nm due s"
  shows "advance_all nm due ns s = (replicate (length ns) (Inr False), s)"
proof (induction ns)
  case (Cons n ns)
  have "advance_trigger nm due n s = (Inr False, s)"
    using advance_trigger_tick(1,2) [OF assms(1), where nm = nm and due = due and n = n] assms(2)
    by (cases "advance_trigger nm due n s") simp
  with Cons show ?case by simp
qed simp

lemma advance_all_one:
  assumes "\<not> mx_poisoned (so_triggers s)" and "distinct (map tr_id (mx_value (so_triggers s)))"
    and "has_tick nm due s" and "\<forall>n \<in> set ns. n \<noteq> due" and "ns \<noteq> []"
  shows "fst (advance_all nm due ns s) = Inr True # replicate (length ns - 1) (Inr False)"
proof -
  obtain n ns' where ns: "ns = n # ns'" using assms(5) by (cases ns) auto
  obtain r s1 where adv: "advance_trigger nm due n s = (r, s1)" by (cases "advance_trigger nm due n s")
  have "r = Inr True" "\<not> mx_poisoned (so_triggers s1)" "\<not> has_tick nm due s1"
    using advance_trigger_tick [OF assms(1), where nm = nm and due = due and n = n] adv assms ns by auto
  then show ?thesis using advance_all_lost [of s1 nm due ns'] by (simp add: ns adv)
qed

section \<open>Rotations\<close>

lemma rotated_rotation:
  assumes "rotated t = Some t'"
  shows "\<exists>r r'. tr_kind t = Webhook r \<and> tr_kind t' = Webhook r' \<and> unat r' = Suc (unat r)"
proof -
  from assms obtain r where r: "tr_kind t = Webhook r" "checked_add r 1 \<noteq> None"
    by (auto simp: rotated_def split: trigger_kind.splits)
  then have "unat r + unat (1 :: u32) < 2 ^ LENGTH(32)"
    by (simp add: checked_add_def split: if_splits)
  then have "unat (r + 1) = Suc (unat r)" by (subst unat_add_no_overflow) simp_all
  with r assms show ?thesis by (auto simp: rotated_def checked_add_def split: if_splits)
qed

lemma rotate_webhook_branches:
  assumes "\<not> mx_poisoned (so_triggers s)"
  shows "fst (rotate_webhook own nm s) = Inr (Option.bind (get_trigger own nm s) rotated)"
    and "get_trigger own nm (snd (rotate_webhook own nm s))
      = (case fst (rotate_webhook own nm s) of Inr (Some t) \<Rightarrow> Some t | r \<Rightarrow> get_trigger own nm s)"
proof -
  let ?P = "owned_trigger own nm" and ?ts = "mx_value (so_triggers s)"
  show res: "fst (rotate_webhook own nm s) = Inr (Option.bind (get_trigger own nm s) rotated)"
    using assms by (simp add: rotate_webhook_def on_triggers_def lock_write_def get_trigger_def lock_read_def)
  have keep: "find ?P (update_first ?P (\<lambda>t. case rotated t of None \<Rightarrow> t | Some t' \<Rightarrow> t') ?ts)
      = map_option (\<lambda>t. case rotated t of None \<Rightarrow> t | Some t' \<Rightarrow> t') (find ?P ?ts)"
    by (rule find_update_first) (simp add: owned_trigger_def)
  have "get_trigger own nm (snd (rotate_webhook own nm s))
      = map_option (\<lambda>t. case rotated t of None \<Rightarrow> t | Some t' \<Rightarrow> t') (find ?P ?ts)"
    using assms
    by (simp add: rotate_webhook_def on_triggers_def lock_write_def get_trigger_def lock_read_def keep)
  then show "get_trigger own nm (snd (rotate_webhook own nm s))
      = (case fst (rotate_webhook own nm s) of Inr (Some t) \<Rightarrow> Some t | r \<Rightarrow> get_trigger own nm s)"
    by (auto simp: res get_trigger_def lock_read_def split: option.split bind_split)
qed

section \<open>Properties\<close>

definition sample_trigger :: "nat \<Rightarrow> stored_trigger" where
  "sample_trigger n =
     \<lparr>tr_id = TriggerId (of_nat n), tr_owner = rs_owner sample_spec, tr_agent_id = AgentId 2, tr_kind = Webhook 7, tr_input = ''go'',
      tr_placement = Local, tr_work_model = rs_work_model sample_spec, tr_limits = None, tr_missed = RunOnceLate,
      tr_enabled = True, tr_next_fire_ms = Some 100, tr_created_ms = 50, tr_generation = 0\<rparr>"

definition sample_triggers :: store where
  "sample_triggers = snd (put_trigger (sample_trigger 1) 5 store_default)"

lemma sample_triggers_value:
  "mx_value (so_triggers sample_triggers) = [sample_trigger 1]" "\<not> mx_poisoned (so_triggers sample_triggers)"
  by (simp_all add: sample_triggers_def put_trigger_def on_triggers_def store_default_def mutex_new_def lock_write_def)

text \<open>A principal's triggers are its own: whatever other principals do, what it lists and what it
  finds by id stays the same.\<close>

theorem trigger_isolation:
  assumes "(\<lambda>s s'. \<exists>p. principal_step most p s s' \<and> p \<noteq> principal own)\<^sup>*\<^sup>* s s'"
  shows "triggers_of own s' = triggers_of own s \<and> get_trigger own nm s' = get_trigger own nm s"
  using assms
proof (induction rule: rtranclp_induct)
  case (step t u)
  then have "kept_of (principal own) (mx_value (so_triggers u)) = kept_of (principal own) (mx_value (so_triggers t))"
    by (metis principal_step_other)
  with step.IH show ?case by (simp add: triggers_of_kept get_trigger_kept)
qed simp

theorem trigger_isolation_witness:
  "let other = \<lparr>ow_issuer = ''iss'', ow_subject = ''eve'', ow_tenant = ''ten''\<rparr>
   in get_trigger (rs_owner sample_spec) (TriggerId 1) (snd (delete_trigger other (TriggerId 1) sample_triggers))
     = Some (sample_trigger 1)"
proof -
  let ?other = "\<lparr>ow_issuer = ''iss'', ow_subject = ''eve'', ow_tenant = ''ten''\<rparr>"
  let ?own = "rs_owner sample_spec"
  have "principal ?other \<noteq> principal ?own" by (simp add: principal_def sample_spec_def)
  then have "(\<lambda>s s'. \<exists>p. principal_step 5 p s s' \<and> p \<noteq> principal ?own)\<^sup>*\<^sup>* sample_triggers
      (snd (delete_trigger ?other (TriggerId 1) sample_triggers))"
    by (blast intro: principal_step.delete)
  from trigger_isolation [OF this, of "TriggerId 1"] show ?thesis
    by (simp add: get_trigger_def lock_read_def sample_triggers_value owned_trigger_def sample_trigger_def same_principal_def)
qed

text \<open>A principal never keeps more triggers than the cap its puts name, and no two triggers share
  an id, whatever is put, deleted, paused, resumed, rotated or moved.\<close>

theorem trigger_cap:
  assumes "(trigger_step most)\<^sup>*\<^sup>* store_default s"
  shows "length (triggers_of own s) \<le> most \<and> distinct (map tr_id (triggers_of own s))"
proof -
  have "triggers_ok most (mx_value (so_triggers store_default))"
    by (simp add: triggers_ok_def store_default_def mutex_new_def kept_of_def)
  with assms have ok: "triggers_ok most (mx_value (so_triggers s))" by (rule trigger_steps_ok)
  then have "distinct (map tr_id (kept_of (principal own) (mx_value (so_triggers s))))"
    by (simp add: triggers_ok_def kept_of_def distinct_map_filter)
  then have "distinct (map tr_id (triggers_of own s))"
    by (simp add: triggers_of_kept distinct_map)
  moreover have "length (kept_of (principal own) (mx_value (so_triggers s))) \<le> most"
    using ok unfolding triggers_ok_def by blast
  ultimately show ?thesis by (simp add: triggers_of_kept)
qed

theorem trigger_cap_witness:
  "length (triggers_of (rs_owner sample_spec) (snd (put_trigger (sample_trigger 2) 1 (snd (put_trigger (sample_trigger 1) 1 store_default))))) \<le> 1"
proof -
  let ?s = "snd (put_trigger (sample_trigger 1) 1 store_default)"
  have "mx_value (so_triggers ?s) = [sample_trigger 1]"
    by (simp add: put_trigger_def on_triggers_def store_default_def mutex_new_def lock_write_def)
  then have "tr_id (sample_trigger 2) \<notin> tr_id ` set (mx_value (so_triggers ?s))"
    by (simp only:) (simp add: sample_trigger_def)
  then have two: "trigger_step 1 ?s (snd (put_trigger (sample_trigger 2) 1 ?s))"
    by (rule trigger_step.by_principal [OF principal_step.put])
  have one: "trigger_step 1 store_default ?s"
    by (rule trigger_step.by_principal [OF principal_step.put]) (simp add: store_default_def mutex_new_def)
  from trigger_cap [OF rtranclp.rtrancl_into_rtrancl [OF r_into_rtranclp [of "trigger_step 1", OF one] two]] show ?thesis by blast
qed

text \<open>Of the schedulers that fired one tick of a trigger, exactly one moves it, the first, whatever
  next ticks they computed.\<close>

theorem tick_moved_once:
  assumes "\<not> mx_poisoned (so_triggers s)" and "distinct (map tr_id (mx_value (so_triggers s)))"
    and "has_tick nm due s" and "\<forall>n \<in> set ns. n \<noteq> due" and "ns \<noteq> []"
  shows "fst (advance_all nm due ns s) = Inr True # replicate (length ns - 1) (Inr False)"
  using assms by (rule advance_all_one)

theorem tick_moved_once_witness:
  "fst (advance_all (TriggerId 1) (Some 100) [Some 200, Some 200, None] sample_triggers) = [Inr True, Inr False, Inr False]"
proof -
  have tick: "has_tick (TriggerId 1) (Some 100) sample_triggers"
    by (simp add: has_tick_def sample_triggers_value) (simp add: sample_trigger_def)
  have "distinct (map tr_id (mx_value (so_triggers sample_triggers)))" by (simp add: sample_triggers_value)
  from tick_moved_once [OF sample_triggers_value(2) this tick, of "[Some 200, Some 200, None]"] show ?thesis by simp
qed

text \<open>A rotation is never given out twice: a rotation that returns a trigger stored it with a number
  one above the one it had, and at the last number, for a schedule or for another principal's
  trigger nothing is returned and nothing the principal sees has changed.\<close>

theorem rotation_never_repeats:
  assumes "\<not> mx_poisoned (so_triggers s)"
  shows "(\<exists>t t' r r'. get_trigger own nm s = Some t \<and> tr_kind t = Webhook r \<and> tr_kind t' = Webhook r' \<and> unat r' = Suc (unat r)
            \<and> fst (rotate_webhook own nm s) = Inr (Some t') \<and> get_trigger own nm (snd (rotate_webhook own nm s)) = Some t')
       \<or> (fst (rotate_webhook own nm s) = Inr None \<and> get_trigger own nm (snd (rotate_webhook own nm s)) = get_trigger own nm s
            \<and> (\<forall>t r. get_trigger own nm s = Some t \<longrightarrow> tr_kind t = Webhook r \<longrightarrow> r = - 1))"
proof (cases "Option.bind (get_trigger own nm s) rotated")
  case (Some t')
  then obtain t where "get_trigger own nm s = Some t" "rotated t = Some t'"
    by (cases "get_trigger own nm s") auto
  with rotated_rotation [of t t'] rotate_webhook_branches [OF assms, of own nm] Some show ?thesis by auto
next
  case None
  have "r = - 1" if "get_trigger own nm s = Some t" "tr_kind t = Webhook r" for t r
  proof -
    have "\<not> unat r + 1 < 2 ^ 32"
      using that None by (auto simp: rotated_def checked_add_def split: if_splits)
    moreover have "unat r < 2 ^ 32" using unsigned_less [of r] by simp
    ultimately have "unat r = unat (- 1 :: u32)" by (simp add: unat_max_word)
    then show ?thesis by (simp only: unsigned_word_eqI)
  qed
  with None rotate_webhook_branches [OF assms, of own nm] show ?thesis by auto
qed

theorem rotation_never_repeats_witness:
  "fst (rotate_webhook (rs_owner sample_spec) (TriggerId 1) sample_triggers) = Inr (Some ((sample_trigger 1)\<lparr>tr_kind := Webhook 8\<rparr>))"
proof -
  have found: "get_trigger (rs_owner sample_spec) (TriggerId 1) sample_triggers = Some (sample_trigger 1)"
    by (simp add: get_trigger_def lock_read_def sample_triggers_value owned_trigger_def sample_trigger_def same_principal_def)
  have res: "fst (rotate_webhook (rs_owner sample_spec) (TriggerId 1) sample_triggers) = Inr (rotated (sample_trigger 1))"
    using rotate_webhook_branches(1) [OF sample_triggers_value(2)] found by simp
  from rotation_never_repeats [OF sample_triggers_value(2), of "rs_owner sample_spec" "TriggerId 1"] found
  have "rotated (sample_trigger 1) \<noteq> None" unfolding res by (auto simp: sample_trigger_def)
  then show ?thesis unfolding res by (simp add: rotated_def sample_trigger_def checked_add_def split: if_splits)
qed

end
