(* ===== verification/Stop_Store.thy ===== *)
theory Stop_Store
  imports Run_Store
begin

text \<open>
  Stops and threads of the in-memory store (\<open>crates/server/src/store.rs\<close>: \<open>StopStore\<close> and
  \<open>ThreadStore\<close> for \<open>InMemoryStore\<close>). The two loops up a lineage follow parents the store does not
  check, so they are partial: \<open>None\<close> is a loop that never ends, and the lemmas show that it ends when
  a child's hop is above its parent's, as every spec of a child is built.
\<close>

section \<open>Stops\<close>

definition stop_names :: "stop_scope \<Rightarrow> nat \<Rightarrow> stored_run \<Rightarrow> nat \<Rightarrow> bool" where
  "stop_names scope stop run stored =
     (case scope of
        StopRun nm \<Rightarrow> nm = rs_run_id (sr_spec run)
      | StopThread thread \<Rightarrow> stored < stop \<and> thread_of (sr_spec run) = Some thread
      | StopOwner \<Rightarrow> stored < stop)"

definition put_stop :: "owner \<Rightarrow> stop_scope \<Rightarrow> store \<Rightarrow> (store_error + unit) \<times> store" where
  "put_stop own scope s =
     (case lock_write (so_stops s) ''stop'' of
        Inl e \<Rightarrow> (Inl e, s)
      | Inr stops \<Rightarrow>
          (let key = principal own;
               kept = filter (\<lambda>(p, stopped, n). \<not> (p = key \<and> stopped = scope)) stops;
               order = so_order s + 1
           in (Inr (), s\<lparr>so_order := order, so_stops := (so_stops s)\<lparr>mx_value := kept @ [(key, scope, order)]\<rparr>\<rparr>)))"

definition parent_of :: "stored_run \<Rightarrow> run_id option" where
  "parent_of run = lin_parent (rs_lineage (sr_spec run))"

text \<open>Whether a stop of the run's principal names this run.\<close>

definition named_by :: "(principal_key \<times> stop_scope \<times> nat) list \<Rightarrow> stored_run \<Rightarrow> nat \<Rightarrow> bool" where
  "named_by stops member stored =
     list_ex (\<lambda>(p, scope, stop). p = principal (rs_owner (sr_spec member)) \<and> stop_names scope stop member stored) stops"

definition order_of :: "(run_id \<times> nat) list \<Rightarrow> run_id \<Rightarrow> nat" where
  "order_of stored nm = (case map_of stored nm of None \<Rightarrow> 0 | Some n \<Rightarrow> n)"

partial_function (option) stopped_up ::
    "(run_id \<Rightarrow> stored_run \<Rightarrow> bool) \<Rightarrow> (run_id \<times> stored_run) list \<Rightarrow> run_id option \<Rightarrow> bool option" where
  "stopped_up names runs up =
     (case up of
        None \<Rightarrow> Some False
      | Some nm \<Rightarrow>
          (case map_of runs nm of
             None \<Rightarrow> Some False
           | Some member \<Rightarrow>
               if names nm member then Some True
               else stopped_up names runs (parent_of member)))"

definition names_run :: "store \<Rightarrow> run_id \<Rightarrow> stored_run \<Rightarrow> bool" where
  "names_run s nm member = named_by (lock_read (so_stops s)) member (order_of (lock_read (so_stored s)) nm)"

definition stopped :: "run_id \<Rightarrow> store \<Rightarrow> bool option" where
  "stopped run s = stopped_up (names_run s) (lock_read (so_runs s)) (Some run)"

partial_function (option) within_up :: "(run_id \<times> stored_run) list \<Rightarrow> run_id \<Rightarrow> run_id option \<Rightarrow> bool option" where
  "within_up runs target up =
     (case up of
        None \<Rightarrow> Some False
      | Some current \<Rightarrow>
          if current = target then Some True
          else within_up runs target (Option.bind (map_of runs current) parent_of))"

definition run_open :: "stored_run \<Rightarrow> bool" where
  "run_open run = (\<not> list_ex is_end_event (sr_events run))"

definition scope_covers :: "(run_id \<times> stored_run) list \<Rightarrow> stop_scope \<Rightarrow> stored_run \<Rightarrow> bool option" where
  "scope_covers runs scope run =
     (case scope of
        StopRun target \<Rightarrow> within_up runs target (Some (rs_run_id (sr_spec run)))
      | StopThread thread \<Rightarrow> Some (thread_of (sr_spec run) = Some thread)
      | StopOwner \<Rightarrow> Some True)"

text \<open>A filter whose test may not end.\<close>

fun filter_ends :: "('a \<Rightarrow> bool option) \<Rightarrow> 'a list \<Rightarrow> 'a list option" where
  "filter_ends P [] = Some []"
| "filter_ends P (x # xs) =
     (case P x of
        None \<Rightarrow> None
      | Some b \<Rightarrow> map_option (\<lambda>ys. if b then x # ys else ys) (filter_ends P xs))"

definition open_runs_under :: "owner \<Rightarrow> stop_scope \<Rightarrow> store \<Rightarrow> stored_run list option" where
  "open_runs_under own scope s =
     (let runs = lock_read (so_runs s) in
      filter_ends (scope_covers runs scope)
        (filter run_open (filter (\<lambda>run. same_principal (rs_owner (sr_spec run)) own) (map snd runs))))"

section \<open>Threads\<close>

definition created_key :: "stored_run \<Rightarrow> int \<times> uuid" where
  "created_key run = (created_ms run, run_uuid (rs_run_id (sr_spec run)))"

definition is_root :: "stored_run \<Rightarrow> bool" where
  "is_root run = (parent_of run = None)"

text \<open>One run of the pass that builds the threads: the thread's summary and whether its first run
  with no parent was seen.\<close>

definition add_to_thread ::
    "(string \<times> thread_summary \<times> bool) list \<Rightarrow> stored_run \<Rightarrow> (string \<times> thread_summary \<times> bool) list" where
  "add_to_thread threads run =
     (let nm = the (thread_of (sr_spec run));
          (thread, rooted) =
            (case map_of threads nm of
               Some entry \<Rightarrow> entry
             | None \<Rightarrow> (\<lparr>th_id = nm, th_agent_id = rs_agent_id (sr_spec run), th_started_ms = created_ms run, th_runs = 0\<rparr>, False));
          counted = thread\<lparr>th_runs := th_runs thread + 1\<rparr>
      in if is_root run \<and> \<not> rooted
         then AList.update nm (counted\<lparr>th_agent_id := rs_agent_id (sr_spec run), th_started_ms := created_ms run\<rparr>, True) threads
         else AList.update nm (counted, rooted) threads)"

definition threads_of :: "owner \<Rightarrow> nat \<Rightarrow> nat \<Rightarrow> store \<Rightarrow> thread_summary list" where
  "threads_of own after limit s =
     (let owned = sort_key created_key
            (filter (\<lambda>run. same_principal (rs_owner (sr_spec run)) own \<and> thread_of (sr_spec run) \<noteq> None)
              (map snd (lock_read (so_runs s))));
          threads = foldl add_to_thread [] owned
      in take limit (drop after
           (sort_key (\<lambda>t. (- th_started_ms t, th_id t)) (map (fst \<circ> snd) threads))))"

text \<open>\<open>min_by_key\<close>: the first of the least.\<close>

definition min_by_key :: "('a \<Rightarrow> 'b::linorder) \<Rightarrow> 'a list \<Rightarrow> 'a option" where
  "min_by_key f xs =
     (case xs of [] \<Rightarrow> None | y # ys \<Rightarrow> Some (foldl (\<lambda>best x. if f x < f best then x else best) y ys))"

definition thread_root :: "owner \<Rightarrow> string \<Rightarrow> store \<Rightarrow> run_spec option" where
  "thread_root own thread s =
     map_option sr_spec
       (min_by_key created_key
         (filter (\<lambda>run. same_principal (rs_owner (sr_spec run)) own \<and> thread_of (sr_spec run) = Some thread \<and> is_root run)
           (map snd (lock_read (so_runs s)))))"

definition runs_of_thread :: "owner \<Rightarrow> string \<Rightarrow> nat \<Rightarrow> store \<Rightarrow> stored_run list" where
  "runs_of_thread own thread limit s =
     take limit
       (sort_key (\<lambda>run. (created_ms run, map_of (lock_read (so_stored s)) (rs_run_id (sr_spec run)), run_uuid (rs_run_id (sr_spec run))))
         (filter (\<lambda>run. same_principal (rs_owner (sr_spec run)) own \<and> thread_of (sr_spec run) = Some thread)
           (map snd (lock_read (so_runs s)))))"

section \<open>The loops end\<close>

text \<open>The hop of a stored run is above the hop of its stored parent.\<close>

definition lineage_falls :: "(run_id \<times> stored_run) list \<Rightarrow> bool" where
  "lineage_falls runs =
     list_all (\<lambda>(nm, run). case parent_of run of
         None \<Rightarrow> True
       | Some up \<Rightarrow> (case map_of runs up of
           None \<Rightarrow> True
         | Some senior \<Rightarrow> lin_hop (rs_lineage (sr_spec senior)) < lin_hop (rs_lineage (sr_spec run)))) runs"

inductive under_run :: "(run_id \<times> stored_run) list \<Rightarrow> run_id \<Rightarrow> run_id \<Rightarrow> bool" for runs where
  self: "under_run runs nm nm"
| up: "map_of runs nm = Some run \<Longrightarrow> parent_of run = Some p \<Longrightarrow> under_run runs p target \<Longrightarrow> under_run runs nm target"

lemma lineage_fallsD:
  assumes "lineage_falls runs" and "map_of runs nm = Some run" and "parent_of run = Some p" and "map_of runs p = Some senior"
  shows "unat (lin_hop (rs_lineage (sr_spec senior))) < unat (lin_hop (rs_lineage (sr_spec run)))"
proof -
  from assms(2) have "(nm, run) \<in> set runs" by (rule map_of_SomeD)
  with assms show ?thesis by (fastforce simp: lineage_falls_def list_all_iff word_less_nat_alt)
qed

text \<open>The steps left from a run: its hop and one, or none for a run not stored.\<close>

definition hops_left :: "(run_id \<times> stored_run) list \<Rightarrow> run_id option \<Rightarrow> nat" where
  "hops_left runs up =
     (case up of None \<Rightarrow> 0 | Some nm \<Rightarrow>
       (case map_of runs nm of None \<Rightarrow> 1 | Some run \<Rightarrow> unat (lin_hop (rs_lineage (sr_spec run))) + 2))"

lemma hops_left_falls:
  assumes "lineage_falls runs" and "map_of runs nm = Some run"
  shows "hops_left runs (parent_of run) < hops_left runs (Some nm)"
  using assms lineage_fallsD [OF assms] by (auto simp: hops_left_def split: option.splits)

lemma stopped_up_ends:
  assumes "lineage_falls runs"
  shows "\<exists>b. stopped_up names runs up = Some b"
  using assms
proof (induction "hops_left runs up" arbitrary: up rule: less_induct)
  case less
  show ?case
    by (subst stopped_up.simps) (auto split: option.split intro!: less.hyps hops_left_falls assms)
qed

lemma within_up_ends:
  assumes "lineage_falls runs"
  shows "\<exists>b. within_up runs target up = Some b"
  using assms
proof (induction "hops_left runs up" arbitrary: up rule: less_induct)
  case less
  have "hops_left runs (Option.bind (map_of runs nm) parent_of) < hops_left runs (Some nm)" for nm
    using hops_left_falls [OF assms] by (cases "map_of runs nm") (auto simp: hops_left_def)
  then show ?case
    by (subst within_up.simps) (auto split: option.split intro!: less.hyps assms)
qed

section \<open>What the loops compute\<close>

lemma stopped_up_named:
  assumes "under_run runs nm target" and "map_of runs target = Some member" and "names target member"
  shows "stopped_up names runs (Some nm) = Some True"
  using assms
proof (induction rule: under_run.induct)
  case (self nm)
  then show ?case by (subst stopped_up.simps) simp
next
  case (up nm run p target)
  then show ?case by (subst stopped_up.simps) simp
qed

lemma stopped_up_True:
  assumes "lineage_falls runs" and "stopped_up names runs up = Some True"
  shows "\<exists>nm target member. up = Some nm \<and> under_run runs nm target \<and> map_of runs target = Some member \<and> names target member"
  using assms
proof (induction "hops_left runs up" arbitrary: up rule: less_induct)
  case less
  from less.prems(2) obtain nm run where up: "up = Some nm" and run: "map_of runs nm = Some run"
    by (subst (asm) stopped_up.simps) (auto split: option.splits)
  show ?case
  proof (cases "names nm run")
    case True
    with up run show ?thesis by (blast intro: under_run.self)
  next
    case False
    with less.prems(2) up run have "stopped_up names runs (parent_of run) = Some True"
      by (subst (asm) stopped_up.simps) simp
    with less.hyps [of "parent_of run"] hops_left_falls [OF assms(1) run] assms(1) up
    obtain p target member where "parent_of run = Some p" "under_run runs p target" "map_of runs target = Some member" "names target member"
      by blast
    with up run show ?thesis by (blast intro: under_run.up)
  qed
qed

lemma within_up_True:
  assumes "lineage_falls runs" and "within_up runs target up = Some True"
  shows "\<exists>nm. up = Some nm \<and> under_run runs nm target"
  using assms
proof (induction "hops_left runs up" arbitrary: up rule: less_induct)
  case less
  from less.prems(2) obtain nm where up: "up = Some nm"
    by (subst (asm) within_up.simps) (auto split: option.splits)
  show ?case
  proof (cases "nm = target")
    case True
    with up show ?thesis by (blast intro: under_run.self)
  next
    case False
    with less.prems(2) up have rest: "within_up runs target (Option.bind (map_of runs nm) parent_of) = Some True"
      by (subst (asm) within_up.simps) simp
    then obtain run where run: "map_of runs nm = Some run"
      by (cases "map_of runs nm") (auto simp: within_up.simps)
    with rest less.hyps [of "parent_of run"] hops_left_falls [OF assms(1) run] assms(1) up
    obtain p where "parent_of run = Some p" "under_run runs p target" by auto
    with up run show ?thesis by (blast intro: under_run.up)
  qed
qed

text \<open>A run is stopped exactly when a stop of its principal names it or a run above it.\<close>

lemma stopped_iff:
  assumes "lineage_falls (mx_value (so_runs s))"
  shows "stopped nm s = Some (\<exists>target member. under_run (mx_value (so_runs s)) nm target
    \<and> map_of (mx_value (so_runs s)) target = Some member \<and> names_run s target member)"
proof -
  let ?runs = "mx_value (so_runs s)"
  obtain b where "stopped_up (names_run s) ?runs (Some nm) = Some b" using stopped_up_ends [OF assms] by blast
  moreover have "b \<longleftrightarrow> (\<exists>target member. under_run ?runs nm target \<and> map_of ?runs target = Some member \<and> names_run s target member)"
    if "stopped_up (names_run s) ?runs (Some nm) = Some b"
    using that stopped_up_True [OF assms, of "names_run s" "Some nm"] stopped_up_named [of ?runs nm _ _ "names_run s"]
    by (cases b) auto
  ultimately show ?thesis by (simp add: stopped_def lock_read_def)
qed

lemma filter_ends_sound: "filter_ends P xs = Some ys \<Longrightarrow> y \<in> set ys \<Longrightarrow> y \<in> set xs \<and> P y = Some True"
  by (induction xs arbitrary: ys) (auto split: option.splits if_splits)

lemma filter_ends_ends: "(\<And>x. x \<in> set xs \<Longrightarrow> \<exists>b. P x = Some b) \<Longrightarrow> \<exists>ys. filter_ends P xs = Some ys \<and> set ys = {x \<in> set xs. P x = Some True}"
proof (induction xs)
  case (Cons x xs)
  obtain b where b: "P x = Some b" using Cons.prems [of x] by auto
  obtain ys where ys: "filter_ends P xs = Some ys" "set ys = {x \<in> set xs. P x = Some True}"
    using Cons by auto
  from b ys show ?case by (cases b) auto
qed simp

section \<open>The store's order\<close>

text \<open>Every number handed out is at most the store's counter, and each stored run has its own.\<close>

definition order_ok :: "store \<Rightarrow> bool" where
  "order_ok s \<longleftrightarrow>
     (\<forall>(nm, n) \<in> set (mx_value (so_stored s)). n \<le> so_order s)
     \<and> (\<forall>(p, scope, n) \<in> set (mx_value (so_stops s)). n \<le> so_order s)"

lemma order_ok_default: "order_ok store_default"
  by (simp add: order_ok_def store_default_def mutex_new_def)

lemma order_of_le: "order_ok s \<Longrightarrow> order_of (mx_value (so_stored s)) nm \<le> so_order s"
  by (auto simp: order_ok_def order_of_def split: option.split dest!: map_of_SomeD)

lemma put_stop_done:
  assumes "put_stop own scope s = (Inr (), s')"
  shows "mx_value (so_stops s') = filter (\<lambda>(p, stopped, n). \<not> (p = principal own \<and> stopped = scope)) (mx_value (so_stops s))
      @ [(principal own, scope, Suc (so_order s))]"
    and "so_runs s' = so_runs s" "so_stored s' = so_stored s" "so_order s' = Suc (so_order s)"
  using assms by (auto simp: put_stop_def lock_write_def Let_def split: if_splits)

lemma put_stop_refused:
  assumes "put_stop own scope s = (Inl e, s')"
  shows "s' = s" "mx_poisoned (so_stops s)"
  using assms by (auto simp: put_stop_def lock_write_def Let_def split: if_splits)

lemma put_stop_order: "order_ok s \<Longrightarrow> order_ok (snd (put_stop own scope s))"
  by (auto simp: put_stop_def lock_write_def Let_def order_ok_def)

lemma put_run_order:
  assumes "order_ok s"
  shows "order_ok (snd (put_run now_ms run s))"
proof (cases rule: put_run_cases [of now_ms run s])
  case (unchanged r)
  with assms show ?thesis by simp
next
  case (unordered e s')
  then have "so_order s' \<ge> so_order s" "so_stored s' = so_stored s" "so_stops s' = so_stops s"
    by (auto simp: put_run_def number_def lock_write_def Let_def split: sum.splits option.splits if_splits)
  with assms unordered(1) show ?thesis by (fastforce simp: order_ok_def)
next
  case (stored s')
  have "so_stops s' = so_stops s" "so_order s' = Suc (so_order s)" by (subst stored(7), simp)+
  moreover have "n \<le> Suc (so_order s)" if "(nm, n) \<in> set (mx_value (so_stored s'))" for nm n
    using in_update [OF that [unfolded stored(8)]] assms by (auto simp: order_ok_def)
  ultimately show ?thesis using assms stored(1) by (auto simp: order_ok_def)
qed

lemma append_order:
  assumes "order_ok s"
  shows "order_ok (snd (append_checked now_ms nm seen events s))"
proof (cases rule: append_cases [of now_ms nm seen events s])
  case (appended s' old)
  have "so_stops s' = so_stops s" "so_order s' = so_order s" "so_stored s' = so_stored s" by (subst appended(8), simp)+
  with assms appended(1) show ?thesis by (simp add: order_ok_def)
qed (use assms in simp)

section \<open>What a stop covers\<close>

lemma new_stop_names:
  assumes "order_ok s" and "put_stop own scope s = (Inr (), s')" and "principal (rs_owner (sr_spec member)) = principal own"
    and "scope = StopRun nm \<Longrightarrow> rs_run_id (sr_spec member) = nm"
    and "\<And>thread. scope = StopThread thread \<Longrightarrow> thread_of (sr_spec member) = Some thread"
    and "\<And>r. scope = StopRun r \<Longrightarrow> r = nm"
  shows "names_run s' nm member"
proof -
  have "order_of (mx_value (so_stored s)) nm < Suc (so_order s)" using order_of_le [OF assms(1)] by (simp add: le_imp_less_Suc)
  then show ?thesis
    using put_stop_done [OF assms(2)] assms(3-)
    by (cases scope) (auto simp: names_run_def named_by_def lock_read_def stop_names_def list_ex_iff)
qed

lemma open_run_stopped:
  assumes "order_ok s" and falls: "lineage_falls (mx_value (so_runs s))" and "runs_ok (mx_value (so_runs s))"
    and found: "open_runs_under own scope s = Some found" and "run \<in> set found"
    and put: "put_stop own scope s = (Inr (), s')"
    and named: "\<And>r. scope = StopRun r \<Longrightarrow> \<exists>target. get_run r s = Some target \<and> principal (rs_owner (sr_spec target)) = principal own"
  shows "stopped (rs_run_id (sr_spec run)) s' = Some True"
proof -
  let ?runs = "mx_value (so_runs s)" and ?nm = "rs_run_id (sr_spec run)"
  note same = put_stop_done(2) [OF put]
  have run: "run \<in> set (map snd ?runs)" "same_principal (rs_owner (sr_spec run)) own" "scope_covers ?runs scope run = Some True"
    using filter_ends_sound [OF found [unfolded open_runs_under_def lock_read_def Let_def] assms(5)] by auto
  have at: "map_of ?runs ?nm = Some run"
    using run(1) assms(3) by (auto simp: runs_ok_def list_all_iff intro!: map_of_is_SomeI)
  have "\<exists>target member. under_run ?runs ?nm target \<and> map_of ?runs target = Some member \<and> names_run s' target member"
  proof (cases scope)
    case (StopRun r)
    with run(3) have "under_run ?runs ?nm r"
      using within_up_True [OF falls, of r "Some ?nm"] by (simp add: scope_covers_def)
    moreover from named [OF StopRun] obtain member where member: "map_of ?runs r = Some member"
      "principal (rs_owner (sr_spec member)) = principal own" by (auto simp: get_run_def lock_read_def)
    moreover have "rs_run_id (sr_spec member) = r"
      using assms(3) map_of_SomeD [OF member(1)] by (auto simp: runs_ok_def list_all_iff)
    then have "names_run s' r member"
      using StopRun member(2) by (intro new_stop_names [OF assms(1) put]) auto
    ultimately show ?thesis by blast
  next
    case (StopThread thread)
    with run have "names_run s' ?nm run"
      by (intro new_stop_names [OF assms(1) put]) (auto simp: same_principal_iff scope_covers_def)
    with at show ?thesis by (blast intro: under_run.self)
  next
    case StopOwner
    with run have "names_run s' ?nm run"
      by (intro new_stop_names [OF assms(1) put]) (auto simp: same_principal_iff)
    with at show ?thesis by (blast intro: under_run.self)
  qed
  then show ?thesis using falls by (simp add: stopped_iff same)
qed

lemma under_run_more:
  assumes "under_run runs nm target" and "\<And>k r. map_of runs k = Some r \<Longrightarrow> \<exists>r'. map_of runs' k = Some r' \<and> sr_spec r' = sr_spec r"
  shows "under_run runs' nm target"
  using assms(1)
proof (induction rule: under_run.induct)
  case (up nm run p target)
  from assms(2) [OF up(1)] obtain r' where "map_of runs' nm = Some r'" "sr_spec r' = sr_spec run" by blast
  with up show ?case by (auto simp: parent_of_def intro: under_run.up)
qed (rule under_run.self)

text \<open>What the store keeps of a run's place: its spec and number, and the stops that name it.\<close>

definition keeps_stops :: "store \<Rightarrow> store \<Rightarrow> bool" where
  "keeps_stops s s' \<longleftrightarrow>
     (\<forall>k r. get_run k s = Some r \<longrightarrow> (\<exists>r'. get_run k s' = Some r' \<and> sr_spec r' = sr_spec r))
     \<and> (\<forall>k r. get_run k s = Some r \<longrightarrow> names_run s k r \<longrightarrow> names_run s' k r)"

lemma names_run_spec:
  assumes "sr_spec r' = sr_spec r"
  shows "names_run s k r' = names_run s k r"
proof -
  have "stop_names scope stop r' n = stop_names scope stop r n" for scope stop n
    using assms by (cases scope) (simp_all add: stop_names_def)
  with assms show ?thesis by (simp add: names_run_def named_by_def)
qed

lemma keeps_stops_stopped:
  assumes "keeps_stops s s'" and "lineage_falls (mx_value (so_runs s))" and "stopped nm s = Some True"
  shows "stopped nm s' = Some True"
proof -
  from assms(2,3) obtain target member where t: "under_run (mx_value (so_runs s)) nm target"
    "map_of (mx_value (so_runs s)) target = Some member" "names_run s target member"
    by (auto simp: stopped_iff)
  have "under_run (mx_value (so_runs s')) nm target"
    using t(1) by (rule under_run_more) (use assms(1) in \<open>auto simp: keeps_stops_def get_run_def lock_read_def\<close>)
  moreover obtain m' where m': "map_of (mx_value (so_runs s')) target = Some m'" "sr_spec m' = sr_spec member"
    using assms(1) t(2) unfolding keeps_stops_def get_run_def lock_read_def by blast
  moreover have "names_run s' target member"
    using assms(1) t(2,3) by (auto simp: keeps_stops_def get_run_def lock_read_def)
  then have "names_run s' target m'" using names_run_spec [OF m'(2)] by simp
  ultimately show ?thesis unfolding stopped_def lock_read_def by (blast intro: stopped_up_named)
qed

lemma names_run_stops:
  assumes "set (mx_value (so_stops s)) \<subseteq> set (mx_value (so_stops s'))"
    and "order_of (mx_value (so_stored s')) k = order_of (mx_value (so_stored s)) k" and "names_run s k r"
  shows "names_run s' k r"
  using assms by (auto simp: names_run_def named_by_def lock_read_def list_ex_iff)

lemma put_stop_keeps_stops: "order_ok s \<Longrightarrow> keeps_stops s (snd (put_stop own scope s))"
proof (cases "put_stop own scope s")
  fix r s'
  assume ok: "order_ok s" and put: "put_stop own scope s = (r, s')"
  show "keeps_stops s (snd (put_stop own scope s))"
  proof (cases r)
    case (Inl e)
    with put_stop_refused(1) [of own scope s e s'] put show ?thesis by (simp add: keeps_stops_def)
  next
    case (Inr u)
    with put have put: "put_stop own scope s = (Inr (), s')" by simp
    note after = put_stop_done [OF put]
    have "names_run s' k r" if "names_run s k r" for k r
    proof -
      from that obtain sc n where at: "(principal (rs_owner (sr_spec r)), sc, n) \<in> set (mx_value (so_stops s))"
        "stop_names sc n r (order_of (mx_value (so_stored s)) k)"
        by (auto simp: names_run_def named_by_def lock_read_def list_ex_iff)
      then have "n \<le> so_order s" using ok by (auto simp: order_ok_def)
      with at(2) have later: "stop_names sc (Suc (so_order s)) r (order_of (mx_value (so_stored s)) k)"
        by (cases sc) (auto simp: stop_names_def)
      show ?thesis
      proof (cases "principal (rs_owner (sr_spec r)) = principal own \<and> sc = scope")
        case True
        with later show ?thesis by (simp add: names_run_def named_by_def lock_read_def after)
      next
        case False
        then have "(principal (rs_owner (sr_spec r)), sc, n) \<in> set (mx_value (so_stops s'))"
          using at(1) by (auto simp: after)
        with at(2) show ?thesis
          unfolding names_run_def named_by_def lock_read_def list_ex_iff after(3) by (intro bexI) auto
      qed
    qed
    then show ?thesis by (simp add: put keeps_stops_def get_run_def after)
  qed
qed

lemma put_run_keeps_stops: "\<not> mx_poisoned (so_stored s) \<Longrightarrow> keeps_stops s (snd (put_run now_ms run s))"
proof (cases rule: put_run_cases [of now_ms run s])
  case (stored s')
  have "so_stops s' = so_stops s" by (subst stored(7), simp)
  moreover have "order_of (mx_value (so_stored s')) k = order_of (mx_value (so_stored s)) k"
    if "map_of (mx_value (so_runs s)) k \<noteq> None" for k
    using that stored(3) by (auto simp: stored(8) order_of_def)
  ultimately have "names_run s' k r" if "get_run k s = Some r" "names_run s k r" for k r
    using that by (intro names_run_stops [of s s']) (simp_all add: get_run_def lock_read_def)
  moreover have "get_run k s' = Some r" if "get_run k s = Some r" for k r
    using that stored(3) by (auto simp: get_run_def lock_read_def stored(4))
  ultimately show ?thesis by (simp add: stored(1) keeps_stops_def)
qed (simp_all add: keeps_stops_def)

lemma append_keeps_stops: "keeps_stops s (snd (append_checked now_ms nm seen events s))"
proof (cases rule: append_cases [of now_ms nm seen events s])
  case (appended s' old)
  have "so_stops s' = so_stops s" "so_stored s' = so_stored s" by (subst appended(8), simp)+
  then have "names_run s' k r" if "names_run s k r" for k r
    using that by (intro names_run_stops [of s s']) simp_all
  moreover have "\<exists>r'. get_run k s' = Some r' \<and> sr_spec r' = sr_spec r" if "get_run k s = Some r" for k r
    using that appended(2) by (auto simp: get_run_def lock_read_def appended(6))
  ultimately show ?thesis by (simp add: appended(1) keeps_stops_def)
qed (simp add: keeps_stops_def)

section \<open>What the threads are\<close>

text \<open>The pass over the runs against its specification: the summary of a thread is made of the
  thread's runs in order, led by the first with no parent, or else by the first.\<close>

definition lead_of :: "stored_run list \<Rightarrow> stored_run" where
  "lead_of mine = (case find is_root mine of Some r \<Rightarrow> r | None \<Rightarrow> hd mine)"

definition summary_of :: "string \<Rightarrow> stored_run list \<Rightarrow> thread_summary" where
  "summary_of nm mine =
     \<lparr>th_id = nm, th_agent_id = rs_agent_id (sr_spec (lead_of mine)), th_started_ms = created_ms (lead_of mine),
      th_runs = length mine\<rparr>"

definition in_thread :: "string \<Rightarrow> stored_run list \<Rightarrow> stored_run list" where
  "in_thread nm runs = filter (\<lambda>run. thread_of (sr_spec run) = Some nm) runs"

lemma find_append: "find P (xs @ ys) = (case find P xs of None \<Rightarrow> find P ys | Some x \<Rightarrow> Some x)"
  by (induction xs) auto

lemma add_to_thread_lookup:
  assumes "thread_of (sr_spec run) = Some nm"
  shows "map_of (add_to_thread threads run) k =
    (if k = nm then
       Some (let (thread, rooted) = (case map_of threads nm of Some entry \<Rightarrow> entry
           | None \<Rightarrow> (\<lparr>th_id = nm, th_agent_id = rs_agent_id (sr_spec run), th_started_ms = created_ms run, th_runs = 0\<rparr>, False));
         counted = thread\<lparr>th_runs := Suc (th_runs thread)\<rparr>
       in if is_root run \<and> \<not> rooted
          then (counted\<lparr>th_agent_id := rs_agent_id (sr_spec run), th_started_ms := created_ms run\<rparr>, True)
          else (counted, rooted))
     else map_of threads k)"
  using assms by (auto simp: add_to_thread_def Let_def split: prod.split)

lemma threads_pass:
  assumes "\<forall>run \<in> set runs. thread_of (sr_spec run) \<noteq> None"
  shows "map_of (foldl add_to_thread [] runs) nm =
    (if in_thread nm runs = [] then None
     else Some (summary_of nm (in_thread nm runs), list_ex is_root (in_thread nm runs)))"
  using assms
proof (induction runs rule: rev_induct)
  case Nil
  then show ?case by (simp add: in_thread_def)
next
  case (snoc run runs)
  from snoc.prems obtain t where t: "thread_of (sr_spec run) = Some t" by auto
  have IH: "map_of (foldl add_to_thread [] runs) nm = (if in_thread nm runs = [] then None
     else Some (summary_of nm (in_thread nm runs), list_ex is_root (in_thread nm runs)))"
    using snoc by simp
  show ?case
  proof (cases "nm = t")
    case False
    then have "in_thread nm (runs @ [run]) = in_thread nm runs" using t by (simp add: in_thread_def)
    with False IH show ?thesis by (simp add: add_to_thread_lookup [OF t])
  next
    case True
    have mine: "in_thread t (runs @ [run]) = in_thread t runs @ [run]" using t by (simp add: in_thread_def)
    have roots: "(find is_root xs = None) = (\<not> list_ex is_root xs)" for xs
      by (auto simp: find_None_iff list_ex_iff)
    show ?thesis
      unfolding True using IH [unfolded True] roots [of "in_thread t runs"]
      by (cases "in_thread t runs"; cases "find is_root (in_thread t runs)")
        (auto simp: add_to_thread_lookup [OF t] mine summary_of_def lead_of_def find_append Let_def split: if_splits)
  qed
qed

lemma add_to_thread_distinct: "distinct (map fst threads) \<Longrightarrow> distinct (map fst (add_to_thread threads run))"
  by (simp add: add_to_thread_def Let_def distinct_update split: prod.split)

lemma threads_pass_distinct: "distinct (map fst (foldl add_to_thread [] runs))"
  by (induction runs rule: rev_induct) (simp_all add: add_to_thread_distinct)

lemma min_by_key_sorted: "min_by_key f xs = (case sort_key f xs of [] \<Rightarrow> None | x # rest \<Rightarrow> Some x)"
proof -
  have "foldl (\<lambda>best x. if f x < f best then x else best) y ys
      = (case sort_key f ys of [] \<Rightarrow> y | z # rest \<Rightarrow> if f z < f y then z else y)" for y ys
  proof (induction ys arbitrary: y)
    case (Cons z zs)
    then show ?case by (cases "sort_key f zs") (auto simp: not_less split: if_splits)
  qed simp
  moreover have "(case insort_key f y s of [] \<Rightarrow> None | x # rest \<Rightarrow> Some x)
      = Some (case s of [] \<Rightarrow> y | z # rest \<Rightarrow> if f z < f y then z else y)" for y s
    by (cases s) auto
  ultimately show ?thesis by (cases xs) (simp_all add: min_by_key_def)
qed

definition owned_runs :: "owner \<Rightarrow> store \<Rightarrow> stored_run list" where
  "owned_runs own s = sort_key created_key
     (filter (\<lambda>run. same_principal (rs_owner (sr_spec run)) own \<and> thread_of (sr_spec run) \<noteq> None)
       (map snd (mx_value (so_runs s))))"

lemma in_thread_owned: "in_thread nm (owned_runs own s) = sort_key created_key
    (filter (\<lambda>run. same_principal (rs_owner (sr_spec run)) own \<and> thread_of (sr_spec run) = Some nm) (map snd (mx_value (so_runs s))))"
  unfolding in_thread_def owned_runs_def filter_sort filter_filter
  by (rule arg_cong [where f = "sort_key created_key"]) (auto intro: filter_cong)

lemma threads_of_summaries:
  assumes "length (foldl add_to_thread [] (owned_runs own s)) \<le> limit"
  shows "set (threads_of own 0 limit s)
    = {summary_of nm (in_thread nm (owned_runs own s)) | nm. in_thread nm (owned_runs own s) \<noteq> []}"
proof -
  let ?threads = "foldl add_to_thread [] (owned_runs own s)"
  have named: "\<forall>run \<in> set (owned_runs own s). thread_of (sr_spec run) \<noteq> None"
    by (auto simp: owned_runs_def)
  have "set (threads_of own 0 limit s) = (fst \<circ> snd) ` set ?threads"
    using assms by (simp add: threads_of_def Let_def owned_runs_def lock_read_def)
  also have "\<dots> = {fst e | nm e. map_of ?threads nm = Some e}"
    using map_of_SomeD map_of_is_SomeI [OF threads_pass_distinct] by (force simp: image_iff)
  also have "\<dots> = {summary_of nm (in_thread nm (owned_runs own s)) | nm. in_thread nm (owned_runs own s) \<noteq> []}"
    by (auto simp: threads_pass [OF named] split: if_splits)
  finally show ?thesis .
qed

lemma thread_root_lead:
  "thread_root own nm s = map_option sr_spec (find is_root (in_thread nm (owned_runs own s)))"
proof -
  have find_hd: "find P xs = (case filter P xs of [] \<Rightarrow> None | x # rest \<Rightarrow> Some x)" for P :: "stored_run \<Rightarrow> bool" and xs
    by (induction xs) auto
  show ?thesis
    unfolding thread_root_def min_by_key_sorted find_hd in_thread_owned filter_sort filter_filter lock_read_def
    by (simp add: conj_assoc)
qed

lemma runs_of_thread_count:
  "length (runs_of_thread own nm limit s) = min limit (length (in_thread nm (owned_runs own s)))"
  by (simp add: runs_of_thread_def in_thread_owned lock_read_def min.commute)

lemma threads_pass_length: "length (foldl add_to_thread [] runs) \<le> length runs"
proof -
  have grow: "length (AList.update k v m) \<le> Suc (length m)" for k v and m :: "(string \<times> thread_summary \<times> bool) list"
    by (induction m) auto
  have "length (add_to_thread threads run) \<le> Suc (length threads)" for threads run
    using grow by (simp add: add_to_thread_def Let_def split: prod.split)
  then show ?thesis
  proof (induction runs rule: rev_induct)
    case (snoc run runs)
    from snoc(1) [OF snoc(2)] snoc(2) [of "foldl add_to_thread [] runs" run] show ?case by simp
  qed simp
qed

section \<open>Properties\<close>

definition stop_sample :: store where
  "stop_sample = snd (put_run 5 \<lparr>sr_spec = sample_spec\<lparr>rs_metadata := [SESSION_ID \<mapsto> ''t1'']\<rparr>, sr_events = [sample_event RunStarted]\<rparr> store_default)"

lemma stop_sample_runs:
  "mx_value (so_runs stop_sample)
     = [(RunId 1, \<lparr>sr_spec = sample_spec\<lparr>rs_metadata := [SESSION_ID \<mapsto> ''t1'']\<rparr>, sr_events = [sample_event RunStarted]\<rparr>)]"
  by (simp add: stop_sample_def put_run_def check_one_terminal_def store_default_def mutex_new_def lock_write_def
      number_def Let_def count_of_def sample_spec_def)

lemma stop_sample_falls: "lineage_falls (mx_value (so_runs stop_sample))"
  unfolding stop_sample_runs by (simp add: lineage_falls_def parent_of_def sample_spec_def lineage_default_def)

text \<open>Asking whether a run is stopped, and listing the open runs under a stop, always return when
  the hop of every stored child is above its parent's; the answer is exactly whether a stop by the
  principal of the run or of a run above it names that run, and the list is exactly the principal's
  open runs the scope covers.\<close>

theorem stop_queries_return:
  assumes "lineage_falls (mx_value (so_runs s))"
  shows "stopped nm s = Some (\<exists>target member. under_run (mx_value (so_runs s)) nm target \<and> get_run target s = Some member \<and> names_run s target member)
    \<and> (\<exists>found. open_runs_under own scope s = Some found
         \<and> set found = {run \<in> set (map snd (mx_value (so_runs s))). same_principal (rs_owner (sr_spec run)) own \<and> run_open run
              \<and> scope_covers (mx_value (so_runs s)) scope run = Some True})"
proof -
  let ?runs = "mx_value (so_runs s)"
  have "\<exists>b. scope_covers ?runs scope run = Some b" for run
    using within_up_ends [OF assms] by (cases scope) (auto simp: scope_covers_def)
  then obtain found where "filter_ends (scope_covers ?runs scope)
      (filter run_open (filter (\<lambda>run. same_principal (rs_owner (sr_spec run)) own) (map snd ?runs))) = Some found"
    "set found = {run \<in> set (filter run_open (filter (\<lambda>run. same_principal (rs_owner (sr_spec run)) own) (map snd ?runs))).
       scope_covers ?runs scope run = Some True}"
    using filter_ends_ends [of "filter run_open (filter (\<lambda>run. same_principal (rs_owner (sr_spec run)) own) (map snd ?runs))"
        "scope_covers ?runs scope"] by blast
  then have "open_runs_under own scope s = Some found \<and> set found = {run \<in> set (map snd ?runs).
      same_principal (rs_owner (sr_spec run)) own \<and> run_open run \<and> scope_covers ?runs scope run = Some True}"
    by (auto simp: open_runs_under_def lock_read_def Let_def)
  with stopped_iff [OF assms, of nm] show ?thesis by (simp add: get_run_def lock_read_def)
qed

theorem stop_queries_return_witness:
  "\<exists>b found. stopped (RunId 1) stop_sample = Some b \<and> open_runs_under (rs_owner sample_spec) StopOwner stop_sample = Some found"
  using stop_queries_return [OF stop_sample_falls, of "RunId 1" "rs_owner sample_spec" StopOwner] by blast

text \<open>A stop reaches every open run it covers: once it is stored, each run that the same scope lists
  as open is stopped (a stop of a run names one that is stored and the principal's).\<close>

theorem stop_reaches_open_runs:
  assumes "order_ok s" and "lineage_falls (mx_value (so_runs s))" and "runs_ok (mx_value (so_runs s))"
    and "open_runs_under own scope s = Some found" and "run \<in> set found" and "put_stop own scope s = (Inr (), s')"
    and "\<forall>r. scope = StopRun r \<longrightarrow> (\<exists>target. get_run r s = Some target \<and> principal (rs_owner (sr_spec target)) = principal own)"
  shows "stopped (rs_run_id (sr_spec run)) s' = Some True"
  using assms by (intro open_run_stopped) auto

theorem stop_reaches_open_runs_witness:
  "stopped (RunId 1) (snd (put_stop (rs_owner sample_spec) (StopThread ''t1'') stop_sample)) = Some True"
proof -
  let ?run = "\<lparr>sr_spec = sample_spec\<lparr>rs_metadata := [SESSION_ID \<mapsto> ''t1'']\<rparr>, sr_events = [sample_event RunStarted]\<rparr>"
  have ok: "order_ok stop_sample" "store_ok stop_sample"
    unfolding stop_sample_def by (simp_all add: put_run_order order_ok_default put_run_ok store_ok_default)
  have found: "open_runs_under (rs_owner sample_spec) (StopThread ''t1'') stop_sample = Some [?run]"
    by (simp add: open_runs_under_def lock_read_def stop_sample_runs same_principal_def run_open_def scope_covers_def thread_of_def)
  have "\<not> mx_poisoned (so_stops stop_sample)"
    by (simp add: stop_sample_def put_run_def check_one_terminal_def store_default_def mutex_new_def lock_write_def
        number_def Let_def count_of_def)
  then have put: "put_stop (rs_owner sample_spec) (StopThread ''t1'') stop_sample
      = (Inr (), snd (put_stop (rs_owner sample_spec) (StopThread ''t1'') stop_sample))"
    by (simp add: put_stop_def lock_write_def Let_def)
  from stop_reaches_open_runs [OF ok(1) stop_sample_falls _ found _ put, of ?run] ok(2) show ?thesis
    by (simp add: store_ok_def sample_spec_def)
qed

text \<open>The three reads of threads agree: with room for all of them the list of an owner's threads
  has, for each session of its runs, one summary that counts the session's runs (as many as the
  thread's own list has) and, when the session has a run with no parent, names the agent of the
  thread's root.\<close>

theorem threads_agree:
  assumes "length (mx_value (so_runs s)) \<le> limit" and "t \<in> set (threads_of own 0 limit s)"
  shows "th_runs t = length (runs_of_thread own (th_id t) limit s)
    \<and> (\<forall>spec. thread_root own (th_id t) s = Some spec \<longrightarrow> th_agent_id t = rs_agent_id spec)"
proof -
  have owned: "length (owned_runs own s) \<le> limit"
    unfolding owned_runs_def length_sort by (rule le_trans [OF length_filter_le]) (simp add: assms(1))
  have room: "length (foldl add_to_thread [] (owned_runs own s)) \<le> limit" using threads_pass_length owned by (rule le_trans)
  from assms(2) obtain nm where t: "t = summary_of nm (in_thread nm (owned_runs own s))"
    by (auto simp: threads_of_summaries [OF room])
  have "length (in_thread nm (owned_runs own s)) \<le> limit"
    using owned length_filter_le [of _ "owned_runs own s"] unfolding in_thread_def by (rule le_trans [rotated])
  then show ?thesis
    by (auto simp: t summary_of_def runs_of_thread_count thread_root_lead lead_of_def)
qed

theorem threads_agree_witness:
  "\<exists>t \<in> set (threads_of (rs_owner sample_spec) 0 9 stop_sample). th_id t = ''t1'' \<and> th_runs t = 1 \<and> th_agent_id t = AgentId 2"
proof -
  let ?t = "\<lparr>th_id = ''t1'', th_agent_id = AgentId 2, th_started_ms = 0, th_runs = 1\<rparr>"
  have mem: "?t \<in> set (threads_of (rs_owner sample_spec) 0 9 stop_sample)"
    by (simp add: threads_of_def lock_read_def stop_sample_runs same_principal_def thread_of_def add_to_thread_def is_root_def
        parent_of_def sample_spec_def lineage_default_def created_ms_def sample_event_def record_event_def for_spec_def event_source_new_def Let_def)
  have "length (mx_value (so_runs stop_sample)) \<le> 9" by (simp add: stop_sample_runs)
  from threads_agree [OF this mem] mem show ?thesis by (intro bexI [OF _ mem]) simp
qed

end
