(* ===== verification/Store_Machine.thy ===== *)
theory Store_Machine
  imports Run_Store Message_Store Trigger_Store Stop_Store
begin

text \<open>
  The in-memory store as a machine: any sequence of its writes, with the calls of its callers and
  panics that poison a lock as the environment. Each operation takes its locks for all of its
  writes, so a concurrent history is one of these sequences. The lock of the run order is never
  poisoned: the only code that runs under it inserts one number.
\<close>

section \<open>Steps\<close>

inductive store_step :: "store \<Rightarrow> store \<Rightarrow> bool" where
  put_agent: "store_step s (snd (put_agent agent s))"
| put_run: "store_step s (snd (put_run now_ms run s))"
| append: "store_step s (snd (append_events now_ms nm events s))"
| append_after: "store_step s (snd (append_events_after now_ms nm seen events s))"
| put_artifact: "store_step s (snd (put_artifact artifact s))"
| put_message: "store_step s (snd (put_message msg s))"
| answer: "store_step s (snd (answer ask s))"
| prune: "store_step s (snd (prune_outbox before s))"
| put_stop: "store_step s (snd (put_stop own scope s))"
| put_trigger: "store_step s (snd (put_trigger t most s))"
| set_enabled: "store_step s (snd (set_enabled own tnm enabled s))"
| rotate_webhook: "store_step s (snd (rotate_webhook own tnm s))"
| delete_trigger: "store_step s (snd (delete_trigger own tnm s))"
| resume_trigger: "store_step s (snd (resume_trigger own tnm next_fire s))"
| advance_trigger: "store_step s (snd (advance_trigger tnm due next_tick s))"
| pause_triggers: "store_step s (snd (pause_triggers own s))"
| poison_agents: "store_step s (s\<lparr>so_agents := (so_agents s)\<lparr>mx_poisoned := True\<rparr>\<rparr>)"
| poison_runs: "store_step s (s\<lparr>so_runs := (so_runs s)\<lparr>mx_poisoned := True\<rparr>\<rparr>)"
| poison_artifacts: "store_step s (s\<lparr>so_artifacts := (so_artifacts s)\<lparr>mx_poisoned := True\<rparr>\<rparr>)"
| poison_messages: "store_step s (s\<lparr>so_messages := (so_messages s)\<lparr>mx_poisoned := True\<rparr>\<rparr>)"
| poison_outbox: "store_step s (s\<lparr>so_outbox := (so_outbox s)\<lparr>mx_poisoned := True\<rparr>\<rparr>)"
| poison_stops: "store_step s (s\<lparr>so_stops := (so_stops s)\<lparr>mx_poisoned := True\<rparr>\<rparr>)"
| poison_triggers: "store_step s (s\<lparr>so_triggers := (so_triggers s)\<lparr>mx_poisoned := True\<rparr>\<rparr>)"

section \<open>What a step leaves alone\<close>

text \<open>The parts the log and the stops are about.\<close>

definition same_log :: "store \<Rightarrow> store \<Rightarrow> bool" where
  "same_log s s' \<longleftrightarrow> mx_value (so_runs s') = mx_value (so_runs s) \<and> mx_value (so_outbox s') = mx_value (so_outbox s)
     \<and> so_stored s' = so_stored s \<and> mx_value (so_stops s') = mx_value (so_stops s) \<and> so_order s' = so_order s"

lemma same_log_refl [simp]: "same_log s s"
  by (simp add: same_log_def)

lemma on_triggers_same_log: "same_log s (snd (on_triggers s f))"
  by (cases rule: on_triggers_cases [of s f]) (simp_all add: same_log_def)

lemma other_same_log:
  "same_log s (snd (put_agent agent s))" "same_log s (snd (put_artifact artifact s))"
  "same_log s (snd (put_message msg s))" "same_log s (snd (answer ask s))"
  by (auto simp: same_log_def put_agent_def put_artifact_def put_message_def answer_def lock_write_def Let_def
      split: option.split prod.split)

lemma trigger_same_log:
  "same_log s (snd (put_trigger t most s))" "same_log s (snd (set_enabled own tnm enabled s))"
  "same_log s (snd (rotate_webhook own tnm s))" "same_log s (snd (delete_trigger own tnm s))"
  "same_log s (snd (resume_trigger own tnm next_fire s))" "same_log s (snd (advance_trigger tnm due next_tick s))"
  "same_log s (snd (pause_triggers own s))"
  by (simp_all add: trigger_op_defs on_triggers_same_log)

text \<open>A step changes the logs, prunes, stops, or leaves all of that alone.\<close>

lemma store_step_cases:
  assumes "store_step s s'"
  obtains (put) now_ms run where "s' = snd (put_run now_ms run s)"
  | (append) now_ms nm seen events where "s' = snd (append_checked now_ms nm seen events s)"
  | (prune) before where "s' = snd (prune_outbox before s)"
  | (stop) own scope where "s' = snd (put_stop own scope s)"
  | (same) "same_log s s'"
  using assms
proof (cases rule: store_step.cases)
  case (append now_ms nm events)
  then show thesis by (intro that(2)) (simp add: append_events_def)
next
  case (append_after now_ms nm seen events)
  then show thesis by (intro that(2)) (simp add: append_events_after_def)
qed (use that other_same_log trigger_same_log in \<open>auto simp: same_log_def\<close>)

lemma same_log_ok: "same_log s s' \<Longrightarrow> store_ok s \<Longrightarrow> store_ok s'"
  by (simp add: same_log_def store_ok_def)

lemma put_stop_same: "store_ok s \<Longrightarrow> store_ok (snd (put_stop own scope s))"
  by (simp add: put_stop_def lock_write_def Let_def store_ok_def)

lemma store_step_ok: "store_step s s' \<Longrightarrow> store_ok s \<Longrightarrow> store_ok s'"
  by (erule store_step_cases) (simp_all add: put_run_ok append_checked_ok prune_outbox_ok put_stop_same same_log_ok)

lemma prune_outbox_rest:
  "mx_value (so_runs (snd (prune_outbox before s))) = mx_value (so_runs s)"
  "so_stored (snd (prune_outbox before s)) = so_stored s" "so_stops (snd (prune_outbox before s)) = so_stops s"
  "so_order (snd (prune_outbox before s)) = so_order s"
  by (simp_all add: prune_outbox_def lock_write_def Let_def)

lemma same_order:
  "order_ok s \<Longrightarrow> order_ok (snd (prune_outbox before s))" "same_log s s' \<Longrightarrow> order_ok s \<Longrightarrow> order_ok s'"
  by (simp_all add: order_ok_def prune_outbox_rest same_log_def)

lemma same_keeps_stops: "keeps_stops s (snd (prune_outbox before s))" "same_log s s' \<Longrightarrow> keeps_stops s s'"
  by (simp_all add: keeps_stops_def get_run_def names_run_def lock_read_def prune_outbox_rest same_log_def)

lemma store_step_order: "store_step s s' \<Longrightarrow> order_ok s \<Longrightarrow> order_ok s'"
  by (erule store_step_cases) (simp_all add: put_run_order append_order put_stop_order same_order)

lemma store_step_keeps_stops:
  assumes "store_step s s'" and "store_ok s" and "order_ok s"
  shows "keeps_stops s s'"
  using assms(1)
proof (cases rule: store_step_cases)
  case (put now_ms run)
  with assms(2) show ?thesis by (simp add: put_run_keeps_stops store_ok_def)
qed (use assms(3) in \<open>simp_all add: append_keeps_stops put_stop_keeps_stops same_keeps_stops\<close>)

section \<open>Logs\<close>

text \<open>A stored run keeps its spec, its log only grows, and not after its terminal event.\<close>

definition log_grows :: "store \<Rightarrow> store \<Rightarrow> bool" where
  "log_grows s s' \<longleftrightarrow>
     (\<forall>nm run. get_run nm s = Some run \<longrightarrow>
        (\<exists>more. get_run nm s' = Some (run\<lparr>sr_events := sr_events run @ more\<rparr>)
           \<and> (list_ex is_end_event (sr_events run) \<longrightarrow> more = [])))"

lemma log_growsI:
  assumes "\<And>nm run. get_run nm s = Some run \<Longrightarrow>
     \<exists>more. get_run nm s' = Some (run\<lparr>sr_events := sr_events run @ more\<rparr>)
           \<and> (list_ex is_end_event (sr_events run) \<longrightarrow> more = [])"
  shows "log_grows s s'"
  using assms by (simp add: log_grows_def)

lemma log_grows_same: "mx_value (so_runs s') = mx_value (so_runs s) \<Longrightarrow> log_grows s s'"
  by (intro log_growsI exI [of _ "[]"]) (simp add: get_run_def lock_read_def)

lemma log_grows_trans:
  assumes "log_grows s t" and "log_grows t u"
  shows "log_grows s u"
proof (rule log_growsI)
  fix nm run
  assume "get_run nm s = Some run"
  then obtain m where m: "get_run nm t = Some (run\<lparr>sr_events := sr_events run @ m\<rparr>)"
    "list_ex is_end_event (sr_events run) \<longrightarrow> m = []"
    using assms(1) by (auto simp: log_grows_def)
  from assms(2) [unfolded log_grows_def, rule_format, OF m(1)]
  obtain m' where "get_run nm u = Some (run\<lparr>sr_events := sr_events run @ m @ m'\<rparr>)"
    "list_ex is_end_event (sr_events run @ m) \<longrightarrow> m' = []" by auto
  with m show "\<exists>more. get_run nm u = Some (run\<lparr>sr_events := sr_events run @ more\<rparr>)
           \<and> (list_ex is_end_event (sr_events run) \<longrightarrow> more = [])"
    by (intro exI [of _ "m @ m'"]) auto
qed

lemma store_step_log_grows:
  assumes "store_step s s'" and "store_ok s"
  shows "log_grows s s'"
  using assms(1)
proof (cases rule: store_step_cases)
  case (put now_ms run)
  show ?thesis
  proof (cases rule: put_run_cases [of now_ms run s])
    case (stored s1)
    then show ?thesis
      by (intro log_growsI exI [of _ "[]"]) (auto simp: put get_run_def lock_read_def)
  qed (use put assms(2) in \<open>simp_all add: log_grows_same store_ok_def\<close>)
next
  case (append now_ms nm seen events)
  show ?thesis
  proof (cases rule: append_cases [of now_ms nm seen events s])
    case (appended s1 old)
    show ?thesis
    proof (rule log_growsI)
      fix k run
      assume "get_run k s = Some run"
      with appended show "\<exists>more. get_run k s' = Some (run\<lparr>sr_events := sr_events run @ more\<rparr>)
           \<and> (list_ex is_end_event (sr_events run) \<longrightarrow> more = [])"
        by (intro exI [of _ "if k = nm then events else []"]) (auto simp: append get_run_def lock_read_def)
    qed
  qed (simp add: append log_grows_same)
qed (simp_all add: log_grows_same prune_outbox_rest same_log_def put_stop_def lock_write_def Let_def)

lemma store_steps:
  assumes "store_step\<^sup>*\<^sup>* s s'" and "store_ok s" and "order_ok s"
  shows "store_ok s' \<and> order_ok s' \<and> log_grows s s'"
  using assms
proof (induction rule: rtranclp_induct)
  case base
  then show ?case by (simp add: log_grows_same)
next
  case (step t u)
  then have t: "store_ok t" "order_ok t" "log_grows s t" by simp_all
  with step(2) show ?case
    by (blast intro: store_step_ok store_step_order log_grows_trans store_step_log_grows)
qed

section \<open>Refusals\<close>

lemma refused_put_run:
  assumes "store_ok s"
  shows "fst (put_run now_ms run s) = Inl e \<Longrightarrow> snd (put_run now_ms run s) = s"
  using assms by (cases rule: put_run_cases [of now_ms run s]) (simp_all add: store_ok_def)

lemma refused_append: "fst (append_checked now_ms nm seen events s) = Inl e \<Longrightarrow> snd (append_checked now_ms nm seen events s) = s"
  by (cases rule: append_cases [of now_ms nm seen events s]) simp_all

lemma refused_triggers: "fst (on_triggers s f) = Inl e \<Longrightarrow> snd (on_triggers s f) = s"
  by (cases rule: on_triggers_cases [of s f]) simp_all

lemma refused_trigger_ops:
  "fst (put_trigger t most s) = Inl e \<Longrightarrow> snd (put_trigger t most s) = s"
  "fst (set_enabled own tnm enabled s) = Inl e \<Longrightarrow> snd (set_enabled own tnm enabled s) = s"
  "fst (rotate_webhook own tnm s) = Inl e \<Longrightarrow> snd (rotate_webhook own tnm s) = s"
  "fst (delete_trigger own tnm s) = Inl e \<Longrightarrow> snd (delete_trigger own tnm s) = s"
  "fst (resume_trigger own tnm next_fire s) = Inl e \<Longrightarrow> snd (resume_trigger own tnm next_fire s) = s"
  "fst (advance_trigger tnm due next_tick s) = Inl e \<Longrightarrow> snd (advance_trigger tnm due next_tick s) = s"
  "fst (pause_triggers own s) = Inl e \<Longrightarrow> snd (pause_triggers own s) = s"
  unfolding trigger_op_defs by (erule refused_triggers)+

lemma refused_simple:
  "fst (put_agent agent s) = Inl e \<Longrightarrow> snd (put_agent agent s) = s"
  "fst (put_artifact artifact s) = Inl e \<Longrightarrow> snd (put_artifact artifact s) = s"
  "fst (put_message msg s) = Inl e \<Longrightarrow> snd (put_message msg s) = s"
  "fst (answer ask s) = Inl e \<Longrightarrow> snd (answer ask s) = s"
  "fst (prune_outbox before s) = Inl e \<Longrightarrow> snd (prune_outbox before s) = s"
  "fst (put_stop own scope s) = Inl e \<Longrightarrow> snd (put_stop own scope s) = s"
  by (auto simp: put_agent_def put_artifact_def put_message_def answer_def prune_outbox_def put_stop_def
    lock_write_def Let_def split: if_splits option.splits prod.splits)

section \<open>Properties\<close>

definition sample_run_record :: stored_run where
  "sample_run_record = \<lparr>sr_spec = sample_spec, sr_events = [sample_event RunStarted]\<rparr>"

definition sample_store :: store where
  "sample_store = snd (put_run 5 sample_run_record store_default)"

lemma sample_store_ok: "store_ok sample_store \<and> order_ok sample_store"
  unfolding sample_store_def by (simp add: put_run_ok put_run_order store_ok_default order_ok_default)

lemma sample_put: "put_run 5 sample_run_record store_default = (Inr RunStored, sample_store)"
  unfolding sample_store_def
  by (simp add: put_run_def sample_run_record_def check_one_terminal_def store_default_def mutex_new_def lock_write_def
      number_def Let_def count_of_def)

lemma sample_store_fields:
  "get_run (RunId 1) sample_store = Some sample_run_record" "\<not> mx_poisoned (so_runs sample_store)"
  "\<not> mx_poisoned (so_outbox sample_store)"
  unfolding sample_store_def
  by (simp_all add: put_run_def sample_run_record_def check_one_terminal_def store_default_def mutex_new_def lock_write_def
      number_def Let_def count_of_def get_run_def lock_read_def sample_spec_def)

text \<open>C16. From the empty store, whatever is called, in whatever order and with whatever panics: a run
  that is stored keeps its spec, its log only grows at its end, and a log with a terminal event
  never changes again.\<close>

theorem store_log_append_only:
  assumes "store_step\<^sup>*\<^sup>* store_default s" and "store_step\<^sup>*\<^sup>* s s'" and "get_run nm s = Some run"
  shows "\<exists>more. get_run nm s' = Some (run\<lparr>sr_events := sr_events run @ more\<rparr>)
    \<and> terminal_last (sr_events run @ more) \<and> (list_ex is_end_event (sr_events run) \<longrightarrow> more = [])"
proof -
  have s: "store_ok s" "order_ok s" using store_steps [OF assms(1) store_ok_default order_ok_default] by simp_all
  from store_steps [OF assms(2) s] have s': "store_ok s'" and "log_grows s s'" by simp_all
  with assms(3) obtain more where more: "get_run nm s' = Some (run\<lparr>sr_events := sr_events run @ more\<rparr>)"
    "list_ex is_end_event (sr_events run) \<longrightarrow> more = []" by (auto simp: log_grows_def)
  moreover have "terminal_last (sr_events run @ more)"
    using s' map_of_SomeD [OF more(1) [unfolded get_run_def lock_read_def]]
    by (auto simp: store_ok_def runs_ok_def list_all_iff)
  ultimately show ?thesis by blast
qed

theorem store_log_append_only_witness:
  "\<exists>more. get_run (RunId 1) (snd (append_events 6 (RunId 1) [sample_event RunCancelled] sample_store))
     = Some (sample_run_record\<lparr>sr_events := [sample_event RunStarted] @ more\<rparr>)"
proof -
  have one: "store_step\<^sup>*\<^sup>* store_default sample_store"
    unfolding sample_store_def by (blast intro: store_step.put_run)
  have two: "store_step\<^sup>*\<^sup>* sample_store (snd (append_events 6 (RunId 1) [sample_event RunCancelled] sample_store))"
    by (blast intro: store_step.append)
  from store_log_append_only [OF one two sample_store_fields(1)] show ?thesis
    by (simp add: sample_run_record_def) blast
qed

text \<open>C17. Every reachable store serves every owner's outbox: reading after any number gives, with no
  error and no gap, the numbers that follow it (or follow the last pruned one) up to the owner's
  last, in order, as many as asked for.\<close>

theorem outbox_gap_free:
  assumes "store_step\<^sup>*\<^sup>* store_default s"
  shows "\<exists>page. outbox_after own after limit s = Inr page
    \<and> map oe_seq (op_entries page) = take limit [Suc (max (op_pruned_through page) after) ..< Suc (op_last page)]
    \<and> op_pruned_through page \<le> op_last page"
proof -
  have ok: "store_ok s" using store_steps [OF assms store_ok_default order_ok_default] by simp
  then obtain page where page: "outbox_after own after limit s = Inr page"
    "map oe_seq (op_entries page) = take limit [Suc (max (op_pruned_through page) after) ..< Suc (op_last page)]"
    using outbox_after_rows by blast
  then have "op_pruned_through page = count_of (ob_pruned (mx_value (so_outbox s))) (principal own)
      \<and> op_last page = count_of (ob_counts (mx_value (so_outbox s))) (principal own)"
    by (auto simp: outbox_after_def lock_read_def Let_def split: sum.splits)
  moreover have "count_of (ob_pruned (mx_value (so_outbox s))) (principal own)
      \<le> count_of (ob_counts (mx_value (so_outbox s))) (principal own)"
    using ok unfolding store_ok_def outbox_ok_def numbered_ok_def by blast
  ultimately show ?thesis using page by metis
qed

theorem outbox_gap_free_witness:
  "\<exists>page. outbox_after (rs_owner sample_spec) 0 10 sample_store = Inr page
     \<and> map oe_seq (op_entries page) = take 10 [Suc (max (op_pruned_through page) 0) ..< Suc (op_last page)]"
proof -
  have "store_step\<^sup>*\<^sup>* store_default sample_store" unfolding sample_store_def by (blast intro: store_step.put_run)
  from outbox_gap_free [OF this, of "rs_owner sample_spec" 0 10] show ?thesis by blast
qed

text \<open>Of the writers that read the same log of a run, one stores its batch: after it did, whatever
  happens since, a batch that expects the old length is refused and changes nothing.\<close>

theorem append_one_writer:
  assumes "store_ok s" and "order_ok s" and "append_events_after t nm seen events s = (Inr Appended, s1)" and "events \<noteq> []"
    and "store_step\<^sup>*\<^sup>* s1 s2"
  shows "\<exists>r. append_events_after t' nm seen events' s2 = (r, s2) \<and> r \<noteq> Inr Appended"
proof (cases rule: append_cases [of t' nm "Some seen" events' s2])
  case (appended s' old)
  have s1: "store_ok s1" "order_ok s1"
    using append_checked_ok [OF assms(1)] append_order [OF assms(2)] assms(3)
    by (metis append_events_after_def snd_conv)+
  obtain run where run: "get_run nm s1 = Some run" and long: "seen < length (sr_events run)"
  proof (cases rule: append_cases [of t nm "Some seen" events s])
    case (appended s'' old)
    with assms(3) have "s'' = s1" by (simp add: append_events_after_def)
    with appended assms(4) show thesis by (intro that) (auto simp: get_run_def lock_read_def)
  qed (use assms(3) in \<open>simp add: append_events_after_def\<close>)
  have "log_grows s1 s2" using store_steps [OF assms(5) s1] by simp
  with run obtain more where "get_run nm s2 = Some (run\<lparr>sr_events := sr_events run @ more\<rparr>)"
    by (auto simp: log_grows_def)
  with appended(2,5) long show ?thesis by (auto simp: get_run_def lock_read_def)
qed (simp add: append_events_after_def)

theorem append_one_writer_witness:
  "\<exists>r. append_events_after 6 (RunId 1) 1 [sample_event RunCancelled] (snd (append_events_after 6 (RunId 1) 1 [sample_event RunExpired] sample_store))
     = (r, snd (append_events_after 6 (RunId 1) 1 [sample_event RunExpired] sample_store)) \<and> r \<noteq> Inr Appended"
proof -
  let ?s1 = "snd (append_events_after 6 (RunId 1) 1 [sample_event RunExpired] sample_store)"
  have "append_events_after 6 (RunId 1) 1 [sample_event RunExpired] sample_store = (Inr Appended, ?s1)"
    using sample_store_fields
    by (simp add: append_events_after_def append_checked_def check_one_terminal_def lock_write_def get_run_def lock_read_def
        sample_run_record_def number_def Let_def)
  from append_one_writer [OF _ _ this _ rtranclp.rtrancl_refl] sample_store_ok show ?thesis by simp
qed

text \<open>A write that is refused changes nothing: in a well-formed store every operation that returns
  a \<open>StoreError\<close> leaves the whole store as it was.\<close>

theorem refused_write_changes_nothing:
  assumes "store_ok s"
  shows "(fst (put_agent agent s) = Inl e \<longrightarrow> snd (put_agent agent s) = s)
    \<and> (fst (put_run now_ms run s) = Inl e \<longrightarrow> snd (put_run now_ms run s) = s)
    \<and> (fst (append_events now_ms nm events s) = Inl e \<longrightarrow> snd (append_events now_ms nm events s) = s)
    \<and> (fst (append_events_after now_ms nm seen events s) = Inl e \<longrightarrow> snd (append_events_after now_ms nm seen events s) = s)
    \<and> (fst (put_artifact artifact s) = Inl e \<longrightarrow> snd (put_artifact artifact s) = s)
    \<and> (fst (put_message msg s) = Inl e \<longrightarrow> snd (put_message msg s) = s)
    \<and> (fst (answer ask s) = Inl e \<longrightarrow> snd (answer ask s) = s)
    \<and> (fst (prune_outbox before s) = Inl e \<longrightarrow> snd (prune_outbox before s) = s)
    \<and> (fst (put_stop own scope s) = Inl e \<longrightarrow> snd (put_stop own scope s) = s)
    \<and> (fst (put_trigger t most s) = Inl e \<longrightarrow> snd (put_trigger t most s) = s)
    \<and> (fst (set_enabled own tnm enabled s) = Inl e \<longrightarrow> snd (set_enabled own tnm enabled s) = s)
    \<and> (fst (rotate_webhook own tnm s) = Inl e \<longrightarrow> snd (rotate_webhook own tnm s) = s)
    \<and> (fst (delete_trigger own tnm s) = Inl e \<longrightarrow> snd (delete_trigger own tnm s) = s)
    \<and> (fst (resume_trigger own tnm next_fire s) = Inl e \<longrightarrow> snd (resume_trigger own tnm next_fire s) = s)
    \<and> (fst (advance_trigger tnm due next_tick s) = Inl e \<longrightarrow> snd (advance_trigger tnm due next_tick s) = s)
    \<and> (fst (pause_triggers own s) = Inl e \<longrightarrow> snd (pause_triggers own s) = s)"
  using refused_append [of now_ms nm None events s e] refused_append [of now_ms nm "Some seen" events s e]
    refused_put_run [OF assms]
  by (simp add: refused_simple refused_trigger_ops append_events_def append_events_after_def)

theorem refused_write_changes_nothing_witness:
  "fst (put_run 6 sample_run_record (sample_store\<lparr>so_runs := (so_runs sample_store)\<lparr>mx_poisoned := True\<rparr>\<rparr>))
       = Inl (StoreError ''run store lock poisoned'')
   \<and> snd (put_run 6 sample_run_record (sample_store\<lparr>so_runs := (so_runs sample_store)\<lparr>mx_poisoned := True\<rparr>\<rparr>))
       = sample_store\<lparr>so_runs := (so_runs sample_store)\<lparr>mx_poisoned := True\<rparr>\<rparr>"
proof -
  let ?s = "sample_store\<lparr>so_runs := (so_runs sample_store)\<lparr>mx_poisoned := True\<rparr>\<rparr>"
  have "store_ok ?s" using sample_store_ok by (simp add: store_ok_def)
  moreover have "fst (put_run 6 sample_run_record ?s) = Inl (StoreError ''run store lock poisoned'')"
    by (simp add: put_run_def sample_run_record_def check_one_terminal_def lock_write_def)
  ultimately show ?thesis using refused_write_changes_nothing [of ?s] by blast
qed

text \<open>Once a run is stopped it stays stopped, whatever the store does, while the hop of every
  stored child is above its parent's.\<close>

theorem stopped_stays_stopped:
  assumes "store_step\<^sup>*\<^sup>* store_default s" and "store_step s s'" and "lineage_falls (mx_value (so_runs s))"
    and "stopped nm s = Some True"
  shows "stopped nm s' = Some True"
proof -
  have "store_ok s" "order_ok s" using store_steps [OF assms(1) store_ok_default order_ok_default] by simp_all
  with assms(2) have "keeps_stops s s'" by (rule store_step_keeps_stops)
  then show ?thesis using assms(3,4) by (rule keeps_stops_stopped)
qed

theorem stopped_stays_stopped_witness:
  "stopped (RunId 1) (snd (append_events 7 (RunId 1) [] (snd (put_stop (rs_owner sample_spec) StopOwner sample_store)))) = Some True"
proof -
  let ?s = "snd (put_stop (rs_owner sample_spec) StopOwner sample_store)"
  have "store_step\<^sup>*\<^sup>* store_default sample_store" unfolding sample_store_def by (blast intro: store_step.put_run)
  then have reach: "store_step\<^sup>*\<^sup>* store_default ?s" by (rule rtranclp.rtrancl_into_rtrancl) (rule store_step.put_stop)
  have run: "map_of (mx_value (so_runs ?s)) (RunId 1) = Some sample_run_record"
    using sample_store_fields by (simp add: put_stop_def lock_write_def Let_def get_run_def lock_read_def)
  have runs: "mx_value (so_runs ?s) = [(RunId 1, sample_run_record)]"
    by (simp add: put_stop_def lock_write_def Let_def sample_store_def put_run_def sample_run_record_def check_one_terminal_def
        store_default_def mutex_new_def number_def count_of_def sample_spec_def)
  have falls: "lineage_falls (mx_value (so_runs ?s))"
    unfolding runs by (simp add: lineage_falls_def parent_of_def sample_run_record_def sample_spec_def lineage_default_def)
  have "names_run ?s (RunId 1) sample_run_record"
    by (simp add: names_run_def named_by_def lock_read_def order_of_def stop_names_def put_stop_def lock_write_def Let_def
        sample_store_def put_run_def sample_run_record_def check_one_terminal_def
        store_default_def mutex_new_def number_def count_of_def sample_spec_def principal_def)
  then have "stopped (RunId 1) ?s = Some True"
    unfolding stopped_iff [OF falls] using run by (blast intro: under_run.self)
  from stopped_stays_stopped [OF reach store_step.append falls this] show ?thesis .
qed

end
