(* ===== verification/Run_Queue.thy ===== *)
theory Run_Queue
  imports Store_Base "HOL-Library.Multiset"
begin

text \<open>
  The run queue (\<open>crates/server/src/queue.rs\<close>). Its operations are Lua scripts that Redis runs one at
  a time: \<open>redis\<close> is the data they touch, and each script is a function of Redis's clock, its
  arguments and that data. Entries are texts; a run is its printed id, and the printer and parser of
  ids, and the quoting of a text in an error, are parameters. A call may not reach Redis, or its answer may be lost after the script ran: the
  fate of a call says which. The pool of idle connections is \<open>slot\<close>.
\<close>

section \<open>Redis data\<close>

type_synonym entry = string

record redis =
  rd_runs :: "entry list"
  rd_processing :: "entry list"
  rd_deliveries :: "(entry \<times> int) list"
  rd_pending :: "(entry \<times> int) list"
  rd_parked :: "(entry \<times> string) list"
  rd_leases :: "(entry \<times> string \<times> int) list"

definition redis_empty :: redis where
  "redis_empty = \<lparr>rd_runs = [], rd_processing = [], rd_deliveries = [], rd_pending = [], rd_parked = [], rd_leases = []\<rparr>"

text \<open>\<open>GET\<close> of a lease key: its token, unless it ran out.\<close>

definition lease_of :: "int \<Rightarrow> redis \<Rightarrow> entry \<Rightarrow> string option" where
  "lease_of now q e =
     (case map_of (rd_leases q) e of
        None \<Rightarrow> None
      | Some (token, until) \<Rightarrow> if now < until then Some token else None)"

definition del_key :: "'k \<Rightarrow> ('k \<times> 'v) list \<Rightarrow> ('k \<times> 'v) list" where
  "del_key k m = filter (\<lambda>(k', v). k' \<noteq> k) m"

definition hash_get :: "(entry \<times> int) list \<Rightarrow> entry \<Rightarrow> int" where
  "hash_get m e = (case map_of m e of None \<Rightarrow> 0 | Some n \<Rightarrow> n)"

text \<open>The members of a sorted set: by score, then by text.\<close>

definition by_score :: "(entry \<times> int) list \<Rightarrow> entry list" where
  "by_score z = map fst (sort_key (\<lambda>(e, score). (score, e)) z)"

section \<open>The scripts\<close>

definition PEND :: "int \<Rightarrow> entry \<Rightarrow> redis \<Rightarrow> redis" where
  "PEND now e q =
     (if map_of (rd_pending q) e = None then q\<lparr>rd_pending := rd_pending q @ [(e, now)]\<rparr> else q)"

definition QUEUED_OR_CLAIMED :: "entry \<Rightarrow> redis \<Rightarrow> bool" where
  "QUEUED_OR_CLAIMED e q = (e \<in> set (rd_runs q) \<or> e \<in> set (rd_processing q))"

definition PUSH :: "entry \<Rightarrow> redis \<Rightarrow> redis" where
  "PUSH e q = q\<lparr>rd_runs := e # rd_runs q, rd_pending := del_key e (rd_pending q)\<rparr>"

definition PUSH_ONCE :: "entry \<Rightarrow> redis \<Rightarrow> bool \<times> redis" where
  "PUSH_ONCE e q =
     (let q1 = q\<lparr>rd_pending := del_key e (rd_pending q)\<rparr> in
      if e \<in> set (rd_runs q1) \<or> e \<in> set (rd_processing q1) then (False, q1)
      else (True, q1\<lparr>rd_runs := e # rd_runs q1\<rparr>))"

definition PENDING_FOR :: "int \<Rightarrow> int \<Rightarrow> redis \<Rightarrow> entry list" where
  "PENDING_FOR now age q = by_score (filter (\<lambda>(e, score). score \<le> now - age) (rd_pending q))"

definition CLAIM :: "int \<Rightarrow> string \<Rightarrow> int \<Rightarrow> redis \<Rightarrow> entry option \<times> redis" where
  "CLAIM now token lease q =
     (if rd_runs q = [] then (None, q)
      else
        let e = last (rd_runs q);
            q1 = q\<lparr>rd_runs := butlast (rd_runs q), rd_processing := e # rd_processing q\<rparr>
        in if lease_of now q1 e \<noteq> None then (None, q1\<lparr>rd_processing := remove1 e (rd_processing q1)\<rparr>)
           else (Some e, q1\<lparr>rd_leases := AList.update e (token, now + lease) (rd_leases q1)\<rparr>))"

definition START :: "entry \<Rightarrow> redis \<Rightarrow> int \<times> redis" where
  "START e q =
     (let n = hash_get (rd_deliveries q) e + 1
      in (n, q\<lparr>rd_deliveries := AList.update e n (rd_deliveries q)\<rparr>))"

definition RELEASE :: "int \<Rightarrow> entry \<Rightarrow> string \<Rightarrow> redis \<Rightarrow> redis" where
  "RELEASE now e token q =
     (if lease_of now q e = Some token
      then q\<lparr>rd_processing := remove1 e (rd_processing q), rd_runs := e # rd_runs q, rd_leases := del_key e (rd_leases q)\<rparr>
      else q)"

definition PARK :: "int \<Rightarrow> entry \<Rightarrow> string \<Rightarrow> string \<Rightarrow> redis \<Rightarrow> bool \<times> redis" where
  "PARK now e token ask q =
     (if lease_of now q e \<noteq> Some token then (False, q)
      else (True, q\<lparr>rd_processing := remove1 e (rd_processing q), rd_parked := AList.update e ask (rd_parked q),
              rd_leases := del_key e (rd_leases q), rd_deliveries := del_key e (rd_deliveries q)\<rparr>))"

definition WAKE :: "entry \<Rightarrow> string \<Rightarrow> redis \<Rightarrow> bool \<times> redis" where
  "WAKE e ask q =
     (if map_of (rd_parked q) e \<noteq> Some ask then (False, q)
      else (True, q\<lparr>rd_parked := del_key e (rd_parked q), rd_runs := e # rd_runs q\<rparr>))"

definition RENEW :: "int \<Rightarrow> entry \<Rightarrow> string \<Rightarrow> int \<Rightarrow> redis \<Rightarrow> bool \<times> redis" where
  "RENEW now e token lease q =
     (if lease_of now q e = Some token then (True, q\<lparr>rd_leases := AList.update e (token, now + lease) (rd_leases q)\<rparr>)
      else (False, q))"

definition ACK :: "int \<Rightarrow> entry \<Rightarrow> string \<Rightarrow> redis \<Rightarrow> redis" where
  "ACK now e token q =
     (let q1 = q\<lparr>rd_processing := remove1 e (rd_processing q), rd_deliveries := del_key e (rd_deliveries q)\<rparr>
      in if lease_of now q1 e = Some token then q1\<lparr>rd_leases := del_key e (rd_leases q1)\<rparr> else q1)"

text \<open>One entry of the snapshot the reaper walks.\<close>

definition reap_one :: "int \<Rightarrow> entry \<Rightarrow> entry list \<times> redis \<Rightarrow> entry list \<times> redis" where
  "reap_one now e = (\<lambda>(moved, q).
     if lease_of now q e = None
     then (moved @ [e], q\<lparr>rd_processing := remove1 e (rd_processing q), rd_runs := rd_runs q @ [e]\<rparr>)
     else (moved, q))"

definition REAP :: "int \<Rightarrow> redis \<Rightarrow> entry list \<times> redis" where
  "REAP now q = fold (reap_one now) (rd_processing q) ([], q)"

section \<open>Calls\<close>

text \<open>What happens to a call: Redis answers; the call fails before the script runs; or the script runs
  and its answer is lost.\<close>

datatype fate = Answered | Unreached string | AnswerLost string

definition with_redis :: "fate \<Rightarrow> (redis \<Rightarrow> 'a \<times> redis) \<Rightarrow> redis \<Rightarrow> (string + 'a) \<times> redis" where
  "with_redis fate script q =
     (case fate of
        Answered \<Rightarrow> (Inr (fst (script q)), snd (script q))
      | Unreached e \<Rightarrow> (Inl e, q)
      | AnswerLost e \<Rightarrow> (Inl e, snd (script q)))"

record queue_text =
  qt_show :: "run_id \<Rightarrow> string"
  qt_parse :: "string \<Rightarrow> string + run_id"
  qt_show_ask :: "message_id \<Rightarrow> string"
  qt_parse_ask :: "string \<Rightarrow> message_id option"
  qt_debug :: "string \<Rightarrow> string"

definition parsed :: "queue_text \<Rightarrow> entry list \<Rightarrow> run_id list" where
  "parsed txt entries = List.map_filter (\<lambda>e. case qt_parse txt e of Inl err \<Rightarrow> None | Inr nm \<Rightarrow> Some nm) entries"

text \<open>\<open>millis\<close>: at least one, at most \<open>u64::MAX\<close>.\<close>

definition millis :: "nat \<Rightarrow> int" where
  "millis duration_ms = max (if duration_ms < 2 ^ 64 then int duration_ms else 2 ^ 64 - 1) 1"

definition pend :: "queue_text \<Rightarrow> fate \<Rightarrow> int \<Rightarrow> run_id \<Rightarrow> redis \<Rightarrow> (string + unit) \<times> redis" where
  "pend txt fate now nm = with_redis fate (\<lambda>q. ((), PEND now (qt_show txt nm) q))"

definition push_once :: "queue_text \<Rightarrow> fate \<Rightarrow> run_id \<Rightarrow> redis \<Rightarrow> (string + bool) \<times> redis" where
  "push_once txt fate nm = with_redis fate (PUSH_ONCE (qt_show txt nm))"

definition push_run :: "queue_text \<Rightarrow> fate \<Rightarrow> run_id \<Rightarrow> redis \<Rightarrow> (string + unit) \<times> redis" where
  "push_run txt fate nm = with_redis fate (\<lambda>q. ((), PUSH (qt_show txt nm) q))"

definition pending :: "queue_text \<Rightarrow> fate \<Rightarrow> redis \<Rightarrow> (string + run_id list) \<times> redis" where
  "pending txt fate = with_redis fate (\<lambda>q. (parsed txt (by_score (rd_pending q)), q))"

text \<open>\<open>TIME\<close> answers seconds and microseconds; the sum is in milliseconds.\<close>

definition now_ms :: "fate \<Rightarrow> int \<Rightarrow> int \<Rightarrow> redis \<Rightarrow> (string + int) \<times> redis" where
  "now_ms fate seconds micros = with_redis fate (\<lambda>q. (seconds * 1000 + micros div 1000, q))"

definition unpend_entry :: "fate \<Rightarrow> entry \<Rightarrow> redis \<Rightarrow> (string + unit) \<times> redis" where
  "unpend_entry fate e = with_redis fate (\<lambda>q. ((), q\<lparr>rd_pending := del_key e (rd_pending q)\<rparr>))"

definition unpend :: "queue_text \<Rightarrow> fate \<Rightarrow> run_id \<Rightarrow> redis \<Rightarrow> (string + unit) \<times> redis" where
  "unpend txt fate nm = unpend_entry fate (qt_show txt nm)"

text \<open>The entries that are not run ids are taken off one by one, each call with its own fate.\<close>

fun drop_unparsed :: "queue_text \<Rightarrow> (entry \<Rightarrow> fate) \<Rightarrow> entry list \<Rightarrow> redis \<Rightarrow> run_id list \<times> redis" where
  "drop_unparsed txt fates [] q = ([], q)"
| "drop_unparsed txt fates (e # es) q =
     (case qt_parse txt e of
        Inr nm \<Rightarrow> (let (ids, q') = drop_unparsed txt fates es q in (nm # ids, q'))
      | Inl err \<Rightarrow> drop_unparsed txt fates es (snd (unpend_entry (fates e) e q)))"

definition pending_for ::
    "queue_text \<Rightarrow> fate \<Rightarrow> (entry \<Rightarrow> fate) \<Rightarrow> int \<Rightarrow> nat \<Rightarrow> redis \<Rightarrow> (string + run_id list) \<times> redis" where
  "pending_for txt fate fates now age q =
     (case with_redis fate (\<lambda>q. (PENDING_FOR now (if age < 2 ^ 64 then int age else 2 ^ 64 - 1) q, q)) q of
        (Inl e, q1) \<Rightarrow> (Inl e, q1)
      | (Inr values, q1) \<Rightarrow> (let (ids, q2) = drop_unparsed txt fates values q1 in (Inr ids, q2)))"

definition queued_or_claimed :: "queue_text \<Rightarrow> fate \<Rightarrow> run_id \<Rightarrow> redis \<Rightarrow> (string + bool) \<times> redis" where
  "queued_or_claimed txt fate nm = with_redis fate (\<lambda>q. (QUEUED_OR_CLAIMED (qt_show txt nm) q, q))"

definition pop_run :: "queue_text \<Rightarrow> fate \<Rightarrow> redis \<Rightarrow> (string + run_id option) \<times> redis" where
  "pop_run txt fate q =
     (case with_redis fate (\<lambda>q. if rd_runs q = [] then (None, q)
             else (Some (last (rd_runs q)), q\<lparr>rd_runs := butlast (rd_runs q)\<rparr>)) q of
        (Inl e, q1) \<Rightarrow> (Inl e, q1)
      | (Inr None, q1) \<Rightarrow> (Inr None, q1)
      | (Inr (Some e), q1) \<Rightarrow> (case qt_parse txt e of Inl err \<Rightarrow> (Inl err, q1) | Inr nm \<Rightarrow> (Inr (Some nm), q1)))"

definition queued :: "queue_text \<Rightarrow> fate \<Rightarrow> redis \<Rightarrow> (string + run_id list) \<times> redis" where
  "queued txt fate = with_redis fate (\<lambda>q. (parsed txt (rd_runs q), q))"

definition processing :: "queue_text \<Rightarrow> fate \<Rightarrow> redis \<Rightarrow> (string + run_id list) \<times> redis" where
  "processing txt fate = with_redis fate (\<lambda>q. (parsed txt (rd_processing q), q))"

definition forget :: "fate \<Rightarrow> int \<Rightarrow> entry \<Rightarrow> string \<Rightarrow> redis \<Rightarrow> (string + unit) \<times> redis" where
  "forget fate now e token = with_redis fate (\<lambda>q. ((), ACK now e token q))"

definition claim :: "queue_text \<Rightarrow> fate \<Rightarrow> fate \<Rightarrow> int \<Rightarrow> string \<Rightarrow> nat \<Rightarrow> redis \<Rightarrow> (string + run_id option) \<times> redis" where
  "claim txt fate fate' now token lease q =
     (case with_redis fate (CLAIM now token (millis lease)) q of
        (Inl e, q1) \<Rightarrow> (Inl e, q1)
      | (Inr None, q1) \<Rightarrow> (Inr None, q1)
      | (Inr (Some text), q1) \<Rightarrow>
          (case qt_parse txt text of
             Inr nm \<Rightarrow> (Inr (Some nm), q1)
           | Inl err \<Rightarrow>
               (case forget fate' now text token q1 of
                  (Inl e, q2) \<Rightarrow> (Inl e, q2)
                | (Inr u, q2) \<Rightarrow> (Inl (''dropped queue entry '' @ qt_debug txt text @ '': '' @ err), q2))))"

definition start_run :: "queue_text \<Rightarrow> fate \<Rightarrow> run_id \<Rightarrow> redis \<Rightarrow> (string + int) \<times> redis" where
  "start_run txt fate nm = with_redis fate (START (qt_show txt nm))"

definition release :: "queue_text \<Rightarrow> fate \<Rightarrow> int \<Rightarrow> run_id \<Rightarrow> string \<Rightarrow> redis \<Rightarrow> (string + unit) \<times> redis" where
  "release txt fate now nm token = with_redis fate (\<lambda>q. ((), RELEASE now (qt_show txt nm) token q))"

definition park :: "queue_text \<Rightarrow> fate \<Rightarrow> int \<Rightarrow> run_id \<Rightarrow> string \<Rightarrow> message_id \<Rightarrow> redis \<Rightarrow> (string + bool) \<times> redis" where
  "park txt fate now nm token ask = with_redis fate (PARK now (qt_show txt nm) token (qt_show_ask txt ask))"

definition wake :: "queue_text \<Rightarrow> fate \<Rightarrow> run_id \<Rightarrow> message_id \<Rightarrow> redis \<Rightarrow> (string + bool) \<times> redis" where
  "wake txt fate nm ask = with_redis fate (WAKE (qt_show txt nm) (qt_show_ask txt ask))"

definition parked :: "queue_text \<Rightarrow> fate \<Rightarrow> redis \<Rightarrow> (string + (run_id \<times> message_id) list) \<times> redis" where
  "parked txt fate = with_redis fate (\<lambda>q.
     (sort_key (\<lambda>(nm, ask). run_uuid nm)
        (List.map_filter (\<lambda>(run, ask). case (qt_parse txt run, qt_parse_ask txt ask) of
           (Inr nm, Some a) \<Rightarrow> Some (nm, a) | _ \<Rightarrow> None) (rd_parked q)), q))"

definition starts :: "queue_text \<Rightarrow> fate \<Rightarrow> run_id \<Rightarrow> redis \<Rightarrow> (string + int) \<times> redis" where
  "starts txt fate nm = with_redis fate (\<lambda>q. (hash_get (rd_deliveries q) (qt_show txt nm), q))"

definition renew :: "queue_text \<Rightarrow> fate \<Rightarrow> int \<Rightarrow> run_id \<Rightarrow> string \<Rightarrow> nat \<Rightarrow> redis \<Rightarrow> (string + bool) \<times> redis" where
  "renew txt fate now nm token lease = with_redis fate (RENEW now (qt_show txt nm) token (millis lease))"

definition ack :: "queue_text \<Rightarrow> fate \<Rightarrow> int \<Rightarrow> run_id \<Rightarrow> string \<Rightarrow> redis \<Rightarrow> (string + unit) \<times> redis" where
  "ack txt fate now nm token = forget fate now (qt_show txt nm) token"

definition reap :: "queue_text \<Rightarrow> fate \<Rightarrow> int \<Rightarrow> redis \<Rightarrow> (string + run_id list) \<times> redis" where
  "reap txt fate now q =
     (case with_redis fate (REAP now) q of
        (Inl e, q1) \<Rightarrow> (Inl e, q1)
      | (Inr moved, q1) \<Rightarrow> (Inr (parsed txt moved), q1))"

section \<open>Connections\<close>

record slot =
  sl_idle :: nat
  sl_failed_at :: "int option"
  sl_probing :: bool

definition REDIS_TIMEOUT :: int where "REDIS_TIMEOUT = 5000"

definition IDLE_CONNECTIONS :: nat where "IDLE_CONNECTIONS = 4"

text \<open>The three times \<open>with_connection\<close> takes the lock: to take a connection (the answer is whether
  there was an idle one), after a connect, and after a command that worked.\<close>

definition slot_take :: "int \<Rightarrow> slot \<Rightarrow> (string + bool) \<times> slot" where
  "slot_take now sl =
     (if 0 < sl_idle sl then (Inr True, sl\<lparr>sl_idle := sl_idle sl - 1\<rparr>)
      else if sl_probing sl then (Inl ''redis is unavailable: a connect is being retried'', sl)
      else if (case sl_failed_at sl of None \<Rightarrow> False | Some failed \<Rightarrow> now - failed < REDIS_TIMEOUT)
        then (Inl ''redis is unavailable: a connect failed moments ago'', sl)
      else (Inr False, sl\<lparr>sl_probing := (sl_failed_at sl \<noteq> None)\<rparr>))"

definition slot_connected :: "int \<Rightarrow> bool \<Rightarrow> slot \<Rightarrow> slot" where
  "slot_connected now works sl =
     (let sl1 = sl\<lparr>sl_probing := False\<rparr>
      in if works then sl1\<lparr>sl_failed_at := None\<rparr> else sl1\<lparr>sl_failed_at := Some now\<rparr>)"

definition slot_return :: "bool \<Rightarrow> slot \<Rightarrow> slot" where
  "slot_return works sl =
     (if works
      then (let sl1 = sl\<lparr>sl_failed_at := None\<rparr> in
            if sl_idle sl1 < IDLE_CONNECTIONS then sl1\<lparr>sl_idle := sl_idle sl1 + 1\<rparr> else sl1)
      else sl)"

definition slot_unpoison :: "slot \<Rightarrow> slot" where
  "slot_unpoison sl = sl\<lparr>sl_idle := 0, sl_probing := False\<rparr>"

section \<open>Histories\<close>

text \<open>What the servers ask of Redis, in the order its scripts ran.\<close>

datatype queue_call =
  CPend entry | CPush entry | CPushOnce entry | CUnpend entry | CPop | CClaim string int | CStart entry
  | CRelease entry string | CPark entry string string | CWake entry string | CRenew entry string int
  | CAck entry string | CReap

fun apply_call :: "int \<Rightarrow> queue_call \<Rightarrow> redis \<Rightarrow> redis" where
  "apply_call now (CPend e) q = PEND now e q"
| "apply_call now (CPush e) q = PUSH e q"
| "apply_call now (CPushOnce e) q = snd (PUSH_ONCE e q)"
| "apply_call now (CUnpend e) q = q\<lparr>rd_pending := del_key e (rd_pending q)\<rparr>"
| "apply_call now CPop q = q\<lparr>rd_runs := butlast (rd_runs q)\<rparr>"
| "apply_call now (CClaim token lease) q = snd (CLAIM now token lease q)"
| "apply_call now (CStart e) q = snd (START e q)"
| "apply_call now (CRelease e token) q = RELEASE now e token q"
| "apply_call now (CPark e token ask) q = snd (PARK now e token ask q)"
| "apply_call now (CWake e ask) q = snd (WAKE e ask q)"
| "apply_call now (CRenew e token lease) q = snd (RENEW now e token lease q)"
| "apply_call now (CAck e token) q = ACK now e token q"
| "apply_call now CReap q = snd (REAP now q)"

fun run_calls :: "(int \<times> queue_call) list \<Rightarrow> redis \<Rightarrow> redis" where
  "run_calls [] q = q"
| "run_calls ((now, call) # calls) q = run_calls calls (apply_call now call q)"

text \<open>A call that takes an entry away for good.\<close>

fun drops :: "entry \<Rightarrow> queue_call \<Rightarrow> bool" where
  "drops e (CAck e' token) = (e' = e)"
| "drops e (CUnpend e') = (e' = e)"
| "drops e CPop = True"
| "drops e _ = False"

definition held :: "entry \<Rightarrow> redis \<Rightarrow> bool" where
  "held e q \<longleftrightarrow> e \<in> set (rd_runs q) \<or> e \<in> set (rd_processing q) \<or> e \<in> fst ` set (rd_parked q)"

definition known :: "entry \<Rightarrow> redis \<Rightarrow> bool" where
  "known e q \<longleftrightarrow> held e q \<or> e \<in> fst ` set (rd_pending q)"

text \<open>Whoever holds an entry's lease has it in processing.\<close>

definition lease_held :: "int \<Rightarrow> entry \<Rightarrow> redis \<Rightarrow> bool" where
  "lease_held now e q \<longleftrightarrow> (lease_of now q e \<noteq> None \<longrightarrow> e \<in> set (rd_processing q))"

section \<open>The reaper\<close>

lemma del_key_fst: "fst ` set (del_key k m) = fst ` set m - {k}"
  by (force simp: del_key_def)

lemma map_of_del_key [simp]: "map_of (del_key k m) k' = (if k' = k then None else map_of m k')"
  by (induction m) (auto simp: del_key_def)

lemma lease_of_simps [simp]:
  "lease_of now (q\<lparr>rd_runs := rs\<rparr>) e = lease_of now q e" "lease_of now (q\<lparr>rd_processing := rs\<rparr>) e = lease_of now q e"
  "lease_of now (q\<lparr>rd_pending := ps\<rparr>) e = lease_of now q e" "lease_of now (q\<lparr>rd_parked := ks\<rparr>) e = lease_of now q e"
  "lease_of now (q\<lparr>rd_deliveries := ds\<rparr>) e = lease_of now q e"
  by (simp_all add: lease_of_def)

lemma reap_fold:
  "fold (reap_one now) es (moved, q) = (moved @ filter (\<lambda>e. lease_of now q e = None) es,
     q\<lparr>rd_processing := fold remove1 (filter (\<lambda>e. lease_of now q e = None) es) (rd_processing q),
       rd_runs := rd_runs q @ filter (\<lambda>e. lease_of now q e = None) es\<rparr>)"
proof (induction es arbitrary: moved q)
  case (Cons e es)
  show ?case
  proof (cases "lease_of now q e = None")
    case True
    let ?q = "q\<lparr>rd_processing := remove1 e (rd_processing q), rd_runs := rd_runs q @ [e]\<rparr>"
    from True show ?thesis using Cons.IH [of "moved @ [e]" ?q] by (simp add: reap_one_def)
  next
    case False
    then have "reap_one now e (moved, q) = (moved, q)" by (simp add: reap_one_def)
    with False Cons.IH [of moved q] show ?thesis by simp
  qed
qed simp

lemma remove1_filter: "mset xs = mset ys + mset (filter P zs) \<Longrightarrow> mset (fold remove1 (filter P zs) xs) = mset ys"
  by (induction zs arbitrary: xs ys) (auto simp: algebra_simps)

lemma reaped_processing:
  "mset (fold remove1 (filter P xs) xs) = mset (filter (\<lambda>e. \<not> P e) xs)"
proof (rule remove1_filter)
  show "mset xs = mset (filter (\<lambda>e. \<not> P e) xs) + mset (filter P xs)"
    by (induction xs) auto
qed

lemma REAP_effect:
  "fst (REAP now q) = filter (\<lambda>e. lease_of now q e = None) (rd_processing q)"
  "rd_runs (snd (REAP now q)) = rd_runs q @ filter (\<lambda>e. lease_of now q e = None) (rd_processing q)"
  "mset (rd_processing (snd (REAP now q))) = mset (filter (\<lambda>e. lease_of now q e \<noteq> None) (rd_processing q))"
  "rd_leases (snd (REAP now q)) = rd_leases q" "rd_parked (snd (REAP now q)) = rd_parked q"
  "rd_pending (snd (REAP now q)) = rd_pending q"
  unfolding REAP_def by (simp_all add: reap_fold reaped_processing)

lemma REAP_processing: "set (rd_processing (snd (REAP now q))) = {e \<in> set (rd_processing q). lease_of now q e \<noteq> None}"
proof -
  have "set (rd_processing (snd (REAP now q))) = set_mset (mset (rd_processing (snd (REAP now q))))" by simp
  then show ?thesis unfolding REAP_effect(3) by auto
qed

section \<open>Nothing is lost\<close>

lemma lease_of_later: "lease_of now q e = None \<Longrightarrow> now \<le> now' \<Longrightarrow> lease_of now' q e = None"
  by (auto simp: lease_of_def split: option.splits if_splits)

lemma lease_held_later: "lease_held now e q \<Longrightarrow> now \<le> now' \<Longrightarrow> lease_held now' e q"
  using lease_of_later by (auto simp: lease_held_def)

lemma set_butlast_last: "xs \<noteq> [] \<Longrightarrow> set xs = insert (last xs) (set (butlast xs))"
  by (metis append_butlast_last_id list.simps(15) rotate1.simps(2) set_rotate1)

lemma claim_step:
  assumes "lease_held now e q"
  shows "(known e q \<longrightarrow> known e (snd (CLAIM now token lease q))) \<and> lease_held now e (snd (CLAIM now token lease q))"
  using assms set_butlast_last [of "rd_runs q"]
  by (auto simp: CLAIM_def Let_def known_def held_def lease_held_def lease_of_def split: option.splits if_splits)

lemma holder_step:
  assumes "lease_held now e q"
  shows "(known e q \<longrightarrow> known e (RELEASE now e' token q)) \<and> lease_held now e (RELEASE now e' token q)"
    and "(known e q \<longrightarrow> known e (snd (PARK now e' token ask q))) \<and> lease_held now e (snd (PARK now e' token ask q))"
    and "(known e q \<longrightarrow> known e (snd (RENEW now e' token lease q))) \<and> lease_held now e (snd (RENEW now e' token lease q))"
proof -
  have rm: "x \<in> set (remove1 e' xs) \<longleftrightarrow> x \<in> set xs" if "x \<noteq> e'" for x xs using that by simp
  have up: "fst ` set (AList.update k v m) = insert k (fst ` set m)" for k :: entry and v :: string and m
    by (simp add: dom_update dom_map_of_conv_image_fst [symmetric] update_conv')
  show "(known e q \<longrightarrow> known e (RELEASE now e' token q)) \<and> lease_held now e (RELEASE now e' token q)"
    using assms rm [of e] by (auto simp: RELEASE_def known_def held_def lease_held_def lease_of_def split: option.splits if_splits)
  show "(known e q \<longrightarrow> known e (snd (PARK now e' token ask q))) \<and> lease_held now e (snd (PARK now e' token ask q))"
    using assms rm [of e] up by (cases "e = e'") (auto simp: PARK_def known_def held_def lease_held_def lease_of_def split: option.splits if_splits)
  show "(known e q \<longrightarrow> known e (snd (RENEW now e' token lease q))) \<and> lease_held now e (snd (RENEW now e' token lease q))"
    using assms by (auto simp: RENEW_def known_def held_def lease_held_def lease_of_def split: option.splits if_splits)
qed

lemma call_step:
  assumes "lease_held now e q" and "\<not> drops e call"
  shows "(known e q \<longrightarrow> known e (apply_call now call q)) \<and> lease_held now e (apply_call now call q)"
proof (cases call)
  case (CClaim token lease)
  with claim_step [OF assms(1)] show ?thesis by simp
next
  case (CRelease e' token)
  with holder_step(1) [OF assms(1)] show ?thesis by simp
next
  case (CPark e' token ask)
  with holder_step(2) [OF assms(1)] show ?thesis by simp
next
  case (CRenew e' token lease)
  with holder_step(3) [OF assms(1)] show ?thesis by simp
next
  case (CAck e' token)
  with assms show ?thesis
    by (auto simp: ACK_def Let_def known_def held_def lease_held_def lease_of_def split: option.splits if_splits)
next
  case CReap
  with assms show ?thesis
    by (auto simp: REAP_effect REAP_processing known_def held_def lease_held_def lease_of_def)
next
  case (CPend e')
  with assms show ?thesis by (auto simp: PEND_def known_def held_def lease_held_def)
next
  case (CPushOnce e')
  with assms show ?thesis
    by (cases "e = e'") (auto simp: PUSH_ONCE_def Let_def known_def held_def lease_held_def del_key_fst)
next
  case (CWake e' ask)
  with assms show ?thesis
    by (cases "e = e'") (auto simp: WAKE_def known_def held_def lease_held_def del_key_fst)
qed (use assms in \<open>auto simp: PUSH_def START_def Let_def known_def held_def lease_held_def del_key_fst\<close>)

lemma calls_keep:
  assumes "lease_held now e q" and "sorted (now # map fst calls)" and "\<forall>(t, call) \<in> set calls. \<not> drops e call"
  shows "known e q \<longrightarrow> known e (run_calls calls q)"
  using assms
proof (induction calls arbitrary: now q)
  case (Cons tc calls)
  obtain t call where tc: "tc = (t, call)" by (cases tc)
  have "lease_held t e q" using Cons.prems(1,2) tc by (auto intro: lease_held_later)
  moreover have "\<not> drops e call" using Cons.prems(3) tc by auto
  ultimately have step: "known e q \<longrightarrow> known e (apply_call t call q)" "lease_held t e (apply_call t call q)"
    using call_step by blast+
  have "sorted (t # map fst calls)" using Cons.prems(2) tc by simp
  with Cons.IH [OF step(2)] Cons.prems(3) step(1) tc show ?case by auto
qed simp

lemma calls_lease_held:
  assumes "lease_held now e q" and "sorted (now # map fst calls)" and "\<forall>(t, call) \<in> set calls. \<not> drops e call"
    and "\<forall>t \<in> set (map fst calls). t \<le> later" and "now \<le> later"
  shows "lease_held later e (run_calls calls q)"
  using assms
proof (induction calls arbitrary: now q)
  case Nil
  then show ?case by (auto intro: lease_held_later)
next
  case (Cons tc calls)
  obtain t call where tc: "tc = (t, call)" by (cases tc)
  have "lease_held t e (apply_call t call q)"
    using call_step [of t e q call] Cons.prems(1,2,3) tc by (auto intro: lease_held_later)
  with Cons.IH [of t] Cons.prems tc show ?case by auto
qed

lemma told_known:
  "known e (apply_call now (CPend e) q)" "known e (apply_call now (CPush e) q)" "known e (apply_call now (CPushOnce e) q)"
proof -
  show "known e (apply_call now (CPend e) q)"
    by (cases "map_of (rd_pending q) e")
      (simp_all add: PEND_def known_def, force dest: map_of_SomeD)
qed (auto simp: PUSH_def PUSH_ONCE_def Let_def known_def held_def)

lemma run_calls_append: "run_calls (xs @ ys) q = run_calls ys (run_calls xs q)"
  by (induction xs q rule: run_calls.induct) simp_all

section \<open>One holder\<close>

text \<open>A call that carries the holder's token for the entry.\<close>

fun by_holder :: "entry \<Rightarrow> string \<Rightarrow> queue_call \<Rightarrow> bool" where
  "by_holder e token (CRelease e' token') = (e' = e \<and> token' = token)"
| "by_holder e token (CPark e' token' ask) = (e' = e \<and> token' = token)"
| "by_holder e token (CAck e' token') = (e' = e \<and> token' = token)"
| "by_holder e token (CRenew e' token' lease) = (e' = e \<and> token' = token)"
| "by_holder e token _ = False"

definition leased :: "int \<Rightarrow> entry \<Rightarrow> string \<Rightarrow> redis \<Rightarrow> bool" where
  "leased until e token q \<longleftrightarrow> map_of (rd_leases q) e = Some (token, until)"

lemma leased_step:
  assumes "leased until e token q" and "now < until" and "\<not> by_holder e token call"
  shows "leased until e token (apply_call now call q)"
proof -
  have live: "lease_of now q e = Some token" using assms(1,2) by (simp add: leased_def lease_of_def)
  show ?thesis
  proof (cases call)
    case (CClaim token' lease)
    with assms live show ?thesis by (auto simp: CLAIM_def Let_def leased_def)
  qed (use assms live in \<open>auto simp: leased_def PEND_def PUSH_def PUSH_ONCE_def START_def RELEASE_def PARK_def WAKE_def
      RENEW_def ACK_def Let_def REAP_effect\<close>)
qed

lemma leased_not_claimed:
  assumes "leased until e token q" and "now < until"
  shows "fst (CLAIM now token' lease q) \<noteq> Some e"
  using assms by (auto simp: CLAIM_def Let_def leased_def lease_of_def)

lemma leased_calls:
  assumes "leased until e token q" and "\<forall>(t, call) \<in> set calls. t < until \<and> \<not> by_holder e token call"
  shows "leased until e token (run_calls calls q)"
  using assms
proof (induction calls arbitrary: q)
  case (Cons tc calls)
  obtain t call where tc: "tc = (t, call)" by (cases tc)
  with Cons.prems have "leased until e token (apply_call t call q)" by (intro leased_step) auto
  with Cons tc show ?case by auto
qed simp

lemma CLAIM_leases:
  assumes "CLAIM now token lease q = (Some e, q')"
  shows "leased (now + lease) e token q' \<and> lease_of now q e = None \<and> e \<in> set (rd_processing q')"
  using assms by (auto simp: CLAIM_def Let_def leased_def split: if_splits)

section \<open>Connections\<close>

lemma slot_bounds:
  assumes "sl_idle sl \<le> IDLE_CONNECTIONS"
  shows "sl_idle (snd (slot_take now sl)) \<le> IDLE_CONNECTIONS" "sl_idle (slot_connected now works sl) \<le> IDLE_CONNECTIONS"
    "sl_idle (slot_return works sl) \<le> IDLE_CONNECTIONS" "sl_idle (slot_unpoison sl) \<le> IDLE_CONNECTIONS"
  using assms by (auto simp: slot_take_def slot_connected_def slot_return_def slot_unpoison_def Let_def)

section \<open>Properties\<close>

text \<open>C22. A run the queue was told of is never lost: once it was marked pending or pushed, then after any
  history of the servers' calls (crashes and lost leases included) that neither acknowledges nor
  unpends it and pops nothing, it is still pending, queued, claimed or parked.\<close>

theorem queue_never_loses:
  assumes "sorted (map fst calls)" and "\<forall>(t, call) \<in> set calls. \<not> drops e call"
    and "(t0, CPend e) \<in> set calls \<or> (t0, CPush e) \<in> set calls \<or> (t0, CPushOnce e) \<in> set calls"
  shows "known e (run_calls calls redis_empty)"
proof -
  from assms(3) obtain call where call: "(t0, call) \<in> set calls" "call = CPend e \<or> call = CPush e \<or> call = CPushOnce e" by blast
  then obtain xs ys where split: "calls = xs @ (t0, call) # ys" by (auto simp: in_set_conv_decomp)
  let ?q = "run_calls xs redis_empty"
  have "lease_held t e redis_empty" for t by (simp add: lease_held_def lease_of_def redis_empty_def)
  moreover have "\<forall>(t, call) \<in> set xs. \<not> drops e call" using assms(2) split by simp
  ultimately have "lease_held t0 e ?q"
    using assms(1) split
    by (cases xs) (simp, rule calls_lease_held [of "fst (hd xs)"], auto simp: sorted_append)
  then have "lease_held t0 e (apply_call t0 call ?q)" using call_step assms(2) call(1) by blast
  moreover have "known e (apply_call t0 call ?q)"
    using call(2) told_known by auto
  moreover have "sorted (t0 # map fst ys)" using assms(1) split by (simp add: sorted_append)
  moreover have "\<forall>(t, call) \<in> set ys. \<not> drops e call" using assms(2) split by simp
  ultimately have "known e (run_calls ys (apply_call t0 call ?q))" using calls_keep by blast
  then show ?thesis by (simp add: split run_calls_append)
qed

theorem queue_never_loses_witness:
  "known ''a'' (run_calls [(1, CPend ''a''), (2, CPush ''a''), (3, CClaim ''w'' 10), (50, CReap), (51, CClaim ''v'' 10)] redis_empty)"
  by (rule queue_never_loses [of _ _ 1]) simp_all

text \<open>C23. A claim is exclusive: the claim that returned a run found it without a lease, and until that
  lease runs out, whatever any other worker asks, every claim returns another run or none.\<close>

theorem claim_exclusive:
  assumes "CLAIM now token lease q = (Some e, q')" and "\<forall>(t, call) \<in> set calls. t < now + lease \<and> \<not> by_holder e token call"
    and "t' < now + lease"
  shows "lease_of now q e = None \<and> lease_of t' (run_calls calls q') e = Some token
    \<and> fst (CLAIM t' token' lease' (run_calls calls q')) \<noteq> Some e"
proof -
  from CLAIM_leases [OF assms(1)] have free: "lease_of now q e = None" and "leased (now + lease) e token q'" by simp_all
  then have l: "leased (now + lease) e token (run_calls calls q')" using assms(2) by (intro leased_calls) auto
  then have "lease_of t' (run_calls calls q') e = Some token" using assms(3) by (simp add: leased_def lease_of_def)
  with free leased_not_claimed [OF l assms(3)] show ?thesis by blast
qed

theorem claim_exclusive_witness:
  "fst (CLAIM 5 ''v'' 10 (run_calls [(3, CPush ''a''), (4, CRelease ''a'' ''v'')]
     (snd (CLAIM 2 ''w'' 10 (PUSH ''a'' redis_empty))))) \<noteq> Some ''a''"
proof -
  have "CLAIM 2 ''w'' 10 (PUSH ''a'' redis_empty) = (Some ''a'', snd (CLAIM 2 ''w'' 10 (PUSH ''a'' redis_empty)))"
    by (simp add: CLAIM_def PUSH_def redis_empty_def lease_of_def Let_def)
  from claim_exclusive [OF this, of "[(3, CPush ''a''), (4, CRelease ''a'' ''v'')]" 5 "''v''" 10] show ?thesis by simp
qed

text \<open>The reaper brings back exactly the claimed runs whose lease ran out: they are put, in order, at
  the end of the list that claims take from, every run still claimed has a live lease, and no entry
  is lost or doubled.\<close>

theorem reap_redelivers:
  "fst (REAP now q) = filter (\<lambda>e. lease_of now q e = None) (rd_processing q)
   \<and> rd_runs (snd (REAP now q)) = rd_runs q @ fst (REAP now q)
   \<and> (\<forall>e \<in> set (rd_processing (snd (REAP now q))). lease_of now (snd (REAP now q)) e \<noteq> None)
   \<and> mset (rd_runs (snd (REAP now q))) + mset (rd_processing (snd (REAP now q))) = mset (rd_runs q) + mset (rd_processing q)"
proof -
  have "mset (rd_processing q) = mset (filter (\<lambda>e. lease_of now q e = None) (rd_processing q))
      + mset (filter (\<lambda>e. lease_of now q e \<noteq> None) (rd_processing q))"
    by (induction "rd_processing q") (auto simp: multiset_partition [symmetric])
  then show ?thesis
    by (auto simp: REAP_effect REAP_processing lease_of_def)
qed

theorem reap_redelivers_witness:
  "fst (REAP 20 (snd (CLAIM 2 ''w'' 10 (PUSH ''a'' redis_empty)))) = [''a'']"
  using reap_redelivers [of 20 "snd (CLAIM 2 ''w'' 10 (PUSH ''a'' redis_empty))"]
  by (simp add: CLAIM_def PUSH_def redis_empty_def lease_of_def Let_def)

end
