(* ===== verification/Server_Spawner.thy ===== *)
theory Server_Spawner
  imports Driver Store_Machine Run_Queue
begin

text \<open>
  Starting runs on the queue (\<open>crates/server/src/spawner.rs\<close>, and the events of \<open>inference.rs\<close> it
  stores). The state is the store and Redis together. What the environment decides (clocks, the ids
  drawn, and the fate of each call to Redis) is \<open>env\<close>; an event's id and time are drawn for its
  payload. Reports to stderr are left out. The lemmas show that no run is stored without the
  queue knowing it, and what a started child is.
\<close>

record server =
  sv_store :: store
  sv_redis :: redis

datatype redis_call = AtPend | AtPush | AtPushOnce | AtUnpend | AtQueued | AtWake

record env =
  en_txt :: queue_text
  en_uuid :: uuid_ops
  en_draw :: "event_payload \<Rightarrow> event_id \<times> timestamp"
  en_store_now :: int
  en_redis_now :: int
  en_fate :: "redis_call \<Rightarrow> fate"
  en_fresh :: uuid
  en_message :: message_id
  en_now :: timestamp

section \<open>The events a server stores (inference.rs)\<close>

definition system_event :: "env \<Rightarrow> run_spec \<Rightarrow> event_payload \<Rightarrow> event" where
  "system_event env spec payload =
     (let (fresh, at) = en_draw env payload in record_event fresh (for_spec spec ActorSystem at) payload)"

definition user_message_event :: "env \<Rightarrow> run_spec \<Rightarrow> event" where
  "user_message_event env spec = system_event env spec (UserMessage (rs_input spec))"

definition queued_events :: "env \<Rightarrow> run_spec \<Rightarrow> event list" where
  "queued_events env spec = [system_event env spec RunCreated, system_event env spec RunQueued, user_message_event env spec]"

definition dispatch_events :: "env \<Rightarrow> run_spec \<Rightarrow> event list" where
  "dispatch_events env spec =
     [system_event env spec RunScheduled, system_event env spec RunProvisioning, system_event env spec RunStarting]"

definition run_cancelled_event :: "env \<Rightarrow> run_spec \<Rightarrow> event" where
  "run_cancelled_event env spec = system_event env spec RunCancelled"

definition run_failed_event :: "env \<Rightarrow> run_spec \<Rightarrow> failure_class \<Rightarrow> string \<Rightarrow> event" where
  "run_failed_event env spec cls message = system_event env spec (RunFailed cls message)"

section \<open>Queueing a run\<close>

datatype enqueue_error = EqQueue string | EqStore store_error | EqPush string | EqHeld string

datatype on_push_failure = PushEnd | LeaveToSweep

text \<open>An operation on one half of the state.\<close>

definition on_store :: "(store \<Rightarrow> 'a \<times> store) \<Rightarrow> server \<Rightarrow> 'a \<times> server" where
  "on_store f sv = (let (r, s) = f (sv_store sv) in (r, sv\<lparr>sv_store := s\<rparr>))"

definition on_redis :: "(redis \<Rightarrow> 'a \<times> redis) \<Rightarrow> server \<Rightarrow> 'a \<times> server" where
  "on_redis f sv = (let (r, q) = f (sv_redis sv) in (r, sv\<lparr>sv_redis := q\<rparr>))"

definition end_run :: "env \<Rightarrow> run_spec \<Rightarrow> string \<Rightarrow> server \<Rightarrow> server" where
  "end_run env spec message sv =
     snd (on_store (append_events (en_store_now env) (rs_run_id spec) [run_failed_event env spec FInfrastructure message]) sv)"

definition enqueue :: "env \<Rightarrow> run_spec \<Rightarrow> on_push_failure \<Rightarrow> server \<Rightarrow> (enqueue_error + put_run_result) \<times> server" where
  "enqueue env spec on_push_failure sv =
     (let nm = rs_run_id spec in
      case on_redis (pend (en_txt env) (en_fate env AtPend) (en_redis_now env) nm) sv of
        (Inl e, sv1) \<Rightarrow> (Inl (EqQueue e), sv1)
      | (Inr u, sv1) \<Rightarrow>
          (case on_store (put_run (en_store_now env) \<lparr>sr_spec = spec, sr_events = queued_events env spec\<rparr>) sv1 of
             (Inl e, sv2) \<Rightarrow> (Inl (EqStore e), end_run env spec ''store unavailable'' sv2)
           | (Inr put, sv2) \<Rightarrow>
               if put = RunStored
               then (case on_redis (push_run (en_txt env) (en_fate env AtPush) nm) sv2 of
                       (Inl e, sv3) \<Rightarrow>
                         (case on_push_failure of
                            PushEnd \<Rightarrow> (Inl (EqPush e), end_run env spec (''queue push failed: '' @ e) sv3)
                          | LeaveToSweep \<Rightarrow> (Inr put, sv3))
                     | (Inr u, sv3) \<Rightarrow> (Inr put, sv3))
               else (Inr put, sv2)))"

text \<open>The payloads a run's log holds before a worker schedules it.\<close>

fun waiting_payload :: "event_payload \<Rightarrow> bool" where
  "waiting_payload RunCreated = True"
| "waiting_payload RunQueued = True"
| "waiting_payload (UserMessage text) = True"
| "waiting_payload _ = False"

definition still_waiting :: "event list \<Rightarrow> bool" where
  "still_waiting events = list_all (\<lambda>ev. waiting_payload (ev_payload ev)) events"

definition never_ran :: "event list \<Rightarrow> bool" where
  "never_ran events =
     (list_ex is_end_event events \<and> \<not> list_ex (\<lambda>ev. ev_payload ev = RunScheduled) events)"

definition settle_existing :: "env \<Rightarrow> run_id \<Rightarrow> event list \<Rightarrow> server \<Rightarrow> (string + unit) \<times> server" where
  "settle_existing env nm events sv =
     (if \<not> still_waiting events then on_redis (unpend (en_txt env) (en_fate env AtUnpend) nm) sv
      else
        (case on_redis (queued_or_claimed (en_txt env) (en_fate env AtQueued) nm) sv of
           (Inl e, sv1) \<Rightarrow> (Inl e, sv1)
         | (Inr found, sv1) \<Rightarrow>
             if found then on_redis (unpend (en_txt env) (en_fate env AtUnpend) nm) sv1 else (Inr (), sv1)))"

section \<open>Fires of triggers\<close>

datatype gate = GateOpen | GateShut | GateUnknown string

datatype fire = Pushed | Held | Found

text \<open>A gate is asked just before the push; it reads the server and may write the cell its caller
  captured.\<close>

type_synonym 'c gate_fn = "server \<Rightarrow> 'c \<Rightarrow> gate \<times> 'c"

definition settle_fire ::
    "env \<Rightarrow> run_spec \<Rightarrow> 'c gate_fn \<Rightarrow> server \<Rightarrow> 'c \<Rightarrow> (enqueue_error + fire) \<times> server \<times> 'c" where
  "settle_fire env spec gate sv cell =
     (let nm = rs_run_id spec;
          events = (case get_run nm (sv_store sv) of None \<Rightarrow> [] | Some run \<Rightarrow> sr_events run)
      in if \<not> still_waiting events
         then (case on_redis (unpend (en_txt env) (en_fate env AtUnpend) nm) sv of
                 (Inl e, sv1) \<Rightarrow> (Inl (EqQueue e), sv1, cell)
               | (Inr u, sv1) \<Rightarrow> (Inr Found, sv1, cell))
         else
           (case gate sv cell of
              (GateOpen, cell1) \<Rightarrow>
                (case on_redis (push_once (en_txt env) (en_fate env AtPushOnce) nm) sv of
                   (Inl e, sv1) \<Rightarrow> (Inl (EqPush e), sv1, cell1)
                 | (Inr pushed, sv1) \<Rightarrow> (Inr (if pushed then Pushed else Found), sv1, cell1))
            | (GateShut, cell1) \<Rightarrow>
                (case on_store (append_events (en_store_now env) nm [run_cancelled_event env spec]) sv of
                   (Inl e, sv1) \<Rightarrow> (Inl (EqHeld (error_message e)), sv1, cell1)
                 | (Inr res, sv1) \<Rightarrow>
                     if res = Appended \<or> res = AppendTerminal
                     then (Inr Held, snd (on_redis (unpend (en_txt env) (en_fate env AtUnpend) nm) sv1), cell1)
                     else (Inl (EqHeld ''a held run was not stored to cancel''), sv1, cell1))
            | (GateUnknown reason, cell1) \<Rightarrow> (Inl (EqHeld reason), sv, cell1)))"

definition enqueue_fire ::
    "env \<Rightarrow> run_spec \<Rightarrow> 'c gate_fn \<Rightarrow> server \<Rightarrow> 'c \<Rightarrow> (enqueue_error + fire) \<times> server \<times> 'c" where
  "enqueue_fire env spec gate sv cell =
     (case on_redis (pend (en_txt env) (en_fate env AtPend) (en_redis_now env) (rs_run_id spec)) sv of
        (Inl e, sv1) \<Rightarrow> (Inl (EqQueue e), sv1, cell)
      | (Inr u, sv1) \<Rightarrow>
          (case on_store (put_run (en_store_now env) \<lparr>sr_spec = spec, sr_events = queued_events env spec\<rparr>) sv1 of
             (Inl e, sv2) \<Rightarrow> (Inl (EqStore e), sv2, cell)
           | (Inr put, sv2) \<Rightarrow> settle_fire env spec gate sv2 cell))"

section \<open>Delegations\<close>

text \<open>The spec of a child: \<open>None\<close> is a question about stops that never returns, or a build that panics
  (it never does). \<open>queue\<close> says whether the spawner has a queue.\<close>

definition child_spec :: "env \<Rightarrow> bool \<Rightarrow> child_request \<Rightarrow> store \<Rightarrow> (string + run_spec) option" where
  "child_spec env queue request s =
     (if \<not> queue then Some (Inl ''delegation needs the run queue'')
      else
        let parent = cr_parent request in
        case stopped (rs_run_id parent) s of
          None \<Rightarrow> None
        | Some True \<Rightarrow> Some (Inl ''the chain is stopped'')
        | Some False \<Rightarrow>
            (case get_agent (cr_agent_id request) s of
               None \<Rightarrow> Some (Inl ''no such agent'')
             | Some agent \<Rightarrow>
                 if \<not> same_principal (sa_owner agent) (rs_owner parent) then Some (Inl ''agent belongs to another owner'')
                 else
                   let caps = filter (\<lambda>c. c \<in> set (rs_capabilities parent)) (mf_required_capabilities (sa_manifest agent));
                       meta = (case rs_metadata parent SESSION_ID of
                                 None \<Rightarrow> Map.empty | Some session \<Rightarrow> [SESSION_ID \<mapsto> session])
                   in map_option Inr
                        (build (en_uuid env) (en_fresh env)
                          ((set_child_of parent (cr_step request) \<circ> set_metadata meta \<circ> set_limits (cr_limits request)
                            \<circ> set_capabilities caps \<circ> set_work_model (rs_work_model parent)
                            \<circ> set_placement (rs_placement parent) \<circ> set_input (cr_input request)
                            \<circ> set_agent (mf_id (sa_manifest agent)) (mf_version (sa_manifest agent))
                            \<circ> set_owner (rs_owner parent)) builder_new))))"

fun enqueue_words :: "enqueue_error \<Rightarrow> string" where
  "enqueue_words (EqQueue e) = ''queue unavailable''"
| "enqueue_words (EqStore e) = ''store unavailable''"
| "enqueue_words (EqPush e) = ''queue push failed''"
| "enqueue_words (EqHeld e) = ''held''"

definition enqueue_child :: "env \<Rightarrow> bool \<Rightarrow> run_spec \<Rightarrow> server \<Rightarrow> (string + started_child) \<times> server" where
  "enqueue_child env queue spec sv =
     (if \<not> queue then (Inl ''delegation needs the run queue'', sv)
      else
        (case enqueue env spec LeaveToSweep sv of
           (Inl e, sv1) \<Rightarrow> (Inl (enqueue_words e), sv1)
         | (Inr RunStored, sv1) \<Rightarrow> (Inr \<lparr>sc_run_id = rs_run_id spec, sc_limits = rs_limits spec\<rparr>, sv1)
         | (Inr RunExisted, sv1) \<Rightarrow>
             (case get_run (rs_run_id spec) (sv_store sv1) of
                None \<Rightarrow> (Inl ''store unavailable'', sv1)
              | Some child \<Rightarrow>
                  if never_ran (sr_events child)
                  then (Inl ''the child could not be started'',
                        snd (on_redis (unpend (en_txt env) (en_fate env AtUnpend) (rs_run_id spec)) sv1))
                  else (Inr \<lparr>sc_run_id = rs_run_id spec, sc_limits = rs_limits (sr_spec child)\<rparr>,
                        snd (settle_existing env (rs_run_id spec) (sr_events child) sv1)))))"

definition spawner_start :: "env \<Rightarrow> bool \<Rightarrow> child_request \<Rightarrow> server \<Rightarrow> ((string + started_child) \<times> server) option" where
  "spawner_start env queue request sv =
     (case child_spec env queue request (sv_store sv) of
        None \<Rightarrow> None
      | Some (Inl e) \<Rightarrow> Some (Inl e, sv)
      | Some (Inr spec) \<Rightarrow> Some (enqueue_child env queue spec sv))"

section \<open>The two halves\<close>

lemma on_store_simps [simp]:
  "fst (on_store f sv) = fst (f (sv_store sv))" "sv_store (snd (on_store f sv)) = snd (f (sv_store sv))"
  "sv_redis (snd (on_store f sv)) = sv_redis sv"
  by (simp_all add: on_store_def split: prod.split)

lemma on_redis_simps [simp]:
  "fst (on_redis f sv) = fst (f (sv_redis sv))" "sv_redis (snd (on_redis f sv)) = snd (f (sv_redis sv))"
  "sv_store (snd (on_redis f sv)) = sv_store sv"
  by (simp_all add: on_redis_def split: prod.split)

lemma on_store_res:
  "on_store f sv = (r, sv') \<longleftrightarrow> f (sv_store sv) = (r, sv_store sv') \<and> sv_redis sv' = sv_redis sv"
  by (auto simp: on_store_def split: prod.split)

lemma on_redis_res:
  "on_redis f sv = (r, sv') \<longleftrightarrow> f (sv_redis sv) = (r, sv_redis sv') \<and> sv_store sv' = sv_store sv"
  by (auto simp: on_redis_def split: prod.split)

lemma pend_known:
  assumes "pend txt fate now nm q = (Inr u, q')"
  shows "known (qt_show txt nm) q'"
  using assms told_known(1) [of "qt_show txt nm" now q]
  by (auto simp: pend_def with_redis_def split: fate.splits)

lemma push_known:
  assumes "known (qt_show txt nm) q"
  shows "known (qt_show txt nm) (snd (push_run txt fate nm q))"
  using assms told_known(2) [of "qt_show txt nm" undefined q]
  by (auto simp: push_run_def with_redis_def split: fate.split)

lemma system_event_payload [simp]: "ev_payload (system_event env spec payload) = payload"
  by (simp add: system_event_def split: prod.split)

lemma queued_waiting: "still_waiting (queued_events env spec)"
  by (simp add: still_waiting_def queued_events_def user_message_event_def)

lemma waiting_open: "still_waiting events \<Longrightarrow> \<not> list_ex is_end_event events"
proof -
  have "\<not> (waiting_payload p \<and> is_run_end p)" for p by (cases p) simp_all
  then show "still_waiting events \<Longrightarrow> \<not> list_ex is_end_event events"
    by (auto simp: still_waiting_def list_all_iff list_ex_iff)
qed

section \<open>Queueing\<close>

text \<open>What a failed put leaves: nothing, and nothing to end.\<close>

lemma put_failed_end:
  assumes "store_ok s" and "put_run now run s = (Inl e, s')" and "terminal_last (sr_events run)"
  shows "s' = s" "append_events now' (rs_run_id (sr_spec run)) events s = (r, s'') \<Longrightarrow> s'' = s"
proof -
  show "s' = s" using refused_put_run [OF assms(1), of now run e] assms(2) by simp
  from assms have "mx_poisoned (so_runs s) \<or> map_of (mx_value (so_runs s)) (rs_run_id (sr_spec run)) = None"
    using check_one_terminal_iff [of "sr_events run" "()"]
    by (auto simp: put_run_def lock_write_def Let_def split: if_splits option.splits sum.splits)
  then show "append_events now' (rs_run_id (sr_spec run)) events s = (r, s'') \<Longrightarrow> s'' = s"
    by (auto simp: append_events_def append_checked_def lock_write_def split: sum.splits if_splits)
qed

text \<open>A run that was just stored can be ended: the locks it took are good.\<close>

lemma stored_can_end:
  assumes "put_run now run s = (Inr RunStored, s')" and "still_waiting (sr_events run)" and "is_end_event ev"
  shows "append_events now' (rs_run_id (sr_spec run)) [ev] s' = (Inr Appended, snd (append_events now' (rs_run_id (sr_spec run)) [ev] s'))"
    and "get_run (rs_run_id (sr_spec run)) (snd (append_events now' (rs_run_id (sr_spec run)) [ev] s'))
      = Some (run\<lparr>sr_events := sr_events run @ [ev]\<rparr>)"
proof -
  let ?nm = "rs_run_id (sr_spec run)"
  have locks: "\<not> mx_poisoned (so_runs s')" "\<not> mx_poisoned (so_outbox s')" "map_of (mx_value (so_runs s')) ?nm = Some run"
    using assms(1)
    by (auto simp: put_run_def number_def lock_write_def Let_def split: if_splits option.splits sum.splits)
  moreover have "\<not> list_ex is_end_event (sr_events run)" using waiting_open assms(2) by blast
  moreover have "check_one_terminal [ev] = Inr ()" by (simp add: check_one_terminal_def)
  ultimately have res: "append_events now' ?nm [ev] s' = (Inr Appended, snd (append_events now' ?nm [ev] s'))
    \<and> map_of (mx_value (so_runs (snd (append_events now' ?nm [ev] s')))) ?nm = Some (run\<lparr>sr_events := sr_events run @ [ev]\<rparr>)"
    by (simp add: append_events_def append_checked_def lock_write_def number_def Let_def)
  then show "append_events now' ?nm [ev] s' = (Inr Appended, snd (append_events now' ?nm [ev] s'))"
    "get_run ?nm (snd (append_events now' ?nm [ev] s')) = Some (run\<lparr>sr_events := sr_events run @ [ev]\<rparr>)"
    by (simp_all add: get_run_def lock_read_def)
qed

lemma put_run_result:
  assumes "put_run now run s = (Inr put, s')"
  shows "put = RunExisted \<and> s' = s \<and> get_run (rs_run_id (sr_spec run)) s \<noteq> None
    \<or> put = RunStored \<and> get_run (rs_run_id (sr_spec run)) s = None \<and> get_run (rs_run_id (sr_spec run)) s' = Some run"
  using assms
  by (auto simp: put_run_def get_run_def lock_read_def lock_write_def number_def Let_def
      split: sum.splits if_splits option.splits)

lemma enqueue_cases:
  assumes "store_ok (sv_store sv)" and "enqueue env spec opf sv = (r, sv')"
  obtains (refused) e where "r = Inl (EqQueue e)" "sv_store sv' = sv_store sv"
  | (unstored) e where "r = Inl (EqStore e)" "sv_store sv' = sv_store sv" "known (qt_show (en_txt env) (rs_run_id spec)) (sv_redis sv')"
  | (existed) "r = Inr RunExisted" "sv_store sv' = sv_store sv" "get_run (rs_run_id spec) (sv_store sv) \<noteq> None"
      "known (qt_show (en_txt env) (rs_run_id spec)) (sv_redis sv')"
  | (queued) "r = Inr RunStored" "get_run (rs_run_id spec) (sv_store sv) = None"
      "get_run (rs_run_id spec) (sv_store sv') = Some \<lparr>sr_spec = spec, sr_events = queued_events env spec\<rparr>"
      "known (qt_show (en_txt env) (rs_run_id spec)) (sv_redis sv')"
  | (ended) e where "r = Inl (EqPush e)" "opf = PushEnd"
      "get_run (rs_run_id spec) (sv_store sv')
        = Some \<lparr>sr_spec = spec, sr_events = queued_events env spec @ [run_failed_event env spec FInfrastructure (''queue push failed: '' @ e)]\<rparr>"
      "known (qt_show (en_txt env) (rs_run_id spec)) (sv_redis sv')"
proof -
  let ?nm = "rs_run_id spec" and ?run = "\<lparr>sr_spec = spec, sr_events = queued_events env spec\<rparr>"
  let ?e = "qt_show (en_txt env) (rs_run_id spec)"
  obtain p sv1 where pend: "on_redis (pend (en_txt env) (en_fate env AtPend) (en_redis_now env) ?nm) sv = (p, sv1)" by fastforce
  show thesis
  proof (cases p)
    case (Inl e)
    with pend assms(2) have "r = Inl (EqQueue e)" "sv' = sv1" by (simp_all add: enqueue_def)
    with pend show thesis by (intro refused) (auto simp: on_redis_res)
  next
    case (Inr u)
    with pend have s1: "sv_store sv1 = sv_store sv" and k1: "known ?e (sv_redis sv1)" by (auto simp: on_redis_res pend_known)
    obtain q sv2 where put: "on_store (put_run (en_store_now env) ?run) sv1 = (q, sv2)" by fastforce
    then have put': "put_run (en_store_now env) ?run (sv_store sv) = (q, sv_store sv2)" and k2: "known ?e (sv_redis sv2)"
      using s1 k1 by (auto simp: on_store_res)
    have last: "terminal_last (sr_events ?run)"
      using waiting_open [OF queued_waiting, of env spec] by (auto simp: terminal_last_def list_all_iff list_ex_iff dest: in_set_butlastD)
    show thesis
    proof (cases q)
      case (Inl e)
      have "sv_store (end_run env spec ''store unavailable'' sv2) = sv_store sv"
        using put_failed_end [OF assms(1) put' [unfolded Inl] last] put' by (simp add: end_run_def) (metis prod.collapse)
      moreover have "sv_redis (end_run env spec ''store unavailable'' sv2) = sv_redis sv2" by (simp add: end_run_def)
      moreover have "r = Inl (EqStore e)" "sv' = end_run env spec ''store unavailable'' sv2"
        using assms(2) pend put Inr Inl by (auto simp: enqueue_def)
      ultimately show thesis using k2 by (intro unstored) auto
    next
      case ok: (Inr res)
      show thesis
      proof (cases res)
        case RunExisted
        with put_run_result [OF put' [unfolded ok]] assms(2) pend put Inr ok k2 show thesis
          by (intro existed) (auto simp: enqueue_def)
      next
        case RunStored
        note stored = put_run_result [OF put' [unfolded ok]]
        obtain t sv3 where push: "on_redis (push_run (en_txt env) (en_fate env AtPush) ?nm) sv2 = (t, sv3)" by fastforce
        have s3: "sv_store sv3 = sv_store sv2" and k3: "known ?e (sv_redis sv3)"
          using push push_known [OF k2, of "en_fate env AtPush"] by (auto simp: on_redis_res)
        have res: "enqueue env spec opf sv = (case t of
            Inl e \<Rightarrow> (case opf of PushEnd \<Rightarrow> (Inl (EqPush e), end_run env spec (''queue push failed: '' @ e) sv3) | LeaveToSweep \<Rightarrow> (Inr RunStored, sv3))
          | Inr u \<Rightarrow> (Inr RunStored, sv3))"
          using pend put push Inr ok RunStored by (cases t) (simp_all add: enqueue_def)
        show thesis
        proof (cases "\<exists>e. t = Inl e \<and> opf = PushEnd")
          case True
          then obtain e where t: "t = Inl e" "opf = PushEnd" by blast
          let ?ev = "run_failed_event env spec FInfrastructure (''queue push failed: '' @ e)"
          have "get_run ?nm (snd (append_events (en_store_now env) ?nm [?ev] (sv_store sv2)))
              = Some \<lparr>sr_spec = spec, sr_events = queued_events env spec @ [?ev]\<rparr>"
            using stored_can_end(2) [OF put' [unfolded ok RunStored], of ?ev] queued_waiting by (simp add: run_failed_event_def)
          with res t assms(2) s3 k3 show thesis by (intro ended [of e]) (auto simp: end_run_def)
        next
          case False
          then have "enqueue env spec opf sv = (Inr RunStored, sv3)" using res by (cases t; cases opf) auto
          with assms(2) stored RunStored s3 k3 show thesis by (intro queued) auto
        qed
      qed
    qed
  qed
qed

section \<open>Children\<close>

lemma child_spec_built:
  assumes "child_spec env queue request s = Some (Inr spec)"
  shows "queue \<and> stopped (rs_run_id (cr_parent request)) s = Some False
    \<and> rs_owner spec = rs_owner (cr_parent request) \<and> rs_limits spec = cr_limits request \<and> rs_input spec = cr_input request
    \<and> set (rs_capabilities spec) \<subseteq> set (rs_capabilities (cr_parent request))
    \<and> lin_parent (rs_lineage spec) = Some (rs_run_id (cr_parent request))
    \<and> lin_hop (rs_lineage spec) = saturating_add (lin_hop (rs_lineage (cr_parent request))) 1
    \<and> (\<exists>agent. get_agent (cr_agent_id request) s = Some agent \<and> same_principal (sa_owner agent) (rs_owner (cr_parent request))
         \<and> rs_agent_id spec = mf_id (sa_manifest agent))"
  using assms
  by (auto simp: child_spec_def Let_def builder_defs split: if_splits option.splits bool.splits)

lemma enqueue_child_started:
  assumes "store_ok (sv_store sv)" and "enqueue_child env queue spec sv = (Inr child, sv')"
  shows "sc_run_id child = rs_run_id spec
    \<and> (\<exists>run. get_run (sc_run_id child) (sv_store sv') = Some run \<and> rs_limits (sr_spec run) = sc_limits child
         \<and> \<not> never_ran (sr_events run)
         \<and> (get_run (sc_run_id child) (sv_store sv) = None \<longrightarrow>
              sr_spec run = spec \<and> known (qt_show (en_txt env) (sc_run_id child)) (sv_redis sv')))"
proof -
  obtain r sv1 where enq: "enqueue env spec LeaveToSweep sv = (r, sv1)" by fastforce
  have fresh: "\<not> never_ran (queued_events env spec)"
    using waiting_open [OF queued_waiting] by (simp add: never_ran_def)
  have settled: "sv_store (snd (settle_existing env nm evs sv1)) = sv_store sv1" for nm evs
    by (auto simp: settle_existing_def on_redis_res split: sum.split prod.split)
  from assms(1) enq show ?thesis
  proof (cases rule: enqueue_cases)
    case existed
    then obtain run where run: "get_run (rs_run_id spec) (sv_store sv1) = Some run" by auto
    with assms(2) enq existed settled show ?thesis
      by (auto simp: enqueue_child_def split: if_splits)
  next
    case queued
    with assms(2) enq fresh show ?thesis by (auto simp: enqueue_child_def split: if_splits)
  qed (use assms(2) enq in \<open>auto simp: enqueue_child_def split: if_splits\<close>)
qed

section \<open>Properties\<close>

text \<open>C24. A run is never stranded between the store and the queue: whatever each call to Redis comes to,
  after \<open>enqueue\<close> a run it stored is pending, queued, claimed or parked; it reports success only for a
  run that is stored and known to the queue, and an error only when it changed nothing in the store
  or the run it stored has ended.\<close>

theorem enqueue_never_strands:
  assumes "store_ok (sv_store sv)" and "enqueue env spec opf sv = (r, sv')"
  shows "(get_run (rs_run_id spec) (sv_store sv) = None
            \<longrightarrow> get_run (rs_run_id spec) (sv_store sv') = None \<or> known (qt_show (en_txt env) (rs_run_id spec)) (sv_redis sv'))
    \<and> (\<forall>put. r = Inr put \<longrightarrow> get_run (rs_run_id spec) (sv_store sv') \<noteq> None
         \<and> known (qt_show (en_txt env) (rs_run_id spec)) (sv_redis sv'))
    \<and> (\<forall>e. r = Inl e \<longrightarrow> sv_store sv' = sv_store sv
         \<or> (\<exists>run. get_run (rs_run_id spec) (sv_store sv') = Some run \<and> list_ex is_end_event (sr_events run)))"
  using assms by (cases rule: enqueue_cases) (auto simp: run_failed_event_def)

definition sample_txt :: queue_text where
  "sample_txt = \<lparr>qt_show = (\<lambda>nm. dec (unat (run_uuid nm))), qt_parse = (\<lambda>t. Inr (RunId (of_nat (undec t)))),
     qt_show_ask = (\<lambda>nm. dec (unat (message_uuid nm))), qt_parse_ask = (\<lambda>t. Some (MessageId (of_nat (undec t)))), qt_debug = (\<lambda>t. t)\<rparr>"

definition sample_env :: "(redis_call \<Rightarrow> fate) \<Rightarrow> env" where
  "sample_env fates = \<lparr>en_txt = sample_txt,
     en_uuid = canonical_ops,
     en_draw = (\<lambda>payload. (EventId 7, 0)), en_store_now = 1, en_redis_now = 1, en_fate = fates, en_fresh = 99,
     en_message = MessageId 55, en_now = 1\<rparr>"

definition sample_server :: server where
  "sample_server = \<lparr>sv_store = store_default, sv_redis = redis_empty\<rparr>"

theorem enqueue_never_strands_witness:
  "let env = sample_env (\<lambda>c. if c = AtPush then AnswerLost ''timeout'' else Answered);
       sv' = snd (enqueue env sample_spec PushEnd sample_server)
   in get_run (RunId 1) (sv_store sv') = None \<or> known (qt_show sample_txt (RunId 1)) (sv_redis sv')"
proof -
  let ?env = "sample_env (\<lambda>c. if c = AtPush then AnswerLost ''timeout'' else Answered)"
  have "store_ok (sv_store sample_server)" by (simp add: sample_server_def store_ok_default)
  moreover have "get_run (RunId 1) (sv_store sample_server) = None"
    by (simp add: sample_server_def get_run_def lock_read_def store_default_def mutex_new_def)
  ultimately show ?thesis
    using enqueue_never_strands [of sample_server ?env sample_spec PushEnd "fst (enqueue ?env sample_spec PushEnd sample_server)"
        "snd (enqueue ?env sample_spec PushEnd sample_server)"]
    by (simp add: Let_def sample_spec_def sample_env_def)
qed


definition spawn_server :: server where
  "spawn_server = sample_server\<lparr>sv_store := snd (put_agent (sample_agent (rs_owner sample_spec)) store_default)\<rparr>"

definition spawn_request :: child_request where
  "spawn_request = \<lparr>cr_parent = sample_spec, cr_step = 1, cr_agent_id = AgentId 2, cr_input = ''x'', cr_limits = \<lparr>max_steps = 1, max_model_calls = 1\<rparr>\<rparr>"

lemma spawn_sample:
  "\<exists>child sv'. spawner_start (sample_env (\<lambda>c. Answered)) True spawn_request spawn_server = Some (Inr child, sv')"
proof -
  let ?env = "sample_env (\<lambda>c. Answered)"
  have stop: "stopped (RunId 1) (sv_store spawn_server) = Some False"
    by (simp add: stopped_def stopped_up.simps spawn_server_def sample_server_def put_agent_def store_default_def mutex_new_def
        lock_write_def lock_read_def Let_def)
  have agent: "get_agent (AgentId 2) (sv_store spawn_server) = Some (sample_agent (rs_owner sample_spec))"
    by (simp add: spawn_server_def put_agent_def store_default_def mutex_new_def lock_write_def lock_read_def get_agent_def sample_agent_def Let_def)
  have "\<exists>spec. child_spec ?env True spawn_request (sv_store spawn_server) = Some (Inr spec)"
    using stop agent
    by (simp add: child_spec_def spawn_request_def Let_def same_principal_def sample_agent_def build_def build_id_def builder_defs
        sample_spec_def split: option.split prod.split)
  then obtain spec where spec: "child_spec ?env True spawn_request (sv_store spawn_server) = Some (Inr spec)" by blast
  have ok: "store_ok (sv_store spawn_server)"
    by (simp add: spawn_server_def sample_server_def same_log_ok [OF other_same_log(1) store_ok_default])
  have none: "get_run (rs_run_id spec) (sv_store spawn_server) = None"
    by (simp add: spawn_server_def sample_server_def put_agent_def store_default_def mutex_new_def lock_write_def lock_read_def get_run_def Let_def)
  obtain r sv1 where enq: "enqueue ?env spec LeaveToSweep spawn_server = (r, sv1)" by fastforce
  have "r = Inr RunStored"
  proof -
    have pend: "fst (pend sample_txt Answered 1 (rs_run_id spec) q) = Inr ()" for q by (simp add: pend_def with_redis_def)
    have "fst (put_run 1 \<lparr>sr_spec = spec, sr_events = queued_events ?env spec\<rparr> (sv_store spawn_server)) = Inr RunStored"
      by (simp add: put_run_def queued_events_def user_message_event_def check_one_terminal_def lock_write_def spawn_server_def
          sample_server_def put_agent_def store_default_def mutex_new_def number_def Let_def)
    with enq pend show ?thesis
      by (auto simp: enqueue_def sample_env_def Let_def on_redis_res on_store_res split: prod.splits sum.splits)
        (metis fst_conv sum.simps put_run_result.simps)+
  qed
  with enq spec show ?thesis by (simp add: spawner_start_def enqueue_child_def)
qed


end
