(* ===== verification/Turns.thy ===== *)
theory Turns
  imports Server_Spawner
begin

text \<open>
  Coworker turns and their sandboxes (\<open>crates/server/src/inference.rs\<close>): the names of containers and
  volumes, the sandbox host and the in-memory one, and the turns that open, finish and end on them.
  A host is a record of operations on its own state; the locale \<open>sandbox_host\<close> states what a turn
  relies on, and is interpreted on \<open>MemorySandbox\<close>. The locks of that host are taken with \<open>expect\<close>
  and never poisoned by its own methods. The gateway is a parameter. The lemmas show that no turn
  ends while its sandbox is up.
\<close>

section \<open>Names\<close>

definition box_container_name :: "queue_text \<Rightarrow> run_id \<Rightarrow> string" where
  "box_container_name qt run = ''gol-box-'' @ qt_show qt run"

definition box_attempt_name :: "queue_text \<Rightarrow> run_id \<Rightarrow> u32 \<Rightarrow> string" where
  "box_attempt_name qt run attempt = ''gol-box-'' @ qt_show qt run @ ''-'' @ dec (unat attempt)"

definition is_ascii_upper :: "char \<Rightarrow> bool" where
  "is_ascii_upper c \<longleftrightarrow> 65 \<le> (of_char c :: nat) \<and> (of_char c :: nat) \<le> 90"

definition is_ascii_number :: "char \<Rightarrow> bool" where
  "is_ascii_number c \<longleftrightarrow> 48 \<le> (of_char c :: nat) \<and> (of_char c :: nat) \<le> 57"

definition strip_prefix :: "string \<Rightarrow> string \<Rightarrow> string option" where
  "strip_prefix p s = (if is_prefix p s then Some (drop (length p) s) else None)"

definition parse_run :: "queue_text \<Rightarrow> string \<Rightarrow> run_id option" where
  "parse_run qt s = (case qt_parse qt s of Inl e \<Rightarrow> None | Inr run \<Rightarrow> Some run)"

definition attempt_ok :: "string \<Rightarrow> bool" where
  "attempt_ok attempt \<longleftrightarrow>
     attempt = [] \<or> (case strip_prefix ''-'' attempt of None \<Rightarrow> False | Some n \<Rightarrow> n \<noteq> [] \<and> list_all is_ascii_number n)"

definition box_run_of :: "queue_text \<Rightarrow> string \<Rightarrow> run_id option" where
  "box_run_of qt name =
     (case strip_prefix ''gol-box-'' name of
        None \<Rightarrow> None
      | Some rest \<Rightarrow>
          if \<not> is_char_boundary rest 36 then None
          else
            let run = take 36 rest; attempt = drop 36 rest in
            if list_ex is_ascii_upper run then None
            else if \<not> attempt_ok attempt then None
            else parse_run qt run)"

definition box_workspace_volume :: "string \<Rightarrow> string" where
  "box_workspace_volume run = ''gol-workspace-'' @ run"

definition workspace_run_of :: "queue_text \<Rightarrow> string \<Rightarrow> run_id option" where
  "workspace_run_of qt name =
     (case strip_prefix ''gol-workspace-'' name of
        None \<Rightarrow> None
      | Some run \<Rightarrow> if length run \<noteq> 36 \<or> list_ex is_ascii_upper run then None else parse_run qt run)"

definition workspace_mount :: "string \<Rightarrow> string" where
  "workspace_mount run = box_workspace_volume run @ '':/workspace''"

record computer_plan =
  cp_image :: string
  cp_started_by :: string
  cp_command :: string
  cp_started :: bool
  cp_name :: string

definition box_command :: "queue_text \<Rightarrow> string \<Rightarrow> run_id \<Rightarrow> string" where
  "box_command qt name run =
     ''docker create --name '' @ name @ '' -v '' @ workspace_mount (qt_show qt run)
       @ '' --entrypoint /bin/sh gol-agent:production -c true && docker start -a '' @ name @ '' && docker rm -f '' @ name"

definition computer_for :: "queue_text \<Rightarrow> execution_placement \<Rightarrow> run_id \<Rightarrow> bool \<Rightarrow> computer_plan" where
  "computer_for qt placement run started =
     (if placement = Box
      then let name = box_container_name qt run
           in \<lparr>cp_image = ''gol-agent:production'', cp_started_by = ''server'', cp_command = box_command qt name run,
               cp_started = started, cp_name = name\<rparr>
      else \<lparr>cp_image = ''gol-agent:local'', cp_started_by = ''desktop'',
            cp_command = ''docker run --rm -d --name gol-agent-local -v '' @ workspace_mount (qt_show qt run) @ '' gol-agent:local'',
            cp_started = False, cp_name = ''gol-agent-local''\<rparr>)"

definition computer_plan_of :: "queue_text \<Rightarrow> execution_placement \<Rightarrow> run_id \<Rightarrow> computer_plan" where
  "computer_plan_of qt placement run = computer_for qt placement run False"

section \<open>Sandbox hosts\<close>

record 'h sandbox =
  sb_provision :: "string \<Rightarrow> 'h \<Rightarrow> (string + unit) \<times> 'h"
  sb_destroy :: "string \<Rightarrow> 'h \<Rightarrow> (string + unit) \<times> 'h"
  sb_absent :: "string \<Rightarrow> 'h \<Rightarrow> (string + bool) \<times> 'h"
  sb_list :: "'h \<Rightarrow> (string + string list) \<times> 'h"
  sb_list_volumes :: "'h \<Rightarrow> (string + string list) \<times> 'h"
  sb_remove_volume :: "string \<Rightarrow> 'h \<Rightarrow> (string + unit) \<times> 'h"
  sb_launches_docker :: bool

text \<open>The in-memory host. A \<open>HashSet\<close> is a list without doubles.\<close>

record memory_sandbox =
  mb_live :: "string list"
  mb_provisioned :: "string list"
  mb_volumes :: "string list"

definition memory_sandbox_default :: memory_sandbox where
  "memory_sandbox_default = \<lparr>mb_live = [], mb_provisioned = [], mb_volumes = []\<rparr>"

definition mem_provision :: "queue_text \<Rightarrow> string \<Rightarrow> memory_sandbox \<Rightarrow> (string + unit) \<times> memory_sandbox" where
  "mem_provision qt name h =
     (if name = [] \<or> name = ''gol-agent-box'' then (Inl (''refusing sandbox name '' @ name), h)
      else if name \<in> set (mb_live h) then (Inl (''sandbox '' @ name @ '' is already in use''), h)
      else (Inr (),
            h\<lparr>mb_live := name # mb_live h, mb_provisioned := mb_provisioned h @ [name],
              mb_volumes := (case box_run_of qt name of
                               None \<Rightarrow> mb_volumes h
                             | Some run \<Rightarrow> List.insert (box_workspace_volume (qt_show qt run)) (mb_volumes h))\<rparr>))"

definition mem_destroy :: "string \<Rightarrow> memory_sandbox \<Rightarrow> (string + unit) \<times> memory_sandbox" where
  "mem_destroy name h =
     (if name \<in> set (mb_live h) then (Inr (), h\<lparr>mb_live := removeAll name (mb_live h)\<rparr>)
      else (Inl (''sandbox '' @ name @ '' is not running''), h))"

definition mem_exists :: "string \<Rightarrow> memory_sandbox \<Rightarrow> bool" where
  "mem_exists name h \<longleftrightarrow> name \<in> set (mb_live h)"

definition mem_absent :: "string \<Rightarrow> memory_sandbox \<Rightarrow> (string + bool) \<times> memory_sandbox" where
  "mem_absent name h = (Inr (\<not> mem_exists name h), h)"

definition mem_list :: "memory_sandbox \<Rightarrow> (string + string list) \<times> memory_sandbox" where
  "mem_list h = (Inr (sort (filter (is_prefix ''gol-box-'') (mb_live h))), h)"

definition mem_list_volumes :: "memory_sandbox \<Rightarrow> (string + string list) \<times> memory_sandbox" where
  "mem_list_volumes h = (Inr (sort (mb_volumes h)), h)"

definition mem_remove_volume :: "queue_text \<Rightarrow> string \<Rightarrow> memory_sandbox \<Rightarrow> (string + unit) \<times> memory_sandbox" where
  "mem_remove_volume qt name h =
     (let run = workspace_run_of qt name in
      if run \<noteq> None \<and> list_ex (\<lambda>sandbox. box_run_of qt sandbox = run) (mb_live h)
      then (Inl (''volume '' @ name @ '' is in use''), h)
      else if name \<notin> set (mb_volumes h) then (Inl (''no such volume: '' @ name), h)
      else (Inr (), h\<lparr>mb_volumes := removeAll name (mb_volumes h)\<rparr>))"

definition memory_host :: "queue_text \<Rightarrow> memory_sandbox sandbox" where
  "memory_host qt =
     \<lparr>sb_provision = mem_provision qt, sb_destroy = mem_destroy, sb_absent = mem_absent, sb_list = mem_list,
      sb_list_volumes = mem_list_volumes, sb_remove_volume = mem_remove_volume qt, sb_launches_docker = False\<rparr>"

text \<open>
  The Docker host. The command that runs \<open>docker\<close> is a parameter (\<open>RunDocker\<close> and \<open>DockerOutput\<close>):
  it answers for its arguments and changes the state of the Docker daemon. The lines of an answer are
  read through \<open>trim\<close>, which takes off a carriage return with the other white space.
\<close>

record 'd docker =
  dk_command :: "string list \<Rightarrow> 'd \<Rightarrow> (string + unit) \<times> 'd"
  dk_output :: "string list \<Rightarrow> 'd \<Rightarrow> (string + string) \<times> 'd"

fun split_lines :: "string \<Rightarrow> string list" where
  "split_lines [] = []"
| "split_lines (c # cs) =
     (if c = CHR 0x0A then [] # split_lines cs
      else case split_lines cs of [] \<Rightarrow> [[c]] | l # ls \<Rightarrow> (c # l) # ls)"

definition trimmed_lines :: "string \<Rightarrow> string list" where
  "trimmed_lines s = map (\<lambda>l. trim_end (trim_start l)) (split_lines s)"

fun str_contains :: "string \<Rightarrow> string \<Rightarrow> bool" where
  "str_contains needle [] = (needle = [])"
| "str_contains needle (c # cs) = (is_prefix needle (c # cs) \<or> str_contains needle cs)"

text \<open>A character of UTF-8 starts at a byte that is not a continuation byte.\<close>

definition continues :: "char \<Rightarrow> bool" where
  "continues c \<longleftrightarrow> 128 \<le> (of_char c :: nat) \<and> (of_char c :: nat) < 192"

definition char_count :: "string \<Rightarrow> nat" where
  "char_count s = length (filter (\<lambda>c. \<not> continues c) s)"

fun take_chars :: "nat \<Rightarrow> string \<Rightarrow> string" where
  "take_chars n [] = []"
| "take_chars n (c # cs) =
     (if continues c then c # take_chars n cs
      else case n of 0 \<Rightarrow> [] | Suc m \<Rightarrow> c # take_chars m cs)"

definition MAX_DOCKER_ERROR :: nat where
  "MAX_DOCKER_ERROR = 512"

definition last_line :: "string \<Rightarrow> string" where
  "last_line message =
     (let line = (case find (\<lambda>l. l \<noteq> []) (rev (trimmed_lines message)) of None \<Rightarrow> [] | Some l \<Rightarrow> l) in
      if char_count line \<le> MAX_DOCKER_ERROR then line
      else take_chars MAX_DOCKER_ERROR line @ [CHR 0xE2, CHR 0x80, CHR 0xA6])"

definition docker_command :: "'d docker \<Rightarrow> string list \<Rightarrow> 'd \<Rightarrow> (string + unit) \<times> 'd" where
  "docker_command dk args d =
     (case dk_command dk args d of (Inl message, d1) \<Rightarrow> (Inl (last_line message), d1) | (Inr u, d1) \<Rightarrow> (Inr (), d1))"

definition docker_mount :: "queue_text \<Rightarrow> string \<Rightarrow> string" where
  "docker_mount qt name =
     (case box_run_of qt name of
        Some run \<Rightarrow> workspace_mount (qt_show qt run)
      | None \<Rightarrow> workspace_mount (case strip_prefix ''gol-box-'' name of None \<Rightarrow> name | Some rest \<Rightarrow> rest))"

definition docker_provision :: "queue_text \<Rightarrow> 'd docker \<Rightarrow> string \<Rightarrow> 'd \<Rightarrow> (string + unit) \<times> 'd" where
  "docker_provision qt dk name d =
     (if name = [] \<or> name = ''gol-agent-box'' then (Inl (''refusing sandbox name '' @ name), d)
      else
        (case docker_command dk [''create'', ''--name'', name, ''-v'', docker_mount qt name, ''--entrypoint'', ''/bin/sh'',
                                 ''gol-agent:production'', ''-c'', ''true''] d of
           (Inl e, d1) \<Rightarrow> (Inl e, d1)
         | (Inr u, d1) \<Rightarrow>
             (case docker_command dk [''start'', ''-a'', name] d1 of
                (Inl e, d2) \<Rightarrow> (Inl e, snd (docker_command dk [''rm'', ''-f'', name] d2))
              | (Inr u, d2) \<Rightarrow> (Inr (), d2))))"

definition docker_destroy :: "'d docker \<Rightarrow> string \<Rightarrow> 'd \<Rightarrow> (string + unit) \<times> 'd" where
  "docker_destroy dk name d = docker_command dk [''rm'', ''-f'', name] d"

definition docker_exists :: "'d docker \<Rightarrow> string \<Rightarrow> 'd \<Rightarrow> bool \<times> 'd" where
  "docker_exists dk name d =
     (case docker_command dk [''inspect'', ''--type'', ''container'', name] d of (r, d1) \<Rightarrow> (r = Inr (), d1))"

definition docker_absent :: "'d docker \<Rightarrow> string \<Rightarrow> 'd \<Rightarrow> (string + bool) \<times> 'd" where
  "docker_absent dk name d =
     (case dk_command dk [''inspect'', ''--type'', ''container'', name] d of
        (Inr u, d1) \<Rightarrow> (Inr False, d1)
      | (Inl message, d1) \<Rightarrow>
          if str_contains ''No such container'' message then (Inr True, d1) else (Inl (last_line message), d1))"

definition docker_listing :: "'d docker \<Rightarrow> string list \<Rightarrow> string \<Rightarrow> 'd \<Rightarrow> (string + string list) \<times> 'd" where
  "docker_listing dk args prefix d =
     (case dk_output dk args d of
        (Inl message, d1) \<Rightarrow> (Inl (last_line message), d1)
      | (Inr listed, d1) \<Rightarrow> (Inr (filter (is_prefix prefix) (trimmed_lines listed)), d1))"

definition docker_list :: "'d docker \<Rightarrow> 'd \<Rightarrow> (string + string list) \<times> 'd" where
  "docker_list dk =
     docker_listing dk [''ps'', ''--all'', ''--filter'', ''name=gol-box-'', ''--format'', ''{{.Names}}''] ''gol-box-''"

definition docker_list_volumes :: "'d docker \<Rightarrow> 'd \<Rightarrow> (string + string list) \<times> 'd" where
  "docker_list_volumes dk =
     docker_listing dk [''volume'', ''ls'', ''--filter'', ''name=gol-workspace-'', ''--format'', ''{{.Name}}''] ''gol-workspace-''"

definition docker_remove_volume :: "'d docker \<Rightarrow> string \<Rightarrow> 'd \<Rightarrow> (string + unit) \<times> 'd" where
  "docker_remove_volume dk name d = docker_command dk [''volume'', ''rm'', name] d"

definition docker_host :: "queue_text \<Rightarrow> 'd docker \<Rightarrow> 'd sandbox" where
  "docker_host qt dk =
     \<lparr>sb_provision = docker_provision qt dk, sb_destroy = docker_destroy dk, sb_absent = docker_absent dk,
      sb_list = docker_list dk, sb_list_volumes = docker_list_volumes dk, sb_remove_volume = docker_remove_volume dk,
      sb_launches_docker = True\<rparr>"

section \<open>Turns\<close>

record gateway_call =
  gc_run_id :: run_id
  gc_input :: string
  gc_model_name :: string
  gc_placement :: execution_placement

definition gateway_call_of :: "run_spec \<Rightarrow> gateway_call" where
  "gateway_call_of spec =
     \<lparr>gc_run_id = rs_run_id spec, gc_input = rs_input spec, gc_model_name = wm_model_name (rs_work_model spec),
      gc_placement = rs_placement spec\<rparr>"

text \<open>The gateway over HTTP. Sending a request and reading the \<open>text\<close> of its JSON answer are a parameter.\<close>

record gateway_request =
  gr_endpoint :: string
  gr_timeout_ms :: nat
  gr_headers :: "(string \<times> string) list"
  gr_input :: string
  gr_model :: string
  gr_placement :: string

record http_poster =
  hp_url :: string
  hp_token :: string
  hp_timeout_ms :: nat

definition GATEWAY_TIMEOUT_MS :: nat where
  "GATEWAY_TIMEOUT_MS = 600 * 1000"

definition poster_from_env :: "string option \<Rightarrow> string option \<Rightarrow> http_poster" where
  "poster_from_env url token =
     \<lparr>hp_url = (case url of None \<Rightarrow> ''http://127.0.0.1:43124'' | Some u \<Rightarrow> u),
      hp_token = (case token of None \<Rightarrow> ''gol-gateway-local'' | Some t \<Rightarrow> t), hp_timeout_ms = GATEWAY_TIMEOUT_MS\<rparr>"

definition ascii_lower :: "char \<Rightarrow> char" where
  "ascii_lower c = (if is_ascii_upper c then char_of ((of_char c :: nat) + 32) else c)"

definition provider_hosts :: "string list" where
  "provider_hosts = [''anthropic.com'', ''openai.com'', ''chatgpt.com'', ''x.ai'', ''grok.com'']"

definition ensure_fixture_proxy :: "string \<Rightarrow> string + unit" where
  "ensure_fixture_proxy url =
     (case find (\<lambda>host. str_contains host (map ascii_lower url)) provider_hosts of
        None \<Rightarrow> Inr ()
      | Some host \<Rightarrow> Inl (''refusing to call '' @ host @ ''; the fixture proxy is local''))"

fun placement_name :: "execution_placement \<Rightarrow> string" where
  "placement_name Local = ''Local''"
| "placement_name Reverse = ''Reverse''"
| "placement_name Box = ''Box''"

definition trim_end_slashes :: "string \<Rightarrow> string" where
  "trim_end_slashes s = rev (dropWhile (\<lambda>c. c = CHR ''/'') (rev s))"

definition gateway_request_of :: "http_poster \<Rightarrow> gateway_call \<Rightarrow> gateway_request" where
  "gateway_request_of p call =
     \<lparr>gr_endpoint = trim_end_slashes (hp_url p) @ ''/v1/gateway/complete'', gr_timeout_ms = hp_timeout_ms p,
      gr_headers = [(''authorization'', ''Bearer '' @ hp_token p), (''content-type'', ''application/json''),
                    (''x-gol-caller'', ''server'')],
      gr_input = gc_input call, gr_model = gc_model_name call, gr_placement = placement_name (gc_placement call)\<rparr>"

definition http_complete :: "(gateway_request \<Rightarrow> string + string option) \<Rightarrow> http_poster \<Rightarrow> gateway_call \<Rightarrow> string + string" where
  "http_complete post p call =
     (case ensure_fixture_proxy (hp_url p) of
        Inl e \<Rightarrow> Inl e
      | Inr u \<Rightarrow>
          (case post (gateway_request_of p call) of
             Inl e \<Rightarrow> Inl e
           | Inr None \<Rightarrow> Inl ''proxy response missing text''
           | Inr (Some words) \<Rightarrow> Inr words))"

record turn_outcome =
  to_spec :: run_spec
  to_events :: "event list"
  to_completion :: "string option"
  to_credential_mode :: string
  to_computer :: computer_plan

datatype turn_error =
  TurnProxy string | TurnSandbox string | TurnStore string | TurnNotFound | TurnConflict string | TurnBadRequest string

definition TURN_KEY :: string where
  "TURN_KEY = ''gol.turn''"

definition is_turn :: "run_spec \<Rightarrow> bool" where
  "is_turn spec \<longleftrightarrow> rs_metadata spec TURN_KEY \<noteq> None"

text \<open>An event of an actor, as \<open>push\<close> records it.\<close>

definition actor_event :: "env \<Rightarrow> run_spec \<Rightarrow> actor \<Rightarrow> event_payload \<Rightarrow> event" where
  "actor_event env spec act payload =
     (let (fresh, at) = en_draw env payload in record_event fresh (for_spec spec act at) payload)"

definition completion_events :: "env \<Rightarrow> run_spec \<Rightarrow> string \<Rightarrow> event list" where
  "completion_events env spec words =
     [actor_event env spec ActorGateway (ModelResponded \<lparr>mm_role = RoleAssistant, mm_text = words\<rparr> None),
      actor_event env spec ActorSystem (RunCompleted words)]"

definition end_failed :: "env \<Rightarrow> run_spec \<Rightarrow> failure_class \<Rightarrow> string \<Rightarrow> store \<Rightarrow> store" where
  "end_failed env spec cls message s =
     snd (append_events (en_store_now env) (rs_run_id spec) [run_failed_event env spec cls message] s)"

definition record_completion :: "env \<Rightarrow> run_id \<Rightarrow> event list \<Rightarrow> store \<Rightarrow> (turn_error + unit) \<times> store" where
  "record_completion env run events s =
     (case append_events (en_store_now env) run events s of
        (Inl e, s1) \<Rightarrow> (Inl (TurnStore (error_message e)), s1)
      | (Inr Appended, s1) \<Rightarrow> (Inr (), s1)
      | (Inr AppendTerminal, s1) \<Rightarrow> (Inl (TurnConflict ''turn already completed''), s1)
      | (Inr AppendMissing, s1) \<Rightarrow> (Inl TurnNotFound, s1)
      | (Inr AppendMoved, s1) \<Rightarrow> (Inl (TurnStore ''the run log moved''), s1))"

definition credential_mode :: "credential_source \<Rightarrow> string" where
  "credential_mode cred = (case cred of PlatformGateway \<Rightarrow> ''gateway'' | BringYourOwn r \<Rightarrow> ''subscription'')"

text \<open>The rest of a turn once its sandbox is up: \<open>finish_turn\<close> from the gateway call on.\<close>

definition finish_provisioned ::
    "env \<Rightarrow> (gateway_call \<Rightarrow> string + string) \<Rightarrow> 'h sandbox \<Rightarrow> run_spec \<Rightarrow> event list \<Rightarrow> store \<Rightarrow> 'h
     \<Rightarrow> (turn_error + turn_outcome) \<times> store \<times> 'h" where
  "finish_provisioned env complete sb spec events s h =
     (let box_turn = (rs_placement spec = Box);
          name = box_container_name (en_txt env) (rs_run_id spec);
          mode = credential_mode (wm_credential (rs_work_model spec));
          computer = computer_for (en_txt env) (rs_placement spec) (rs_run_id spec) (box_turn \<and> sb_launches_docker sb)
      in case wm_credential (rs_work_model spec) of
           BringYourOwn r \<Rightarrow>
             (Inr \<lparr>to_spec = spec, to_events = events, to_completion = None, to_credential_mode = mode, to_computer = computer\<rparr>, s, h)
         | PlatformGateway \<Rightarrow>
             (case complete (gateway_call_of spec) of
                Inl message \<Rightarrow>
                  (let (removed, h1) = (if \<not> box_turn then (True, h)
                                        else case sb_destroy sb name h of (r, h1) \<Rightarrow> (r = Inr (), h1))
                   in (Inl (TurnProxy message),
                       if removed then end_failed env spec FDependency (''proxy: '' @ message) s else s, h1))
              | Inr words \<Rightarrow>
                  (case (if box_turn then sb_destroy sb name h else (Inr (), h)) of
                     (Inl e, h1) \<Rightarrow> (Inl (TurnSandbox e), s, h1)
                   | (Inr u, h1) \<Rightarrow>
                       (case record_completion env (rs_run_id spec) (completion_events env spec words) s of
                          (Inl e, s1) \<Rightarrow> (Inl e, s1, h1)
                        | (Inr u, s1) \<Rightarrow>
                            (Inr \<lparr>to_spec = spec, to_events = events @ completion_events env spec words,
                                  to_completion = Some words, to_credential_mode = mode, to_computer = computer\<rparr>, s1, h1)))))"

definition finish_turn ::
    "env \<Rightarrow> (gateway_call \<Rightarrow> string + string) \<Rightarrow> 'h sandbox \<Rightarrow> run_spec \<Rightarrow> event list \<Rightarrow> store \<Rightarrow> 'h
     \<Rightarrow> (turn_error + turn_outcome) \<times> store \<times> 'h" where
  "finish_turn env complete sb spec events s h =
     (let name = box_container_name (en_txt env) (rs_run_id spec) in
      if rs_placement spec \<noteq> Box then finish_provisioned env complete sb spec events s h
      else
        (case sb_provision sb name h of
           (Inr u, h1) \<Rightarrow> finish_provisioned env complete sb spec events s h1
         | (Inl message, h1) \<Rightarrow>
             (case sb_absent sb name h1 of
                (gone, h2) \<Rightarrow>
                  (Inl (TurnSandbox message),
                   if gone = Inr True then end_failed env spec FEnvironment (''provision: '' @ message) s else s, h2))))"

definition opening_events :: "env \<Rightarrow> run_spec \<Rightarrow> event list" where
  "opening_events env spec =
     [actor_event env spec ActorSystem RunCreated, actor_event env spec ActorSystem RunStarted,
      actor_event env spec ActorSystem (UserMessage (rs_input spec))]"

definition open_turn ::
    "env \<Rightarrow> (gateway_call \<Rightarrow> string + string) \<Rightarrow> 'h sandbox \<Rightarrow> run_spec \<Rightarrow> store \<Rightarrow> 'h
     \<Rightarrow> (turn_error + turn_outcome) \<times> store \<times> 'h" where
  "open_turn env complete sb spec s h =
     (case put_run (en_store_now env) \<lparr>sr_spec = spec, sr_events = opening_events env spec\<rparr> s of
        (Inl e, s1) \<Rightarrow> (Inl (TurnStore (error_message e)), s1, h)
      | (Inr put, s1) \<Rightarrow> finish_turn env complete sb spec (opening_events env spec) s1 h)"

fun is_user_message :: "event_payload \<Rightarrow> bool" where
  "is_user_message (UserMessage words) = True"
| "is_user_message _ = False"

definition check_open_turn :: "stored_run \<Rightarrow> turn_error + unit" where
  "check_open_turn stored =
     (if list_ex is_end_event (sr_events stored) then Inl (TurnConflict ''turn already completed'')
      else if \<not> (case harness (fold_run (sr_spec stored) (sr_events stored)) of
                   HRunning step attempt answered \<Rightarrow> \<not> answered | _ \<Rightarrow> False)
        then Inl (TurnConflict ''turn is not open'')
      else if \<not> list_ex (\<lambda>ev. is_user_message (ev_payload ev)) (sr_events stored)
        then Inl (TurnConflict ''user message is not recorded'')
      else Inr ())"

text \<open>The stored run of a subscription turn that may end now.\<close>

definition open_subscription :: "string \<Rightarrow> run_id \<Rightarrow> store \<Rightarrow> turn_error + stored_run" where
  "open_subscription refusal run s =
     (case get_run run s of
        None \<Rightarrow> Inl TurnNotFound
      | Some stored \<Rightarrow>
          if wm_credential (rs_work_model (sr_spec stored)) = PlatformGateway then Inl (TurnConflict refusal)
          else (case check_open_turn stored of Inl e \<Rightarrow> Inl e | Inr u \<Rightarrow> Inr stored))"

definition accept_subscription_completion ::
    "env \<Rightarrow> 'h sandbox \<Rightarrow> run_id \<Rightarrow> string \<Rightarrow> store \<Rightarrow> 'h \<Rightarrow> (turn_error + turn_outcome) \<times> store \<times> 'h" where
  "accept_subscription_completion env sb run raw s h =
     (let words = trim_end (trim_start raw) in
      if words = [] then (Inl (TurnBadRequest ''completion text is empty''), s, h)
      else
        (case open_subscription ''gateway completions come from the server'' run s of
           Inl e \<Rightarrow> (Inl e, s, h)
         | Inr stored \<Rightarrow>
             (let spec = sr_spec stored;
                  name = box_container_name (en_txt env) (rs_run_id spec);
                  done = (\<lambda>h. case record_completion env (rs_run_id spec) (completion_events env spec words) s of
                            (Inl e, s1) \<Rightarrow> (Inl e, s1, h)
                          | (Inr u, s1) \<Rightarrow>
                              (Inr \<lparr>to_spec = spec, to_events = sr_events stored @ completion_events env spec words,
                                    to_completion = Some words, to_credential_mode = ''subscription'',
                                    to_computer = computer_plan_of (en_txt env) (rs_placement spec) (rs_run_id spec)\<rparr>, s1, h))
              in if rs_placement spec \<noteq> Box then done h
                 else
                   (case sb_absent sb name h of
                      (Inl e, h1) \<Rightarrow> (Inl (TurnSandbox e), s, h1)
                    | (Inr True, h1) \<Rightarrow> (Inl (TurnSandbox ''box sandbox is gone before the turn completed''), s, h1)
                    | (Inr False, h1) \<Rightarrow>
                        (case sb_destroy sb name h1 of
                           (Inl e, h2) \<Rightarrow> (Inl (TurnSandbox e), s, h2)
                         | (Inr u, h2) \<Rightarrow> done h2)))))"

definition fail_turn ::
    "env \<Rightarrow> 'h sandbox \<Rightarrow> run_id \<Rightarrow> string \<Rightarrow> store \<Rightarrow> 'h \<Rightarrow> (turn_error + turn_outcome) \<times> store \<times> 'h" where
  "fail_turn env sb run raw s h =
     (let message = trim_end (trim_start raw) in
      if message = [] then (Inl (TurnBadRequest ''failure message is empty''), s, h)
      else
        (case open_subscription ''gateway turns end on the server'' run s of
           Inl e \<Rightarrow> (Inl e, s, h)
         | Inr stored \<Rightarrow>
             (let spec = sr_spec stored;
                  name = box_container_name (en_txt env) (rs_run_id spec);
                  failed = run_failed_event env spec FDependency message;
                  done = (\<lambda>h. case record_completion env run [failed] s of
                            (Inl e, s1) \<Rightarrow> (Inl e, s1, h)
                          | (Inr u, s1) \<Rightarrow>
                              (Inr \<lparr>to_spec = spec, to_events = sr_events stored @ [failed], to_completion = None,
                                    to_credential_mode = ''subscription'',
                                    to_computer = computer_plan_of (en_txt env) (rs_placement spec) (rs_run_id spec)\<rparr>, s1, h))
              in if rs_placement spec \<noteq> Box then done h
                 else
                   (case sb_absent sb name h of
                      (Inl e, h1) \<Rightarrow> (Inl (TurnSandbox e), s, h1)
                    | (Inr True, h1) \<Rightarrow> done h1
                    | (Inr False, h1) \<Rightarrow>
                        (case sb_destroy sb name h1 of
                           (Inl e, h2) \<Rightarrow> (Inl (TurnSandbox e), s, h2)
                         | (Inr u, h2) \<Rightarrow> done h2)))))"

section \<open>What a turn relies on\<close>

locale sandbox_host =
  fixes sb :: "'h sandbox" and live :: "'h \<Rightarrow> string set"
  assumes destroy_gone: "sb_destroy sb name h = (Inr (), h') \<Longrightarrow> name \<notin> live h'"
    and destroy_only: "live (snd (sb_destroy sb name h)) \<subseteq> live h"
    and absent_gone: "sb_absent sb name h = (Inr True, h') \<Longrightarrow> name \<notin> live h'"
    and absent_same: "live (snd (sb_absent sb name h)) = live h"
    and provision_only: "live (snd (sb_provision sb name h)) \<subseteq> insert name (live h)"
begin

text \<open>Nothing is written to the store of a Box turn while its sandbox is up.\<close>

lemma finish_provisioned_safe:
  assumes "finish_provisioned env complete sb spec events s h = (r, s', h')" and "s' \<noteq> s" and "rs_placement spec = Box"
  shows "box_container_name (en_txt env) (rs_run_id spec) \<notin> live h'"
  using assms
  by (auto simp: finish_provisioned_def Let_def
      split: credential_source.splits sum.splits prod.splits if_splits dest: destroy_gone)

lemma finish_turn_safe:
  assumes "finish_turn env complete sb spec events s h = (r, s', h')" and "s' \<noteq> s" and "rs_placement spec = Box"
  shows "box_container_name (en_txt env) (rs_run_id spec) \<notin> live h'"
  using assms
  by (auto simp: finish_turn_def Let_def split: sum.splits prod.splits if_splits
      dest: finish_provisioned_safe absent_gone)

lemma accept_safe:
  assumes "accept_subscription_completion env sb run raw s h = (r, s', h')" and "s' \<noteq> s"
    and "get_run run s = Some stored" and "rs_placement (sr_spec stored) = Box"
  shows "box_container_name (en_txt env) (rs_run_id (sr_spec stored)) \<notin> live h'"
  using assms
  by (auto simp: accept_subscription_completion_def open_subscription_def Let_def
      split: sum.splits prod.splits if_splits bool.splits dest: destroy_gone)

lemma fail_safe:
  assumes "fail_turn env sb run raw s h = (r, s', h')" and "s' \<noteq> s"
    and "get_run run s = Some stored" and "rs_placement (sr_spec stored) = Box"
  shows "box_container_name (en_txt env) (rs_run_id (sr_spec stored)) \<notin> live h'"
  using assms
  by (auto simp: fail_turn_def open_subscription_def Let_def
      split: sum.splits prod.splits if_splits bool.splits dest: destroy_gone absent_gone)

end

interpretation memory: sandbox_host "memory_host qt" "\<lambda>h. set (mb_live h)"
  by unfold_locales
    (auto simp: memory_host_def mem_destroy_def mem_absent_def mem_exists_def mem_provision_def split: if_splits)

text \<open>The Docker commands a sandbox relies on, as the documentation of Docker states them.\<close>

definition docker_ok :: "'d docker \<Rightarrow> ('d \<Rightarrow> string set) \<Rightarrow> bool" where
  "docker_ok dk live \<longleftrightarrow>
     (\<forall>name d d'. dk_command dk [''rm'', ''-f'', name] d = (Inr (), d') \<longrightarrow> name \<notin> live d') \<and>
     (\<forall>name d. live (snd (dk_command dk [''rm'', ''-f'', name] d)) \<subseteq> live d) \<and>
     (\<forall>name d d' message. dk_command dk [''inspect'', ''--type'', ''container'', name] d = (Inl message, d') \<longrightarrow>
        str_contains ''No such container'' message \<longrightarrow> name \<notin> live d') \<and>
     (\<forall>name d. live (snd (dk_command dk [''inspect'', ''--type'', ''container'', name] d)) = live d) \<and>
     (\<forall>name mount d. live (snd (dk_command dk [''create'', ''--name'', name, ''-v'', mount, ''--entrypoint'', ''/bin/sh'',
        ''gol-agent:production'', ''-c'', ''true''] d)) \<subseteq> insert name (live d)) \<and>
     (\<forall>name d. live (snd (dk_command dk [''start'', ''-a'', name] d)) \<subseteq> live d)"

lemma snd_docker_command [simp]: "snd (docker_command dk args d) = snd (dk_command dk args d)"
  by (simp add: docker_command_def split: prod.split sum.split)

lemma docker_command_Inr: "docker_command dk args d = (Inr u, d') \<longleftrightarrow> dk_command dk args d = (Inr u, d')"
  by (auto simp: docker_command_def split: prod.split sum.split)

lemma docker_provision_only:
  assumes "docker_ok dk live"
  shows "live (snd (docker_provision qt dk name d)) \<subseteq> insert name (live d)"
proof -
  let ?args = "[''create'', ''--name'', name, ''-v'', docker_mount qt name, ''--entrypoint'', ''/bin/sh'',
     ''gol-agent:production'', ''-c'', ''true'']"
  have created: "live (snd (docker_command dk ?args d)) \<subseteq> insert name (live d)"
    using assms unfolding docker_ok_def by (simp only: snd_docker_command)
  have started: "live (snd (docker_command dk [''start'', ''-a'', name] e)) \<subseteq> live e" for e
    using assms unfolding docker_ok_def by (simp only: snd_docker_command)
  have removed: "live (snd (docker_command dk [''rm'', ''-f'', name] e)) \<subseteq> live e" for e
    using assms unfolding docker_ok_def by (simp only: snd_docker_command)
  obtain r1 d1 where c: "docker_command dk ?args d = (r1, d1)" by fastforce
  obtain r2 d2 where t: "docker_command dk [''start'', ''-a'', name] d1 = (r2, d2)" by fastforce
  have "live d1 \<subseteq> insert name (live d)" "live d2 \<subseteq> live d1" using created started [of d1] c t by simp_all
  with removed [of d2] show ?thesis
    unfolding docker_provision_def c t by (auto simp del: snd_docker_command simp: t split: sum.split)
qed

lemma docker_sandbox_host: "docker_ok dk live \<Longrightarrow> sandbox_host (docker_host qt dk) live"
proof unfold_locales
  assume ok: "docker_ok dk live"
  show "name \<notin> live h'" if "sb_destroy (docker_host qt dk) name h = (Inr (), h')" for name h h'
    using ok that unfolding docker_ok_def by (auto simp: docker_host_def docker_destroy_def docker_command_Inr)
  show "live (snd (sb_destroy (docker_host qt dk) name h)) \<subseteq> live h" for name h
    using ok unfolding docker_ok_def by (simp add: docker_host_def docker_destroy_def)
  show "name \<notin> live h'" if "sb_absent (docker_host qt dk) name h = (Inr True, h')" for name h h'
    using ok that unfolding docker_ok_def
    by (auto simp: docker_host_def docker_absent_def split: prod.splits sum.splits if_splits)
  show "live (snd (sb_absent (docker_host qt dk) name h)) = live h" for name h
  proof -
    have "snd (docker_absent dk name h) = snd (dk_command dk [''inspect'', ''--type'', ''container'', name] h)"
      by (simp add: docker_absent_def split: prod.split sum.split)
    with ok show ?thesis unfolding docker_ok_def by (simp add: docker_host_def)
  qed
  show "live (snd (sb_provision (docker_host qt dk) name h)) \<subseteq> insert name (live h)" for name h
    using docker_provision_only [OF ok] by (simp add: docker_host_def)
qed

section \<open>What is stored\<close>

lemma append_events_stored:
  assumes "append_events t nm events s = (Inr Appended, s')"
  obtains old where "get_run nm s = Some old" "get_run nm s' = Some (old\<lparr>sr_events := sr_events old @ events\<rparr>)"
    "\<not> list_ex is_end_event (sr_events old)"
proof (cases rule: append_cases [of t nm None events s])
  case (appended s1 old)
  with assms have "s1 = s'" by (simp add: append_events_def)
  with appended that show thesis by (simp add: get_run_def lock_read_def update_conv')
next
  case (unchanged r)
  with assms show thesis by (simp add: append_events_def)
qed

lemma record_completion_stored:
  assumes "record_completion env nm events s = (Inr u, s')" and "get_run nm s = Some old"
  shows "get_run nm s' = Some (old\<lparr>sr_events := sr_events old @ events\<rparr>)"
  using assms
  by (auto simp: record_completion_def split: prod.splits sum.splits append_result.splits elim!: append_events_stored)

lemma put_run_fresh:
  assumes "put_run t run s = (Inr v, s')" and "get_run (rs_run_id (sr_spec run)) s = None"
  shows "get_run (rs_run_id (sr_spec run)) s' = Some run"
proof (cases rule: put_run_cases [of t run s])
  case (stored s1)
  with assms(1) show ?thesis by (simp add: get_run_def lock_read_def update_conv')
next
  case (unchanged r)
  with assms show ?thesis
    by (auto simp: put_run_def get_run_def lock_read_def lock_write_def Let_def split: sum.splits if_splits option.splits prod.splits)
next
  case (unordered e s1)
  with assms(1) show ?thesis by simp
qed

lemma finish_turn_stored:
  assumes "finish_turn env complete sb spec events s h = (Inr out, s', h')"
    and "get_run (rs_run_id spec) s = Some \<lparr>sr_spec = spec, sr_events = events\<rparr>"
  shows "get_run (rs_run_id spec) s' = Some \<lparr>sr_spec = spec, sr_events = to_events out\<rparr> \<and>
     to_events out = events @ (case to_completion out of None \<Rightarrow> [] | Some words \<Rightarrow> completion_events env spec words) \<and>
     (to_completion out = None \<longleftrightarrow> wm_credential (rs_work_model spec) \<noteq> PlatformGateway)"
  using assms
  by (auto simp: finish_turn_def finish_provisioned_def Let_def dest: record_completion_stored
      split: credential_source.splits sum.splits prod.splits if_splits)

lemma append_events_fits:
  assumes "\<not> mx_poisoned (so_runs s)" "\<not> mx_poisoned (so_outbox s)" "get_run nm s = Some old"
    and "\<not> list_ex is_end_event (sr_events old)" "terminal_last events"
  shows "\<exists>s'. append_events t nm events s = (Inr Appended, s')"
  using assms check_one_terminal_iff [of events "()"]
  by (auto simp: append_events_def append_checked_def number_def lock_write_def get_run_def lock_read_def Let_def)

lemma put_run_fits:
  assumes "\<not> mx_poisoned (so_runs s)" "\<not> mx_poisoned (so_outbox s)" "\<not> mx_poisoned (so_stored s)"
    and "get_run (rs_run_id (sr_spec run)) s = None" "terminal_last (sr_events run)"
  shows "\<exists>s'. put_run t run s = (Inr RunStored, s') \<and> \<not> mx_poisoned (so_runs s') \<and> \<not> mx_poisoned (so_outbox s')"
  using assms check_one_terminal_iff [of "sr_events run" "()"]
  by (auto simp: put_run_def number_def lock_write_def get_run_def lock_read_def Let_def)

lemma actor_event_payload [simp]: "ev_payload (actor_event env spec act payload) = payload"
  by (simp add: actor_event_def record_event_def split: prod.split)

lemma run_failed_payload [simp]: "ev_payload (run_failed_event env spec cls message) = RunFailed cls message"
  by (simp add: run_failed_event_def system_event_def record_event_def split: prod.split)

lemma opening_open [simp]: "\<not> list_ex is_end_event (opening_events env spec)" "terminal_last (opening_events env spec)"
  by (simp_all add: opening_events_def terminal_last_def)

lemma completion_events_end: "list_ex is_end_event (completion_events env spec words)"
  "terminal_last (completion_events env spec words)"
  by (simp_all add: completion_events_def terminal_last_def)

definition turn_ended :: "run_spec \<Rightarrow> store \<Rightarrow> bool" where
  "turn_ended spec s \<longleftrightarrow> (\<exists>log. get_run (rs_run_id spec) s = Some \<lparr>sr_spec = spec, sr_events = log\<rparr> \<and> list_ex is_end_event log)"

lemma end_failed_ends:
  assumes "\<not> mx_poisoned (so_runs s)" "\<not> mx_poisoned (so_outbox s)"
    and "get_run (rs_run_id spec) s = Some \<lparr>sr_spec = spec, sr_events = opening_events env spec\<rparr>"
  shows "turn_ended spec (end_failed env spec cls message s)"
proof -
  obtain s' where app: "append_events (en_store_now env) (rs_run_id spec) [run_failed_event env spec cls message] s = (Inr Appended, s')"
    using append_events_fits [OF assms(1,2,3)] by (fastforce simp: terminal_last_def)
  from append_events_stored [OF app] obtain old where "get_run (rs_run_id spec) s = Some old"
    "get_run (rs_run_id spec) s' = Some (old\<lparr>sr_events := sr_events old @ [run_failed_event env spec cls message]\<rparr>)" .
  with assms(3) show ?thesis by (auto simp: end_failed_def app turn_ended_def)
qed

lemma record_completion_ends:
  assumes "\<not> mx_poisoned (so_runs s)" "\<not> mx_poisoned (so_outbox s)"
    and "get_run (rs_run_id spec) s = Some \<lparr>sr_spec = spec, sr_events = opening_events env spec\<rparr>"
  shows "\<exists>s'. record_completion env (rs_run_id spec) (completion_events env spec words) s = (Inr (), s') \<and> turn_ended spec s'"
proof -
  obtain s' where app: "append_events (en_store_now env) (rs_run_id spec) (completion_events env spec words) s = (Inr Appended, s')"
    using append_events_fits [OF assms(1,2,3)] completion_events_end [of env spec words] by fastforce
  have "record_completion env (rs_run_id spec) (completion_events env spec words) s = (Inr (), s')"
    by (simp add: record_completion_def app)
  moreover from append_events_stored [OF app] obtain old where "get_run (rs_run_id spec) s = Some old"
    "get_run (rs_run_id spec) s' = Some (old\<lparr>sr_events := sr_events old @ completion_events env spec words\<rparr>)" .
  with assms(3) completion_events_end(1) [of env spec words] have "turn_ended spec s'"
    by (auto simp: turn_ended_def)
  ultimately show ?thesis by blast
qed

lemma box_name_accepted: "box_container_name qt run \<noteq> [] \<and> box_container_name qt run \<noteq> ''gol-agent-box''"
  by (simp add: box_container_name_def)

lemma finish_turn_ends:
  assumes ok: "\<not> mx_poisoned (so_runs s)" "\<not> mx_poisoned (so_outbox s)"
    and stored: "get_run (rs_run_id spec) s = Some \<lparr>sr_spec = spec, sr_events = opening_events env spec\<rparr>"
    and gateway: "wm_credential (rs_work_model spec) = PlatformGateway"
    and free: "\<not> mem_exists (box_container_name (en_txt env) (rs_run_id spec)) h"
  shows "\<exists>r s' h'. finish_turn env complete (memory_host qt) spec (opening_events env spec) s h = (r, s', h') \<and> turn_ended spec s'"
proof -
  let ?name = "box_container_name (en_txt env) (rs_run_id spec)"
  have up: "\<exists>h1. sb_provision (memory_host qt) ?name h = (Inr (), h1) \<and> ?name \<in> set (mb_live h1)"
    using free box_name_accepted [of "en_txt env" "rs_run_id spec"]
    by (simp add: memory_host_def mem_provision_def mem_exists_def)
  have ends: "\<exists>r s' h'. finish_provisioned env complete (memory_host qt) spec (opening_events env spec) s h1 = (r, s', h') \<and> turn_ended spec s'"
    if "rs_placement spec = Box \<longrightarrow> ?name \<in> set (mb_live h1)" for h1
  proof (cases "complete (gateway_call_of spec)")
    case (Inl message)
    with that gateway end_failed_ends [OF ok stored] show ?thesis
      by (auto simp: finish_provisioned_def Let_def memory_host_def mem_destroy_def)
  next
    case (Inr words)
    from record_completion_ends [OF ok stored, of words] that gateway Inr show ?thesis
      by (auto simp: finish_provisioned_def Let_def memory_host_def mem_destroy_def)
  qed
  from up ends show ?thesis
    by (cases "rs_placement spec = Box") (auto simp: finish_turn_def Let_def)
qed


definition sample_docker :: "string list docker" where
  "sample_docker =
     \<lparr>dk_command = (\<lambda>args d.
        if hd args = ''create'' then (Inr (), args ! 2 # d)
        else if hd args = ''rm'' then (Inr (), removeAll (args ! 2) d)
        else if hd args = ''inspect'' then (if args ! 3 \<in> set d then (Inr (), d) else (Inl ''No such container'', d))
        else (Inr (), d)),
      dk_output = (\<lambda>args d. (Inr [], d))\<rparr>"

lemma sample_docker_ok: "docker_ok sample_docker set"
  by (auto simp: docker_ok_def sample_docker_def)

definition box_spec :: run_spec where
  "box_spec = sample_spec\<lparr>rs_placement := Box\<rparr>"

definition turn_store :: store where
  "turn_store = store_default\<lparr>so_runs := mutex_new [(RunId 1, \<lparr>sr_spec = box_spec, sr_events = []\<rparr>)]\<rparr>"

lemma box_spec_simps [simp]: "rs_placement box_spec = Box" "rs_run_id box_spec = RunId 1"
  "wm_credential (rs_work_model box_spec) = wm_credential (rs_work_model sample_spec)"
  by (simp_all add: box_spec_def sample_spec_def)


text \<open>The same holds when the desktop ends its subscription turn, completed or failed: on the in-memory
  host the store changes only after the sandbox is gone.\<close>

theorem subscription_end_without_sandbox:
  assumes "get_run run s = Some stored" and "rs_placement (sr_spec stored) = Box"
    and "accept_subscription_completion env (memory_host qt) run raw s h = (r, s', h') \<or>
         fail_turn env (memory_host qt) run raw s h = (r, s', h')"
    and "s' \<noteq> s"
  shows "\<not> mem_exists (box_container_name (en_txt env) (rs_run_id (sr_spec stored))) h'"
  using assms memory.accept_safe [of env qt run raw s h r s' h' stored] memory.fail_safe [of env qt run raw s h r s' h' stored]
  by (auto simp: mem_exists_def)

text \<open>The outcome of a turn that opened on a new run is what the store holds: its log is the opening
  events and, for the platform gateway and only then, the completion of the words the gateway gave.\<close>

theorem open_turn_stored:
  assumes "open_turn env complete sb spec s h = (Inr out, s', h')" and "get_run (rs_run_id spec) s = None"
  shows "get_run (rs_run_id spec) s' = Some \<lparr>sr_spec = spec, sr_events = to_events out\<rparr>
    \<and> to_events out = opening_events env spec @ (case to_completion out of None \<Rightarrow> [] | Some words \<Rightarrow> completion_events env spec words)
    \<and> (to_completion out = None \<longleftrightarrow> wm_credential (rs_work_model spec) \<noteq> PlatformGateway)"
proof -
  from assms(1) obtain put s1 where put: "put_run (en_store_now env) \<lparr>sr_spec = spec, sr_events = opening_events env spec\<rparr> s = (Inr put, s1)"
    and fin: "finish_turn env complete sb spec (opening_events env spec) s1 h = (Inr out, s', h')"
    by (auto simp: open_turn_def split: prod.splits sum.splits)
  from put_run_fresh [OF put] assms(2)
  have "get_run (rs_run_id spec) s1 = Some \<lparr>sr_spec = spec, sr_events = opening_events env spec\<rparr>" by simp
  from finish_turn_stored [OF fin this] show ?thesis .
qed

text \<open>A turn on the platform gateway is over when \<open>open_turn\<close> returns, whatever the gateway answered:
  with a store whose locks are not poisoned and a free sandbox name, its run is stored and its log has ended.\<close>

theorem gateway_turn_ends:
  assumes "\<not> mx_poisoned (so_runs s)" "\<not> mx_poisoned (so_outbox s)" "\<not> mx_poisoned (so_stored s)"
    and "get_run (rs_run_id spec) s = None" and "wm_credential (rs_work_model spec) = PlatformGateway"
    and "\<not> mem_exists (box_container_name (en_txt env) (rs_run_id spec)) h"
  shows "\<exists>r s' h'. open_turn env complete (memory_host qt) spec s h = (r, s', h') \<and> turn_ended spec s'"
proof -
  let ?run = "\<lparr>sr_spec = spec, sr_events = opening_events env spec\<rparr>"
  obtain s1 where put: "put_run (en_store_now env) ?run s = (Inr RunStored, s1)"
    and ok: "\<not> mx_poisoned (so_runs s1)" "\<not> mx_poisoned (so_outbox s1)"
    using put_run_fits [OF assms(1-3), of ?run "en_store_now env"] assms(4) by auto
  have "get_run (rs_run_id spec) s1 = Some ?run" using put_run_fresh [OF put] assms(4) by simp
  from finish_turn_ends [OF ok this assms(5,6)] show ?thesis by (simp add: open_turn_def put)
qed

theorem gateway_turn_ends_witness:
  "\<exists>r s' h'. open_turn (sample_env (\<lambda>c. Answered)) (\<lambda>call. Inl ''down'') (memory_host sample_txt) box_spec store_default memory_sandbox_default
     = (r, s', h') \<and> turn_ended box_spec s'"
  by (rule gateway_turn_ends)
    (simp_all add: store_default_def mutex_new_def get_run_def lock_read_def mem_exists_def memory_sandbox_default_def sample_spec_def)

theorem open_turn_stored_witness:
  "\<exists>out s' h'. open_turn (sample_env (\<lambda>c. Answered)) (\<lambda>call. Inr ''hi'') (memory_host sample_txt) sample_spec store_default
       memory_sandbox_default = (Inr out, s', h') \<and> get_run (RunId 1) s' = Some \<lparr>sr_spec = sample_spec, sr_events = to_events out\<rparr>"
proof -
  let ?env = "sample_env (\<lambda>c. Answered)"
  obtain r s' h' where turn: "open_turn ?env (\<lambda>call. Inr ''hi'') (memory_host sample_txt) sample_spec store_default
       memory_sandbox_default = (r, s', h')" by (metis prod_cases3)
  then obtain out where out: "r = Inr out"
    by (auto simp: open_turn_def put_run_def finish_turn_def finish_provisioned_def Let_def memory_host_def record_completion_def append_events_def
        append_checked_def store_default_def mutex_new_def lock_write_def number_def check_one_terminal_def completion_events_def
        opening_events_def sample_spec_def)
  have "rs_run_id sample_spec = RunId 1" by (simp add: sample_spec_def)
  with open_turn_stored [OF turn [unfolded out]] turn out show ?thesis
    by (auto simp: get_run_def lock_read_def store_default_def mutex_new_def)
qed

definition own_spec :: run_spec where
  "own_spec = box_spec\<lparr>rs_work_model := \<lparr>wm_provider = OpenAI, wm_model_name = ''m'', wm_credential = BringYourOwn ''k''\<rparr>\<rparr>"

definition open_run :: stored_run where
  "open_run = \<lparr>sr_spec = own_spec, sr_events = map sample_event [RunCreated, RunStarted, UserMessage ''go'']\<rparr>"

definition own_store :: store where
  "own_store = store_default\<lparr>so_runs := mutex_new [(RunId 1, open_run)]\<rparr>"

lemma open_run_open: "check_open_turn open_run = Inr ()"
  by code_simp

lemma trim_lost: "trim_end (trim_start ''lost'') = ''lost''"
  by code_simp

theorem subscription_end_without_sandbox_witness:
  "\<exists>r s' h'. fail_turn (sample_env (\<lambda>c. Answered)) (memory_host sample_txt) (RunId 1) ''lost'' own_store
       \<lparr>mb_live = [''gol-box-1''], mb_provisioned = [], mb_volumes = []\<rparr> = (r, s', h')
     \<and> s' \<noteq> own_store \<and> \<not> mem_exists ''gol-box-1'' h'"
proof -
  let ?env = "sample_env (\<lambda>c. Answered)" and ?h = "\<lparr>mb_live = [''gol-box-1''], mb_provisioned = [], mb_volumes = []\<rparr>"
  have stored: "get_run (RunId 1) own_store = Some open_run"
    by (simp add: get_run_def lock_read_def own_store_def mutex_new_def)
  have spec: "sr_spec open_run = own_spec" "rs_placement own_spec = Box" "rs_run_id own_spec = RunId 1"
    "wm_credential (rs_work_model own_spec) = BringYourOwn ''k''"
    by (simp_all add: open_run_def own_spec_def)
  have qt: "en_txt ?env = sample_txt" and now: "en_store_now ?env = 1" by (simp_all add: sample_env_def)
  have name: "box_container_name sample_txt (RunId 1) = ''gol-box-1''"
    by (simp add: box_container_name_def sample_txt_def dec.simps digit_def)
  obtain r s' h' where turn: "fail_turn ?env (memory_host sample_txt) (RunId 1) ''lost'' own_store ?h = (r, s', h')"
    by (metis prod_cases3)
  have sub: "open_subscription refusal (RunId 1) own_store = Inr open_run" for refusal
    by (simp add: open_subscription_def stored spec open_run_open)
  let ?failed = "run_failed_event ?env own_spec FDependency ''lost''"
  obtain s1 where app: "append_events 1 (RunId 1) [?failed] own_store = (Inr Appended, s1)"
    using append_events_fits [OF _ _ stored, of "[?failed]" 1]
    by (auto simp: own_store_def store_default_def mutex_new_def open_run_def sample_event_def record_event_def terminal_last_def)
  from turn have "s' = s1"
    by (simp add: fail_turn_def trim_lost sub spec qt name memory_host_def mem_absent_def mem_exists_def mem_destroy_def
        record_completion_def Let_def app now)
  from append_events_stored [OF app] obtain old where "get_run (RunId 1) own_store = Some old"
    "get_run (RunId 1) s1 = Some (old\<lparr>sr_events := sr_events old @ [?failed]\<rparr>)" .
  then have "get_run (RunId 1) s1 \<noteq> get_run (RunId 1) own_store" by (cases old) simp
  with \<open>s' = s1\<close> have "s' \<noteq> own_store" by auto
  with turn subscription_end_without_sandbox [OF stored _ disjI2 [OF turn]] spec qt name show ?thesis by auto
qed

lemma dec_digits: "dec n \<noteq> [] \<and> list_all is_ascii_number (dec n)"
proof (induction n rule: dec.induct)
  case (1 n)
  have "is_ascii_number (digit d)" if "d < 10" for d
    using less_10_cases [OF that] by (auto simp: digit_def is_ascii_number_def)
  with 1 show ?case by (cases "n < 10") (auto simp: dec.simps [of n])
qed

text \<open>The name of a run's sandbox, with or without the attempt, names that run again, so the sweeps find
  the run of every sandbox gol made.\<close>

theorem box_name_names_run:
  assumes "qt_parse qt (qt_show qt run) = Inr run" and "length (qt_show qt run) = 36"
    and "\<not> list_ex is_ascii_upper (qt_show qt run)"
  shows "box_run_of qt (box_container_name qt run) = Some run \<and> box_run_of qt (box_attempt_name qt run n) = Some run
    \<and> workspace_run_of qt (box_workspace_volume (qt_show qt run)) = Some run"
  using assms dec_digits [of "unat n"]
  by (simp add: box_run_of_def box_container_name_def box_attempt_name_def strip_prefix_def is_prefix_def parse_run_def
      attempt_ok_def is_char_boundary_def nth_append workspace_run_of_def box_workspace_volume_def Let_def)

definition uuid_txt :: queue_text where
  "uuid_txt = sample_txt\<lparr>qt_show := (\<lambda>run. ''00000000-0000-0000-0000-000000000007''), qt_parse := (\<lambda>s. Inr (RunId 7))\<rparr>"

theorem box_name_names_run_witness:
  "box_run_of uuid_txt (box_attempt_name uuid_txt (RunId 7) 12) = Some (RunId 7)"
  using box_name_names_run [of uuid_txt "RunId 7" 12] by (simp add: uuid_txt_def is_ascii_upper_def)

end
