(* ===== verification/Webhook.thy ===== *)
theory Webhook
  imports Store_Base
begin

text \<open>
  The check of a webhook request (\<open>crates/server/src/webhook.rs\<close>) and the secret of a webhook trigger
  (\<open>triggers.rs\<close>). A header and a body are bytes. HMAC-SHA256 of the ring crate is a parameter: the tag
  of a message under a key, and a tag is verified by comparing it. The lemmas show that a header is
  read exactly in its form, that a printed tag reads back, and that the signed bytes determine the
  event, the timestamp and the body they were joined from.
\<close>

definition MAX_SKEW_S :: int where
  "MAX_SKEW_S = 300"

definition MAX_EVENT_ID :: nat where
  "MAX_EVENT_ID = 128"

section \<open>Headers\<close>

definition hex_digit_value :: "char \<Rightarrow> nat option" where
  "hex_digit_value c =
     (let d = (of_char c :: nat) in
      if 48 \<le> d \<and> d \<le> 57 then Some (d - 48)
      else if 97 \<le> d \<and> d \<le> 102 then Some (d - 97 + 10)
      else if 65 \<le> d \<and> d \<le> 70 then Some (d - 65 + 10)
      else None)"

text \<open>The loop over the pairs of digits; the first that is not one ends it.\<close>

fun parse_tag :: "string \<Rightarrow> string option" where
  "parse_tag (high # low # rest) =
     (case hex_digit_value high of
        None \<Rightarrow> None
      | Some h \<Rightarrow>
          (case hex_digit_value low of
             None \<Rightarrow> None
           | Some l \<Rightarrow> map_option (Cons (char_of (h * 16 + l))) (parse_tag rest)))"
| "parse_tag _ = Some []"

definition parse_signature :: "string \<Rightarrow> string option" where
  "parse_signature header =
     (if \<not> is_prefix ''v1='' header then None
      else let hex = drop 3 header in if length hex \<noteq> 64 then None else parse_tag hex)"

definition is_ascii_digit :: "char \<Rightarrow> bool" where
  "is_ascii_digit c \<longleftrightarrow> 48 \<le> (of_char c :: nat) \<and> (of_char c :: nat) \<le> 57"

definition is_ascii_graphic :: "char \<Rightarrow> bool" where
  "is_ascii_graphic c \<longleftrightarrow> 33 \<le> (of_char c :: nat) \<and> (of_char c :: nat) \<le> 126"

definition parse_timestamp :: "string \<Rightarrow> int option" where
  "parse_timestamp header =
     (if header = [] \<or> 12 < length header \<or> \<not> list_all is_ascii_digit header then None
      else Some (int (undec header)))"

definition is_event_id :: "string \<Rightarrow> bool" where
  "is_event_id header \<longleftrightarrow>
     header \<noteq> [] \<and> length header \<le> MAX_EVENT_ID \<and> list_all (\<lambda>b. is_ascii_graphic b \<and> b \<noteq> CHR ''.'') header"

section \<open>The check\<close>

definition plausible :: "string \<Rightarrow> string \<Rightarrow> int \<Rightarrow> bool" where
  "plausible timestamp signature now_s \<longleftrightarrow>
     parse_signature signature \<noteq> None
     \<and> (case parse_timestamp timestamp of None \<Rightarrow> False | Some at \<Rightarrow> \<bar>now_s - at\<bar> \<le> MAX_SKEW_S)"

record request =
  rq_event :: string
  rq_timestamp :: string
  rq_signature :: string
  rq_body :: string

text \<open>The bytes a request signs.\<close>

definition signed_message :: "request \<Rightarrow> string" where
  "signed_message req = rq_event req @ ''.'' @ rq_timestamp req @ ''.'' @ rq_body req"

definition verify :: "(string \<Rightarrow> string \<Rightarrow> string) \<Rightarrow> string \<Rightarrow> request \<Rightarrow> int \<Rightarrow> bool" where
  "verify hmac secret req now_s =
     (case parse_signature (rq_signature req) of
        None \<Rightarrow> False
      | Some tag \<Rightarrow>
          if \<not> is_event_id (rq_event req) \<or> \<not> plausible (rq_timestamp req) (rq_signature req) now_s then False
          else hmac secret (signed_message req) = tag)"

section \<open>Secrets\<close>

text \<open>\<open>format!("{byte:02x}")\<close>\<close>

definition hex_byte :: "char \<Rightarrow> string" where
  "hex_byte c = [hex_digit (of_char c div 16), hex_digit (of_char c mod 16)]"

definition hex_bytes :: "string \<Rightarrow> string" where
  "hex_bytes bytes = concat (map hex_byte bytes)"

text \<open>The secret of a webhook trigger; none for a schedule.\<close>

definition secret_message :: "uuid_ops \<Rightarrow> trigger_id \<Rightarrow> u32 \<Rightarrow> string" where
  "secret_message ops nm rotation =
     ''gol-webhook-v1:'' @ uuid_to_string ops (trigger_uuid nm) @ '':'' @ dec (unat rotation)"

definition webhook_secret ::
    "(string \<Rightarrow> string \<Rightarrow> string) \<Rightarrow> uuid_ops \<Rightarrow> string \<Rightarrow> stored_trigger \<Rightarrow> string option" where
  "webhook_secret hmac ops key t =
     (case tr_kind t of
        Schedule cron zone \<Rightarrow> None
      | Webhook rotation \<Rightarrow> Some (hex_bytes (hmac key (secret_message ops (tr_id t) rotation))))"

section \<open>Reading\<close>

lemma hex_digit_value_less: "hex_digit_value c = Some d \<Longrightarrow> d < 16"
  by (auto simp: hex_digit_value_def Let_def split: if_splits)

lemma hex_digit_value_printed: "d < 16 \<Longrightarrow> hex_digit_value (hex_digit d) = Some d"
proof -
  assume "d < 16"
  then have "d = 0 \<or> d = 1 \<or> d = 2 \<or> d = 3 \<or> d = 4 \<or> d = 5 \<or> d = 6 \<or> d = 7 \<or> d = 8 \<or> d = 9 \<or> d = 10 \<or> d = 11
    \<or> d = 12 \<or> d = 13 \<or> d = 14 \<or> d = 15" by arith
  then show ?thesis by (auto simp: hex_digit_def hex_digit_value_def)
qed

lemma parse_tag_printed: "parse_tag (hex_bytes bytes) = Some bytes"
proof (induction bytes)
  case (Cons b bs)
  have "(of_char b :: nat) < 16 * 16" by simp
  then have "(of_char b :: nat) div 16 < 16" "(of_char b :: nat) mod 16 < 16"
    by (simp_all only: less_mult_imp_div_less mod_less_divisor zero_less_numeral)
  moreover have "(of_char b :: nat) div 16 * 16 + of_char b mod 16 = of_char b" by simp
  ultimately show ?case using Cons.IH by (simp add: hex_bytes_def hex_byte_def hex_digit_value_printed)
qed (simp add: hex_bytes_def)

lemma length_hex_bytes: "length (hex_bytes bytes) = 2 * length bytes"
  by (induction bytes) (simp_all add: hex_bytes_def hex_byte_def)

lemma parse_tag_length: "parse_tag hex = Some tag \<Longrightarrow> even (length hex) \<Longrightarrow> 2 * length tag = length hex"
  by (induction hex arbitrary: tag rule: parse_tag.induct) (auto split: option.splits)

lemma parse_tag_none: "even (length hex) \<Longrightarrow> parse_tag hex = None \<longleftrightarrow> \<not> list_all (\<lambda>c. hex_digit_value c \<noteq> None) hex"
proof (induction hex rule: parse_tag.induct)
  case (1 high low rest)
  then show ?case by (cases "hex_digit_value high"; cases "hex_digit_value low") auto
qed auto

lemma ascii_digit: "d < 10 \<Longrightarrow> is_ascii_digit (digit d)"
  by (drule less_10_cases) (auto simp: digit_def is_ascii_digit_def)

lemma dec_ascii: "list_all is_ascii_digit (dec n) \<and> dec n \<noteq> []"
proof (induction n rule: dec.induct)
  case (1 n)
  then show ?case
    using ascii_digit [of n] ascii_digit [of "n mod 10"] by (cases "n < 10") (auto simp: dec.simps [of n])
qed

text \<open>An event id has no dot and a timestamp only digits, so the first two dots of the signed bytes are
  the ones that join them.\<close>

lemma no_dot:
  "is_event_id event \<Longrightarrow> CHR ''.'' \<notin> set event" "parse_timestamp timestamp = Some at \<Longrightarrow> CHR ''.'' \<notin> set timestamp"
  by (auto simp: is_event_id_def parse_timestamp_def list_all_iff is_ascii_digit_def split: if_splits)

lemma signed_message_inject:
  assumes "is_event_id (rq_event a)" and "is_event_id (rq_event b)"
    and "parse_timestamp (rq_timestamp a) = Some s" and "parse_timestamp (rq_timestamp b) = Some t"
    and "signed_message a = signed_message b"
  shows "rq_event a = rq_event b \<and> rq_timestamp a = rq_timestamp b \<and> rq_body a = rq_body b"
proof -
  have "rq_event a @ CHR ''.'' # (rq_timestamp a @ CHR ''.'' # rq_body a)
      = rq_event b @ CHR ''.'' # (rq_timestamp b @ CHR ''.'' # rq_body b)"
    using assms(5) by (simp add: signed_message_def)
  from split_at_separator [OF no_dot(1) no_dot(1) this] assms(1,2)
  have event: "rq_event a = rq_event b" and rest: "rq_timestamp a @ CHR ''.'' # rq_body a = rq_timestamp b @ CHR ''.'' # rq_body b"
    by blast+
  from split_at_separator [OF no_dot(2) no_dot(2) rest] assms(3,4) event show ?thesis by blast
qed

lemma verify_parts:
  assumes "verify hmac secret req now_s"
  obtains tag at where "parse_signature (rq_signature req) = Some tag" "hmac secret (signed_message req) = tag"
    "is_event_id (rq_event req)" "parse_timestamp (rq_timestamp req) = Some at" "\<bar>now_s - at\<bar> \<le> MAX_SKEW_S"
  using assms by (auto simp: verify_def plausible_def split: option.splits if_splits)

section \<open>Properties\<close>

text \<open>The headers are read exactly in their form: a signature is \<open>v1=\<close> and 64 hexadecimal digits, the
  tag it names has 32 bytes and a printed tag reads back, a timestamp is one to twelve digits, and
  a printed number reads back.\<close>

theorem headers_read_in_form:
  "(parse_signature header \<noteq> None \<longleftrightarrow>
      length header = 67 \<and> take 3 header = ''v1='' \<and> list_all (\<lambda>c. hex_digit_value c \<noteq> None) (drop 3 header))
   \<and> (length tag = 32 \<longrightarrow> parse_signature (''v1='' @ hex_bytes tag) = Some tag)
   \<and> (parse_signature header = Some found \<longrightarrow> length found = 32)
   \<and> (parse_timestamp stamp \<noteq> None \<longleftrightarrow> 1 \<le> length stamp \<and> length stamp \<le> 12 \<and> list_all is_ascii_digit stamp)
   \<and> (n < 10 ^ 12 \<longrightarrow> parse_timestamp (dec n) = Some (int n))"
proof (intro conjI impI)
  show "parse_signature header \<noteq> None \<longleftrightarrow>
      length header = 67 \<and> take 3 header = ''v1='' \<and> list_all (\<lambda>c. hex_digit_value c \<noteq> None) (drop 3 header)"
  proof -
    have "is_prefix ''v1='' header \<longleftrightarrow> take 3 header = ''v1=''" by (simp add: is_prefix_def numeral_3_eq_3)
    moreover have "length (drop 3 header) = 64 \<longleftrightarrow> length header = 67" by auto
    moreover have "length header = 67 \<Longrightarrow>
        parse_tag (drop 3 header) = None \<longleftrightarrow> \<not> list_all (\<lambda>c. hex_digit_value c \<noteq> None) (drop 3 header)"
      by (rule parse_tag_none) simp
    ultimately show ?thesis unfolding parse_signature_def Let_def by auto
  qed
  show "parse_signature (''v1='' @ hex_bytes tag) = Some tag" if "length tag = 32"
    using that by (simp add: parse_signature_def is_prefix_def length_hex_bytes parse_tag_printed)
  show "length found = 32" if "parse_signature header = Some found"
  proof -
    from that have "parse_tag (drop 3 header) = Some found" and len: "length (drop 3 header) = 64"
      by (auto simp: parse_signature_def Let_def split: if_splits)
    moreover have "even (length (drop 3 header))" unfolding len by simp
    ultimately have "2 * length found = length (drop 3 header)" by (intro parse_tag_length)
    then show ?thesis unfolding len by simp
  qed
  show "parse_timestamp stamp \<noteq> None \<longleftrightarrow> 1 \<le> length stamp \<and> length stamp \<le> 12 \<and> list_all is_ascii_digit stamp"
    by (cases stamp) (auto simp: parse_timestamp_def)
  show "parse_timestamp (dec n) = Some (int n)" if "n < 10 ^ 12"
    using that dec_ascii [of n] dec_length [of n 11] by (simp add: parse_timestamp_def)
qed

theorem headers_read_in_form_witness:
  "parse_signature (''v1='' @ hex_bytes (replicate 32 (CHR ''a''))) = Some (replicate 32 (CHR ''a''))
   \<and> parse_timestamp (dec 1000) = Some 1000"
  using headers_read_in_form [of _ "replicate 32 (CHR ''a'')" undefined _ 1000] by simp

text \<open>A signature binds the request it was made for: of two requests that verify with the same signature
  under one secret, either the event, the timestamp and the body are the same, or two different
  signed messages have the same HMAC. A request that verifies is plausible, and so no older or newer
  than the skew; nothing verifies without the tag of its own bytes.\<close>

theorem signature_binds_request:
  assumes "verify hmac secret a now_a" and "verify hmac secret b now_b" and "rq_signature a = rq_signature b"
  shows "(rq_event a = rq_event b \<and> rq_timestamp a = rq_timestamp b \<and> rq_body a = rq_body b
      \<or> signed_message a \<noteq> signed_message b \<and> hmac secret (signed_message a) = hmac secret (signed_message b))
    \<and> plausible (rq_timestamp a) (rq_signature a) now_a
    \<and> parse_signature (rq_signature a) = Some (hmac secret (signed_message a))"
  using assms(1)
proof (rule verify_parts)
  fix tag s
  assume a: "parse_signature (rq_signature a) = Some tag" "hmac secret (signed_message a) = tag"
    "is_event_id (rq_event a)" "parse_timestamp (rq_timestamp a) = Some s" "\<bar>now_a - s\<bar> \<le> MAX_SKEW_S"
  from assms(2) show ?thesis
  proof (rule verify_parts)
    fix tag' t
    assume "parse_signature (rq_signature b) = Some tag'" "hmac secret (signed_message b) = tag'"
      "is_event_id (rq_event b)" "parse_timestamp (rq_timestamp b) = Some t" "\<bar>now_b - t\<bar> \<le> MAX_SKEW_S"
    with a assms(3) signed_message_inject [of a b s t] show ?thesis by (auto simp: plausible_def)
  qed
qed

text \<open>A tag for a concrete request: the length of the message, thirty-two times.\<close>

definition toy_hmac :: "string \<Rightarrow> string \<Rightarrow> string" where
  "toy_hmac key message = replicate 32 (char_of (length message))"

definition sample_request :: request where
  "sample_request = \<lparr>rq_event = ''evt-1'', rq_timestamp = dec 1000,
     rq_signature = ''v1='' @ hex_bytes (toy_hmac ''k'' (''evt-1.'' @ dec 1000 @ ''.{}'')), rq_body = ''{}''\<rparr>"

lemma sample_verifies: "verify toy_hmac ''k'' sample_request 1000"
proof -
  have sig: "parse_signature (rq_signature sample_request) = Some (toy_hmac ''k'' (''evt-1.'' @ dec 1000 @ ''.{}''))"
    by (simp add: sample_request_def parse_signature_def is_prefix_def length_hex_bytes parse_tag_printed toy_hmac_def)
  have "parse_timestamp (dec 1000) = Some 1000"
    using dec_ascii [of 1000] dec_length [of 1000 11] by (simp add: parse_timestamp_def)
  with sig show ?thesis
    by (simp add: verify_def plausible_def is_event_id_def is_ascii_graphic_def MAX_EVENT_ID_def MAX_SKEW_S_def
        signed_message_def sample_request_def)
qed

theorem signature_binds_request_witness:
  "plausible (dec 1000) (rq_signature sample_request) 1000"
  using signature_binds_request [OF sample_verifies sample_verifies] by (simp add: sample_request_def)

lemma secret_message_inject:
  assumes "uuid_ops_ok ops" and "secret_message ops nm r = secret_message ops nm' r'"
  shows "nm = nm' \<and> r = r'"
proof -
  have "uuid_to_string ops (trigger_uuid nm) @ '':'' @ dec (unat r) = uuid_to_string ops (trigger_uuid nm') @ '':'' @ dec (unat r')"
    using assms(2) by (simp add: secret_message_def)
  with uuid_text.text_prefix [OF assms(1)] have "trigger_uuid nm = trigger_uuid nm'" "dec (unat r) = dec (unat r')"
    by simp_all
  then show ?thesis by (simp add: trigger_id.expand word_unat_eq_iff)
qed

end
