(* ===== verification/Trigger_Fire.thy ===== *)
theory Trigger_Fire
  imports Server_Spawner Webhook
begin

text \<open>
  Firing triggers (\<open>crates/server/src/triggers.rs\<close>) and the handler of a signed webhook request
  (\<open>webhook_hook\<close> of \<open>http.rs\<close>). A fire stores a queued run, asks its gate (is the trigger still as it was
  read?) and pushes or cancels the run. A scheduled fire's run id comes from the trigger and the
  tick, a webhook's from the trigger and the sender's event. The store's reads never fail
  (\<open>InMemoryStore\<close> recovers a poisoned lock for a read), so the gate that cannot tell, and the errors of
  reads, do not occur. The cell the gate writes is threaded through \<open>settle_fire\<close>. \<open>None\<close> is a panic of
  the spec builder, which is shown not to happen.
\<close>

definition TRIGGER_KEY :: string where
  "TRIGGER_KEY = ''gol.trigger''"

definition GENERATION_KEY :: string where
  "GENERATION_KEY = ''gol.generation''"

definition TICK_KEY :: string where
  "TICK_KEY = ''gol.tick''"

definition EVENT_KEY :: string where
  "EVENT_KEY = ''gol.event''"

definition MAX_TRIGGERS :: nat where
  "MAX_TRIGGERS = 100"

definition EVENT_RUN_NAMESPACE :: uuid where
  "EVENT_RUN_NAMESPACE = 0x7d3a19c4e2b84a569f013c6e8b24d5a7"

definition TICK_RUN_NAMESPACE :: uuid where
  "TICK_RUN_NAMESPACE = 0x2c1e7a905b3d4f618e2a6d0c9b4713f5"

definition trigger_thread :: "uuid_ops \<Rightarrow> trigger_id \<Rightarrow> string" where
  "trigger_thread ops nm = ''trigger-'' @ uuid_to_string ops (trigger_uuid nm)"

datatype fired = FiredRun run_id | FiredPaused | FiredNotFound | FiredAgentNotFound | FiredMoved

datatype fire_error = NotStored string | MaybeStored run_id string

datatype key = KeyTick run_id int | KeyEvent run_id string string

datatype hooked = Started run_id | Duplicate run_id | Refused | HookedAgentNotFound | HookedNotFound

datatype replay = ReplayWaiting | ReplayRefused | ReplayDuplicate

section \<open>Integers in bytes and from text\<close>

text \<open>\<open>i64::to_le_bytes\<close> and \<open>str::parse::<u64>\<close>\<close>

definition i64_le_bytes :: "int \<Rightarrow> string" where
  "i64_le_bytes n = map (char_of :: nat \<Rightarrow> char) (rev (digits 256 8 (nat (n mod 2 ^ 64))))"

definition parse_u64 :: "string \<Rightarrow> nat option" where
  "parse_u64 t =
     (let ds = (if is_prefix ''+'' t then drop 1 t else t)
      in if ds = [] \<or> \<not> list_all is_ascii_digit ds \<or> 2 ^ 64 \<le> undec ds then None else Some (undec ds))"

section \<open>The run of a fire\<close>

definition run_of :: "env \<Rightarrow> stored_trigger \<Rightarrow> string \<Rightarrow> capability list \<Rightarrow> run_spec option" where
  "run_of env t version caps =
     (let ops = en_uuid env;
          meta = [SESSION_ID \<mapsto> trigger_thread ops (tr_id t), TRIGGER_KEY \<mapsto> uuid_to_string ops (trigger_uuid (tr_id t)),
                  GENERATION_KEY \<mapsto> dec (tr_generation t)]
      in build ops (en_fresh env)
           ((set_metadata meta
             \<circ> set_limits (case tr_limits t of None \<Rightarrow> \<lparr>max_steps = 8, max_model_calls = 4\<rparr> | Some lims \<Rightarrow> lims)
             \<circ> set_capabilities caps \<circ> set_work_model (tr_work_model t) \<circ> set_placement (tr_placement t)
             \<circ> set_input (tr_input t) \<circ> set_agent (tr_agent_id t) version \<circ> set_owner (tr_owner t)) builder_new))"

definition keyed :: "key option \<Rightarrow> run_spec \<Rightarrow> run_spec" where
  "keyed key spec =
     (case key of
        Some (KeyTick run at) \<Rightarrow>
          spec\<lparr>rs_run_id := run, rs_metadata := (rs_metadata spec)(TICK_KEY \<mapsto> dec_int at)\<rparr>
      | Some (KeyEvent run event body) \<Rightarrow>
          spec\<lparr>rs_run_id := run, rs_input := rs_input spec @ [CHR 0x0A, CHR 0x0A] @ body,
               rs_metadata := (rs_metadata spec)(EVENT_KEY \<mapsto> event)\<rparr>
      | None \<Rightarrow> spec)"

section \<open>Gates\<close>

definition gate_of :: "owner \<Rightarrow> trigger_id \<Rightarrow> nat \<Rightarrow> fired option gate_fn" where
  "gate_of own nm generation sv cell =
     (case get_trigger own nm (sv_store sv) of
        Some t \<Rightarrow>
          if tr_enabled t \<and> tr_generation t = generation then (GateOpen, cell)
          else (GateShut, Some (if tr_enabled t then FiredMoved else FiredPaused))
      | None \<Rightarrow> (GateShut, Some FiredNotFound))"

definition moved_tick :: "key option \<Rightarrow> stored_trigger \<Rightarrow> bool" where
  "moved_tick key t = (case key of Some (KeyTick run at) \<Rightarrow> tr_next_fire_ms t \<noteq> Some at | _ \<Rightarrow> False)"

fun fire_error_of :: "run_id \<Rightarrow> enqueue_error \<Rightarrow> fire_error" where
  "fire_error_of run (EqQueue message) = NotStored message"
| "fire_error_of run (EqPush message) = MaybeStored run message"
| "fire_error_of run (EqHeld message) = MaybeStored run message"
| "fire_error_of run (EqStore e) = MaybeStored run (error_message e)"

definition fire_with ::
    "env \<Rightarrow> owner \<Rightarrow> trigger_id \<Rightarrow> key option \<Rightarrow> server \<Rightarrow> ((fire_error + fired \<times> bool) \<times> server) option" where
  "fire_with env own nm key sv =
     (case get_trigger own nm (sv_store sv) of
        None \<Rightarrow> Some (Inr (FiredNotFound, False), sv)
      | Some t \<Rightarrow>
          if \<not> tr_enabled t then Some (Inr (FiredPaused, False), sv)
          else if moved_tick key t then Some (Inr (FiredMoved, False), sv)
          else
            (case get_agent (tr_agent_id t) (sv_store sv) of
               None \<Rightarrow> Some (Inr (FiredAgentNotFound, False), sv)
             | Some agent \<Rightarrow>
                 if \<not> same_principal (sa_owner agent) (tr_owner t) then Some (Inr (FiredAgentNotFound, False), sv)
                 else
                   (case run_of env t (mf_version (sa_manifest agent)) (mf_required_capabilities (sa_manifest agent)) of
                      None \<Rightarrow> None
                    | Some spec0 \<Rightarrow>
                        let spec = keyed key spec0; run = rs_run_id spec in
                        Some (case enqueue_fire env spec (gate_of own nm (tr_generation t)) sv None of
                                (Inl e, sv1, cell) \<Rightarrow> (Inl (fire_error_of run e), sv1)
                              | (Inr done, sv1, cell) \<Rightarrow>
                                  (Inr (case (done, cell) of
                                          (Held, Some why) \<Rightarrow> (why, False)
                                        | _ \<Rightarrow> (FiredRun run, done = Pushed)), sv1)))))"

definition drop_pushed :: "((fire_error + fired \<times> bool) \<times> server) option \<Rightarrow> ((fire_error + fired) \<times> server) option" where
  "drop_pushed = map_option (\<lambda>(r, sv). (map_sum id fst r, sv))"

definition fire_trigger :: "env \<Rightarrow> owner \<Rightarrow> trigger_id \<Rightarrow> server \<Rightarrow> ((fire_error + fired) \<times> server) option" where
  "fire_trigger env own nm sv = drop_pushed (fire_with env own nm None sv)"

definition tick_name :: "uuid_ops \<Rightarrow> trigger_id \<Rightarrow> int \<Rightarrow> string" where
  "tick_name ops nm tick_ms = uuid_as_bytes ops (trigger_uuid nm) @ i64_le_bytes tick_ms"

definition tick_run :: "uuid_ops \<Rightarrow> trigger_id \<Rightarrow> int \<Rightarrow> run_id" where
  "tick_run ops nm tick_ms = RunId (uuid_new_v5 ops TICK_RUN_NAMESPACE (tick_name ops nm tick_ms))"

definition fire_trigger_at ::
    "env \<Rightarrow> owner \<Rightarrow> trigger_id \<Rightarrow> int \<Rightarrow> server \<Rightarrow> ((fire_error + fired) \<times> server) option" where
  "fire_trigger_at env own nm tick_ms sv =
     drop_pushed (fire_with env own nm (Some (KeyTick (tick_run (en_uuid env) nm tick_ms) tick_ms)) sv)"

section \<open>Settling a stored run\<close>

text \<open>\<open>format!("{error:?}")\<close> of an \<open>EnqueueError\<close>\<close>

fun enqueue_debug :: "queue_text \<Rightarrow> enqueue_error \<Rightarrow> string" where
  "enqueue_debug qt (EqQueue e) = ''Queue('' @ qt_debug qt e @ '')''"
| "enqueue_debug qt (EqStore e) = ''Store(StoreError { message: '' @ qt_debug qt (error_message e) @ '' })''"
| "enqueue_debug qt (EqPush e) = ''Push('' @ qt_debug qt e @ '')''"
| "enqueue_debug qt (EqHeld e) = ''Held('' @ qt_debug qt e @ '')''"

text \<open>The parser of trigger ids is the uuid crate's, a parameter. A run whose trigger or generation cannot
  be read is held.\<close>

definition settle_fired_run ::
    "env \<Rightarrow> (string \<Rightarrow> trigger_id option) \<Rightarrow> run_spec \<Rightarrow> server \<Rightarrow> (string + fire) \<times> server" where
  "settle_fired_run env parse spec sv =
     (let nm = Option.bind (rs_metadata spec TRIGGER_KEY) parse;
          generation = Option.bind (rs_metadata spec GENERATION_KEY) parse_u64;
          gate = (case (nm, generation) of
                    (Some nm, Some generation) \<Rightarrow> gate_of (rs_owner spec) nm generation
                  | _ \<Rightarrow> (\<lambda>sv cell. (GateShut, cell)));
          (r, sv1, cell) = settle_fire env spec gate sv None
      in (map_sum (enqueue_debug (en_txt env)) id r, sv1))"

section \<open>Webhook events\<close>

definition replay_of :: "event list \<Rightarrow> replay" where
  "replay_of events =
     (if still_waiting events then ReplayWaiting
      else if list_ex (\<lambda>ev. ev_payload ev = RunCancelled) events
              \<and> \<not> list_ex (\<lambda>ev. ev_payload ev = RunScheduled) events then ReplayRefused
      else ReplayDuplicate)"

definition replay_now :: "run_id \<Rightarrow> server \<Rightarrow> replay" where
  "replay_now run sv =
     replay_of (case get_run run (sv_store sv) of None \<Rightarrow> [] | Some stored \<Rightarrow> sr_events stored)"

definition event_name :: "uuid_ops \<Rightarrow> trigger_id \<Rightarrow> string \<Rightarrow> string" where
  "event_name ops nm event = uuid_as_bytes ops (trigger_uuid nm) @ event"

definition event_run :: "uuid_ops \<Rightarrow> trigger_id \<Rightarrow> string \<Rightarrow> run_id" where
  "event_run ops nm event = RunId (uuid_new_v5 ops EVENT_RUN_NAMESPACE (event_name ops nm event))"

text \<open>What another delivery of an event whose run is stored answers.\<close>

definition redeliver ::
    "env \<Rightarrow> (string \<Rightarrow> trigger_id option) \<Rightarrow> run_id \<Rightarrow> stored_run \<Rightarrow> server \<Rightarrow> (fire_error + hooked) \<times> server" where
  "redeliver env parse run stored sv =
     (case replay_of (sr_events stored) of
        ReplayRefused \<Rightarrow> (Inr Refused, sv)
      | ReplayDuplicate \<Rightarrow> (Inr (Duplicate run), sv)
      | ReplayWaiting \<Rightarrow>
          (case settle_fired_run env parse (sr_spec stored) sv of
             (Inr Pushed, sv1) \<Rightarrow> (Inr (Started run), sv1)
           | (Inr Found, sv1) \<Rightarrow>
               (Inr (case replay_now run sv1 of ReplayRefused \<Rightarrow> Refused | _ \<Rightarrow> Duplicate run), sv1)
           | (Inr Held, sv1) \<Rightarrow> (Inr Refused, sv1)
           | (Inl message, sv1) \<Rightarrow> (Inl (MaybeStored run message), sv1)))"

fun hooked_of :: "server \<Rightarrow> fired \<times> bool \<Rightarrow> hooked" where
  "hooked_of sv (FiredRun run, True) = Started run"
| "hooked_of sv (FiredRun run, False) =
     (case replay_now run sv of
        ReplayWaiting \<Rightarrow> Started run | ReplayRefused \<Rightarrow> Refused | ReplayDuplicate \<Rightarrow> Duplicate run)"
| "hooked_of sv (FiredPaused, pushed) = Refused"
| "hooked_of sv (FiredMoved, pushed) = Refused"
| "hooked_of sv (FiredAgentNotFound, pushed) = HookedAgentNotFound"
| "hooked_of sv (FiredNotFound, pushed) = HookedNotFound"

definition fire_webhook ::
    "env \<Rightarrow> (string \<Rightarrow> trigger_id option) \<Rightarrow> stored_trigger \<Rightarrow> string \<Rightarrow> string \<Rightarrow> server
     \<Rightarrow> ((fire_error + hooked) \<times> server) option" where
  "fire_webhook env parse t event body sv =
     (let run = event_run (en_uuid env) (tr_id t) event in
      case get_run run (sv_store sv) of
        Some stored \<Rightarrow> Some (redeliver env parse run stored sv)
      | None \<Rightarrow>
          map_option
            (\<lambda>(r, sv1). (map_sum id (hooked_of sv1) r, sv1))
            (fire_with env (tr_owner t) (tr_id t) (Some (KeyEvent run event body)) sv))"

section \<open>The handler\<close>

text \<open>The headers give the text of a header, where it is one.\<close>

definition header_value :: "(string \<Rightarrow> string option) \<Rightarrow> string \<Rightarrow> string option" where
  "header_value headers name =
     (case headers name of
        None \<Rightarrow> None
      | Some raw \<Rightarrow> let val = trim_end (trim_start raw) in if val = [] then None else Some val)"

text \<open>A rejected JSON body, by axum: the two cases the handlers tell apart, and any other with its status.\<close>

datatype json_rejection = JsonDataError string | JsonSyntaxError string | OtherRejection nat string

record waiting_task =
  wt_label :: nat
  wt_run_id :: run_id
  wt_question_id :: message_id
  wt_question :: string

datatype api_error =
    ApiUnsupported execution_placement
  | ApiDecider string
  | ApiNotFound
  | ApiAgentNotFound
  | ApiStore string
  | ApiProxy string
  | ApiSandbox string
  | ApiConflict string
  | ApiBadRequest string
  | ApiInvalidBody string
  | ApiRejected json_rejection
  | ApiUnauthorized
  | ApiAuthUnavailable string
  | ApiTooManyStreams
  | ApiUnavailable string
  | ApiTooLarge string
  | ApiWhichTask "waiting_task list"
  | ApiThreadNotFound
  | ApiTriggerNotFound
  | ApiNoTriggers
  | ApiNoThreads
  | ApiNoStops
  | ApiNoStreams

datatype hook_answer = HookAccepted run_id | HookDuplicate run_id

definition unix_seconds :: "int \<Rightarrow> int" where
  "unix_seconds ms = (if ms < 0 then - ((- ms) div 1000) else ms div 1000)"

fun hook_response :: "fire_error + hooked \<Rightarrow> api_error + hook_answer" where
  "hook_response (Inr (Started run)) = Inr (HookAccepted run)"
| "hook_response (Inr (Duplicate run)) = Inr (HookDuplicate run)"
| "hook_response (Inr Refused) = Inl (ApiConflict ''the trigger is paused, or was when this event came'')"
| "hook_response (Inr HookedAgentNotFound) = Inl ApiAgentNotFound"
| "hook_response (Inr HookedNotFound) = Inl ApiUnauthorized"
| "hook_response (Inl (NotStored message)) = Inl (ApiStore message)"
| "hook_response (Inl (MaybeStored run message)) = Inl (ApiStore message)"

text \<open>The handler of a webhook request, with the key and the queue the server may have been started
  without; the tag of the HMAC crate and the parser of trigger ids are parameters.\<close>

definition webhook_hook ::
    "env \<Rightarrow> (string \<Rightarrow> string \<Rightarrow> string) \<Rightarrow> (string \<Rightarrow> trigger_id option) \<Rightarrow> string option \<Rightarrow> bool \<Rightarrow> string
     \<Rightarrow> (string \<Rightarrow> string option) \<Rightarrow> string \<Rightarrow> server \<Rightarrow> ((api_error + hook_answer) \<times> server) option" where
  "webhook_hook env hmac parse webhook_key queue path headers body sv =
     (case webhook_key of
        None \<Rightarrow> Some (Inl (ApiUnavailable ''webhooks are not available''), sv)
      | Some secret_key \<Rightarrow>
          if \<not> queue then Some (Inl (ApiUnavailable ''webhooks are not available''), sv)
          else if MAX_MESSAGE_BYTES < length body then Some (Inl (ApiTooLarge ''the body is over 32 KiB''), sv)
          else
            (case (parse path, header_value headers ''x-gol-event'', header_value headers ''x-gol-timestamp'',
                   header_value headers ''x-gol-signature'') of
               (Some nm, Some event, Some timestamp, Some signature) \<Rightarrow>
                 let now_s = unix_seconds (en_now env) in
                 if \<not> is_event_id event \<or> \<not> plausible timestamp signature now_s then Some (Inl ApiUnauthorized, sv)
                 else
                   (case webhook_trigger nm (sv_store sv) of
                      None \<Rightarrow> Some (Inl ApiUnauthorized, sv)
                    | Some t \<Rightarrow>
                        let req = \<lparr>rq_event = event, rq_timestamp = timestamp, rq_signature = signature, rq_body = body\<rparr>;
                            signed = (case webhook_secret hmac (en_uuid env) secret_key t of
                                        None \<Rightarrow> False | Some secret \<Rightarrow> verify hmac secret req now_s)
                        in if \<not> signed then Some (Inl ApiUnauthorized, sv)
                           else if MAX_MESSAGE_BYTES < length (tr_input t) + 2 + length body
                             then Some (Inl (ApiTooLarge ''the body, after the trigger's input, is over 32 KiB''), sv)
                           else if \<not> is_utf8 body \<or> CHR 0x00 \<in> set body
                             then Some (Inl (ApiBadRequest ''the body is not UTF-8, or has a NUL''), sv)
                           else map_option (\<lambda>(r, sv1). (hook_response r, sv1)) (fire_webhook env parse t event body sv))
             | _ \<Rightarrow> Some (Inl ApiUnauthorized, sv)))"

section \<open>What a fire does to the queue\<close>

text \<open>How often a run is queued or claimed.\<close>

definition in_queue :: "entry \<Rightarrow> redis \<Rightarrow> nat" where
  "in_queue e q = count_list (rd_runs q) e + count_list (rd_processing q) e"

definition same_work :: "redis \<Rightarrow> redis \<Rightarrow> bool" where
  "same_work q q' \<longleftrightarrow> rd_runs q' = rd_runs q \<and> rd_processing q' = rd_processing q"

lemma same_work_refl [simp]: "same_work q q"
  by (simp add: same_work_def)

lemma same_work_trans: "same_work q q' \<Longrightarrow> same_work q' q'' \<Longrightarrow> same_work q q''"
  by (simp add: same_work_def)

lemma same_work_in_queue: "same_work q q' \<Longrightarrow> in_queue e q' = in_queue e q"
  by (simp add: same_work_def in_queue_def)

lemma in_queue_iff: "0 < in_queue e q \<longleftrightarrow> QUEUED_OR_CLAIMED e q"
  by (auto simp: in_queue_def QUEUED_OR_CLAIMED_def count_list_0_iff simp flip: neq0_conv)

lemma pend_work: "same_work q (snd (pend qt fate now nm q))"
  by (auto simp: pend_def with_redis_def PEND_def same_work_def split: fate.split)

lemma unpend_work: "same_work q (snd (unpend qt fate nm q))"
  by (auto simp: unpend_def unpend_entry_def with_redis_def same_work_def split: fate.split)

lemma push_once_work:
  assumes "push_once qt fate nm q = (r, q')"
  shows "in_queue (qt_show qt nm) q' \<le> max 1 (in_queue (qt_show qt nm) q)"
    and "QUEUED_OR_CLAIMED (qt_show qt nm) q \<Longrightarrow> same_work q q'"
    and "r = Inr pushed \<Longrightarrow> pushed = (\<not> QUEUED_OR_CLAIMED (qt_show qt nm) q) \<and> QUEUED_OR_CLAIMED (qt_show qt nm) q'"
  using assms
  by (auto simp: push_once_def with_redis_def PUSH_ONCE_def same_work_def in_queue_def QUEUED_OR_CLAIMED_def Let_def
      count_notin split: fate.splits if_splits)

lemma settle_fire_cases:
  assumes "settle_fire env spec gate sv cell = (r, sv', cell')"
  obtains (past) run where "get_run (rs_run_id spec) (sv_store sv) = Some run" "\<not> still_waiting (sr_events run)"
      "sv_store sv' = sv_store sv" "same_work (sv_redis sv) (sv_redis sv')" "cell' = cell"
      "r = Inr Found \<or> (\<exists>e. r = Inl (EqQueue e))"
  | (opened) p where "gate sv cell = (GateOpen, cell')" "sv_store sv' = sv_store sv"
      "push_once (en_txt env) (en_fate env AtPushOnce) (rs_run_id spec) (sv_redis sv) = (p, sv_redis sv')"
      "r = map_sum EqPush (\<lambda>pushed. if pushed then Pushed else Found) p" "\<forall>run. get_run (rs_run_id spec) (sv_store sv) = Some run \<longrightarrow> still_waiting (sr_events run)"
  | (held) res where "gate sv cell = (GateShut, cell')" "r = Inr Held" "res = Appended \<or> res = AppendTerminal"
      "append_events (en_store_now env) (rs_run_id spec) [run_cancelled_event env spec] (sv_store sv) = (Inr res, sv_store sv')"
      "same_work (sv_redis sv) (sv_redis sv')" "\<forall>run. get_run (rs_run_id spec) (sv_store sv) = Some run \<longrightarrow> still_waiting (sr_events run)"
  | (unheld) e where "gate sv cell = (GateShut, cell') \<or> gate sv cell = (GateUnknown e, cell')" "r = Inl (EqHeld e)"
      "sv' = sv" "\<forall>run. get_run (rs_run_id spec) (sv_store sv) = Some run \<longrightarrow> still_waiting (sr_events run)"
proof -
  let ?nm = "rs_run_id spec"
  let ?events = "case get_run ?nm (sv_store sv) of None \<Rightarrow> [] | Some run \<Rightarrow> sr_events run"
  let ?put = "append_events (en_store_now env) ?nm [run_cancelled_event env spec]"
  have unpend: "same_work (sv_redis sv0) (sv_redis (snd (on_redis (unpend (en_txt env) (en_fate env AtUnpend) ?nm) sv0)))" for sv0
    by (simp add: unpend_work)
  show thesis
  proof (cases "still_waiting ?events")
    case False
    then obtain run where "get_run ?nm (sv_store sv) = Some run" "\<not> still_waiting (sr_events run)"
      by (auto simp: still_waiting_def split: option.splits)
    moreover obtain u sv1 where un: "on_redis (unpend (en_txt env) (en_fate env AtUnpend) ?nm) sv = (u, sv1)" by fastforce
    moreover from un have "sv_store sv1 = sv_store sv" "same_work (sv_redis sv) (sv_redis sv1)"
      using unpend [of sv] by (auto simp: on_redis_res)
    moreover have "sv' = sv1" "cell' = cell" "r = (case u of Inl e \<Rightarrow> Inl (EqQueue e) | Inr v \<Rightarrow> Inr Found)"
      using assms False un by (auto simp: settle_fire_def Let_def split: sum.splits)
    ultimately show thesis by (intro past) (auto split: sum.splits)
  next
    case waiting: True
    then have all: "\<forall>run. get_run (rs_run_id spec) (sv_store sv) = Some run \<longrightarrow> still_waiting (sr_events run)" by auto
    obtain g c1 where gate: "gate sv cell = (g, c1)" by fastforce
    show thesis
    proof (cases g)
      case GateOpen
      obtain u sv1 where push: "on_redis (push_once (en_txt env) (en_fate env AtPushOnce) ?nm) sv = (u, sv1)" by fastforce
      have "sv' = sv1" "cell' = c1" "r = map_sum EqPush (\<lambda>pushed. if pushed then Pushed else Found) u"
        using assms waiting gate GateOpen push by (auto simp: settle_fire_def Let_def split: sum.splits)
      with push gate GateOpen all show thesis by (intro opened [of u]) (auto simp: on_redis_res)
    next
      case GateUnknown
      with assms waiting gate all show thesis by (intro unheld) (auto simp: settle_fire_def Let_def)
    next
      case GateShut
      obtain a s1 where app: "?put (sv_store sv) = (a, s1)" by fastforce
      then have on: "on_store ?put sv = (a, sv\<lparr>sv_store := s1\<rparr>)" by (simp add: on_store_def)
      have same: "s1 = sv_store sv" if "a \<noteq> Inr Appended"
        using app that by (cases rule: append_cases [of "en_store_now env" ?nm None "[run_cancelled_event env spec]" "sv_store sv"])
          (auto simp: append_events_def)
      show thesis
      proof (cases "a = Inr Appended \<or> a = Inr AppendTerminal")
        case True
        then obtain res where a: "a = Inr res" "res = Appended \<or> res = AppendTerminal" by blast
        with assms waiting gate GateShut on
        have "r = Inr Held" "cell' = c1" "sv' = snd (on_redis (unpend (en_txt env) (en_fate env AtUnpend) ?nm) (sv\<lparr>sv_store := s1\<rparr>))"
          by (auto simp: settle_fire_def Let_def)
        with a app gate GateShut unpend [of "sv\<lparr>sv_store := s1\<rparr>"] all show thesis by (intro held [of res]) auto
      next
        case False
        then have "sv\<lparr>sv_store := s1\<rparr> = sv" using same by auto
        with assms waiting gate GateShut on False
        have "sv' = sv" "cell' = c1" "\<exists>e. r = Inl (EqHeld e)"
          by (auto simp: settle_fire_def Let_def split: sum.splits if_splits)
        with gate GateShut all show thesis by (auto intro: unheld)
      qed
    qed
  qed
qed


text \<open>What a settled fire may do to the runs and the queue: it touches its own run only, adds to its log a
  cancellation at most (and nothing once a worker took it or it ended), and never queues it twice.\<close>

definition touches_only :: "env \<Rightarrow> run_id \<Rightarrow> server \<Rightarrow> server \<Rightarrow> bool" where
  "touches_only env nm sv sv' \<longleftrightarrow>
     (\<forall>k. k \<noteq> nm \<longrightarrow> get_run k (sv_store sv') = get_run k (sv_store sv))
     \<and> (\<forall>stored. get_run nm (sv_store sv) = Some stored \<longrightarrow>
          (\<exists>more. get_run nm (sv_store sv') = Some (stored\<lparr>sr_events := sr_events stored @ more\<rparr>)
             \<and> list_all (\<lambda>ev. ev_payload ev = RunCancelled) more
             \<and> (still_waiting (sr_events stored) \<or> more = [] \<and> same_work (sv_redis sv) (sv_redis sv'))))
     \<and> in_queue (qt_show (en_txt env) nm) (sv_redis sv') \<le> max 1 (in_queue (qt_show (en_txt env) nm) (sv_redis sv))"

lemma touches_only_nothing:
  assumes "sv_store sv' = sv_store sv" and "same_work (sv_redis sv) (sv_redis sv')"
  shows "touches_only env nm sv sv'"
proof -
  have "stored = stored\<lparr>sr_events := sr_events stored @ []\<rparr>" for stored :: stored_run by simp
  then show ?thesis using assms unfolding touches_only_def
    by (metis list.pred_inject(1) max.cobounded2 same_work_in_queue)
qed

lemma append_events_cases:
  obtains (appended) s' old where "append_events now nm events s = (Inr Appended, s')" "get_run nm s = Some old"
      "get_run nm s' = Some (old\<lparr>sr_events := sr_events old @ events\<rparr>)" "\<forall>k. k \<noteq> nm \<longrightarrow> get_run k s' = get_run k s"
      "so_triggers s' = so_triggers s"
  | (unchanged) r where "append_events now nm events s = (r, s)" "r \<noteq> Inr Appended"
proof (cases rule: append_cases [of now nm None events s])
  case (appended s' old)
  from arg_cong [OF appended(8), of so_triggers] have "so_triggers s' = so_triggers s" by simp
  with appended show thesis by (intro that(1) [of s' old]) (auto simp: append_events_def get_run_def lock_read_def)
next
  case (unchanged r)
  then show thesis by (intro that(2) [of r]) (auto simp: append_events_def)
qed

lemma settle_touches_only:
  assumes "settle_fire env spec gate sv cell = (r, sv', cell')"
  shows "touches_only env (rs_run_id spec) sv sv'"
  using assms
proof (cases rule: settle_fire_cases)
  case past
  then show ?thesis by (intro touches_only_nothing)
next
  case (opened p)
  then show ?thesis
    using push_once_work(1) [OF opened(3)] by (auto simp: touches_only_def intro!: exI [of _ "[]"])
next
  case (held res)
  have work: "in_queue e (sv_redis sv') = in_queue e (sv_redis sv)" for e using held(5) by (rule same_work_in_queue)
  show ?thesis
  proof (cases rule: append_events_cases [of "en_store_now env" "rs_run_id spec" "[run_cancelled_event env spec]" "sv_store sv"])
    case (appended s' old)
    with held work show ?thesis by (auto simp: touches_only_def run_cancelled_event_def)
  next
    case (unchanged r)
    with held have "sv_store sv' = sv_store sv" by auto
    with held(5) show ?thesis by (intro touches_only_nothing)
  qed
next
  case unheld
  then show ?thesis by (intro touches_only_nothing) simp_all
qed


section \<open>Fires\<close>

definition key_run :: "key \<Rightarrow> run_id" where
  "key_run key = (case key of KeyTick run at \<Rightarrow> run | KeyEvent run event body \<Rightarrow> run)"

lemma keyed_run: "rs_run_id (keyed (Some key) spec) = key_run key"
  by (simp add: keyed_def key_run_def split: key.split)

lemma keyed_same [simp]: "rs_owner (keyed key spec) = rs_owner spec" "rs_lineage (keyed key spec) = rs_lineage spec"
  by (simp_all add: keyed_def split: option.split key.split)

lemma run_of_built: "\<exists>spec. run_of env t version caps = Some spec
    \<and> rs_owner spec = tr_owner t \<and> rs_agent_id spec = tr_agent_id t \<and> rs_capabilities spec = caps
    \<and> rs_metadata spec TRIGGER_KEY = Some (uuid_to_string (en_uuid env) (trigger_uuid (tr_id t)))
    \<and> rs_metadata spec GENERATION_KEY = Some (dec (tr_generation t))"
  by (auto simp: run_of_def Let_def builder_defs TRIGGER_KEY_def GENERATION_KEY_def)

lemma keyed_metadata:
  "rs_metadata (keyed key spec) TRIGGER_KEY = rs_metadata spec TRIGGER_KEY"
  "rs_metadata (keyed key spec) GENERATION_KEY = rs_metadata spec GENERATION_KEY"
  by (simp_all add: keyed_def TRIGGER_KEY_def GENERATION_KEY_def TICK_KEY_def EVENT_KEY_def split: option.split key.split)

text \<open>A fire that stores nothing, one whose run could not be stored, and one that settles its run.\<close>

lemma fire_with_cases:
  assumes "store_ok (sv_store sv)" and "fire_with env own nm key sv = Some (r, sv')"
  obtains (idle) f where "r = Inr (f, False)" "sv' = sv" "\<forall>run. f \<noteq> FiredRun run"
  | (unstored) e where "r = Inl e" "sv_store sv' = sv_store sv" "same_work (sv_redis sv) (sv_redis sv')"
  | (settled) t agent spec sv2 fr cell put where
      "get_trigger own nm (sv_store sv) = Some t" "tr_enabled t" "\<not> moved_tick key t"
      "get_agent (tr_agent_id t) (sv_store sv) = Some agent" "same_principal (sa_owner agent) (tr_owner t)"
      "run_of env t (mf_version (sa_manifest agent)) (mf_required_capabilities (sa_manifest agent)) = Some spec"
      "put_run (en_store_now env) \<lparr>sr_spec = keyed key spec, sr_events = queued_events env (keyed key spec)\<rparr> (sv_store sv)
         = (Inr put, sv_store sv2)"
      "same_work (sv_redis sv) (sv_redis sv2)"
      "settle_fire env (keyed key spec) (gate_of own nm (tr_generation t)) sv2 None = (fr, sv', cell)"
      "r = map_sum (fire_error_of (rs_run_id (keyed key spec)))
         (\<lambda>fire. case (fire, cell) of (Held, Some why) \<Rightarrow> (why, False)
                 | _ \<Rightarrow> (FiredRun (rs_run_id (keyed key spec)), fire = Pushed)) fr"
proof (cases "\<exists>t agent. get_trigger own nm (sv_store sv) = Some t \<and> tr_enabled t \<and> \<not> moved_tick key t
    \<and> get_agent (tr_agent_id t) (sv_store sv) = Some agent \<and> same_principal (sa_owner agent) (tr_owner t)")
  case False
  have "sv' = sv \<and> (\<exists>f. r = Inr (f, False) \<and> (\<forall>run. f \<noteq> FiredRun run))"
    using assms(2) False by (auto simp: fire_with_def split: option.splits if_splits)
  then show thesis using idle by blast
next
  case True
  then obtain t agent where t: "get_trigger own nm (sv_store sv) = Some t" "tr_enabled t" "\<not> moved_tick key t"
    and agent: "get_agent (tr_agent_id t) (sv_store sv) = Some agent" "same_principal (sa_owner agent) (tr_owner t)" by blast
  from run_of_built obtain spec where
    spec: "run_of env t (mf_version (sa_manifest agent)) (mf_required_capabilities (sa_manifest agent)) = Some spec" by blast
  let ?spec = "keyed key spec" and ?gate = "gate_of own nm (tr_generation t)"
  let ?run = "\<lparr>sr_spec = ?spec, sr_events = queued_events env ?spec\<rparr>"
  obtain fired sv1 cell where enq: "enqueue_fire env ?spec ?gate sv None = (fired, sv1, cell)" by (metis prod.exhaust)
  have res: "sv' = sv1" "r = map_sum (fire_error_of (rs_run_id ?spec))
         (\<lambda>fire. case (fire, cell) of (Held, Some why) \<Rightarrow> (why, False) | _ \<Rightarrow> (FiredRun (rs_run_id ?spec), fire = Pushed)) fired"
    using assms(2) t agent spec enq by (auto simp: fire_with_def Let_def split: sum.splits)
  obtain p svp where pend: "on_redis (pend (en_txt env) (en_fate env AtPend) (en_redis_now env) (rs_run_id ?spec)) sv = (p, svp)" by fastforce
  then have sp: "sv_store svp = sv_store sv" "same_work (sv_redis sv) (sv_redis svp)"
    using pend_work [of "sv_redis sv" "en_txt env" "en_fate env AtPend" "en_redis_now env" "rs_run_id ?spec"] by (auto simp: on_redis_res)
  obtain q svq where put: "on_store (put_run (en_store_now env) ?run) svp = (q, svq)" by fastforce
  then have sq: "put_run (en_store_now env) ?run (sv_store sv) = (q, sv_store svq)" "same_work (sv_redis sv) (sv_redis svq)"
    using sp by (auto simp: on_store_res)
  show thesis
  proof (cases p)
    case (Inl e)
    with pend enq have "fired = Inl (EqQueue e)" "sv1 = svp" by (simp_all add: enqueue_fire_def)
    with res sp show thesis by (intro unstored) auto
  next
    case p: (Inr u)
    show thesis
    proof (cases q)
      case (Inl e)
      with p pend put enq have "fired = Inl (EqStore e)" "sv1 = svq" by (simp_all add: enqueue_fire_def)
      moreover have "sv_store svq = sv_store sv" using refused_put_run [OF assms(1)] sq(1) Inl by (metis fst_conv snd_conv)
      ultimately show thesis using res sq by (intro unstored) auto
    next
      case (Inr put')
      with p pend put enq have "settle_fire env ?spec ?gate svq None = (fired, sv1, cell)" by (simp add: enqueue_fire_def)
      with res sq t agent spec Inr show thesis by (intro settled) auto
    qed
  qed
qed


lemma put_run_others:
  assumes "put_run now run s = (r, s')" and "k \<noteq> rs_run_id (sr_spec run)"
  shows "get_run k s' = get_run k s"
  using assms
  by (auto simp: put_run_def get_run_def lock_read_def lock_write_def number_def Let_def split: sum.splits if_splits option.splits)

lemma touches_only_after:
  assumes "touches_only env nm sv2 sv'" and "same_work (sv_redis sv) (sv_redis sv2)"
    and "\<forall>k. k \<noteq> nm \<longrightarrow> get_run k (sv_store sv2) = get_run k (sv_store sv)"
    and "get_run nm (sv_store sv) = None \<or> get_run nm (sv_store sv2) = get_run nm (sv_store sv)"
  shows "touches_only env nm sv sv'"
proof -
  have "in_queue e (sv_redis sv2) = in_queue e (sv_redis sv)" for e using assms(2) by (rule same_work_in_queue)
  moreover have "same_work (sv_redis sv) q" if "same_work (sv_redis sv2) q" for q using assms(2) that by (rule same_work_trans)
  ultimately show ?thesis using assms(1,3,4) unfolding touches_only_def by (metis option.discI)
qed

lemma gate_cell:
  assumes "settle_fire env spec (gate_of own nm generation) sv None = (Inr Held, sv', cell)"
  shows "\<exists>why. cell = Some why \<and> (\<forall>run. why \<noteq> FiredRun run)"
  using assms
proof (cases rule: settle_fire_cases)
  case (opened p)
  then show ?thesis by (cases p) (auto split: if_splits)
qed (auto simp: gate_of_def split: option.splits if_splits)

lemma fire_touches_only:
  assumes "store_ok (sv_store sv)" and "fire_with env own nm (Some key) sv = Some (r, sv')"
  shows "touches_only env (key_run key) sv sv' \<and> (\<forall>run pushed. r = Inr (FiredRun run, pushed) \<longrightarrow>
    run = key_run key \<and> get_run run (sv_store sv') \<noteq> None)"
  using assms
proof (cases rule: fire_with_cases)
  case idle
  then show ?thesis by (auto intro: touches_only_nothing)
next
  case unstored
  then show ?thesis by (auto intro: touches_only_nothing)
next
  case (settled t agent spec sv2 fr cell put)
  let ?spec = "keyed (Some key) spec"
  have run: "rs_run_id ?spec = key_run key" by (rule keyed_run)
  from settled(9) have after: "touches_only env (key_run key) sv2 sv'" unfolding run [symmetric] by (rule settle_touches_only)
  from put_run_result [OF settled(7)] run
  have put: "get_run (key_run key) (sv_store sv2) \<noteq> None"
    "get_run (key_run key) (sv_store sv) = None \<or> get_run (key_run key) (sv_store sv2) = get_run (key_run key) (sv_store sv)"
    by auto
  have others: "\<forall>k. k \<noteq> key_run key \<longrightarrow> get_run k (sv_store sv2) = get_run k (sv_store sv)"
    using put_run_others [OF settled(7)] run by simp
  from put(1) obtain stored where "get_run (key_run key) (sv_store sv2) = Some stored" by blast
  with after have "get_run (key_run key) (sv_store sv') \<noteq> None" unfolding touches_only_def by force
  moreover have "run' = key_run key" if r': "r = Inr (FiredRun run', pushed)" for run' pushed
  proof -
    from r' settled(10) obtain f where f: "fr = Inr f" by (cases fr) auto
    with r' settled(10) run gate_cell [of env "keyed (Some key) spec" own nm "tr_generation t" sv2 sv' cell] settled(9) show ?thesis by (cases f) auto
  qed
  ultimately show ?thesis using touches_only_after [OF after settled(8) others put(2)] by blast
qed


section \<open>Names of fires\<close>

lemma i64_le_bytes_inject:
  assumes "i64_le_bytes m = i64_le_bytes n" and "m \<in> {- (2 ^ 63) ..< 2 ^ 63}" and "n \<in> {- (2 ^ 63) ..< 2 ^ 63}"
  shows "m = n"
proof -
  have inj: "inj_on (char_of :: nat \<Rightarrow> char) {..<256}"
    by (rule inj_on_inverseI [of _ "of_char :: char \<Rightarrow> nat"]) simp
  let ?u = "\<lambda>k :: int. nat (k mod 2 ^ 64)"
  from assms(1) have "map (char_of :: nat \<Rightarrow> char) (digits 256 8 (?u m)) = map char_of (digits 256 8 (?u n))"
    by (simp add: i64_le_bytes_def rev_map [symmetric])
  from digits_inject [OF map_digits_inj [OF this inj]] have "?u m mod 256 ^ 8 = ?u n mod 256 ^ 8" by simp
  moreover have "?u k < 256 ^ 8" for k by (simp add: nat_less_iff)
  ultimately have "m mod 2 ^ 64 = n mod 2 ^ 64" by (simp add: nat_eq_iff)
  then have "2 ^ 64 dvd (m - n)" by (simp add: mod_eq_dvd_iff)
  moreover have "\<bar>m - n\<bar> < 2 ^ 64" using assms(2,3) by auto
  ultimately show ?thesis using dvd_imp_le_int [of "m - n" "2 ^ 64"] by auto
qed

lemma fire_names:
  assumes "uuid_ops_ok ops"
  shows "tick_name ops nm t = tick_name ops nm' t' \<Longrightarrow> t \<in> {- (2 ^ 63) ..< 2 ^ 63} \<Longrightarrow> t' \<in> {- (2 ^ 63) ..< 2 ^ 63} \<Longrightarrow> nm = nm' \<and> t = t'"
    and "event_name ops nm e = event_name ops nm' e' \<Longrightarrow> nm = nm' \<and> e = e'"
  using uuid_text.bytes_prefix [OF assms] i64_le_bytes_inject
  by (auto simp: tick_name_def event_name_def trigger_id.expand)

section \<open>Held runs\<close>

lemma parse_u64_dec: "n < 2 ^ 64 \<Longrightarrow> parse_u64 (dec n) = Some n"
proof -
  have "\<not> is_prefix ''+'' (dec n)" using dec_ascii [of n] by (cases "dec n") (auto simp: is_prefix_def is_ascii_digit_def)
  then show "n < 2 ^ 64 \<Longrightarrow> parse_u64 (dec n) = Some n" using dec_ascii [of n] by (simp add: parse_u64_def)
qed

lemma settle_fired_run_gate:
  assumes "run_of env t version caps = Some spec" and "spec' = keyed key spec" and "tr_generation t < 2 ^ 64"
    and "parse (uuid_to_string (en_uuid env) (trigger_uuid (tr_id t))) = Some (tr_id t)"
  shows "settle_fired_run env' parse spec' sv =
    (case settle_fire env' spec' (gate_of (tr_owner t) (tr_id t) (tr_generation t)) sv None of
       (r, sv1, cell) \<Rightarrow> (map_sum (enqueue_debug (en_txt env')) id r, sv1))"
  using run_of_built [of env t version caps] assms
  by (auto simp: settle_fired_run_def keyed_metadata parse_u64_dec)

lemma shut_holds:
  assumes "settle_fire env spec gate sv cell = (r, sv', cell')" and "fst (gate sv cell) = GateShut"
    and "get_run (rs_run_id spec) (sv_store sv) = Some stored" and "still_waiting (sr_events stored)"
  shows "same_work (sv_redis sv) (sv_redis sv')
    \<and> (r = Inr Held \<and> get_run (rs_run_id spec) (sv_store sv') = Some (stored\<lparr>sr_events := sr_events stored @ [run_cancelled_event env spec]\<rparr>)
       \<or> (\<exists>e. r = Inl (EqHeld e)) \<and> sv' = sv)"
  using assms(1)
proof (cases rule: settle_fire_cases)
  case (held res)
  show ?thesis
  proof (cases rule: append_events_cases [of "en_store_now env" "rs_run_id spec" "[run_cancelled_event env spec]" "sv_store sv"])
    case (appended s' old)
    with held assms(3) show ?thesis by auto
  next
    case (unchanged r')
    then have "append_events (en_store_now env) (rs_run_id spec) [run_cancelled_event env spec] (sv_store sv) = (Inr AppendTerminal, sv_store sv)"
      using held by auto
    moreover have "\<not> list_ex is_end_event (sr_events stored)" using assms(4) by (rule waiting_open)
    ultimately have False using assms(3)
      by (auto simp: append_events_def append_checked_def get_run_def lock_read_def lock_write_def Let_def
          split: sum.splits if_splits prod.splits)
    then show ?thesis ..
  qed
qed (use assms in auto)


section \<open>Deliveries of an event\<close>

lemma settle_fire_queued:
  assumes "settle_fire env spec gate sv cell = (Inr f, sv', cell')"
  shows "f = Pushed \<Longrightarrow> QUEUED_OR_CLAIMED (qt_show (en_txt env) (rs_run_id spec)) (sv_redis sv')
      \<and> \<not> QUEUED_OR_CLAIMED (qt_show (en_txt env) (rs_run_id spec)) (sv_redis sv)"
    and "f = Found \<Longrightarrow> QUEUED_OR_CLAIMED (qt_show (en_txt env) (rs_run_id spec)) (sv_redis sv')
      \<or> (\<exists>run. get_run (rs_run_id spec) (sv_store sv') = Some run \<and> \<not> still_waiting (sr_events run))"
proof -
  let ?e = "qt_show (en_txt env) (rs_run_id spec)"
  have "(f = Pushed \<longrightarrow> QUEUED_OR_CLAIMED ?e (sv_redis sv') \<and> \<not> QUEUED_OR_CLAIMED ?e (sv_redis sv))
    \<and> (f = Found \<longrightarrow> QUEUED_OR_CLAIMED ?e (sv_redis sv')
        \<or> (\<exists>run. get_run (rs_run_id spec) (sv_store sv') = Some run \<and> \<not> still_waiting (sr_events run)))"
    using assms
  proof (cases rule: settle_fire_cases)
    case (opened p)
    then have "p = Inr True \<and> f = Pushed \<or> p = Inr False \<and> f = Found" by (cases p) (auto split: if_splits)
    with push_once_work(3) [OF opened(3), of "f = Pushed"] show ?thesis by auto
  qed auto
  then show "f = Pushed \<Longrightarrow> QUEUED_OR_CLAIMED ?e (sv_redis sv') \<and> \<not> QUEUED_OR_CLAIMED ?e (sv_redis sv)"
    "f = Found \<Longrightarrow> QUEUED_OR_CLAIMED ?e (sv_redis sv')
      \<or> (\<exists>run. get_run (rs_run_id spec) (sv_store sv') = Some run \<and> \<not> still_waiting (sr_events run))" by blast+
qed

lemma settle_fired_run_cases:
  assumes "settle_fired_run env parse spec sv = (r, sv')"
  obtains gate fr cell where "settle_fire env spec gate sv (None :: fired option) = (fr, sv', cell)"
    "r = map_sum (enqueue_debug (en_txt env)) id fr"
proof -
  let ?nm = "Option.bind (rs_metadata spec TRIGGER_KEY) parse" and ?g = "Option.bind (rs_metadata spec GENERATION_KEY) parse_u64"
  let ?gate = "case (?nm, ?g) of (Some nm, Some generation) \<Rightarrow> gate_of (rs_owner spec) nm generation
    | _ \<Rightarrow> (\<lambda>sv cell. (GateShut, cell))"
  obtain fr sv1 cell where "settle_fire env spec ?gate sv None = (fr, sv1, cell)" by (metis prod.exhaust)
  with assms show thesis by (intro that [of ?gate fr cell]) (auto simp: settle_fired_run_def Let_def)
qed

lemma redeliver_touches:
  assumes "redeliver env parse run stored sv = (r, sv')" and "get_run run (sv_store sv) = Some stored" and "rs_run_id (sr_spec stored) = run"
  shows "touches_only env run sv sv' \<and> (\<not> still_waiting (sr_events stored) \<longrightarrow> sv' = sv)
    \<and> (\<forall>run'. r = Inr (Started run') \<longrightarrow> run' = run
         \<and> QUEUED_OR_CLAIMED (qt_show (en_txt env) run) (sv_redis sv') \<and> \<not> QUEUED_OR_CLAIMED (qt_show (en_txt env) run) (sv_redis sv))"
proof (cases "still_waiting (sr_events stored)")
  case False
  then have "sv' = sv" "\<forall>run'. r \<noteq> Inr (Started run')"
    using assms(1) by (auto simp: redeliver_def replay_of_def split: if_splits)
  then show ?thesis by (simp add: touches_only_nothing)
next
  case True
  obtain r1 sv1 where s: "settle_fired_run env parse (sr_spec stored) sv = (r1, sv1)" by fastforce
  then obtain gate fr cell where fire: "settle_fire env (sr_spec stored) gate sv (None :: fired option) = (fr, sv1, cell)"
    and r1: "r1 = map_sum (enqueue_debug (en_txt env)) id fr" by (rule settle_fired_run_cases)
  have sv1: "sv' = sv1" and st: "\<forall>run'. r = Inr (Started run') \<longrightarrow> run' = run \<and> r1 = Inr Pushed"
    using assms(1) True s by (auto simp: redeliver_def replay_of_def split: sum.splits fire.splits replay.splits)
  have "touches_only env run sv sv'" using settle_touches_only [OF fire] assms(3) sv1 by simp
  moreover have "fr = Inr Pushed" if "r1 = Inr Pushed" using r1 that by (cases fr) auto
  ultimately show ?thesis using st True sv1 settle_fire_queued(1) [of env "sr_spec stored" gate sv None Pushed] fire assms(3) by auto
qed

lemma fire_with_started:
  assumes "store_ok (sv_store sv)" and "fire_with env own nm (Some key) sv = Some (Inr (FiredRun run, pushed), sv')"
    and "pushed \<or> replay_now run sv' = ReplayWaiting"
  shows "QUEUED_OR_CLAIMED (qt_show (en_txt env) run) (sv_redis sv')"
  using assms(1,2)
proof (cases rule: fire_with_cases)
  case (settled t agent spec sv2 fr cell put)
  let ?spec = "keyed (Some key) spec"
  have run: "run = key_run key" and spec: "rs_run_id ?spec = run"
    using fire_touches_only [OF assms(1,2)] by (auto simp: keyed_run)
  from settled(10) obtain f where f: "fr = Inr f" by (cases fr) auto
  have cases: "f = Pushed \<and> pushed \<or> f = Found \<and> \<not> pushed"
    using settled(10) f gate_cell [of env "keyed (Some key) spec" own nm "tr_generation t" sv2 sv' cell] settled(9) by (cases f) auto
  with settle_fire_queued [OF settled(9) [unfolded f], unfolded spec] assms(3) show ?thesis
    by (auto simp: replay_now_def replay_of_def split: if_splits)
qed simp_all


lemma stored_run_name: "store_ok s \<Longrightarrow> get_run nm s = Some run \<Longrightarrow> rs_run_id (sr_spec run) = nm"
  by (auto simp: store_ok_def runs_ok_def get_run_def lock_read_def list_all_iff dest!: map_of_SomeD)

lemma fire_webhook_touches:
  assumes "store_ok (sv_store sv)" and "fire_webhook env parse t event body sv = Some (r, sv')"
    and "run = event_run (en_uuid env) (tr_id t) event"
  shows "touches_only env run sv sv' \<and> (\<forall>run'. r = Inr (Started run') \<longrightarrow> run' = run
      \<and> QUEUED_OR_CLAIMED (qt_show (en_txt env) run) (sv_redis sv'))
    \<and> (\<forall>stored. get_run run (sv_store sv) = Some stored \<longrightarrow>
         (\<not> still_waiting (sr_events stored) \<longrightarrow> sv' = sv)
         \<and> (QUEUED_OR_CLAIMED (qt_show (en_txt env) run) (sv_redis sv) \<longrightarrow> r \<noteq> Inr (Started run)))"
proof (cases "get_run run (sv_store sv)")
  case (Some stored)
  with assms(2,3) have "redeliver env parse run stored sv = (r, sv')" by (simp add: fire_webhook_def Let_def)
  from redeliver_touches [OF this Some stored_run_name [OF assms(1) Some]] Some show ?thesis by auto
next
  case None
  let ?key = "KeyEvent run event body"
  have key: "key_run ?key = run" by (simp add: key_run_def)
  from None assms(2,3) obtain r1 where fire: "fire_with env (tr_owner t) (tr_id t) (Some ?key) sv = Some (r1, sv')"
    and r: "r = map_sum id (hooked_of sv') r1" by (auto simp: fire_webhook_def Let_def)
  note touch = fire_touches_only [OF assms(1) fire, unfolded key]
  have "run' = run \<and> QUEUED_OR_CLAIMED (qt_show (en_txt env) run) (sv_redis sv')" if st: "r = Inr (Started run')" for run'
  proof -
    from st r obtain f where f: "r1 = Inr f" "hooked_of sv' f = Started run'" by (cases r1) auto
    then obtain pushed where p: "f = (FiredRun run', pushed)" "pushed \<or> replay_now run' sv' = ReplayWaiting"
      by (cases "(sv', f)" rule: hooked_of.cases) (auto split: replay.splits)
    with f touch have "run' = run" by blast
    with fire_with_started [OF assms(1), of env "tr_owner t" "tr_id t" ?key run' pushed sv'] fire f p show ?thesis by simp
  qed
  with touch None show ?thesis by auto
qed

section \<open>Properties\<close>

text \<open>C27. A tick is fired once, whoever fires it: every fire of a trigger's tick names the same run, touches
  no other run, adds at most a cancellation to that run's log (and nothing once a worker took it
  or it ended), leaves it queued or claimed at most once, and a run it reports is stored. A tick
  that is not the trigger's next one changes nothing.\<close>

theorem tick_fired_once:
  assumes "store_ok (sv_store sv)" and "fire_trigger_at env own nm tick sv = Some (r, sv')"
  shows "touches_only env (tick_run (en_uuid env) nm tick) sv sv'
    \<and> (\<forall>run. r = Inr (FiredRun run) \<longrightarrow> run = tick_run (en_uuid env) nm tick \<and> get_run run (sv_store sv') \<noteq> None)
    \<and> (\<forall>t. get_trigger own nm (sv_store sv) = Some t \<and> tr_next_fire_ms t \<noteq> Some tick \<longrightarrow> sv' = sv)"
proof -
  let ?key = "KeyTick (tick_run (en_uuid env) nm tick) tick"
  from assms(2) obtain r1 where fire: "fire_with env own nm (Some ?key) sv = Some (r1, sv')" and r: "r = map_sum id fst r1"
    by (auto simp: fire_trigger_at_def drop_pushed_def)
  have "\<exists>p. r1 = Inr (f, p)" if "r = Inr f" for f using r that by (cases r1) auto
  moreover have "sv' = sv" if "get_trigger own nm (sv_store sv) = Some t" "tr_next_fire_ms t \<noteq> Some tick" for t
    using fire that by (auto simp: fire_with_def moved_tick_def split: if_splits)
  ultimately show ?thesis using fire_touches_only [OF assms(1) fire] by (fastforce simp: key_run_def)
qed

text \<open>A server with one webhook trigger and its agent.\<close>

definition fire_server :: server where
  "fire_server =
     \<lparr>sv_store = store_default\<lparr>so_triggers := mutex_new [sample_trigger 1],
        so_agents := mutex_new [(AgentId 2, \<lparr>sa_manifest = \<lparr>mf_id = AgentId 2, mf_version = ''1'', mf_name = ''a'',
          mf_description = [], mf_instructions = [], mf_tools = [], mf_required_capabilities = []\<rparr>,
          sa_owner = rs_owner sample_spec\<rparr>)]\<rparr>, sv_redis = redis_empty\<rparr>"

lemma fire_server_ok: "store_ok (sv_store fire_server)"
  using store_ok_default by (simp add: store_ok_def fire_server_def)

lemma fire_server_trigger: "get_trigger (rs_owner sample_spec) (TriggerId 1) (sv_store fire_server) = Some (sample_trigger 1)"
  by (simp add: get_trigger_def lock_read_def fire_server_def mutex_new_def owned_trigger_def sample_trigger_def same_principal_def)

lemma fire_with_returns: "\<exists>r sv'. fire_with env own nm key sv = Some (r, sv')"
proof -
  have "(run_of env t version caps = None) = False" for t version caps using run_of_built [of env t version caps] by auto
  then have "fire_with env own nm key sv \<noteq> None"
    unfolding fire_with_def Let_def by (simp split: option.split del: not_None_eq)
  then show ?thesis by force
qed

theorem tick_fired_once_witness:
  "\<exists>r sv'. fire_trigger_at (sample_env (\<lambda>c. Answered)) (rs_owner sample_spec) (TriggerId 1) 100 fire_server = Some (r, sv')
    \<and> touches_only (sample_env (\<lambda>c. Answered)) (tick_run canonical_ops (TriggerId 1) 100) fire_server sv'"
proof -
  let ?env = "sample_env (\<lambda>c. Answered)"
  obtain r sv' where fire: "fire_trigger_at ?env (rs_owner sample_spec) (TriggerId 1) 100 fire_server = Some (r, sv')"
    using fire_with_returns by (fastforce simp: fire_trigger_at_def drop_pushed_def)
  with tick_fired_once [OF fire_server_ok fire] show ?thesis by (auto simp: sample_env_def)
qed



definition parse_one :: "string \<Rightarrow> trigger_id option" where
  "parse_one s = (if s = hyphenated 1 then Some (TriggerId 1) else None)"

text \<open>The run of a fire that was stored before its trigger was paused.\<close>

definition fired_spec :: run_spec where
  "fired_spec = keyed (Some (KeyTick (RunId 5) 100)) (the (run_of (sample_env (\<lambda>c. Answered)) (sample_trigger 1) ''1'' []))"

definition paused_server :: server where
  "paused_server = fire_server\<lparr>sv_store :=
     snd (put_run 5 \<lparr>sr_spec = fired_spec, sr_events = queued_events (sample_env (\<lambda>c. Answered)) fired_spec\<rparr>
       (store_default\<lparr>so_triggers := mutex_new [(sample_trigger 1)\<lparr>tr_enabled := False\<rparr>]\<rparr>))\<rparr>"


text \<open>A webhook event starts one run: every delivery of an event to a trigger touches that event's run
  only; it answers that it started the run only when the run is then queued or claimed, and never
  when it was already; a run that a worker took or that ended is not touched at all.\<close>

theorem webhook_event_once:
  assumes "store_ok (sv_store sv)" and "fire_webhook env parse t event body sv = Some (r, sv')"
    and "run = event_run (en_uuid env) (tr_id t) event"
  shows "touches_only env run sv sv'
    \<and> (\<forall>run'. r = Inr (Started run') \<longrightarrow> run' = run \<and> QUEUED_OR_CLAIMED (qt_show (en_txt env) run) (sv_redis sv'))
    \<and> (\<forall>stored. get_run run (sv_store sv) = Some stored \<longrightarrow>
         (\<not> still_waiting (sr_events stored) \<longrightarrow> sv' = sv)
         \<and> (QUEUED_OR_CLAIMED (qt_show (en_txt env) run) (sv_redis sv) \<longrightarrow> r \<noteq> Inr (Started run)))"
  using fire_webhook_touches [OF assms] by blast

lemma fire_webhook_returns: "\<exists>r sv'. fire_webhook env parse t event body sv = Some (r, sv')"
  using fire_with_returns [of env "tr_owner t" "tr_id t" "Some (KeyEvent (event_run (en_uuid env) (tr_id t) event) event body)" sv]
  by (auto simp: fire_webhook_def Let_def split: option.split)

theorem webhook_event_once_witness:
  "\<exists>r sv'. fire_webhook (sample_env (\<lambda>c. Answered)) parse_one (sample_trigger 1) ''evt-1'' ''{}'' fire_server = Some (r, sv')
    \<and> touches_only (sample_env (\<lambda>c. Answered)) (event_run canonical_ops (TriggerId 1) ''evt-1'') fire_server sv'"
proof -
  let ?env = "sample_env (\<lambda>c. Answered)"
  obtain r sv' where fire: "fire_webhook ?env parse_one (sample_trigger 1) ''evt-1'' ''{}'' fire_server = Some (r, sv')"
    using fire_webhook_returns by blast
  with webhook_event_once [OF fire_server_ok fire refl] show ?thesis by (auto simp: sample_env_def sample_trigger_def)
qed


end
