(* ===== verification/Server_Deliverer.thy ===== *)
theory Server_Deliverer
  imports Server_Spawner Authorizer
begin

text \<open>
  Messages between agents (\<open>crates/server/src/deliverer.rs\<close>): the owned deliverer, where an ask stands
  in its asker's log, the delivery of an answer, and the answer a task gives when it ends. The
  lemmas show that an answer is appended to a log at most once, and that an ask a harness waits
  on is open in its log.
\<close>

section \<open>Sending\<close>

definition task_step :: "u32 \<Rightarrow> u32" where
  "task_step decision = decision OR push_bit 31 1"

definition deliverer_put :: "stored_message \<Rightarrow> server \<Rightarrow> (string + message_id) \<times> server" where
  "deliverer_put msg sv =
     (case on_store (put_message msg) sv of
        (Inr MessageStored, sv1) \<Rightarrow> (Inr (ms_id msg), sv1)
      | (Inr (MessageExisted stored), sv1) \<Rightarrow>
          (let same = (ms_to_agent stored = ms_to_agent msg \<and> ms_body stored = ms_body msg
                 \<and> ms_expects_reply stored = ms_expects_reply msg \<and> ms_reply_to stored = ms_reply_to msg
                 \<and> ms_task_run stored = ms_task_run msg \<and> ms_timeout_secs stored = ms_timeout_secs msg)
           in (if same then Inr (ms_id stored) else Inl ''another message was sent at this decision'', sv1))
      | (Inl e, sv1) \<Rightarrow> (Inl ''store unavailable'', sv1))"

text \<open>\<open>i64::saturating_add\<close> of a time and the seconds of a timeout.\<close>

definition i64_max :: int where "i64_max = 2 ^ 63 - 1"

definition i64_min :: int where "i64_min = - (2 ^ 63)"

definition deadline_of :: "timestamp \<Rightarrow> u32 option \<Rightarrow> timestamp option" where
  "deadline_of now timeout_secs =
     map_option (\<lambda>seconds. max i64_min (min i64_max (now + int (unat seconds) * 1000))) timeout_secs"

section \<open>Where an ask stands\<close>

datatype ask_state = AskUnsent | AskOpen | AskAnswered

definition ask_step :: "message_id \<Rightarrow> ask_state \<Rightarrow> event_payload \<Rightarrow> ask_state" where
  "ask_step ask state payload =
     (case payload of
        MessageSent m to expects \<Rightarrow> if m = ask then AskOpen else state
      | UserAsked m prompt \<Rightarrow> if m = ask then AskOpen else state
      | MessageReceived m from from_run body (Some reply_to) \<Rightarrow>
          if reply_to = ask \<and> state = AskOpen then AskAnswered else state
      | AskTimedOut m \<Rightarrow> if m = ask \<and> state = AskOpen then AskAnswered else state
      | UserAnswered m txt \<Rightarrow> if m = ask \<and> state = AskOpen then AskAnswered else state
      | _ \<Rightarrow> state)"

definition ask_state_of :: "event list \<Rightarrow> message_id \<Rightarrow> ask_state" where
  "ask_state_of events ask = foldl (\<lambda>state ev. ask_step ask state (ev_payload ev)) AskUnsent events"

fun asked_prompt :: "message_id \<Rightarrow> event_payload \<Rightarrow> string option" where
  "asked_prompt ask (UserAsked m prompt) = (if m = ask then Some prompt else None)"
| "asked_prompt ask _ = None"

fun first_some :: "('a \<Rightarrow> 'b option) \<Rightarrow> 'a list \<Rightarrow> 'b option" where
  "first_some f [] = None"
| "first_some f (x # xs) = (case f x of None \<Rightarrow> first_some f xs | Some y \<Rightarrow> Some y)"

definition open_question :: "run_spec \<Rightarrow> event list \<Rightarrow> (message_id \<times> string) option" where
  "open_question spec events =
     (if list_ex is_end_event events then None
      else
        (case harness (fold_run spec events) of
           HWaitingForMessage step attempt ask \<Rightarrow>
             first_some (\<lambda>ev. map_option (\<lambda>prompt. (ask, prompt)) (asked_prompt ask (ev_payload ev))) events
         | _ \<Rightarrow> None))"

definition is_user_question :: "event list \<Rightarrow> message_id \<Rightarrow> bool" where
  "is_user_question events ask = list_ex (\<lambda>ev. asked_prompt ask (ev_payload ev) \<noteq> None) events"

section \<open>Delivering an answer\<close>

datatype if_unsent = UnsentLeave | UnsentClose

text \<open>The result of the append that \<open>deliver\<close> makes: \<open>Missing\<close> and \<open>Terminal\<close> need no answer.\<close>

definition append_answer :: "env \<Rightarrow> run_id \<Rightarrow> run_spec \<Rightarrow> event_payload \<Rightarrow> server \<Rightarrow> (string + unit) \<times> server" where
  "append_answer env asker spec reply sv =
     (case on_store (append_events (en_store_now env) asker [system_event env spec reply]) sv of
        (Inl e, sv1) \<Rightarrow> (Inl (error_message e), sv1)
      | (Inr res, sv1) \<Rightarrow>
          if res = Appended \<or> res = AppendTerminal \<or> res = AppendMissing then (Inr (), sv1) else (Inl ''Moved'', sv1))"

definition deliver_failed :: "env \<Rightarrow> run_id \<Rightarrow> message_id \<Rightarrow> string \<Rightarrow> string" where
  "deliver_failed env asker ask e =
     ''answer to ask '' @ qt_show_ask (en_txt env) ask @ '' of run '' @ qt_show (en_txt env) asker @ '': '' @ e"

definition deliver ::
    "env \<Rightarrow> run_id \<Rightarrow> message_id \<Rightarrow> event_payload \<Rightarrow> if_unsent \<Rightarrow> server \<Rightarrow> (string + bool) \<times> server" where
  "deliver env asker ask answer_payload if_unsent sv =
     (let settle = (\<lambda>sv. (Inr True,
            snd (on_redis (wake (en_txt env) (en_fate env AtWake) asker ask) (snd (on_store (answer ask) sv)))))
      in case get_run asker (sv_store sv) of
           None \<Rightarrow> settle sv
         | Some run \<Rightarrow>
             if list_ex is_end_event (sr_events run) then settle sv
             else
               (case ask_state_of (sr_events run) ask of
                  AskUnsent \<Rightarrow> if if_unsent = UnsentLeave then (Inr False, sv) else settle sv
                | AskAnswered \<Rightarrow> settle sv
                | AskOpen \<Rightarrow>
                    (case append_answer env asker (sr_spec run) answer_payload sv of
                       (Inl e, sv1) \<Rightarrow> (Inl (deliver_failed env asker ask e), sv1)
                     | (Inr u, sv1) \<Rightarrow> settle sv1)))"

section \<open>Sends and replies\<close>

definition deliverer_reply :: "env \<Rightarrow> message_request \<Rightarrow> server \<Rightarrow> (string + sent_message) \<times> server" where
  "deliverer_reply env request sv =
     (let from = mq_from request;
          not_asked = Inl ''not a reply to an ask this run was sent''
      in case ask_of_task (rs_run_id from) (sv_store sv) of
           None \<Rightarrow> (not_asked, sv)
         | Some ask \<Rightarrow>
             if \<not> (Some (ms_id ask) = mq_reply_to request \<and> ms_from_agent ask = mq_to request) then (not_asked, sv)
             else
               (case deliverer_put
                  \<lparr>ms_id = en_message env, ms_owner = rs_owner from, ms_from_run = rs_run_id from,
                   ms_from_agent = rs_agent_id from, ms_decision = mq_decision request, ms_to_agent = ms_from_agent ask,
                   ms_body = mq_body request, ms_expects_reply = False, ms_reply_to = Some (ms_id ask), ms_task_run = None,
                   ms_deadline = None, ms_timeout_secs = None, ms_hop = lin_hop (rs_lineage from)\<rparr> sv of
                  (Inl e, sv1) \<Rightarrow> (Inl e, sv1)
                | (Inr nm, sv1) \<Rightarrow>
                    (case deliver env (ms_from_run ask) (ms_id ask)
                       (MessageReceived nm (rs_agent_id from) (rs_run_id from) (mq_body request) (Some (ms_id ask)))
                       UnsentLeave sv1 of
                       (Inl e, sv2) \<Rightarrow> (Inl ''store unavailable'', sv2)
                     | (Inr False, sv2) \<Rightarrow> (Inl ''the asker has not logged the ask yet'', sv2)
                     | (Inr True, sv2) \<Rightarrow> (Inr \<lparr>sm_message_id = nm, sm_task = None\<rparr>, sv2))))"

definition deliverer_send :: "env \<Rightarrow> message_request \<Rightarrow> server \<Rightarrow> ((string + sent_message) \<times> server) option" where
  "deliverer_send env request sv =
     (let from = mq_from request in
      case mq_limits request of
        None \<Rightarrow> Some (deliverer_reply env request sv)
      | Some lims \<Rightarrow>
          if MAX_DELEGATION_HOPS \<le> lin_hop (rs_lineage from)
          then Some (Inl (''messaging is already '' @ dec (unat MAX_DELEGATION_HOPS) @ '' hops deep''), sv)
          else
            (case child_spec env True \<lparr>cr_parent = from, cr_step = task_step (mq_decision request),
                    cr_agent_id = mq_to request, cr_input = mq_body request, cr_limits = lims\<rparr> (sv_store sv) of
               None \<Rightarrow> None
             | Some (Inl e) \<Rightarrow> Some (Inl e, sv)
             | Some (Inr task) \<Rightarrow>
                 Some
                   (case deliverer_put
                      \<lparr>ms_id = en_message env, ms_owner = rs_owner from, ms_from_run = rs_run_id from,
                       ms_from_agent = rs_agent_id from, ms_decision = mq_decision request, ms_to_agent = mq_to request,
                       ms_body = mq_body request, ms_expects_reply = mq_expects_reply request,
                       ms_reply_to = mq_reply_to request, ms_task_run = Some (rs_run_id task),
                       ms_deadline = deadline_of (en_now env) (mq_timeout_secs request),
                       ms_timeout_secs = mq_timeout_secs request, ms_hop = lin_hop (rs_lineage from)\<rparr> sv of
                      (Inl e, sv1) \<Rightarrow> (Inl e, sv1)
                    | (Inr nm, sv1) \<Rightarrow>
                        (case enqueue_child env True task sv1 of
                           (Inl e, sv2) \<Rightarrow> (Inl e, sv2)
                         | (Inr started, sv2) \<Rightarrow> (Inr \<lparr>sm_message_id = nm, sm_task = Some started\<rparr>, sv2)))))"

section \<open>The answer of a task\<close>

text \<open>The largest character boundary at or below a length.\<close>

function cut_end :: "string \<Rightarrow> nat \<Rightarrow> nat" where
  "cut_end body n = (if is_char_boundary body n then n else cut_end body (n - 1))"
  by auto
termination
  by (relation "measure snd") (auto simp: is_char_boundary_def)

declare cut_end.simps [simp del]

definition capped :: "string \<Rightarrow> string" where
  "capped body = (if MAX_MESSAGE_BYTES < length body then take (cut_end body MAX_MESSAGE_BYTES) body else body)"

fun response_text :: "event_payload \<Rightarrow> string option" where
  "response_text (ModelResponded message usage) =
     (if mm_role message = RoleAssistant \<and> \<not> trim_is_empty (mm_text message) then Some (mm_text message) else None)"
| "response_text _ = None"

definition responded :: "event list \<Rightarrow> string option" where
  "responded events = first_some (\<lambda>ev. response_text (ev_payload ev)) (rev events)"

fun end_words :: "event list \<Rightarrow> event_payload \<Rightarrow> string option" where
  "end_words events (RunCompleted outcome) = Some (case responded events of None \<Rightarrow> outcome | Some text \<Rightarrow> text)"
| "end_words events (RunFailed cls message) = Some (''the task failed: '' @ message)"
| "end_words events RunCancelled = Some ''the task was cancelled''"
| "end_words events RunExpired = Some ''the task expired''"
| "end_words events _ = None"

definition task_answer :: "message_id \<Rightarrow> run_id \<Rightarrow> agent_id \<Rightarrow> message_id \<Rightarrow> event list \<Rightarrow> event_payload option" where
  "task_answer fresh task task_agent ask events =
     map_option (\<lambda>body. MessageReceived fresh task_agent task (capped body) (Some ask))
       (first_some (\<lambda>ev. end_words events (ev_payload ev)) (rev events))"

section \<open>Asks and the harness\<close>

lemma ask_state_snoc: "ask_state_of (events @ [ev]) ask = ask_step ask (ask_state_of events ask) (ev_payload ev)"
  by (simp add: ask_state_of_def)

lemma wait_entered:
  assumes "fst (reduce state ev spec) = HWaitingForMessage step attempt m" and "\<not> (\<exists>s a. state = HWaitingForMessage s a m)"
  shows "(\<exists>to. ev_payload ev = MessageSent m to True) \<or> (\<exists>prompt. ev_payload ev = UserAsked m prompt)"
  using assms
  by (cases state) (auto simp: reduce_defs split: event_payload.splits effect.splits bool.splits option.splits if_splits)

lemma wait_kept:
  assumes "fst (reduce (HWaitingForMessage s a m) ev spec) = HWaitingForMessage step attempt m" and "st = AskOpen"
  shows "ask_step m st (ev_payload ev) = AskOpen"
  using assms by (auto simp: reduce_defs ask_step_def split: event_payload.splits option.splits if_splits)

lemma waiting_is_open:
  "harness (fold_run spec events) = HWaitingForMessage step attempt m \<Longrightarrow> ask_state_of events m = AskOpen"
proof (induction events arbitrary: step attempt rule: rev_induct)
  case (snoc ev events)
  let ?h = "harness (fold_run spec events)"
  have now: "fst (reduce ?h ev spec) = HWaitingForMessage step attempt m" using snoc.prems by (simp add: harness_snoc)
  show ?case
  proof (cases "\<exists>s a. ?h = HWaitingForMessage s a m")
    case True
    then obtain s a where h: "?h = HWaitingForMessage s a m" by blast
    from now have "fst (reduce (HWaitingForMessage s a m) ev spec) = HWaitingForMessage step attempt m" by (simp add: h)
    then show ?thesis using snoc.IH [OF h] by (simp add: ask_state_snoc wait_kept)
  next
    case False
    from wait_entered [OF now False] show ?thesis by (auto simp: ask_state_snoc ask_step_def)
  qed
qed (simp add: fold_run_Nil)

section \<open>Answers\<close>

fun answers_ask :: "message_id \<Rightarrow> event_payload \<Rightarrow> bool" where
  "answers_ask ask (MessageReceived m from from_run body (Some reply_to)) = (reply_to = ask)"
| "answers_ask ask (AskTimedOut m) = (m = ask)"
| "answers_ask ask (UserAnswered m txt) = (m = ask)"
| "answers_ask ask _ = False"

lemma answer_closes: "answers_ask ask payload \<Longrightarrow> ask_step ask st payload \<noteq> AskOpen"
  by (cases "(ask, payload)" rule: answers_ask.cases) (auto simp: ask_step_def)

text \<open>An ask needs nothing more in a log that ended, is not stored, or where it is not open.\<close>

definition ask_settled :: "run_id \<Rightarrow> message_id \<Rightarrow> store \<Rightarrow> bool" where
  "ask_settled asker ask s =
     (case get_run asker s of
        None \<Rightarrow> True
      | Some run \<Rightarrow> list_ex is_end_event (sr_events run) \<or> ask_state_of (sr_events run) ask \<noteq> AskOpen)"

lemma answer_runs: "get_run k (snd (answer ask s)) = get_run k s"
  using other_same_log(4) [of s ask] by (simp add: same_log_def get_run_def lock_read_def)

lemma settled_deliver:
  assumes "ask_settled asker ask (sv_store sv)"
  shows "get_run k (sv_store (snd (deliver env asker ask payload iu sv))) = get_run k (sv_store sv)"
  using assms
  by (auto simp: deliver_def ask_settled_def Let_def answer_runs split: option.splits ask_state.splits)

lemma append_events_log:
  assumes "append_events now nm [ev] s = (Inr res, s')" and "res = Appended \<or> res = AppendTerminal \<or> res = AppendMissing"
    and "get_run nm s = Some run" and "\<not> list_ex is_end_event (sr_events run)"
  shows "get_run nm s' = Some (run\<lparr>sr_events := sr_events run @ [ev]\<rparr>)"
proof (cases rule: append_cases [of now nm None "[ev]" s])
  case (appended s1 old)
  with assms show ?thesis by (auto simp: append_events_def get_run_def lock_read_def)
next
  case (unchanged r)
  with assms show ?thesis
    by (auto simp: append_events_def append_checked_def get_run_def lock_read_def lock_write_def check_one_terminal_def
        split: if_splits sum.splits prod.splits)
qed

lemma deliver_settles:
  assumes "answers_ask ask payload" and "deliver env asker ask payload iu sv = (Inr True, sv')"
  shows "ask_settled asker ask (sv_store sv')"
proof (cases "ask_settled asker ask (sv_store sv)")
  case True
  with settled_deliver [OF True, of asker env payload iu] assms(2) show ?thesis
    by (simp add: ask_settled_def split: option.splits)
next
  case False
  then obtain run where run: "get_run asker (sv_store sv) = Some run" "\<not> list_ex is_end_event (sr_events run)"
    "ask_state_of (sr_events run) ask = AskOpen"
    by (auto simp: ask_settled_def split: option.splits)
  let ?ev = "system_event env (sr_spec run) payload"
  from assms(2) run obtain sv1 where app: "append_answer env asker (sr_spec run) payload sv = (Inr (), sv1)"
    and sv': "sv_store sv' = snd (answer ask (sv_store sv1))"
    by (auto simp: deliver_def Let_def split: sum.splits prod.splits)
  then obtain res where "append_events (en_store_now env) asker [?ev] (sv_store sv) = (Inr res, sv_store sv1)"
    "res = Appended \<or> res = AppendTerminal \<or> res = AppendMissing"
    by (auto simp: append_answer_def on_store_res split: sum.splits prod.splits if_splits)
  from append_events_log [OF this run(1,2)]
  have "get_run asker (sv_store sv') = Some (run\<lparr>sr_events := sr_events run @ [?ev]\<rparr>)" by (simp add: sv' answer_runs)
  then show ?thesis using answer_closes [OF assms(1)] by (simp add: ask_settled_def ask_state_snoc)
qed

section \<open>The cut of an answer\<close>

lemma cut_end_le: "cut_end body n \<le> n \<and> is_char_boundary body (cut_end body n)"
proof (induction body n rule: cut_end.induct)
  case (1 body n)
  show ?case
  proof (cases "is_char_boundary body n")
    case True
    then show ?thesis by (subst (1 2) cut_end.simps) simp
  next
    case False
    with 1 have "cut_end body (n - 1) \<le> n - 1 \<and> is_char_boundary body (cut_end body (n - 1))" by blast
    with False show ?thesis by (subst (1 2) cut_end.simps) auto
  qed
qed

lemma capped_bound: "length (capped body) \<le> MAX_MESSAGE_BYTES \<and> (\<exists>n. capped body = take n body \<and> is_char_boundary body n)"
proof (cases "MAX_MESSAGE_BYTES < length body")
  case True
  with cut_end_le [of body MAX_MESSAGE_BYTES] show ?thesis by (auto simp: capped_def)
next
  case False
  then show ?thesis by (auto simp: capped_def is_char_boundary_def intro!: exI [of _ "length body"])
qed

section \<open>Properties\<close>

text \<open>A run whose harness waits on a message has that ask open in its log: so an answer that comes
  is appended, and it is the harness's own wait that it ends.\<close>

theorem waiting_ask_open:
  assumes "harness (fold_run spec events) = HWaitingForMessage step attempt m" and "answers_ask m payload"
  shows "ask_state_of events m = AskOpen
    \<and> harness (fold_run spec (events @ [system_event env spec payload])) = HRunning step attempt True
    \<and> ask_state_of (events @ [system_event env spec payload]) m = AskAnswered"
proof -
  have was: "ask_state_of events m = AskOpen" using assms(1) by (rule waiting_is_open)
  have "fst (reduce (HWaitingForMessage step attempt m) (system_event env spec payload) spec) = HRunning step attempt True"
    using assms(2) by (cases "(m, payload)" rule: answers_ask.cases) (auto simp: reduce_defs)
  moreover have "ask_step m AskOpen payload = AskAnswered"
    using assms(2) by (cases "(m, payload)" rule: answers_ask.cases) (auto simp: ask_step_def)
  ultimately show ?thesis using was assms(1) by (simp add: harness_snoc ask_state_snoc)
qed

theorem waiting_ask_open_witness:
  "ask_state_of (map sample_event [RunStarted, UserAsked (MessageId 3) ''q'']) (MessageId 3) = AskOpen"
proof -
  have "harness (fold_run sample_spec (map sample_event [RunStarted, UserAsked (MessageId 3) ''q'']))
      = HWaitingForMessage 1 0 (MessageId 3)"
    by (simp add: harness_fold_run reduce_defs)
  from waiting_ask_open [OF this, of "AskTimedOut (MessageId 3)"] show ?thesis by simp
qed



end
