(* ===== verification/Sweeps.thy ===== *)
theory Sweeps
  imports Turns Trigger_Fire Server_Deliverer
begin

text \<open>
  The reaper's sweeps (\<open>crates/server/src/worker.rs\<close>): runs left pending, the asks of parked runs, the
  sandboxes and volumes of ended runs, and the settings of the queue. A sweep makes many calls; each
  takes place at a moment, which has its own clock, fresh ids and answers of Redis, and before it
  other threads and processes may have changed the server (\<open>ca_others\<close>). A sweep that asks whether a
  run is stopped returns an option (that question returns on every store a server reaches). Reading
  the store does not fail here: an in-memory read recovers a poisoned lock.
\<close>

section \<open>Calls at moments\<close>

record server_calls =
  ca_env :: "nat \<Rightarrow> env"
  ca_fate :: "nat \<Rightarrow> fate"
  ca_drop :: "nat \<Rightarrow> entry \<Rightarrow> fate"
  ca_others :: "nat \<Rightarrow> server \<Rightarrow> server"

type_synonym at = "server \<times> nat"

definition call :: "server_calls \<Rightarrow> (nat \<Rightarrow> server \<Rightarrow> 'a \<times> server) \<Rightarrow> at \<Rightarrow> 'a \<times> at" where
  "call ca f w = (case w of (sv, n) \<Rightarrow> case f n (ca_others ca n sv) of (r, sv1) \<Rightarrow> (r, (sv1, Suc n)))"

definition read_run :: "server_calls \<Rightarrow> run_id \<Rightarrow> at \<Rightarrow> stored_run option \<times> at" where
  "read_run ca run = call ca (\<lambda>n sv. (get_run run (sv_store sv), sv))"

definition do_unpend :: "server_calls \<Rightarrow> run_id \<Rightarrow> at \<Rightarrow> (string + unit) \<times> at" where
  "do_unpend ca run = call ca (\<lambda>n. on_redis (unpend (en_txt (ca_env ca n)) (ca_fate ca n) run))"

definition do_push :: "server_calls \<Rightarrow> run_id \<Rightarrow> at \<Rightarrow> (string + unit) \<times> at" where
  "do_push ca run = call ca (\<lambda>n. on_redis (push_run (en_txt (ca_env ca n)) (ca_fate ca n) run))"

definition do_wake :: "server_calls \<Rightarrow> run_id \<Rightarrow> message_id \<Rightarrow> at \<Rightarrow> (string + bool) \<times> at" where
  "do_wake ca run ask = call ca (\<lambda>n. on_redis (wake (en_txt (ca_env ca n)) (ca_fate ca n) run ask))"

definition do_pending_for :: "server_calls \<Rightarrow> nat \<Rightarrow> at \<Rightarrow> (string + run_id list) \<times> at" where
  "do_pending_for ca age =
     call ca (\<lambda>n. on_redis (pending_for (en_txt (ca_env ca n)) (ca_fate ca n) (ca_drop ca n) (en_redis_now (ca_env ca n)) age))"

definition do_deliver :: "server_calls \<Rightarrow> run_id \<Rightarrow> message_id \<Rightarrow> event_payload \<Rightarrow> if_unsent \<Rightarrow> at \<Rightarrow> (string + bool) \<times> at" where
  "do_deliver ca asker ask payload if_unsent = call ca (\<lambda>n. deliver (ca_env ca n) asker ask payload if_unsent)"

section \<open>Timing\<close>

text \<open>Durations are milliseconds.\<close>

record queue_timing =
  qm_lease :: nat
  qm_heartbeat :: nat
  qm_reap_every :: nat
  qm_idle_wait :: nat
  qm_max_backoff :: nat
  qm_max_deliveries :: u32
  qm_sweep_after :: nat
  qm_forget_after :: nat

definition timing_default :: queue_timing where
  "timing_default =
     \<lparr>qm_lease = 30 * 1000, qm_heartbeat = 10 * 1000, qm_reap_every = 15 * 1000, qm_idle_wait = 500, qm_max_backoff = 30 * 1000,
      qm_max_deliveries = 5, qm_sweep_after = 60 * 1000, qm_forget_after = 24 * 60 * 60 * 1000\<rparr>"

text \<open>A \<open>Duration\<close> of \<open>u64::MAX\<close> seconds and a bit is far above \<open>max_backoff\<close>: where \<open>saturating_mul\<close>
  saturates, the minimum is \<open>max_backoff\<close> all the same.\<close>

definition saturating_pow2 :: "u32 \<Rightarrow> nat" where
  "saturating_pow2 n = min (2 ^ unat n) (2 ^ 32 - 1)"

definition backoff :: "queue_timing \<Rightarrow> u32 \<Rightarrow> nat" where
  "backoff timing failures =
     (let factor = saturating_pow2 (min (saturating_sub failures 1) 16)
      in min (qm_idle_wait timing * factor) (qm_max_backoff timing))"

section \<open>Runs left pending\<close>

definition sweep_one ::
    "server_calls \<Rightarrow> (string \<Rightarrow> trigger_id option) \<Rightarrow> run_id list \<Rightarrow> run_id \<Rightarrow> at \<Rightarrow> bool \<times> at" where
  "sweep_one ca parse forgotten run w =
     (case read_run ca run w of
        (Some stored, w1) \<Rightarrow>
          if still_waiting (sr_events stored) then
            if rs_metadata (sr_spec stored) TRIGGER_KEY \<noteq> None
            then (case call ca (\<lambda>n. settle_fired_run (ca_env ca n) parse (sr_spec stored)) w1 of
                    (r, w2) \<Rightarrow> (r = Inr Pushed, w2))
            else (case do_push ca run w1 of (r, w2) \<Rightarrow> (r = Inr (), w2))
          else (False, snd (do_unpend ca run w1))
      | (None, w1) \<Rightarrow>
          if run \<notin> set forgotten then (False, w1) else (False, snd (do_unpend ca run w1)))"

fun sweep_runs ::
    "server_calls \<Rightarrow> (string \<Rightarrow> trigger_id option) \<Rightarrow> run_id list \<Rightarrow> run_id list \<Rightarrow> at \<Rightarrow> run_id list \<times> at" where
  "sweep_runs ca parse forgotten [] w = ([], w)"
| "sweep_runs ca parse forgotten (run # runs) w =
     (case sweep_one ca parse forgotten run w of
        (pushed, w1) \<Rightarrow>
          (case sweep_runs ca parse forgotten runs w1 of
             (rest, w2) \<Rightarrow> (if pushed then run # rest else rest, w2)))"

definition sweep ::
    "server_calls \<Rightarrow> (string \<Rightarrow> trigger_id option) \<Rightarrow> nat \<Rightarrow> nat \<Rightarrow> at \<Rightarrow> (string + run_id list) \<times> at" where
  "sweep ca parse after forget_after w =
     (case do_pending_for ca forget_after w of
        (Inl e, w1) \<Rightarrow> (Inl e, w1)
      | (Inr forgotten, w1) \<Rightarrow>
          (case do_pending_for ca after w1 of
             (Inl e, w2) \<Rightarrow> (Inl e, w2)
           | (Inr runs, w2) \<Rightarrow> (case sweep_runs ca parse forgotten runs w2 of (pushed, w3) \<Rightarrow> (Inr pushed, w3))))"

section \<open>Asks\<close>

definition ask_is_open :: "stored_message \<Rightarrow> store \<Rightarrow> bool" where
  "ask_is_open ask s =
     (case ms_task_run ask of
        None \<Rightarrow> False
      | Some task \<Rightarrow> (case ask_of_task task s of None \<Rightarrow> False | Some open \<Rightarrow> ms_id open = ms_id ask))"

definition task_end :: "message_id \<Rightarrow> stored_message \<Rightarrow> store \<Rightarrow> event_payload option" where
  "task_end fresh ask s =
     (case ms_task_run ask of
        None \<Rightarrow> None
      | Some task \<Rightarrow>
          Option.bind (get_run task s)
            (\<lambda>run. task_answer fresh (rs_run_id (sr_spec run)) (rs_agent_id (sr_spec run)) (ms_id ask) (sr_events run)))"

definition parked_answer :: "server_calls \<Rightarrow> message_id \<Rightarrow> at \<Rightarrow> event_payload option \<times> at" where
  "parked_answer ca ask w =
     (case call ca (\<lambda>n sv. (get_message ask (sv_store sv), sv)) w of
        (None, w1) \<Rightarrow> (Some (AskTimedOut ask), w1)
      | (Some row, w1) \<Rightarrow>
          (case call ca (\<lambda>n sv. (task_end (en_message (ca_env ca n)) row (sv_store sv), sv)) w1 of
             (Some payload, w2) \<Rightarrow> (Some payload, w2)
           | (None, w2) \<Rightarrow>
               (case call ca (\<lambda>n sv. (ask_is_open row (sv_store sv), sv)) w2 of
                  (False, w3) \<Rightarrow> (Some (AskTimedOut ask), w3)
                | (True, w3) \<Rightarrow> (None, w3))))"

text \<open>One parked run: the result of its turn of the loop, \<open>None\<close> inside where the source goes on to
  the next one.\<close>

definition sweep_parked :: "server_calls \<Rightarrow> run_id \<Rightarrow> message_id \<Rightarrow> at \<Rightarrow> ((string + bool) option \<times> at) option" where
  "sweep_parked ca run ask w =
     (case read_run ca run w of
        (loaded, w1) \<Rightarrow>
          let waits = (case loaded of
                         None \<Rightarrow> False
                       | Some stored \<Rightarrow> ask_state_of (sr_events stored) ask = AskOpen \<and> \<not> list_ex is_end_event (sr_events stored));
              question = (case loaded of None \<Rightarrow> False | Some stored \<Rightarrow> is_user_question (sr_events stored) ask);
              wakes = (\<lambda>w. case do_wake ca run ask w of (r, w2) \<Rightarrow> (Some (map_sum id (\<lambda>b. True) r), w2))
          in if \<not> waits then Some (wakes w1)
             else if question then
               (case call ca (\<lambda>n sv. (stopped run (sv_store sv), sv)) w1 of
                  (None, w2) \<Rightarrow> None
                | (Some True, w2) \<Rightarrow> Some (wakes w2)
                | (Some False, w2) \<Rightarrow> Some (None, w2))
             else
               (case parked_answer ca ask w1 of
                  (None, w2) \<Rightarrow> Some (None, w2)
                | (Some payload, w2) \<Rightarrow>
                    (case do_deliver ca run ask payload UnsentClose w2 of (r, w3) \<Rightarrow> Some (Some r, w3))))"

fun sweep_all_parked :: "server_calls \<Rightarrow> (run_id \<times> message_id) list \<Rightarrow> at \<Rightarrow> (run_id list \<times> at) option" where
  "sweep_all_parked ca [] w = Some ([], w)"
| "sweep_all_parked ca ((run, ask) # parks) w =
     (case sweep_parked ca run ask w of
        None \<Rightarrow> None
      | Some (result, w1) \<Rightarrow>
          map_option (\<lambda>(swept, w2). (if result = Some (Inr True) then run # swept else swept, w2))
            (sweep_all_parked ca parks w1))"

definition sweep_due :: "server_calls \<Rightarrow> stored_message \<Rightarrow> at \<Rightarrow> bool \<times> at" where
  "sweep_due ca ask w =
     (case call ca (\<lambda>n sv. (task_end (en_message (ca_env ca n)) ask (sv_store sv), sv)) w of
        (ended, w1) \<Rightarrow>
          let payload = (case ended of Some payload \<Rightarrow> payload | None \<Rightarrow> AskTimedOut (ms_id ask)) in
          (case do_deliver ca (ms_from_run ask) (ms_id ask) payload UnsentClose w1 of (r, w2) \<Rightarrow> (r = Inr True, w2)))"

fun sweep_all_due :: "server_calls \<Rightarrow> stored_message list \<Rightarrow> at \<Rightarrow> run_id list \<times> at" where
  "sweep_all_due ca [] w = ([], w)"
| "sweep_all_due ca (ask # asks) w =
     (case sweep_due ca ask w of
        (answered, w1) \<Rightarrow>
          (case sweep_all_due ca asks w1 of
             (swept, w2) \<Rightarrow> (if answered then ms_from_run ask # swept else swept, w2)))"

definition sweep_asks :: "server_calls \<Rightarrow> timestamp \<Rightarrow> at \<Rightarrow> ((string + run_id list) \<times> at) option" where
  "sweep_asks ca now w =
     (case call ca (\<lambda>n. on_redis (parked (en_txt (ca_env ca n)) (ca_fate ca n))) w of
        (Inl e, w1) \<Rightarrow> Some (Inl e, w1)
      | (Inr parks, w1) \<Rightarrow>
          (case sweep_all_parked ca parks w1 of
             None \<Rightarrow> None
           | Some (woken, w2) \<Rightarrow>
               (case call ca (\<lambda>n sv. (open_asks_due now (sv_store sv), sv)) w2 of
                  (due, w3) \<Rightarrow>
                    (case sweep_all_due ca due w3 of (swept, w4) \<Rightarrow> Some (Inr (woken @ swept), w4)))))"

section \<open>The reaper\<close>

definition OUTBOX_RETENTION_MS :: int where
  "OUTBOX_RETENTION_MS = 7 * 24 * 60 * 60 * 1000"

text \<open>One round of \<open>reap_forever\<close>: \<open>messages\<close> and \<open>outbox\<close> say whether it was given those stores.\<close>

definition reap_round ::
    "server_calls \<Rightarrow> (string \<Rightarrow> trigger_id option) \<Rightarrow> bool \<Rightarrow> bool \<Rightarrow> queue_timing \<Rightarrow> at \<Rightarrow> at option" where
  "reap_round ca parse messages outbox timing w =
     (let w1 = snd (call ca (\<lambda>n. on_redis (reap (en_txt (ca_env ca n)) (ca_fate ca n) (en_redis_now (ca_env ca n)))) w);
          w2 = snd (sweep ca parse (qm_sweep_after timing) (qm_forget_after timing) w1);
          asked = (if messages then map_option snd (sweep_asks ca (en_now (ca_env ca (snd w2))) w2) else Some w2)
      in case asked of
           None \<Rightarrow> None
         | Some w3 \<Rightarrow>
             Some (if outbox
                   then snd (call ca (\<lambda>n. on_store (prune_outbox (max (en_now (ca_env ca n) - OUTBOX_RETENTION_MS) i64_min))) w3)
                   else w3))"

section \<open>Sandboxes of ended runs\<close>

definition run_ended :: "stored_run option \<Rightarrow> bool" where
  "run_ended loaded = (case loaded of None \<Rightarrow> False | Some stored \<Rightarrow> list_ex is_end_event (sr_events stored))"

text \<open>Sandboxes first: the names removed, and the runs that still have one.\<close>

fun sweep_boxes ::
    "queue_text \<Rightarrow> server_calls \<Rightarrow> 'h sandbox \<Rightarrow> string list \<Rightarrow> at \<times> 'h \<Rightarrow> string list \<times> run_id list \<times> at \<times> 'h" where
  "sweep_boxes qt ca sb [] wh = ([], [], wh)"
| "sweep_boxes qt ca sb (name # names) (w, h) =
     (case box_run_of qt name of
        None \<Rightarrow> sweep_boxes qt ca sb names (w, h)
      | Some run \<Rightarrow>
          (case read_run ca run w of
             (loaded, w1) \<Rightarrow>
               if \<not> run_ended loaded
               then (case sweep_boxes qt ca sb names (w1, h) of (removed, left, wh) \<Rightarrow> (removed, run # left, wh))
               else
                 (case sb_destroy sb name h of
                    (Inr u, h1) \<Rightarrow> (case sweep_boxes qt ca sb names (w1, h1) of (removed, left, wh) \<Rightarrow> (name # removed, left, wh))
                  | (Inl e, h1) \<Rightarrow> (case sweep_boxes qt ca sb names (w1, h1) of (removed, left, wh) \<Rightarrow> (removed, run # left, wh)))))"

fun sweep_volumes ::
    "queue_text \<Rightarrow> server_calls \<Rightarrow> 'h sandbox \<Rightarrow> run_id list \<Rightarrow> string list \<Rightarrow> at \<times> 'h \<Rightarrow> string list \<times> at \<times> 'h" where
  "sweep_volumes qt ca sb left [] wh = ([], wh)"
| "sweep_volumes qt ca sb left (name # names) (w, h) =
     (case workspace_run_of qt name of
        None \<Rightarrow> sweep_volumes qt ca sb left names (w, h)
      | Some run \<Rightarrow>
          if run \<in> set left then sweep_volumes qt ca sb left names (w, h)
          else
            (case read_run ca run w of
               (loaded, w1) \<Rightarrow>
                 if \<not> (run_ended loaded \<and> (case loaded of None \<Rightarrow> False | Some stored \<Rightarrow> rs_placement (sr_spec stored) = Box))
                 then sweep_volumes qt ca sb left names (w1, h)
                 else
                   (case sb_remove_volume sb name h of
                      (Inr u, h1) \<Rightarrow> (case sweep_volumes qt ca sb left names (w1, h1) of (removed, wh) \<Rightarrow> (name # removed, wh))
                    | (Inl e, h1) \<Rightarrow> sweep_volumes qt ca sb left names (w1, h1))))"

definition sweep_sandboxes ::
    "queue_text \<Rightarrow> server_calls \<Rightarrow> 'h sandbox \<Rightarrow> at \<Rightarrow> 'h \<Rightarrow> (string + string list) \<times> at \<times> 'h" where
  "sweep_sandboxes qt ca sb w h =
     (case sb_list sb h of
        (Inl e, h1) \<Rightarrow> (Inl e, w, h1)
      | (Inr listed, h1) \<Rightarrow>
          (case sweep_boxes qt ca sb listed (w, h1) of
             (removed, left, w1, h2) \<Rightarrow>
               (case sb_list_volumes sb h2 of
                  (Inl e, h3) \<Rightarrow> (Inr removed, w1, h3)
                | (Inr volumes, h3) \<Rightarrow>
                    (case sweep_volumes qt ca sb left volumes (w1, h3) of
                       (more_removed, w2, h4) \<Rightarrow> (Inr (removed @ more_removed), w2, h4)))))"

section \<open>Settings of the queue\<close>

record queue_settings =
  qs_redis_url :: string
  qs_workers :: nat

definition non_empty :: "string option \<Rightarrow> string option" where
  "non_empty value = (case value of None \<Rightarrow> None | Some s \<Rightarrow> if s = [] then None else Some s)"

definition queue_from_env ::
    "(string \<Rightarrow> string) \<Rightarrow> (string \<Rightarrow> string option) \<Rightarrow> string + queue_settings option" where
  "queue_from_env debug env =
     (case non_empty (env ''GOL_REDIS_URL'') of
        None \<Rightarrow> Inr None
      | Some redis_url \<Rightarrow>
          if non_empty (env ''GOL_DATABASE_URL'') = None
          then Inl ''GOL_REDIS_URL needs GOL_DATABASE_URL: queued run ids outlive the process, and a run kept in memory would not''
          else
            (case non_empty (env ''GOL_WORKERS'') of
               None \<Rightarrow> Inr (Some \<lparr>qs_redis_url = redis_url, qs_workers = 2\<rparr>)
             | Some given \<Rightarrow>
                 (case parse_u64 given of
                    Some n \<Rightarrow>
                      if 1 \<le> n \<and> n \<le> 256 then Inr (Some \<lparr>qs_redis_url = redis_url, qs_workers = n\<rparr>)
                      else Inl (''GOL_WORKERS must be a count from 1 to 256, not '' @ debug given)
                  | None \<Rightarrow> Inl (''GOL_WORKERS must be a count from 1 to 256, not '' @ debug given))))"

section \<open>No run is stranded\<close>

text \<open>A run is stranded when it is stored as its producer left it and no list of the queue knows it.\<close>

definition stored_waiting :: "run_id \<Rightarrow> store \<Rightarrow> bool" where
  "stored_waiting run s \<longleftrightarrow> (case get_run run s of None \<Rightarrow> False | Some stored \<Rightarrow> still_waiting (sr_events stored))"

definition stranded :: "queue_text \<Rightarrow> run_id \<Rightarrow> server \<Rightarrow> bool" where
  "stranded qt run sv \<longleftrightarrow> stored_waiting run (sv_store sv) \<and> \<not> known (qt_show qt run) (sv_redis sv)"

definition moved_on :: "run_id \<Rightarrow> server \<Rightarrow> bool" where
  "moved_on run sv \<longleftrightarrow> get_run run (sv_store sv) \<noteq> None \<and> \<not> stored_waiting run (sv_store sv)"

definition names_runs :: "queue_text \<Rightarrow> bool" where
  "names_runs qt \<longleftrightarrow> (\<forall>run. qt_parse qt (qt_show qt run) = Inr run)"

lemma names_runs_inj: "names_runs qt \<Longrightarrow> qt_show qt a = qt_show qt b \<longleftrightarrow> a = b"
  by (metis names_runs_def sum.inject(2))

lemma known_unpend:
  "known e (q\<lparr>rd_pending := del_key e' (rd_pending q)\<rparr>) \<longleftrightarrow> held e q \<or> e \<noteq> e' \<and> e \<in> fst ` set (rd_pending q)"
  by (auto simp: known_def held_def del_key_fst)

lemma unpend_other:
  assumes "names_runs qt" and "run' \<noteq> run" and "known (qt_show qt run) q"
  shows "known (qt_show qt run) (snd (unpend qt f run' q))"
  using assms names_runs_inj [OF assms(1)]
  by (auto simp: unpend_def unpend_entry_def with_redis_def known_unpend split: fate.split) (auto simp: known_def)

lemma pushed_known:
  "known e q \<Longrightarrow> known e (snd (push_run qt f run q))"
  "snd (push_run qt f run q) = q \<or> known (qt_show qt run) (snd (push_run qt f run q))"
  "known e q \<Longrightarrow> known e (snd (push_once qt f run q))"
  "snd (push_once qt f run q) = q \<or> known (qt_show qt run) (snd (push_once qt f run q))"
  by (auto simp: push_run_def push_once_def with_redis_def PUSH_def PUSH_ONCE_def QUEUED_OR_CLAIMED_def known_def held_def
      del_key_fst Let_def split: fate.split)

lemma ended_not_waiting: "list_ex is_end_event events \<Longrightarrow> \<not> still_waiting events"
proof -
  have "is_run_end p \<Longrightarrow> \<not> waiting_payload p" for p by (cases p) simp_all
  then show "list_ex is_end_event events \<Longrightarrow> \<not> still_waiting events"
    by (auto simp: still_waiting_def list_all_iff list_ex_iff)
qed

lemma append_log:
  assumes "append_events t nm events s = (r, s')"
  shows "s' = s \<and> r \<noteq> Inr Appended \<or> (\<exists>old. get_run nm s = Some old \<and> r = Inr Appended
     \<and> (\<forall>k. get_run k s' = (if k = nm then Some (old\<lparr>sr_events := sr_events old @ events\<rparr>) else get_run k s)))"
proof (cases rule: append_cases [of t nm None events s])
  case (appended s1 old)
  with assms show ?thesis by (auto simp: append_events_def get_run_def lock_read_def update_conv')
next
  case (unchanged r1)
  with assms show ?thesis by (simp add: append_events_def)
qed

lemma still_waiting_append: "still_waiting (xs @ ys) \<longleftrightarrow> still_waiting xs \<and> still_waiting ys"
  by (simp add: still_waiting_def)

lemma append_keeps_moved:
  "moved_on run sv \<Longrightarrow> moved_on run (snd (on_store (append_events t nm events) sv))"
  using append_log [of t nm events "sv_store sv"]
  by (cases "append_events t nm events (sv_store sv)")
    (fastforce simp: moved_on_def stored_waiting_def still_waiting_append split: option.splits if_splits)

lemma append_not_stranded:
  "\<not> stranded qt run sv \<Longrightarrow> \<not> stranded qt run (snd (on_store (append_events t nm events) sv))"
  using append_log [of t nm events "sv_store sv"]
  by (cases "append_events t nm events (sv_store sv)")
    (fastforce simp: stranded_def stored_waiting_def still_waiting_append split: option.splits if_splits)

lemma cancel_moves:
  assumes "on_store (append_events t nm [run_cancelled_event env spec]) sv = (Inr res, sv')" and "res = Appended \<or> res = AppendTerminal"
  shows "moved_on nm sv'"
proof -
  from assms(1) have app: "append_events t nm [run_cancelled_event env spec] (sv_store sv) = (Inr res, sv_store sv')"
    by (simp add: on_store_res)
  show ?thesis
  proof (cases "res = Appended")
    case True
    with append_log [OF app] show ?thesis
      by (auto simp: moved_on_def stored_waiting_def still_waiting_append still_waiting_def run_cancelled_event_def system_event_def
          record_event_def split: prod.splits)
  next
    case False
    with assms(2) app have "\<exists>stored. get_run nm (sv_store sv') = Some stored \<and> list_ex is_end_event (sr_events stored)"
      by (auto simp: append_events_def append_checked_def get_run_def lock_read_def lock_write_def Let_def
          split: sum.splits if_splits option.splits prod.splits)
    then show ?thesis
      using ended_not_waiting by (auto simp: moved_on_def stored_waiting_def)
  qed
qed

lemma settle_fire_not_stranded:
  assumes named: "names_runs (en_txt env)" and safe: "\<not> stranded (en_txt env) run sv"
  shows "\<not> stranded (en_txt env) run (fst (snd (settle_fire env spec gate sv cell)))"
proof -
  let ?nm = "rs_run_id spec"
  have off: "\<not> stranded (en_txt env) run (snd (on_redis (unpend (en_txt env) f ?nm) sv1))"
    if "\<not> stranded (en_txt env) run sv1" "moved_on ?nm sv1" for f sv1
    using that unpend_other [OF named, of ?nm run] by (cases "?nm = run") (auto simp: stranded_def moved_on_def)
  have once: "\<not> stranded (en_txt env) run (snd (on_redis (push_once (en_txt env) f ?nm) sv))" for f
    using safe pushed_known(3,4) by (auto simp: stranded_def)
  have shut: "\<not> stranded (en_txt env) run (snd (on_store (append_events t ?nm evs) sv))" for t evs
    by (rule append_not_stranded [OF safe])
  have moved: "moved_on ?nm sv" if "\<not> still_waiting (case get_run ?nm (sv_store sv) of None \<Rightarrow> [] | Some r \<Rightarrow> sr_events r)"
    using that by (auto simp: moved_on_def stored_waiting_def still_waiting_def split: option.splits)
  show ?thesis
    unfolding settle_fire_def Let_def
    using off [OF safe] once shut moved safe cancel_moves off [OF append_not_stranded [OF safe]]
    by (auto split: gate.splits sum.splits prod.splits if_splits) (metis snd_conv)+
qed

text \<open>What a sweep relies on of the others: they strand no run and take none back to its producer's log.\<close>

definition others_safe :: "queue_text \<Rightarrow> run_id \<Rightarrow> server_calls \<Rightarrow> bool" where
  "others_safe qt run ca \<longleftrightarrow> (\<forall>n. en_txt (ca_env ca n) = qt)
     \<and> (\<forall>n sv. \<not> stranded qt run sv \<longrightarrow> \<not> stranded qt run (ca_others ca n sv))
     \<and> (\<forall>n sv. moved_on run sv \<longrightarrow> moved_on run (ca_others ca n sv))"

lemma call_result: "fst (call ca f (sv, n)) = fst (f n (ca_others ca n sv))" "snd (call ca f (sv, n)) = (snd (f n (ca_others ca n sv)), Suc n)"
  by (simp_all add: call_def split: prod.split)

lemma call_eq: "call ca f (sv, n) = (r, w') \<longleftrightarrow> f n (ca_others ca n sv) = (r, fst w') \<and> snd w' = Suc n"
  by (cases w') (auto simp: call_def split: prod.split)

lemma unpend_entry_other: "e \<noteq> e' \<Longrightarrow> known e q \<Longrightarrow> known e (snd (unpend_entry f e' q))"
  using known_unpend [of e e' q] by (cases f) (auto simp: unpend_entry_def with_redis_def known_def)

lemma drop_unparsed_known:
  assumes "qt_parse qt e = Inr run" and "known e q"
  shows "known e (snd (drop_unparsed qt fates es q))"
  using assms
proof (induction qt fates es q rule: drop_unparsed.induct)
  case (2 qt' fates e' es q)
  show ?case
  proof (cases "qt_parse qt' e'")
    case (Inl a)
    with 2 have "e \<noteq> e'" by auto
    with 2 Inl show ?thesis by (simp add: unpend_entry_other)
  next
    case (Inr b)
    with 2 show ?thesis by (simp add: Let_def case_prod_unfold)
  qed
qed simp

lemma pending_for_known:
  assumes "qt_parse qt e = Inr run" and "known e q"
  shows "known e (snd (pending_for qt f fates t age q))"
  using assms drop_unparsed_known [OF assms]
  by (cases f) (simp_all add: pending_for_def with_redis_def Let_def case_prod_unfold)

lemma do_call_safe:
  assumes "others_safe qt run ca"
  shows "moved_on run sv \<Longrightarrow> moved_on run (ca_others ca n sv)" "\<not> stranded qt run sv \<Longrightarrow> \<not> stranded qt run (ca_others ca n sv)"
    "en_txt (ca_env ca n) = qt"
  using assms by (auto simp: others_safe_def)

lemma pending_for_not_stranded:
  assumes "names_runs qt" and "others_safe qt run ca" and "\<not> stranded qt run sv" and "do_pending_for ca age (sv, n) = (r, (sv', n'))"
  shows "\<not> stranded qt run sv'"
proof -
  have "\<not> stranded qt run (ca_others ca n sv)" using do_call_safe(2) [OF assms(2,3)] .
  then show ?thesis
    using assms(4) pending_for_known [of qt "qt_show qt run" run] assms(1) do_call_safe(3) [OF assms(2)]
    by (auto simp: do_pending_for_def call_eq on_redis_res stranded_def names_runs_def) (metis snd_conv)
qed

lemma unpend_not_stranded:
  assumes "names_runs qt" and "others_safe qt run ca" and "\<not> stranded qt run sv" and "run' \<noteq> run \<or> moved_on run sv"
  shows "\<not> stranded qt run (fst (snd (do_unpend ca run' (sv, n))))"
proof -
  let ?sv = "ca_others ca n sv"
  have now: "\<not> stranded qt run ?sv" "run' \<noteq> run \<or> moved_on run ?sv"
    using do_call_safe(1,2) [OF assms(2)] assms(3,4) by auto
  show ?thesis
  proof (cases "run' = run")
    case True
    with now show ?thesis by (simp add: do_unpend_def call_result stranded_def moved_on_def)
  next
    case False
    with now show ?thesis
      using unpend_other [OF assms(1) False] do_call_safe(3) [OF assms(2)]
      by (auto simp: do_unpend_def call_result stranded_def)
  qed
qed

lemma sweep_one_not_stranded:
  assumes named: "names_runs qt" and safe: "others_safe qt run ca" and ok: "\<not> stranded qt run sv" and fresh: "run \<notin> set forgotten"
    and one: "sweep_one ca parse forgotten run' (sv, n) = (pushed, (sv', n'))"
  shows "\<not> stranded qt run sv'"
proof -
  let ?sv = "ca_others ca n sv" and ?sv2 = "ca_others ca (Suc n) (ca_others ca n sv)"
  have now: "\<not> stranded qt run ?sv" using do_call_safe(2) [OF safe ok] .
  have then_ok: "\<not> stranded qt run ?sv2" using do_call_safe(2) [OF safe now] .
  note qt = do_call_safe(3) [OF safe]
  have load: "read_run ca run' (sv, n) = (get_run run' (sv_store ?sv), (?sv, Suc n))" by (simp add: read_run_def call_def)
  show ?thesis
  proof (cases "get_run run' (sv_store ?sv)")
    case None
    with one load now unpend_not_stranded [OF named safe now, of run' "Suc n"] fresh show ?thesis
      by (auto simp: sweep_one_def split: if_splits)
  next
    case (Some stored)
    show ?thesis
    proof (cases "still_waiting (sr_events stored)")
      case False
      with Some have "run' \<noteq> run \<or> moved_on run ?sv" by (auto simp: moved_on_def stored_waiting_def)
      from unpend_not_stranded [OF named safe now this, of "Suc n"] one load Some False show ?thesis
        by (simp add: sweep_one_def split: prod.splits)
    next
      case True
      have "\<not> stranded qt run (snd (settle_fired_run (ca_env ca (Suc n)) parse (sr_spec stored) ?sv2))"
        using settle_fire_not_stranded [of "ca_env ca (Suc n)" run ?sv2] qt named then_ok
        by (simp add: settle_fired_run_def Let_def case_prod_unfold)
      moreover have "\<not> stranded qt run (snd (on_redis (push_run qt (ca_fate ca (Suc n)) run') ?sv2))"
        using then_ok pushed_known(1,2) by (auto simp: stranded_def)
      ultimately show ?thesis
        using one load Some True
        by (auto simp: sweep_one_def do_push_def qt call_def split: if_splits prod.splits)
    qed
  qed
qed

lemma sweep_runs_not_stranded:
  assumes "names_runs qt" and "others_safe qt run ca" and "run \<notin> set forgotten"
    and "\<not> stranded qt run sv" and "sweep_runs ca parse forgotten runs (sv, n) = (pushed, (sv', n'))"
  shows "\<not> stranded qt run sv'"
  using assms(4,5)
proof (induction runs arbitrary: sv n pushed)
  case (Cons run' runs)
  obtain b sv1 n1 where one: "sweep_one ca parse forgotten run' (sv, n) = (b, (sv1, n1))" by (metis prod_cases3)
  with sweep_one_not_stranded [OF assms(1,2) Cons.prems(1) assms(3)] have "\<not> stranded qt run sv1" .
  with Cons.IH [of sv1 n1] Cons.prems(2) one show ?case by (auto split: prod.splits)
qed simp


section \<open>What the sweep hands on\<close>

definition handed :: "queue_text \<Rightarrow> run_id \<Rightarrow> server \<Rightarrow> bool" where
  "handed qt run sv \<longleftrightarrow> held (qt_show qt run) (sv_redis sv) \<or> moved_on run sv"

text \<open>A stored run that no trigger fired.\<close>

definition stored_plain :: "run_id \<Rightarrow> server \<Rightarrow> bool" where
  "stored_plain run sv \<longleftrightarrow>
     (case get_run run (sv_store sv) of None \<Rightarrow> False | Some stored \<Rightarrow> rs_metadata (sr_spec stored) TRIGGER_KEY = None)"

definition others_fair :: "queue_text \<Rightarrow> run_id \<Rightarrow> server_calls \<Rightarrow> bool" where
  "others_fair qt run ca \<longleftrightarrow> (\<forall>n. en_txt (ca_env ca n) = qt)
     \<and> (\<forall>n sv. handed qt run sv \<longrightarrow> handed qt run (ca_others ca n sv))
     \<and> (\<forall>n sv. stored_plain run sv \<longrightarrow> stored_plain run (ca_others ca n sv))"

lemma queue_keeps_held:
  "held e q \<Longrightarrow> held e (snd (push_run qt f run q))" "held e q \<Longrightarrow> held e (snd (push_once qt f run q))"
  "held e q \<Longrightarrow> held e (snd (unpend qt f run q))" "held e q \<Longrightarrow> held e (snd (unpend_entry f e' q))"
  by (auto simp: push_run_def push_once_def unpend_def unpend_entry_def with_redis_def PUSH_def PUSH_ONCE_def QUEUED_OR_CLAIMED_def
      held_def Let_def split: fate.split)

lemma redis_call_keeps:
  assumes "\<And>q. held (qt_show qt run) q \<Longrightarrow> held (qt_show qt run) (snd (f q))"
  shows "handed qt run sv \<Longrightarrow> handed qt run (snd (on_redis f sv))" "stored_plain run (snd (on_redis f sv)) = stored_plain run sv"
  using assms by (auto simp: handed_def moved_on_def stored_plain_def)

lemma queue_keeps_handed:
  "handed qt run sv \<Longrightarrow> handed qt run (snd (on_redis (push_run t f r) sv))"
  "handed qt run sv \<Longrightarrow> handed qt run (snd (on_redis (push_once t f r) sv))"
  "handed qt run sv \<Longrightarrow> handed qt run (snd (on_redis (unpend t f r) sv))"
  using queue_keeps_held by (auto simp: handed_def moved_on_def)

lemma stored_plain_redis [simp]: "stored_plain run (snd (on_redis g sv)) = stored_plain run sv"
  by (simp add: stored_plain_def)

lemma append_keeps:
  "handed qt run sv \<Longrightarrow> handed qt run (snd (on_store (append_events t nm events) sv))"
  "stored_plain run sv \<Longrightarrow> stored_plain run (snd (on_store (append_events t nm events) sv))"
proof -
  show "handed qt run sv \<Longrightarrow> handed qt run (snd (on_store (append_events t nm events) sv))"
    using append_keeps_moved by (auto simp: handed_def)
  show "stored_plain run sv \<Longrightarrow> stored_plain run (snd (on_store (append_events t nm events) sv))"
    using append_log [of t nm events "sv_store sv"]
    by (cases "append_events t nm events (sv_store sv)") (fastforce simp: stored_plain_def split: option.splits if_splits)
qed

lemma settle_fire_shape:
  assumes "settle_fire env spec gate sv cell = (r, sv', cell')"
  defines "held_sv \<equiv> snd (on_store (append_events (en_store_now env) (rs_run_id spec) [run_cancelled_event env spec]) sv)"
  shows "sv' \<in> {sv, held_sv, snd (on_redis (unpend (en_txt env) (en_fate env AtUnpend) (rs_run_id spec)) sv),
     snd (on_redis (unpend (en_txt env) (en_fate env AtUnpend) (rs_run_id spec)) held_sv),
     snd (on_redis (push_once (en_txt env) (en_fate env AtPushOnce) (rs_run_id spec)) sv)}"
  using assms(1) unfolding held_sv_def settle_fire_def Let_def
  by (auto split: gate.splits sum.splits prod.splits if_splits)

lemma settle_fire_keeps:
  assumes "settle_fire env spec gate sv cell = (r, sv', cell')"
  shows "handed (en_txt env) run sv \<Longrightarrow> handed (en_txt env) run sv'" "stored_plain run sv \<Longrightarrow> stored_plain run sv'"
  using settle_fire_shape [OF assms] append_keeps queue_keeps_handed by auto

lemma settle_fired_run_keeps:
  "handed (en_txt env) run sv \<Longrightarrow> handed (en_txt env) run (snd (settle_fired_run env parse spec sv))"
  "stored_plain run sv \<Longrightarrow> stored_plain run (snd (settle_fired_run env parse spec sv))"
proof -
  obtain r sv' where s: "settle_fired_run env parse spec sv = (r, sv')" by fastforce
  from s show "handed (en_txt env) run sv \<Longrightarrow> handed (en_txt env) run (snd (settle_fired_run env parse spec sv))"
    by (cases rule: settle_fired_run_cases) (simp add: s settle_fire_keeps(1))
  from s show "stored_plain run sv \<Longrightarrow> stored_plain run (snd (settle_fired_run env parse spec sv))"
    by (cases rule: settle_fired_run_cases) (simp add: s settle_fire_keeps(2))
qed

lemma drop_unparsed_held: "held e q \<Longrightarrow> held e (snd (drop_unparsed qt fates es q))"
  by (induction qt fates es q rule: drop_unparsed.induct)
    (auto simp: Let_def case_prod_unfold queue_keeps_held(4) split: sum.split)

lemma pending_for_keeps:
  assumes "others_fair qt run ca" and "do_pending_for ca age (sv, n) = (r, (sv', n'))"
  shows "handed qt run sv \<Longrightarrow> handed qt run sv'" "stored_plain run sv \<Longrightarrow> stored_plain run sv'"
proof -
  have held: "held e q \<Longrightarrow> held e (snd (pending_for t f fs tm age q))" for e q t f fs tm
    by (cases f) (simp_all add: pending_for_def with_redis_def Let_def case_prod_unfold drop_unparsed_held)
  note keeps = redis_call_keeps [of qt run "pending_for (en_txt (ca_env ca n)) (ca_fate ca n) (ca_drop ca n) (en_redis_now (ca_env ca n)) age", OF held]
  have sv': "sv' = snd (on_redis (pending_for (en_txt (ca_env ca n)) (ca_fate ca n) (ca_drop ca n) (en_redis_now (ca_env ca n)) age) (ca_others ca n sv))"
    using assms(2) by (simp add: do_pending_for_def call_eq)
  from assms(1) keeps show "handed qt run sv \<Longrightarrow> handed qt run sv'" "stored_plain run sv \<Longrightarrow> stored_plain run sv'"
    unfolding sv' by (simp_all add: others_fair_def)
qed

lemma sweep_one_keeps:
  assumes fair: "others_fair qt run ca" and one: "sweep_one ca parse forgotten run' (sv, n) = (b, (sv', n'))"
  shows "handed qt run sv \<Longrightarrow> handed qt run sv'" "stored_plain run sv \<Longrightarrow> stored_plain run sv'"
proof -
  let ?sv = "ca_others ca n sv" and ?sv2 = "ca_others ca (Suc n) (ca_others ca n sv)"
  have qt: "en_txt (ca_env ca m) = qt" for m using fair by (simp add: others_fair_def)
  have others: "handed qt run x \<Longrightarrow> handed qt run (ca_others ca m x)" "stored_plain run x \<Longrightarrow> stored_plain run (ca_others ca m x)" for x m
    using fair by (simp_all add: others_fair_def)
  have "sv' = ?sv \<or> (\<exists>spec. sv' = snd (settle_fired_run (ca_env ca (Suc n)) parse spec ?sv2))
      \<or> sv' = snd (on_redis (push_run qt (ca_fate ca (Suc n)) run') ?sv2)
      \<or> sv' = snd (on_redis (unpend qt (ca_fate ca (Suc n)) run') ?sv2)"
  proof (cases "get_run run' (sv_store ?sv)")
    case None
    with one show ?thesis by (auto simp: sweep_one_def read_run_def do_unpend_def call_def qt split: if_splits prod.splits)
  next
    case (Some stored)
    with one show ?thesis
      by (auto simp: sweep_one_def read_run_def do_push_def do_unpend_def call_def qt split: if_splits prod.splits) (metis snd_conv)+
  qed
  then have "(handed qt run ?sv2 \<longrightarrow> handed qt run ?sv \<longrightarrow> handed qt run sv') \<and> (stored_plain run ?sv2 \<longrightarrow> stored_plain run ?sv \<longrightarrow> stored_plain run sv')"
  proof (elim disjE exE)
    fix spec
    assume "sv' = snd (settle_fired_run (ca_env ca (Suc n)) parse spec ?sv2)"
    then show ?thesis using settle_fired_run_keeps(1) [of "ca_env ca (Suc n)" run] settle_fired_run_keeps(2) [of run] by (simp add: qt)
  qed (use queue_keeps_handed in auto)
  then show "handed qt run sv \<Longrightarrow> handed qt run sv'" "stored_plain run sv \<Longrightarrow> stored_plain run sv'"
    using others by blast+
qed

lemma sweep_one_hands:
  assumes fair: "others_fair qt run ca" and up: "\<forall>m. ca_fate ca m = Answered" and plain: "stored_plain run sv"
    and one: "sweep_one ca parse forgotten run (sv, n) = (b, (sv', n'))"
  shows "handed qt run sv'"
proof -
  let ?sv = "ca_others ca n sv" and ?sv2 = "ca_others ca (Suc n) (ca_others ca n sv)"
  have qt: "en_txt (ca_env ca m) = qt" for m using fair by (simp add: others_fair_def)
  from fair plain have "stored_plain run ?sv" by (simp add: others_fair_def)
  then obtain stored where stored: "get_run run (sv_store ?sv) = Some stored" "rs_metadata (sr_spec stored) TRIGGER_KEY = None"
    by (auto simp: stored_plain_def split: option.splits)
  show ?thesis
  proof (cases "still_waiting (sr_events stored)")
    case True
    with one stored have "sv' = snd (on_redis (push_run qt Answered run) ?sv2)"
      by (auto simp: sweep_one_def read_run_def do_push_def call_def qt up split: prod.splits)
    then show ?thesis by (simp add: handed_def held_def push_run_def with_redis_def PUSH_def)
  next
    case False
    with stored have "handed qt run ?sv" by (simp add: handed_def moved_on_def stored_waiting_def)
    with fair have "handed qt run ?sv2" by (simp add: others_fair_def)
    moreover from one stored False have "sv' = snd (on_redis (unpend qt Answered run) ?sv2)"
      by (auto simp: sweep_one_def read_run_def do_unpend_def call_def qt up split: prod.splits)
    ultimately show ?thesis using queue_keeps_handed(3) by simp
  qed
qed

lemma sweep_runs_hands:
  assumes "others_fair qt run ca" and "\<forall>m. ca_fate ca m = Answered" and "stored_plain run sv"
    and "sweep_runs ca parse forgotten runs (sv, n) = (pushed, (sv', n'))" and "run \<in> set runs \<or> handed qt run sv"
  shows "handed qt run sv'"
  using assms(3-5)
proof (induction runs arbitrary: sv n pushed)
  case (Cons run' runs)
  obtain b sv1 n1 where one: "sweep_one ca parse forgotten run' (sv, n) = (b, (sv1, n1))" by (metis prod_cases3)
  have "stored_plain run sv1" using sweep_one_keeps(2) [OF assms(1) one Cons.prems(1)] .
  moreover have "run \<in> set runs \<or> handed qt run sv1"
    using Cons.prems(3) sweep_one_hands [OF assms(1,2) Cons.prems(1), of parse forgotten n b sv1 n1] one
      sweep_one_keeps(1) [OF assms(1) one] by auto
  ultimately show ?case using Cons.IH [of sv1 n1] Cons.prems(2) one by (auto split: prod.splits)
qed simp

text \<open>A run its producer stored and never pushed is handed on: when the sweep finds it pending for
  long enough and Redis answers, then after the sweep it is queued, or its log has moved past what its producer
  stored. (A run that a trigger fired is pushed only past its gate.)\<close>

theorem sweep_hands_on:
  assumes "others_fair qt run ca" and "\<forall>m. ca_fate ca m = Answered" and "stored_plain run sv"
    and "do_pending_for ca forget_after (sv, n) = (Inr forgotten, w)" and "do_pending_for ca after w = (Inr due, w')" and "run \<in> set due"
  shows "\<exists>pushed sv' n'. sweep ca parse after forget_after (sv, n) = (Inr pushed, (sv', n')) \<and> handed qt run sv'"
proof -
  obtain sv1 n1 sv2 n2 where w: "w = (sv1, n1)" "w' = (sv2, n2)" by fastforce
  obtain pushed sv' n' where runs: "sweep_runs ca parse forgotten due (sv2, n2) = (pushed, (sv', n'))" by (metis prod_cases3)
  have "stored_plain run sv2"
    using pending_for_keeps(2) [OF assms(1)] assms(3-5) w by metis
  from sweep_runs_hands [OF assms(1,2) this runs] assms(6) have "handed qt run sv'" by simp
  with assms(4,5) runs w show ?thesis by (simp add: sweep_def)
qed

section \<open>Parked runs\<close>

definition quiet :: "server_calls \<Rightarrow> bool" where
  "quiet ca \<longleftrightarrow> (\<forall>n sv. ca_others ca n sv = sv)"

definition parked_on :: "queue_text \<Rightarrow> run_id \<Rightarrow> message_id \<Rightarrow> redis \<Rightarrow> bool" where
  "parked_on qt run ask q \<longleftrightarrow> map_of (rd_parked q) (qt_show qt run) = Some (qt_show_ask qt ask)"

lemma wake_unparks: "\<not> parked_on qt run ask (snd (wake qt Answered run ask q))"
  by (auto simp: parked_on_def wake_def with_redis_def WAKE_def split: prod.split)

lemma quiet_call: "quiet ca \<Longrightarrow> call ca f (sv, n) = (fst (f n sv), (snd (f n sv), Suc n))"
  by (simp add: call_def quiet_def split: prod.split)

lemma deliver_unparks:
  assumes "deliver env run ask payload iu sv = (Inr True, sv')" and "en_fate env AtWake = Answered"
  shows "\<not> parked_on (en_txt env) run ask (sv_redis sv')"
  using assms wake_unparks
  by (auto simp: deliver_def Let_def split: option.splits if_splits ask_state.splits prod.splits sum.splits)

lemma parked_answer_answers:
  assumes "quiet ca" and "messages_ok (mx_value (so_messages (sv_store sv)))" and "parked_answer ca ask (sv, n) = (Some payload, w)"
  shows "answers_ask ask payload \<and> fst w = sv"
proof -
  have named: "ms_id row = ask" if "get_message ask (sv_store sv) = Some row" for row
    using that assms(2) by (force simp: get_message_def messages_ok_def lock_read_def dest: map_of_SomeD)
  show ?thesis
    using assms(3) named
    by (auto simp: parked_answer_def quiet_call [OF assms(1)] task_end_def task_answer_def bind_eq_Some_conv split: option.splits bool.splits)
qed

lemma parked_answer_left:
  assumes "quiet ca" and "parked_answer ca ask (sv, n) = (None, w)"
  shows "fst w = sv \<and> (\<exists>row fresh. get_message ask (sv_store sv) = Some row \<and> task_end fresh row (sv_store sv) = None \<and> ask_is_open row (sv_store sv))"
  using assms(2) by (auto simp: parked_answer_def quiet_call [OF assms(1)] split: option.splits bool.splits)

text \<open>What the ask sweep does with one parked run, when nobody else writes and Redis answers: a run it
  reports is not parked on its ask any more, and either its log does not wait on the ask (the answer landed, was
  just delivered, or the run is over) or a stop covers it; a run it leaves parked still waits, on a question to the user
  that no stop covers or on an ask that is open and whose task has not ended.\<close>

theorem sweep_parked_settles:
  assumes "quiet ca" and "\<forall>m. ca_fate ca m = Answered \<and> en_fate (ca_env ca m) AtWake = Answered \<and> en_txt (ca_env ca m) = qt"
    and "messages_ok (mx_value (so_messages (sv_store sv)))"
    and "sweep_parked ca run ask (sv, n) = Some (result, (sv', n'))"
  shows "(result = Some (Inr True) \<longrightarrow> \<not> parked_on qt run ask (sv_redis sv')
       \<and> (ask_settled run ask (sv_store sv') \<or> stopped run (sv_store sv) = Some True))
    \<and> (result = None \<longrightarrow> sv' = sv \<and> \<not> ask_settled run ask (sv_store sv)
       \<and> (stopped run (sv_store sv) = Some False
          \<or> (\<exists>row fresh. get_message ask (sv_store sv) = Some row \<and> task_end fresh row (sv_store sv) = None \<and> ask_is_open row (sv_store sv))))"
proof -
  let ?loaded = "get_run run (sv_store sv)"
  let ?waits = "case ?loaded of None \<Rightarrow> False | Some stored \<Rightarrow> ask_state_of (sr_events stored) ask = AskOpen \<and> \<not> list_ex is_end_event (sr_events stored)"
  let ?question = "case ?loaded of None \<Rightarrow> False | Some stored \<Rightarrow> is_user_question (sr_events stored) ask"
  note qc = quiet_call [OF assms(1)]
  have settled: "ask_settled run ask (sv_store sv) \<longleftrightarrow> \<not> ?waits" by (auto simp: ask_settled_def split: option.splits)
  have woken: "do_wake ca run ask (sv, m) = (Inr b, (sv1, m')) \<Longrightarrow> sv_store sv1 = sv_store sv \<and> \<not> parked_on qt run ask (sv_redis sv1)" for m b sv1 m'
    using wake_unparks [of qt run ask "sv_redis sv"] assms(2) by (auto simp: do_wake_def qc)
  note run = assms(4) [unfolded sweep_parked_def read_run_def qc Let_def, simplified]
  consider (over) "\<not> ?waits" | (asked) "?waits" "?question" | (ask) "?waits" "\<not> ?question" by blast
  then show ?thesis
  proof cases
    case over
    with run woken settled show ?thesis by (cases "do_wake ca run ask (sv, Suc n)") (auto simp: map_sum_def split: sum.splits)
  next
    case asked
    with run woken settled show ?thesis
      by (cases "stopped run (sv_store sv)"; cases "do_wake ca run ask (sv, Suc (Suc n))")
        (auto simp: qc map_sum_def split: bool.splits sum.splits)
  next
    case ask
    show ?thesis
    proof -
      obtain found w where Pair: "parked_answer ca ask (sv, Suc n) = (found, w)" by (metis surj_pair)
      show ?thesis
      proof (cases found)
        case None
        from parked_answer_left [OF assms(1) Pair [unfolded None]] run ask Pair None settled show ?thesis by auto
      next
        case (Some payload)
        from parked_answer_answers [OF assms(1,3) Pair [unfolded Some]] obtain m where payload: "answers_ask ask payload" "w = (sv, m)"
          by (cases w) auto
        from run ask Pair Some payload have "result = Some (fst (deliver (ca_env ca m) run ask payload UnsentClose sv))"
          "sv' = snd (deliver (ca_env ca m) run ask payload UnsentClose sv)"
          by (auto simp: do_deliver_def qc)
        with deliver_settles [OF payload(1)] deliver_unparks [of "ca_env ca m" run ask payload UnsentClose sv] assms(2) show ?thesis
          by (metis option.inject option.distinct(1) prod.collapse)
      qed
    qed
  qed
qed

section \<open>Sandboxes of open runs\<close>

text \<open>What the sandbox sweep relies on, beside what a turn does: the host removes only what it is told to.\<close>

locale sandbox_sweeper = sandbox_host sb live for sb :: "'h sandbox" and live :: "'h \<Rightarrow> string set" +
  assumes destroy_others: "live h - {name} \<subseteq> live (snd (sb_destroy sb name h))"
    and list_same: "live (snd (sb_list sb h)) = live h"
    and list_volumes_same: "live (snd (sb_list_volumes sb h)) = live h"
    and remove_volume_same: "live (snd (sb_remove_volume sb name h)) = live h"
begin

lemma sweep_boxes_spares:
  assumes "sweep_boxes qt ca sb names ((sv, n), h) = (removed, left, (sv', n'), h')"
    and "\<forall>m sv. run_ended (get_run run (sv_store sv)) \<longrightarrow> run_ended (get_run run (sv_store (ca_others ca m sv)))"
  shows "(run_ended (get_run run (sv_store sv)) \<longrightarrow> run_ended (get_run run (sv_store sv')))
    \<and> (\<forall>name. box_run_of qt name = Some run \<longrightarrow> \<not> run_ended (get_run run (sv_store sv')) \<longrightarrow> name \<in> live h \<longrightarrow> name \<in> live h')
    \<and> (\<forall>name \<in> set removed. box_run_of qt name = Some run \<longrightarrow> run_ended (get_run run (sv_store sv')))
    \<and> (\<forall>name \<in> set removed. box_run_of qt name \<noteq> None) \<and> live h' \<subseteq> live h \<and> (\<forall>name \<in> set removed. name \<notin> live h')"
  using assms(1)
proof (induction names arbitrary: sv n h removed left)
  case (Cons name names)
  let ?sv = "ca_others ca n sv"
  have load: "read_run ca r (sv, n) = (get_run r (sv_store ?sv), (?sv, Suc n))" for r by (simp add: read_run_def call_def)
  note stays = assms(2) [rule_format, of sv n]
  show ?case
  proof (cases "box_run_of qt name")
    case None
    with Cons.prems Cons.IH [of sv n h removed left] show ?thesis by simp
  next
    case (Some run')
    show ?thesis
    proof (cases "run_ended (get_run run' (sv_store ?sv))")
      case False
      with Cons.prems Some load obtain left1 where
        "sweep_boxes qt ca sb names ((?sv, Suc n), h) = (removed, left1, (sv', n'), h')" by (auto split: prod.splits)
      from Cons.IH [OF this] stays show ?thesis by blast
    next
      case True
      obtain r h1 where gone: "sb_destroy sb name h = (r, h1)" by fastforce
      obtain removed1 left1 where rest: "sweep_boxes qt ca sb names ((?sv, Suc n), h1) = (removed1, left1, (sv', n'), h')"
        "removed = (if r = Inr () then name # removed1 else removed1)"
        using Cons.prems Some load True gone by (auto split: prod.splits sum.splits)
      have "live h - {name} \<subseteq> live h1" "live h1 \<subseteq> live h" using destroy_others [of h name] destroy_only [of name h] gone by simp_all
      moreover have "r = Inr () \<Longrightarrow> name \<notin> live h1" using destroy_gone gone by simp
      ultimately show ?thesis using Cons.IH [OF rest(1)] rest(2) Some True stays by (auto split: if_splits)
    qed
  qed
qed simp

lemma sweep_volumes_spares:
  assumes "sweep_volumes qt ca sb left names ((sv, n), h) = (removed, (sv', n'), h')"
    and "\<forall>m sv. run_ended (get_run run (sv_store sv)) \<longrightarrow> run_ended (get_run run (sv_store (ca_others ca m sv)))"
  shows "(run_ended (get_run run (sv_store sv)) \<longrightarrow> run_ended (get_run run (sv_store sv'))) \<and> live h' = live h
    \<and> (\<forall>name \<in> set removed. workspace_run_of qt name = Some run \<longrightarrow> run_ended (get_run run (sv_store sv')) \<and> run \<notin> set left)
    \<and> (\<forall>name \<in> set removed. workspace_run_of qt name \<noteq> None)"
  using assms(1)
proof (induction names arbitrary: sv n h removed)
  case (Cons name names)
  let ?sv = "ca_others ca n sv"
  have load: "read_run ca r (sv, n) = (get_run r (sv_store ?sv), (?sv, Suc n))" for r by (simp add: read_run_def call_def)
  note stays = assms(2) [rule_format, of sv n]
  show ?case
  proof (cases "\<exists>run'. workspace_run_of qt name = Some run' \<and> run' \<notin> set left")
    case False
    with Cons.prems Cons.IH [of sv n h removed] show ?thesis by (auto split: option.splits)
  next
    case True
    then obtain run' where run': "workspace_run_of qt name = Some run'" "run' \<notin> set left" by blast
    let ?loaded = "get_run run' (sv_store ?sv)"
    show ?thesis
    proof (cases "run_ended ?loaded \<and> (case ?loaded of None \<Rightarrow> False | Some stored \<Rightarrow> rs_placement (sr_spec stored) = Box)")
      case False
      with Cons.prems run' load have "sweep_volumes qt ca sb left names ((?sv, Suc n), h) = (removed, (sv', n'), h')" by auto
      from Cons.IH [OF this] stays show ?thesis by blast
    next
      case True
      obtain r h1 where gone: "sb_remove_volume sb name h = (r, h1)" by fastforce
      obtain removed1 where rest: "sweep_volumes qt ca sb left names ((?sv, Suc n), h1) = (removed1, (sv', n'), h')"
        "removed = (if r = Inr () then name # removed1 else removed1)"
        using Cons.prems run' load True gone by (auto split: prod.splits sum.splits)
      have "live h1 = live h" using remove_volume_same [of name h] gone by simp
      with Cons.IH [OF rest(1)] rest(2) run' True stays show ?thesis by auto
    qed
  qed
qed simp

lemma sweep_sandboxes_spares:
  assumes "sweep_sandboxes qt ca sb (sv, n) h = (r, (sv', n'), h')"
    and rely: "\<forall>m sv. run_ended (get_run run (sv_store sv)) \<longrightarrow> run_ended (get_run run (sv_store (ca_others ca m sv)))"
    and "box_run_of qt name = Some run" "name \<in> live h" "\<not> run_ended (get_run run (sv_store sv'))"
  shows "name \<in> live h'"
proof -
  obtain l h1 where listed: "sb_list sb h = (l, h1)" by fastforce
  have h1: "live h1 = live h" using list_same [of h] listed by simp
  show ?thesis
  proof (cases l)
    case (Inl e)
    with assms listed h1 show ?thesis by (auto simp: sweep_sandboxes_def)
  next
    case (Inr names)
    obtain removed left sv1 n1 h2 where boxes: "sweep_boxes qt ca sb names ((sv, n), h1) = (removed, left, (sv1, n1), h2)"
      by (metis surj_pair)
    obtain v h3 where vols: "sb_list_volumes sb h2 = (v, h3)" by fastforce
    have h3: "live h3 = live h2" using list_volumes_same [of h2] vols by simp
    note box = sweep_boxes_spares [OF boxes rely]
    show ?thesis
    proof (cases v)
      case (Inl e)
      with assms listed Inr boxes vols h1 h3 box show ?thesis by (auto simp: sweep_sandboxes_def)
    next
      case (Inr volumes)
      obtain removed2 sv2 n2 h4 where volumes: "sweep_volumes qt ca sb left volumes ((sv1, n1), h3) = (removed2, (sv2, n2), h4)"
        by (metis surj_pair)
      have "sv' = sv2" "h' = h4"
        using assms(1) listed \<open>l = Inr names\<close> boxes vols Inr volumes by (auto simp: sweep_sandboxes_def)
      with assms h1 h3 box sweep_volumes_spares [OF volumes rely] show ?thesis by auto
    qed
  qed
qed

end

interpretation memory_sweeper: sandbox_sweeper "memory_host qt" "\<lambda>h. set (mb_live h)"
  by unfold_locales
    (auto simp: memory_host_def mem_destroy_def mem_list_def mem_list_volumes_def mem_remove_volume_def Let_def split: if_splits)

text \<open>The sandbox sweep never takes the sandbox of an open run: on the in-memory host, whatever the
  others do between its steps, as long as a run that ended stays ended, a sandbox that was up before the sweep and whose run has
  not ended when the sweep returns is still up.\<close>

theorem sandbox_sweep_spares_open:
  assumes "sweep_sandboxes qt ca (memory_host qt) (sv, n) h = (r, (sv', n'), h')"
    and "\<forall>m sv. run_ended (get_run run (sv_store sv)) \<longrightarrow> run_ended (get_run run (sv_store (ca_others ca m sv)))"
    and "box_run_of qt name = Some run" and "mem_exists name h" and "\<not> run_ended (get_run run (sv_store sv'))"
  shows "mem_exists name h'"
  using memory_sweeper.sweep_sandboxes_spares [OF assms(1,2,3) _ assms(5)] assms(4) by (simp add: mem_exists_def)

definition still_calls :: server_calls where
  "still_calls = \<lparr>ca_env = (\<lambda>n. sample_env (\<lambda>c. Answered)), ca_fate = (\<lambda>n. Answered), ca_drop = (\<lambda>n e. Answered), ca_others = (\<lambda>n sv. sv)\<rparr>"

text \<open>A server whose producer died between the put and the push of a run.\<close>

definition left_server :: server where
  "left_server =
     \<lparr>sv_store = store_default\<lparr>so_runs := mutex_new [(RunId 1,
        \<lparr>sr_spec = sample_spec, sr_events = map sample_event [RunCreated, RunQueued, UserMessage ''go'']\<rparr>)]\<rparr>,
      sv_redis = redis_empty\<lparr>rd_pending := [(''1'', - 100000)]\<rparr>\<rparr>"

lemma sample_names: "names_runs sample_txt" "qt_show sample_txt (RunId 1) = ''1''" "qt_parse sample_txt ''1'' = Inr (RunId 1)"
proof -
  show "names_runs sample_txt" by (auto simp: names_runs_def sample_txt_def run_id.expand)
  show "qt_show sample_txt (RunId 1) = ''1''" by (simp add: sample_txt_def dec.simps digit_def)
  then show "qt_parse sample_txt ''1'' = Inr (RunId 1)" using \<open>names_runs sample_txt\<close> by (metis names_runs_def)
qed

lemma still_calls_safe: "others_safe sample_txt run still_calls" "others_fair sample_txt run still_calls" "quiet still_calls"
  "\<forall>m. ca_fate still_calls m = Answered"
  by (simp_all add: others_safe_def others_fair_def quiet_def still_calls_def sample_env_def)

lemma left_pending:
  "do_pending_for still_calls 86400000 (left_server, 0) = (Inr [], (left_server, 1))"
  "do_pending_for still_calls 60000 (left_server, 1) = (Inr [RunId 1], (left_server, 2))"
  by (simp_all add: do_pending_for_def call_def on_redis_def pending_for_def with_redis_def still_calls_def left_server_def
      sample_env_def redis_empty_def PENDING_FOR_def by_score_def sample_names Let_def)


theorem sweep_hands_on_witness:
  "\<exists>pushed sv' n'. sweep still_calls parse_one 60000 86400000 (left_server, 0) = (Inr pushed, (sv', n')) \<and> handed sample_txt (RunId 1) sv'"
proof (rule sweep_hands_on [OF still_calls_safe(2,4) _ left_pending])
  show "stored_plain (RunId 1) left_server"
    by (simp add: stored_plain_def left_server_def get_run_def lock_read_def mutex_new_def sample_spec_def)
qed simp

theorem sweep_parked_settles_witness:
  "\<exists>sv' n'. sweep_parked still_calls (RunId 1) (MessageId 3)
      (sample_server\<lparr>sv_redis := redis_empty\<lparr>rd_parked := [(''1'', ''3'')]\<rparr>\<rparr>, 0) = Some (Some (Inr True), (sv', n'))
     \<and> \<not> parked_on sample_txt (RunId 1) (MessageId 3) (sv_redis sv')"
proof -
  let ?sv = "sample_server\<lparr>sv_redis := redis_empty\<lparr>rd_parked := [(''1'', ''3'')]\<rparr>\<rparr>"
  obtain sv' n' where run: "sweep_parked still_calls (RunId 1) (MessageId 3) (?sv, 0) = Some (Some (Inr True), (sv', n'))"
    by (simp add: sweep_parked_def read_run_def call_def do_wake_def still_calls_def sample_server_def get_run_def lock_read_def
        store_default_def mutex_new_def wake_def with_redis_def on_redis_def sample_env_def case_prod_unfold)
  have "\<forall>m. ca_fate still_calls m = Answered \<and> en_fate (ca_env still_calls m) AtWake = Answered \<and> en_txt (ca_env still_calls m) = sample_txt"
    by (simp add: still_calls_def sample_env_def)
  from sweep_parked_settles [OF still_calls_safe(3) this _ run] run show ?thesis
    by (simp add: sample_server_def store_default_def mutex_new_def messages_ok_def)
qed

definition box_host :: memory_sandbox where
  "box_host = \<lparr>mb_live = [box_attempt_name uuid_txt (RunId 7) 1], mb_provisioned = [], mb_volumes = []\<rparr>"

theorem sandbox_sweep_spares_open_witness:
  "mem_exists (box_attempt_name uuid_txt (RunId 7) 1)
     (snd (snd (sweep_sandboxes uuid_txt still_calls (memory_host uuid_txt) (sample_server, 0) box_host)))"
proof -
  let ?name = "box_attempt_name uuid_txt (RunId 7) 1"
  obtain r sv' n' h' where run: "sweep_sandboxes uuid_txt still_calls (memory_host uuid_txt) (sample_server, 0) box_host = (r, (sv', n'), h')"
    by (metis surj_pair)
  have name: "box_run_of uuid_txt ?name = Some (RunId 7)"
    by (simp add: box_attempt_name_def uuid_txt_def box_run_of_def strip_prefix_def is_prefix_def is_char_boundary_def attempt_ok_def
        is_ascii_upper_def dec.simps digit_def is_ascii_number_def parse_run_def Let_def)
  have none: "get_run (RunId 7) (sv_store sample_server) = None"
    by (simp add: sample_server_def store_default_def mutex_new_def get_run_def lock_read_def)
  have listed: "sb_list (memory_host uuid_txt) box_host = (Inr [?name], box_host)"
    by (simp add: memory_host_def mem_list_def box_host_def box_attempt_name_def is_prefix_def)
  have "sv' = sample_server"
    using run listed name none
    by (simp add: sweep_sandboxes_def read_run_def call_def still_calls_def run_ended_def memory_host_def mem_list_volumes_def box_host_def)
  with none have "\<not> run_ended (get_run (RunId 7) (sv_store sv'))" by (simp add: run_ended_def)
  from sandbox_sweep_spares_open [OF run _ name _ this] run show ?thesis
    by (simp add: still_calls_def mem_exists_def box_host_def)
qed

end
