(* ===== verification/Queue_Worker.thy ===== *)
theory Queue_Worker
  imports Sweeps Driver_Correct
begin

text \<open>
  The queue worker (\<open>crates/server/src/worker.rs\<close> with \<open>tools.rs\<close>): a claim is prepared, executed,
  recorded and acknowledged, and a run is stored as it goes. The driver runs in a world that holds the
  server, the sandbox host, the state of what is outside (Jev, the models, the tools, the shared
  memory) and the cells of the boundary's closure. Every call on the store or on Redis takes place at
  a moment, and before it the others may have changed the server: other workers, producers, sweeps,
  and this worker's own heartbeat. A question about stops that does not return, and then the whole
  operation, is \<open>None\<close>; inside the driver's callbacks it is the flag \<open>wo_stuck\<close>. The thread loop
  (\<open>work_forever\<close>) and panics are not modelled. The store is the in-memory one, whose reads do not
  fail, so the branches for a read that failed have no counterpart.
\<close>

section \<open>Data\<close>

datatype stop_cause = StoppedStore append_result | LostLease | StoppedWaiting message_id

datatype outcome_of_run = OutcomeStored append_result | OutcomeWaiting message_id

record ('h, 'x) world =
  wo_sv :: server
  wo_n :: nat
  wo_host :: 'h
  wo_mem :: "'x run_memory"
  wo_seen :: nat
  wo_refused :: "(string + stop_cause) option"
  wo_stuck :: bool

text \<open>A worker: its timing, what it calls, and the words of derived \<open>Debug\<close> output.\<close>

record ('h, 'x) worker =
  wk_calls :: server_calls
  wk_timing :: queue_timing
  wk_uuid :: uuid_ops
  wk_messages :: bool
  wk_poster :: "nat \<Rightarrow> gateway_call \<Rightarrow> string + string"
  wk_sandbox :: "'h sandbox"
  wk_catalog :: "(string + 'x tool list) option"
  wk_echo :: "'x tool"
  wk_jev :: "string + unit"
  wk_complete :: "run_spec \<Rightarrow> model_request \<Rightarrow> 'x \<Rightarrow> (string + model_message \<times> usage option) \<times> 'x"
  wk_read :: "'x \<Rightarrow> memory_key \<Rightarrow> string \<Rightarrow> store_error + string option"
  wk_write :: "'x \<Rightarrow> memory_key \<Rightarrow> string \<Rightarrow> string \<Rightarrow> (store_error + unit) \<times> 'x"
  wk_decide :: "decision_view \<Rightarrow> 'x \<Rightarrow> (decider_error + effect) \<times> 'x"
  wk_debug_resume :: "resume_error \<Rightarrow> string"
  wk_debug_turn :: "turn_error \<Rightarrow> string"

definition env_at :: "('h, 'x) worker \<Rightarrow> nat \<Rightarrow> env" where
  "env_at wk n = ca_env (wk_calls wk) n"

definition env_now :: "('h, 'x) worker \<Rightarrow> ('h, 'x) world \<Rightarrow> env" where
  "env_now wk w = env_at wk (wo_n w)"

definition wcall :: "('h, 'x) worker \<Rightarrow> (nat \<Rightarrow> server \<Rightarrow> 'a \<times> server) \<Rightarrow> ('h, 'x) world \<Rightarrow> 'a \<times> ('h, 'x) world" where
  "wcall wk f w = (case call (wk_calls wk) f (wo_sv w, wo_n w) of (r, (sv, n)) \<Rightarrow> (r, w\<lparr>wo_sv := sv, wo_n := n\<rparr>))"

definition tick :: "('h, 'x) world \<Rightarrow> ('h, 'x) world" where
  "tick w = w\<lparr>wo_n := Suc (wo_n w)\<rparr>"

section \<open>Leases, appends and stops\<close>

definition w_renew :: "('h, 'x) worker \<Rightarrow> run_id \<Rightarrow> string \<Rightarrow> ('h, 'x) world \<Rightarrow> (string + bool) \<times> ('h, 'x) world" where
  "w_renew wk run token =
     wcall wk (\<lambda>n. on_redis (renew (en_txt (env_at wk n)) (ca_fate (wk_calls wk) n) (en_redis_now (env_at wk n)) run token
                               (qm_lease (wk_timing wk))))"

definition w_holds :: "('h, 'x) worker \<Rightarrow> run_id \<Rightarrow> string \<Rightarrow> ('h, 'x) world \<Rightarrow> bool \<times> ('h, 'x) world" where
  "w_holds wk run token w = (case w_renew wk run token w of (r, w1) \<Rightarrow> (r \<noteq> Inr False, w1))"

definition w_store_append ::
    "('h, 'x) worker \<Rightarrow> (int \<Rightarrow> store \<Rightarrow> (store_error + append_result) \<times> store) \<Rightarrow> ('h, 'x) world \<Rightarrow> (string + stop_cause) \<times> ('h, 'x) world" where
  "w_store_append wk f w =
     (case wcall wk (\<lambda>n. on_store (f (en_store_now (env_at wk n)))) w of
        (Inl e, w1) \<Rightarrow> (Inl (error_message e), w1)
      | (Inr res, w1) \<Rightarrow> (Inr (StoppedStore res), w1))"

definition w_append ::
    "('h, 'x) worker \<Rightarrow> run_id \<Rightarrow> string \<Rightarrow> nat \<Rightarrow> event list \<Rightarrow> ('h, 'x) world \<Rightarrow> (string + stop_cause) \<times> ('h, 'x) world" where
  "w_append wk run token seen new w =
     (case w_holds wk run token w of
        (False, w1) \<Rightarrow> (Inr LostLease, w1)
      | (True, w1) \<Rightarrow> w_store_append wk (\<lambda>t. append_events_after t run seen new) w1)"

definition w_run :: "('h, 'x) worker \<Rightarrow> run_id \<Rightarrow> ('h, 'x) world \<Rightarrow> stored_run option \<times> ('h, 'x) world" where
  "w_run wk run = wcall wk (\<lambda>n sv. (get_run run (sv_store sv), sv))"

definition w_stopped :: "('h, 'x) worker \<Rightarrow> run_id \<Rightarrow> ('h, 'x) world \<Rightarrow> bool option \<times> ('h, 'x) world" where
  "w_stopped wk run = wcall wk (\<lambda>n sv. (stopped run (sv_store sv), sv))"

section \<open>Sandboxes of a Box turn\<close>

definition is_box_turn :: "run_spec \<Rightarrow> bool" where
  "is_box_turn spec \<longleftrightarrow> is_turn spec \<and> rs_placement spec = Box"

fun clean_attempts :: "queue_text \<Rightarrow> 'h sandbox \<Rightarrow> run_id \<Rightarrow> nat list \<Rightarrow> 'h \<Rightarrow> (string + unit) \<times> 'h" where
  "clean_attempts qt sb run [] h = (Inr (), h)"
| "clean_attempts qt sb run (k # ks) h =
     (let name = box_attempt_name qt run (of_nat k) in
      case sb_absent sb name h of
        (gone, h1) \<Rightarrow>
          if gone = Inr True then clean_attempts qt sb run ks h1
          else
            (case sb_destroy sb name h1 of
               (Inl message, h2) \<Rightarrow> (Inl (''sandbox '' @ name @ '' was not removed: '' @ message), h2)
             | (Inr u, h2) \<Rightarrow>
                 (case sb_absent sb name h2 of
                    (gone, h3) \<Rightarrow>
                      if gone \<noteq> Inr True then (Inl (''sandbox '' @ name @ '' is not confirmed gone''), h3)
                      else clean_attempts qt sb run ks h3)))"

definition clean_box :: "queue_text \<Rightarrow> 'h sandbox \<Rightarrow> run_id \<Rightarrow> u32 \<Rightarrow> 'h \<Rightarrow> (string + unit) \<times> 'h" where
  "clean_box qt sb run attempts h = clean_attempts qt sb run [1..<Suc (unat attempts)] h"

definition w_clean_box :: "('h, 'x) worker \<Rightarrow> run_id \<Rightarrow> u32 \<Rightarrow> ('h, 'x) world \<Rightarrow> (string + unit) \<times> ('h, 'x) world" where
  "w_clean_box wk run attempts w =
     (case clean_box (en_txt (env_now wk w)) (wk_sandbox wk) run attempts (wo_host w) of
        (Inl e, h) \<Rightarrow> (Inl (''run '' @ qt_show (en_txt (env_now wk w)) run @ '': '' @ e @ ''; it is retried once its lease expires''),
                       w\<lparr>wo_host := h\<rparr>)
      | (Inr u, h) \<Rightarrow> (Inr (), w\<lparr>wo_host := h\<rparr>))"

definition end_box ::
    "('h, 'x) worker \<Rightarrow> run_spec \<Rightarrow> u32 \<Rightarrow> event list \<Rightarrow> string \<Rightarrow> ('h, 'x) world \<Rightarrow> (string + stop_cause) \<times> ('h, 'x) world" where
  "end_box wk spec attempt ending token w =
     (case w_clean_box wk (rs_run_id spec) attempt w of
        (Inl e, w1) \<Rightarrow> (Inl e, w1)
      | (Inr u, w1) \<Rightarrow>
          (case w_holds wk (rs_run_id spec) token w1 of
             (False, w2) \<Rightarrow> (Inr LostLease, w2)
           | (True, w2) \<Rightarrow> w_store_append wk (\<lambda>t. append_events t (rs_run_id spec) ending) w2))"

definition drop_own :: "('h, 'x) worker \<Rightarrow> string \<Rightarrow> ('h, 'x) world \<Rightarrow> ('h, 'x) world" where
  "drop_own wk name w = w\<lparr>wo_host := snd (sb_destroy (wk_sandbox wk) name (wo_host w))\<rparr>"

text \<open>The end of a turn outside a Box is one append after the log that was seen.\<close>

definition end_turn ::
    "('h, 'x) worker \<Rightarrow> run_spec \<Rightarrow> nat \<Rightarrow> u32 \<Rightarrow> event \<Rightarrow> string \<Rightarrow> ('h, 'x) world \<Rightarrow> (string + stop_cause) \<times> ('h, 'x) world" where
  "end_turn wk spec seen attempt ending token w =
     (if is_box_turn spec then end_box wk spec attempt [ending] token w
      else w_append wk (rs_run_id spec) token seen [ending] w)"

section \<open>Background turns\<close>

definition run_box_turn ::
    "('h, 'x) worker \<Rightarrow> run_spec \<Rightarrow> u32 \<Rightarrow> string \<Rightarrow> ('h, 'x) world \<Rightarrow> ((string + stop_cause) \<times> ('h, 'x) world) option" where
  "run_box_turn wk spec attempt token w =
     (let run = rs_run_id spec; name = box_attempt_name (en_txt (env_now wk w)) run attempt in
      case w_holds wk run token w of
        (False, w1) \<Rightarrow> Some (Inr LostLease, w1)
      | (True, w1) \<Rightarrow>
          (case sb_provision (wk_sandbox wk) name (wo_host w1) of
             (Inl message, h) \<Rightarrow>
               (let w2 = w1\<lparr>wo_host := h\<rparr> in
                Some (end_box wk spec attempt [run_failed_event (env_now wk w2) spec FEnvironment (''provision: '' @ message)] token w2))
           | (Inr u, h) \<Rightarrow>
               (case w_holds wk run token (w1\<lparr>wo_host := h\<rparr>) of
                  (False, w2) \<Rightarrow> Some (Inr LostLease, drop_own wk name w2)
                | (True, w2) \<Rightarrow>
                    (case w_stopped wk run w2 of
                       (None, w3) \<Rightarrow> None
                     | (Some True, w3) \<Rightarrow> Some (end_box wk spec attempt [run_cancelled_event (env_now wk w3) spec] token w3)
                     | (Some False, w3) \<Rightarrow>
                         (let reply = wk_poster wk (wo_n w3) (gateway_call_of spec) in
                          case w_holds wk run token (tick w3) of
                            (False, w4) \<Rightarrow> Some (Inr LostLease, drop_own wk name w4)
                          | (True, w4) \<Rightarrow>
                              (let ending = (case reply of
                                               Inr words \<Rightarrow> completion_events (env_now wk w4) spec words
                                             | Inl message \<Rightarrow> [run_failed_event (env_now wk w4) spec FDependency (''proxy: '' @ message)])
                               in Some (end_box wk spec attempt ending token w4)))))))"

text \<open>The gateway call and the end of a turn outside a Box: \<open>finish_turn\<close> and what \<open>run_turn\<close> makes of its answer.\<close>

definition run_plain_turn ::
    "('h, 'x) worker \<Rightarrow> run_spec \<Rightarrow> event list \<Rightarrow> ('h, 'x) world \<Rightarrow> (string + stop_cause) \<times> ('h, 'x) world" where
  "run_plain_turn wk spec events w =
     (case wcall wk (\<lambda>n sv. case finish_turn (env_at wk n) (wk_poster wk n) (wk_sandbox wk) spec events (sv_store sv) (wo_host w) of
                              (r, s1, h1) \<Rightarrow> ((r, h1), sv\<lparr>sv_store := s1\<rparr>)) w of
        ((r, h1), w1) \<Rightarrow>
          let w2 = w1\<lparr>wo_host := h1\<rparr> in
          (case r of
             Inr out \<Rightarrow> (Inr (StoppedStore Appended), w2)
           | Inl (TurnConflict why) \<Rightarrow> (Inr (StoppedStore AppendTerminal), w2)
           | Inl TurnNotFound \<Rightarrow> (Inr (StoppedStore AppendMissing), w2)
           | Inl e \<Rightarrow>
               (case w_run wk (rs_run_id spec) w2 of
                  (loaded, w3) \<Rightarrow>
                    if run_ended loaded then (Inr (StoppedStore Appended), w3)
                    else (Inl (''turn left open: '' @ wk_debug_turn wk e), w3))))"

definition run_started_turn ::
    "('h, 'x) worker \<Rightarrow> run_spec \<Rightarrow> event list \<Rightarrow> nat \<Rightarrow> u32 \<Rightarrow> string \<Rightarrow> ('h, 'x) world \<Rightarrow> ((string + stop_cause) \<times> ('h, 'x) world) option" where
  "run_started_turn wk spec events seen attempt token w =
     (let run = rs_run_id spec in
      case w_stopped wk run w of
        (None, w1) \<Rightarrow> None
      | (Some True, w1) \<Rightarrow> Some (end_turn wk spec seen attempt (run_cancelled_event (env_now wk w1) spec) token w1)
      | (Some False, w1) \<Rightarrow>
          (case w_holds wk run token w1 of
             (False, w2) \<Rightarrow> Some (Inr LostLease, w2)
           | (True, w2) \<Rightarrow>
               (case w_run wk run w2 of
                  (None, w3) \<Rightarrow> Some (Inr (StoppedStore AppendMissing), w3)
                | (Some stored, w3) \<Rightarrow>
                    if list_ex is_end_event (sr_events stored) then Some (Inr (StoppedStore AppendTerminal), w3)
                    else if is_box_turn spec then run_box_turn wk spec attempt token w3
                    else Some (run_plain_turn wk spec events w3))))"

definition run_turn ::
    "('h, 'x) worker \<Rightarrow> run_spec \<Rightarrow> event list \<Rightarrow> nat \<Rightarrow> u32 \<Rightarrow> string \<Rightarrow> ('h, 'x) world \<Rightarrow> ((string + stop_cause) \<times> ('h, 'x) world) option" where
  "run_turn wk spec events seen attempt token w =
     (if wm_credential (rs_work_model spec) \<noteq> PlatformGateway
      then Some (end_turn wk spec seen attempt
                   (run_failed_event (env_now wk w) spec FInfrastructure ''only a gateway turn runs in the background'') token w)
      else if list_ex (\<lambda>ev. ev_payload ev = RunStarted) events then run_started_turn wk spec events seen attempt token w
      else
        (let begun = [system_event (env_now wk w) spec RunStarted] in
         case w_append wk (rs_run_id spec) token seen begun w of
           (Inr (StoppedStore Appended), w1) \<Rightarrow>
             run_started_turn wk spec (events @ begun) (seen + length begun) attempt token w1
         | (refused, w1) \<Rightarrow> Some (refused, w1)))"

section \<open>The driver's world\<close>

definition on_outside :: "('x \<Rightarrow> 'a \<times> 'x) \<Rightarrow> ('h, 'x) world \<Rightarrow> 'a \<times> ('h, 'x) world" where
  "on_outside f w = (case f (rm_shared (wo_mem w)) of (r, x) \<Rightarrow> (r, w\<lparr>wo_mem := (wo_mem w)\<lparr>rm_shared := x\<rparr>\<rparr>))"

definition world_tool :: "'x tool \<Rightarrow> ('h, 'x) world tool" where
  "world_tool t = \<lparr>tl_descriptor = tl_descriptor t, tl_call = (\<lambda>inp. on_outside (tl_call t inp))\<rparr>"

definition worker_io :: "('h, 'x) worker \<Rightarrow> run_spec \<Rightarrow> 'x tool list \<Rightarrow> ('h, 'x) world io" where
  "worker_io wk spec tools =
     \<lparr>io_uuid = wk_uuid wk,
      io_now = (\<lambda>w. (en_now (env_now wk w), tick w)),
      io_new = (\<lambda>w. (en_fresh (env_now wk w), tick w)),
      io_tools = map world_tool tools,
      io_complete = (\<lambda>request. on_outside (wk_complete wk spec request)),
      io_read = (\<lambda>own key w. (run_memory_read (wk_read wk) (wo_mem w) own key, w)),
      io_write = (\<lambda>own key val w. case run_memory_write (wk_write wk) (wo_mem w) own key val of (r, m) \<Rightarrow> (r, w\<lparr>wo_mem := m\<rparr>)),
      io_decide = (\<lambda>view. on_outside (wk_decide wk view))\<rparr>"

text \<open>A callback that does not return leaves its mark.\<close>

definition w_option :: "('h, 'x) worker \<Rightarrow> (nat \<Rightarrow> server \<Rightarrow> ((string + 'a) \<times> server) option) \<Rightarrow> ('h, 'x) world \<Rightarrow> (string + 'a) \<times> ('h, 'x) world" where
  "w_option wk f w =
     (case wcall wk (\<lambda>n sv. case f n sv of None \<Rightarrow> (None, sv) | Some (r, sv1) \<Rightarrow> (Some r, sv1)) w of
        (None, w1) \<Rightarrow> (Inl [], w1\<lparr>wo_stuck := True\<rparr>)
      | (Some r, w1) \<Rightarrow> (r, w1))"

definition worker_spawner :: "('h, 'x) worker \<Rightarrow> ('h, 'x) world spawner" where
  "worker_spawner wk request = w_option wk (\<lambda>n. spawner_start (env_at wk n) True request)"

definition worker_deliverer :: "('h, 'x) worker \<Rightarrow> ('h, 'x) world deliverer" where
  "worker_deliverer wk request = w_option wk (\<lambda>n. deliverer_send (env_at wk n) request)"

definition delegation :: "('h, 'x) worker \<Rightarrow> run_spec \<Rightarrow> ('h, 'x) world \<Rightarrow> delegate_target list \<times> ('h, 'x) world" where
  "delegation wk spec w =
     (if ''agent.delegate'' \<notin> set (rs_capabilities spec) \<and> ''agent.message'' \<notin> set (rs_capabilities spec) then ([], w)
      else
        (case wcall wk (\<lambda>n sv. (agents_of (rs_owner spec) (sv_store sv), sv)) w of
           (agents, w1) \<Rightarrow>
             (map (\<lambda>agent. \<lparr>tg_agent_id = mf_id (sa_manifest agent), tg_name = mf_name (sa_manifest agent),
                             tg_description = mf_description (sa_manifest agent)\<rparr>) agents, w1)))"

text \<open>The tools of a run (\<open>tools.rs\<close>).\<close>

definition ECHO :: string where
  "ECHO = ''echo''"

definition run_tools :: "('h, 'x) worker \<Rightarrow> string list \<Rightarrow> string + 'x tool list" where
  "run_tools wk named =
     (case wk_catalog wk of
        None \<Rightarrow> Inr [wk_echo wk]
      | Some loaded \<Rightarrow>
          if list_ex (\<lambda>name. name \<noteq> ECHO) named
          then (case loaded of
                  Inl e \<Rightarrow> Inl (''the catalog did not load: '' @ e)
                | Inr tools \<Rightarrow>
                    Inr (wk_echo wk # filter (\<lambda>t. td_name (tl_descriptor t) \<noteq> ECHO \<and> td_name (tl_descriptor t) \<in> set named) tools))
          else Inr [wk_echo wk])"

definition load_tools :: "('h, 'x) worker \<Rightarrow> run_spec \<Rightarrow> ('h, 'x) world \<Rightarrow> (string + 'x tool list) \<times> ('h, 'x) world" where
  "load_tools wk spec w =
     (let label = ''run '' @ qt_show (en_txt (env_now wk w)) (rs_run_id spec) @ '': '';
          loaded = (\<lambda>named. case run_tools wk named of Inl e \<Rightarrow> Inl (label @ e) | Inr tools \<Rightarrow> Inr tools)
      in if wk_catalog wk = None then (loaded [], w)
         else
           (case wcall wk (\<lambda>n sv. (get_agent (rs_agent_id spec) (sv_store sv), sv)) w of
              (found, w1) \<Rightarrow>
                (case found of
                   Some agent \<Rightarrow>
                     if same_principal (sa_owner agent) (rs_owner spec) then (loaded (mf_tools (sa_manifest agent)), w1)
                     else (Inl (label @ ''its agent is unavailable; it is retried once its lease expires''), w1)
                 | None \<Rightarrow> (Inl (label @ ''its agent is unavailable; it is retried once its lease expires''), w1))))"

section \<open>Running from a log\<close>

text \<open>The boundary check of \<open>run_from\<close>: a stop cancels, new events are appended after what was seen,
  and an append the store refuses pauses the run.\<close>

definition at_boundary ::
    "('h, 'x) worker \<Rightarrow> run_id \<Rightarrow> string \<Rightarrow> ('h, 'x) world driver \<Rightarrow> ('h, 'x) world \<Rightarrow> boundary \<times> ('h, 'x) world" where
  "at_boundary wk run token d w =
     (case w_stopped wk run w of
        (None, w1) \<Rightarrow> (Pause, w1\<lparr>wo_stuck := True\<rparr>)
      | (Some True, w1) \<Rightarrow> (Cancel, w1)
      | (Some False, w1) \<Rightarrow>
          let new = drop (wo_seen w1) (dv_events d) in
          if new = [] then (Continue, w1)
          else
            (case w_append wk run token (wo_seen w1) new w1 of
               (Inr (StoppedStore Appended), w2) \<Rightarrow> (Continue, w2\<lparr>wo_seen := length (dv_events d)\<rparr>)
             | (other, w2) \<Rightarrow> (Pause, w2\<lparr>wo_refused := Some other\<rparr>)))"

definition decider_tail :: "('h, 'x) worker \<Rightarrow> run_spec \<Rightarrow> decider_error + unit \<Rightarrow> ('h, 'x) world \<Rightarrow> event list" where
  "decider_tail wk spec result w =
     (case result of
        Inr u \<Rightarrow> []
      | Inl (DeciderError message) \<Rightarrow> [run_failed_event (env_now wk w) spec FDependency (''decider: '' @ message)])"

text \<open>After \<open>run_until\<close>: the tail is stored, and a run that waits on an ask is to be parked.\<close>

definition store_tail ::
    "('h, 'x) worker \<Rightarrow> run_spec \<Rightarrow> string \<Rightarrow> decider_error + unit \<Rightarrow> ('h, 'x) world driver \<Rightarrow> ('h, 'x) world
     \<Rightarrow> (string + stop_cause) \<times> ('h, 'x) world" where
  "store_tail wk spec token result d w =
     (let tail = drop (wo_seen w) (dv_events d) @ decider_tail wk spec result w in
      case (if tail = [] then (Inr (StoppedStore Appended), w) else w_append wk (rs_run_id spec) token (wo_seen w) tail w) of
        (Inr (StoppedStore Appended), w1) \<Rightarrow>
          (case harness (driver_state d) of
             HWaitingForMessage step attempt m \<Rightarrow> (Inr (StoppedWaiting m), w1)
           | _ \<Rightarrow> (Inr (StoppedStore Appended), w1))
      | (other, w1) \<Rightarrow> (other, w1))"

definition drive ::
    "('h, 'x) worker \<Rightarrow> run_spec \<Rightarrow> string \<Rightarrow> nat \<Rightarrow> 'x tool list \<Rightarrow> ('h, 'x) world driver \<Rightarrow> ('h, 'x) world
     \<Rightarrow> ((string + stop_cause) \<times> ('h, 'x) world) option" where
  "drive wk spec token seen tools d w =
     (let w0 = w\<lparr>wo_mem := run_memory_new (rm_shared (wo_mem w)), wo_seen := seen, wo_refused := None, wo_stuck := False\<rparr> in
      case run_until (worker_io wk spec tools) (at_boundary wk (rs_run_id spec) token) (d, w0) of
        None \<Rightarrow> None
      | Some (result, (d1, w1)) \<Rightarrow>
          if wo_stuck w1 then None
          else
            (case wo_refused w1 of
               Some refused \<Rightarrow> Some (refused, w1)
             | None \<Rightarrow> Some (store_tail wk spec token result d1 w1)))"

definition equip :: "('h, 'x) worker \<Rightarrow> delegate_target list \<Rightarrow> ('h, 'x) world driver \<Rightarrow> ('h, 'x) world driver" where
  "equip wk targets d =
     (let d1 = with_user_questions (with_spawner (worker_spawner wk) targets d)
      in if wk_messages wk then with_deliverer (worker_deliverer wk) d1 else d1)"

definition run_driver ::
    "('h, 'x) worker \<Rightarrow> run_spec \<Rightarrow> event list \<Rightarrow> nat \<Rightarrow> string \<Rightarrow> ('h, 'x) world \<Rightarrow> ((string + stop_cause) \<times> ('h, 'x) world) option" where
  "run_driver wk spec events seen token w =
     (let run = rs_run_id spec in
      case resume (worker_io wk spec []) spec events w of
        (Inl e, w1) \<Rightarrow>
          Some (w_append wk run token seen
                  [run_failed_event (env_now wk w1) spec FInfrastructure (''cannot resume: '' @ wk_debug_resume wk e)] w1)
      | (Inr d, w1) \<Rightarrow>
          (case w_holds wk run token w1 of
             (False, w2) \<Rightarrow> Some (Inr LostLease, w2)
           | (True, w2) \<Rightarrow>
               (case delegation wk spec w2 of
                  (targets, w3) \<Rightarrow>
                    let d1 = equip wk targets d in
                    (case wk_jev wk of
                       Inl message \<Rightarrow>
                         Some (w_append wk run token seen
                                 (drop seen (dv_events d1) @ [run_failed_event (env_now wk w3) spec FDependency (''decider: '' @ message)]) w3)
                     | Inr u \<Rightarrow>
                         (case load_tools wk spec w3 of
                            (Inl e, w4) \<Rightarrow> Some (Inl e, w4)
                          | (Inr tools, w4) \<Rightarrow> drive wk spec token seen tools d1 w4)))))"

text \<open>A run past its schedule: a background turn, or the harness.\<close>

definition run_scheduled ::
    "('h, 'x) worker \<Rightarrow> run_spec \<Rightarrow> event list \<Rightarrow> nat \<Rightarrow> string \<Rightarrow> u32 \<Rightarrow> ('h, 'x) world \<Rightarrow> ((string + stop_cause) \<times> ('h, 'x) world) option" where
  "run_scheduled wk spec events seen token attempt w =
     (if is_turn spec then run_turn wk spec events seen attempt token w else run_driver wk spec events seen token w)"

definition run_from ::
    "('h, 'x) worker \<Rightarrow> run_spec \<Rightarrow> event list \<Rightarrow> string \<Rightarrow> u32 \<Rightarrow> ('h, 'x) world \<Rightarrow> ((string + stop_cause) \<times> ('h, 'x) world) option" where
  "run_from wk spec events token attempt w =
     (if list_ex is_end_event events then Some (Inr (StoppedStore AppendTerminal), w)
      else
        let run = rs_run_id spec; seen = length events in
        case w_stopped wk run w of
          (None, w1) \<Rightarrow> None
        | (Some True, w1) \<Rightarrow> Some (end_turn wk spec seen attempt (run_cancelled_event (env_now wk w1) spec) token w1)
        | (Some False, w1) \<Rightarrow>
            if dispatch (fold_run spec events) = DQueued then
              (let ladder = dispatch_events (env_now wk w1) spec in
               case w_append wk run token seen ladder w1 of
                 (Inr (StoppedStore Appended), w2) \<Rightarrow>
                   run_scheduled wk spec (events @ ladder) (seen + length ladder) token attempt w2
               | (refused, w2) \<Rightarrow> Some (refused, w2))
            else run_scheduled wk spec events seen token attempt w1)"

definition RELOADS :: nat where
  "RELOADS = 3"

text \<open>The loop of \<open>store_as_it_goes\<close>: \<open>left\<close> reloads are left.\<close>

fun store_from ::
    "('h, 'x) worker \<Rightarrow> run_spec \<Rightarrow> string \<Rightarrow> u32 \<Rightarrow> nat \<Rightarrow> event list \<Rightarrow> ('h, 'x) world
     \<Rightarrow> ((string + outcome_of_run) \<times> ('h, 'x) world) option" where
  "store_from wk spec token attempt left events w =
     (case run_from wk spec events token attempt w of
        None \<Rightarrow> None
      | Some (Inl e, w1) \<Rightarrow> Some (Inl e, w1)
      | Some (Inr (StoppedWaiting m), w1) \<Rightarrow> Some (Inr (OutcomeWaiting m), w1)
      | Some (Inr LostLease, w1) \<Rightarrow> Some (Inr (OutcomeStored AppendMoved), w1)
      | Some (Inr (StoppedStore res), w1) \<Rightarrow>
          if res = AppendMoved then
            (case left of
               0 \<Rightarrow> Some (Inr (OutcomeStored res), w1)
             | Suc fewer \<Rightarrow>
                 (case w_run wk (rs_run_id spec) w1 of
                    (None, w2) \<Rightarrow> Some (Inr (OutcomeStored AppendMissing), w2)
                  | (Some run, w2) \<Rightarrow> store_from wk spec token attempt fewer (sr_events run) w2))
          else Some (Inr (OutcomeStored res), w1))"

declare store_from.simps [simp del]

definition store_as_it_goes ::
    "('h, 'x) worker \<Rightarrow> stored_run \<Rightarrow> string \<Rightarrow> u32 \<Rightarrow> ('h, 'x) world \<Rightarrow> ((string + outcome_of_run) \<times> ('h, 'x) world) option" where
  "store_as_it_goes wk stored token attempt w = store_from wk (sr_spec stored) token attempt RELOADS (sr_events stored) w"

section \<open>A claim\<close>

definition answer_task_ask :: "('h, 'x) worker \<Rightarrow> run_spec \<Rightarrow> ('h, 'x) world \<Rightarrow> ('h, 'x) world" where
  "answer_task_ask wk spec w =
     (if \<not> wk_messages wk then w
      else
        (case wcall wk (\<lambda>n sv. (ask_of_task (rs_run_id spec) (sv_store sv), sv)) w of
           (None, w1) \<Rightarrow> w1
         | (Some msg, w1) \<Rightarrow>
             (case w_run wk (rs_run_id spec) w1 of
                (None, w2) \<Rightarrow> w2
              | (Some task, w2) \<Rightarrow>
                  (case task_answer (en_message (env_now wk w2)) (rs_run_id spec) (rs_agent_id spec) (ms_id msg) (sr_events task) of
                     None \<Rightarrow> w2
                   | Some payload \<Rightarrow>
                       snd (wcall wk (\<lambda>n. deliver (env_at wk n) (ms_from_run msg) (ms_id msg) payload UnsentLeave) w2)))))"

definition execute ::
    "('h, 'x) worker \<Rightarrow> stored_run \<Rightarrow> string \<Rightarrow> u32 \<Rightarrow> ('h, 'x) world \<Rightarrow> ((string + outcome_of_run) \<times> ('h, 'x) world) option" where
  "execute wk stored token attempt w =
     (case store_as_it_goes wk stored token attempt w of
        None \<Rightarrow> None
      | Some (r, w1) \<Rightarrow> Some (r, if r = Inr (OutcomeStored Appended) then answer_task_ask wk (sr_spec stored) w1 else w1))"

text \<open>What \<open>Done\<close> carries: what was recorded, or the ask the run waits on.\<close>

datatype finding = Recorded "append_result option" | WaitsOn message_id

definition record_outcome :: "string + outcome_of_run \<Rightarrow> string + finding" where
  "record_outcome r =
     (case r of
        Inl e \<Rightarrow> Inl e
      | Inr (OutcomeStored res) \<Rightarrow> Inr (Recorded (Some res))
      | Inr (OutcomeWaiting m) \<Rightarrow> Inr (WaitsOn m))"

definition record_failed :: "('h, 'x) worker \<Rightarrow> run_id \<Rightarrow> event \<Rightarrow> ('h, 'x) world \<Rightarrow> (string + finding) \<times> ('h, 'x) world" where
  "record_failed wk run failed w =
     (case wcall wk (\<lambda>n. on_store (append_events (en_store_now (env_at wk n)) run [failed])) w of
        (Inl e, w1) \<Rightarrow> (Inl (error_message e), w1)
      | (Inr res, w1) \<Rightarrow> (Inr (Recorded (Some res)), w1))"

datatype prepared = PreparedOpen stored_run u32 | PreparedDone finding

definition w_release :: "('h, 'x) worker \<Rightarrow> run_id \<Rightarrow> string \<Rightarrow> ('h, 'x) world \<Rightarrow> (string + unit) \<times> ('h, 'x) world" where
  "w_release wk run token =
     wcall wk (\<lambda>n. on_redis (release (en_txt (env_at wk n)) (ca_fate (wk_calls wk) n) (en_redis_now (env_at wk n)) run token))"

definition too_often :: "u32 \<Rightarrow> string" where
  "too_often before = ''started '' @ dec (unat before) @ '' time'' @ (if before = 1 then [] else ''s'') @ '' without ending''"

text \<open>A run started more often than it may be: a Box turn first loses its sandboxes, then the run is failed.\<close>

definition give_up ::
    "('h, 'x) worker \<Rightarrow> run_id \<Rightarrow> string \<Rightarrow> stored_run \<Rightarrow> u32 \<Rightarrow> ('h, 'x) world \<Rightarrow> (string + finding) \<times> ('h, 'x) world" where
  "give_up wk run token stored tries w =
     (let failing = (\<lambda>w. record_failed wk run (run_failed_event (env_now wk w) (sr_spec stored) FInfrastructure (too_often (tries - 1))) w) in
      if \<not> is_box_turn (sr_spec stored) then failing w
      else
        (case w_clean_box wk run (min tries (qm_max_deliveries (wk_timing wk))) w of
           (Inl e, w1) \<Rightarrow> (Inl e, w1)
         | (Inr u, w1) \<Rightarrow>
             (case w_holds wk run token w1 of
                (False, w2) \<Rightarrow> (Inr (Recorded (Some AppendMoved)), w2)
              | (True, w2) \<Rightarrow> failing w2)))"

definition prepare :: "('h, 'x) worker \<Rightarrow> run_id \<Rightarrow> string \<Rightarrow> ('h, 'x) world \<Rightarrow> (string + prepared) \<times> ('h, 'x) world" where
  "prepare wk run token w =
     (case w_run wk run w of
        (None, w1) \<Rightarrow> (Inr (PreparedDone (Recorded None)), w1)
      | (Some stored, w1) \<Rightarrow>
          if list_ex is_end_event (sr_events stored) then (Inr (PreparedDone (Recorded None)), w1)
          else
            (case wcall wk (\<lambda>n. on_redis (start_run (en_txt (env_at wk n)) (ca_fate (wk_calls wk) n) run)) w1 of
               (Inl e, w2) \<Rightarrow>
                 (Inl (''start run '' @ qt_show (en_txt (env_now wk w2)) run @ '': '' @ e), snd (w_release wk run token w2))
             | (Inr tries, w2) \<Rightarrow>
                 if qm_max_deliveries (wk_timing wk) < of_int tries
                 then (case give_up wk run token stored (of_int tries) w2 of
                         (Inl e, w3) \<Rightarrow> (Inl e, w3)
                       | (Inr found, w3) \<Rightarrow> (Inr (PreparedDone found), w3))
                 else (Inr (PreparedOpen stored (of_int tries)), w2)))"

definition ack_waiting ::
    "('h, 'x) worker \<Rightarrow> run_id \<Rightarrow> string \<Rightarrow> message_id \<Rightarrow> ('h, 'x) world \<Rightarrow> ((string + unit) \<times> ('h, 'x) world) option" where
  "ack_waiting wk run token m w =
     (case wcall wk (\<lambda>n. on_redis (park (en_txt (env_at wk n)) (ca_fate (wk_calls wk) n) (en_redis_now (env_at wk n)) run token m)) w of
        (Inl e, w1) \<Rightarrow> Some (Inl e, w1)
      | (Inr False, w1) \<Rightarrow> Some (Inr (), w1)
      | (Inr True, w1) \<Rightarrow>
          (case w_run wk run w1 of
             (loaded, w2) \<Rightarrow>
               let events = (case loaded of None \<Rightarrow> [] | Some stored \<Rightarrow> sr_events stored);
                   wakes = (\<lambda>w. case wcall wk (\<lambda>n. on_redis (wake (en_txt (env_at wk n)) (ca_fate (wk_calls wk) n) run m)) w of
                                   (Inl e, w3) \<Rightarrow> (Inl e, w3) | (Inr b, w3) \<Rightarrow> (Inr (), w3))
               in if ask_state_of events m \<noteq> AskOpen then Some (wakes w2)
                  else
                    (case w_stopped wk run w2 of
                       (None, w3) \<Rightarrow> None
                     | (Some True, w3) \<Rightarrow> Some (wakes w3)
                     | (Some False, w3) \<Rightarrow> Some (Inr (), w3))))"

definition ack_found ::
    "('h, 'x) worker \<Rightarrow> run_id \<Rightarrow> string \<Rightarrow> finding \<Rightarrow> ('h, 'x) world \<Rightarrow> ((string + unit) \<times> ('h, 'x) world) option" where
  "ack_found wk run token found w =
     (case found of
        WaitsOn m \<Rightarrow> ack_waiting wk run token m w
      | Recorded res \<Rightarrow>
          Some (if res = Some AppendMoved then w_release wk run token w
                else wcall wk (\<lambda>n. on_redis (ack (en_txt (env_at wk n)) (ca_fate (wk_calls wk) n) (en_redis_now (env_at wk n)) run token)) w))"

text \<open>\<open>work_one\<close> once it has a claim.\<close>

definition work_claim ::
    "('h, 'x) worker \<Rightarrow> run_id \<Rightarrow> string \<Rightarrow> ('h, 'x) world \<Rightarrow> ((string + unit) \<times> ('h, 'x) world) option" where
  "work_claim wk run token w =
     (case prepare wk run token w of
        (Inl e, w1) \<Rightarrow> Some (Inl e, w1)
      | (Inr (PreparedDone found), w1) \<Rightarrow> ack_found wk run token found w1
      | (Inr (PreparedOpen stored attempt), w1) \<Rightarrow>
          (case execute wk stored token attempt w1 of
             None \<Rightarrow> None
           | Some (r, w2) \<Rightarrow>
               (case record_outcome r of
                  Inl e \<Rightarrow> Some (Inl e, w2)
                | Inr found \<Rightarrow> ack_found wk run token found w2)))"

definition w_claim :: "('h, 'x) worker \<Rightarrow> string \<Rightarrow> ('h, 'x) world \<Rightarrow> (string + run_id option) \<times> ('h, 'x) world" where
  "w_claim wk token =
     wcall wk (\<lambda>n. on_redis (claim (en_txt (env_at wk n)) (ca_fate (wk_calls wk) n) (ca_drop (wk_calls wk) n token)
                               (en_redis_now (env_at wk n)) token (qm_lease (wk_timing wk))))"

definition work_one :: "('h, 'x) worker \<Rightarrow> string \<Rightarrow> ('h, 'x) world \<Rightarrow> ((string + run_id option) \<times> ('h, 'x) world) option" where
  "work_one wk token w =
     (case w_claim wk token w of
        (Inl e, w1) \<Rightarrow> Some (Inl e, w1)
      | (Inr None, w1) \<Rightarrow> Some (Inr None, w1)
      | (Inr (Some run), w1) \<Rightarrow>
          map_option (\<lambda>(r, w2). (case r of Inl e \<Rightarrow> Inl e | Inr u \<Rightarrow> Inr (Some run), w2)) (work_claim wk run token w1))"

text \<open>One beat of the heartbeat: whether it goes on.\<close>

definition heartbeat :: "('h, 'x) worker \<Rightarrow> run_id \<Rightarrow> string \<Rightarrow> ('h, 'x) world \<Rightarrow> bool \<times> ('h, 'x) world" where
  "heartbeat wk run token w = (case w_renew wk run token w of (r, w1) \<Rightarrow> (r \<noteq> Inr False, w1))"

end
