(* ===== verification/Worker_Keeps.thy ===== *)
theory Worker_Keeps
  imports Queue_Worker Store_Machine
begin

text \<open>
  What the calls of a queue worker keep: no stored log loses an event, a queue entry that was queued,
  claimed or parked stays one of the three, and the driver of a claimed run, driven in the worker's
  world, leaves its log ended, waiting on an ask, or with an error of its decider.
\<close>

section \<open>What the operations of a server keep\<close>

text \<open>Logs grow, and a queue entry that is queued, claimed or parked stays one of the three.\<close>

definition sv_keeps :: "entry \<Rightarrow> server \<Rightarrow> server \<Rightarrow> bool" where
  "sv_keeps e sv sv' \<longleftrightarrow> log_grows (sv_store sv) (sv_store sv') \<and> (held e (sv_redis sv) \<longrightarrow> held e (sv_redis sv'))"

lemma sv_keeps_refl [simp]: "sv_keeps e sv sv"
  by (simp add: sv_keeps_def log_grows_same)

lemma sv_keeps_trans [trans]: "sv_keeps e a b \<Longrightarrow> sv_keeps e b c \<Longrightarrow> sv_keeps e a c"
  using log_grows_trans by (fastforce simp: sv_keeps_def)

lemma put_run_grows: "log_grows s (snd (put_run t run s))"
  by (auto simp: put_run_def number_def lock_write_def Let_def log_grows_def get_run_def lock_read_def
      split: sum.split option.split intro!: exI [of _ "[]"])

lemma append_checked_grows: "log_grows s (snd (append_checked t nm seen events s))"
proof (cases rule: append_cases [of t nm seen events s])
  case (appended s1 old)
  show ?thesis
  proof (rule log_growsI)
    fix k run
    assume "get_run k s = Some run"
    with appended show "\<exists>more. get_run k (snd (append_checked t nm seen events s)) = Some (run\<lparr>sr_events := sr_events run @ more\<rparr>)
           \<and> (list_ex is_end_event (sr_events run) \<longrightarrow> more = [])"
      by (intro exI [of _ "if k = nm then events else []"]) (auto simp: get_run_def lock_read_def)
  qed
qed (simp add: log_grows_same)

lemma message_grows: "log_grows s (snd (put_message msg s))" "log_grows s (snd (answer m s))"
  using other_same_log(3) [of s msg] other_same_log(4) [of s m] by (simp_all add: same_log_def log_grows_same)

named_theorems keeps \<open>what single calls keep\<close>

lemma on_store_keeps [keeps]:
  "sv_keeps e sv (snd (on_store (put_run t run) sv))" "sv_keeps e sv (snd (on_store (append_events t nm events) sv))"
  "sv_keeps e sv (snd (on_store (append_events_after t nm seen events) sv))"
  "sv_keeps e sv (snd (on_store (put_message msg) sv))" "sv_keeps e sv (snd (on_store (answer m) sv))"
  by (simp_all add: sv_keeps_def put_run_grows append_events_def append_events_after_def append_checked_grows message_grows)

lemma held_kept:
  "held e q \<Longrightarrow> held e (snd (pend qt f t run q))" "held e q \<Longrightarrow> held e (snd (wake qt f run m q))"
  "held e q \<Longrightarrow> held e (snd (queued_or_claimed qt f run q))" "held e q \<Longrightarrow> held e (snd (renew qt f t run token lease q))"
  "held e q \<Longrightarrow> held e (snd (start_run qt f run q))"
  "held e q \<Longrightarrow> held e (snd (release qt f t run token q))" "held e q \<Longrightarrow> held e (snd (park qt f t run token m q))"
  by (cases f; fastforce simp: pend_def wake_def queued_or_claimed_def renew_def start_run_def release_def park_def with_redis_def PEND_def
      WAKE_def RENEW_def START_def RELEASE_def PARK_def held_def del_key_fst Let_def dom_map_of_conv_image_fst [symmetric] dom_update
      split: prod.splits)+

lemma on_redis_keeps [keeps]:
  "sv_keeps e sv (snd (on_redis (push_run qt f run) sv))" "sv_keeps e sv (snd (on_redis (push_once qt f run) sv))"
  "sv_keeps e sv (snd (on_redis (unpend qt f run) sv))" "sv_keeps e sv (snd (on_redis (pend qt f t run) sv))"
  "sv_keeps e sv (snd (on_redis (wake qt f run m) sv))" "sv_keeps e sv (snd (on_redis (queued_or_claimed qt f run) sv))"
  "sv_keeps e sv (snd (on_redis (renew qt f t run token lease) sv))" "sv_keeps e sv (snd (on_redis (start_run qt f run) sv))"
  "sv_keeps e sv (snd (on_redis (release qt f t run token) sv))" "sv_keeps e sv (snd (on_redis (park qt f t run token m) sv))"
  by (simp_all add: sv_keeps_def log_grows_same queue_keeps_held held_kept)

lemma keepsD:
  "on_redis f sv = (r, sv') \<Longrightarrow> sv_keeps e sv (snd (on_redis f sv)) \<Longrightarrow> sv_keeps e sv sv'"
  "on_store g sv = (r', sv') \<Longrightarrow> sv_keeps e sv (snd (on_store g sv)) \<Longrightarrow> sv_keeps e sv sv'"
  by simp_all

lemma case_sum_snd: "snd (case x of Inl a \<Rightarrow> f a | Inr b \<Rightarrow> g b) = (case x of Inl a \<Rightarrow> snd (f a) | Inr b \<Rightarrow> snd (g b))"
  by (cases x) simp_all

lemma end_run_keeps: "sv_keeps e sv (end_run env spec message sv)"
  by (simp add: end_run_def keeps)

lemma enqueue_keeps: "sv_keeps e sv (snd (enqueue env spec opf sv))"
proof -
  obtain r1 sv1 where a: "on_redis (pend (en_txt env) (en_fate env AtPend) (en_redis_now env) (rs_run_id spec)) sv = (r1, sv1)" by fastforce
  obtain r2 sv2 where b: "on_store (put_run (en_store_now env) \<lparr>sr_spec = spec, sr_events = queued_events env spec\<rparr>) sv1 = (r2, sv2)" by fastforce
  obtain r3 sv3 where c: "on_redis (push_run (en_txt env) (en_fate env AtPush) (rs_run_id spec)) sv2 = (r3, sv3)" by fastforce
  have k: "sv_keeps e sv sv1" "sv_keeps e sv1 sv2" "sv_keeps e sv2 sv3"
    using keepsD(1) [OF a on_redis_keeps(4)] keepsD(2) [OF b on_store_keeps(1)] keepsD(1) [OF c on_redis_keeps(1)] by simp_all
  note ends = end_run_keeps [of e sv2 env spec] end_run_keeps [of e sv3 env spec]
  show ?thesis
    unfolding enqueue_def Let_def a using b c k ends sv_keeps_trans
    by (auto split: sum.split on_push_failure.split)
qed

lemma settle_existing_keeps: "sv_keeps e sv (snd (settle_existing env nm events sv))"
proof -
  obtain r sv1 where a: "on_redis (queued_or_claimed (en_txt env) (en_fate env AtQueued) nm) sv = (r, sv1)" by fastforce
  have "sv_keeps e sv sv1" using keepsD(1) [OF a on_redis_keeps(6)] .
  then show ?thesis
    using on_redis_keeps(3) sv_keeps_trans by (auto simp: settle_existing_def a split: sum.split)
qed

lemma enqueue_child_keeps: "sv_keeps e sv (snd (enqueue_child env queue spec sv))"
proof -
  obtain r sv1 where a: "enqueue env spec LeaveToSweep sv = (r, sv1)" by fastforce
  have "sv_keeps e sv sv1" using enqueue_keeps [of e sv env spec LeaveToSweep] by (simp add: a)
  then show ?thesis
    using on_redis_keeps(3) settle_existing_keeps sv_keeps_trans
    by (auto simp: enqueue_child_def a split: sum.split put_run_result.split option.split)
qed

lemma spawner_start_keeps: "spawner_start env queue request sv = Some (r, sv') \<Longrightarrow> sv_keeps e sv sv'"
  using enqueue_child_keeps [of e sv env queue]
  by (auto simp: spawner_start_def split: option.splits sum.splits) (metis snd_conv)

lemma append_answer_keeps: "sv_keeps e sv (snd (append_answer env asker spec payload sv))"
  using on_store_keeps(2) [of e sv]
  by (auto simp: append_answer_def split: prod.split sum.split) (metis snd_conv)+

lemma deliver_keeps: "sv_keeps e sv (snd (deliver env asker m payload iu sv))"
proof -
  have settle: "sv_keeps e sv' (snd (on_redis (wake (en_txt env) (en_fate env AtWake) asker m) (snd (on_store (answer m) sv'))))" for sv'
    using on_store_keeps(5) on_redis_keeps(5) by (rule sv_keeps_trans)
  show ?thesis
  proof (cases "get_run asker (sv_store sv)")
    case None
    then show ?thesis using settle by (simp add: deliver_def Let_def)
  next
    case (Some run)
    obtain r sv1 where a: "append_answer env asker (sr_spec run) payload sv = (r, sv1)" by fastforce
    have "sv_keeps e sv sv1" using append_answer_keeps [of e sv env asker "sr_spec run" payload] by (simp add: a)
    with settle sv_keeps_trans show ?thesis
      by (auto simp: deliver_def Let_def Some a split: ask_state.split sum.split)
  qed
qed

lemma deliverer_put_keeps: "sv_keeps e sv (snd (deliverer_put msg sv))"
  using on_store_keeps(4) [of e sv msg]
  by (auto simp: deliverer_put_def Let_def split: prod.split sum.split put_message_result.split)

lemma deliverer_reply_keeps: "sv_keeps e sv (snd (deliverer_reply env request sv))"
proof (cases "ask_of_task (rs_run_id (mq_from request)) (sv_store sv)")
  case None
  then show ?thesis by (simp add: deliverer_reply_def)
next
  case (Some msg)
  have one: "sv_keeps e sv sv1" if "deliverer_put row sv = (x, sv1)" for row x sv1
    using that deliverer_put_keeps [of e sv row] by simp
  have two: "sv_keeps e sv sv2" if "deliverer_put row sv = (x, sv1)" "deliver env run m payload iu sv1 = (y, sv2)" for row x sv1 run m payload iu y sv2
    using that one deliver_keeps [of e sv1 env run m payload iu] sv_keeps_trans by (metis snd_conv)
  show ?thesis
    by (auto simp: deliverer_reply_def Let_def Some split: prod.split sum.split bool.split dest: one two)
qed

lemma deliverer_send_keeps: "deliverer_send env request sv = Some (r, sv') \<Longrightarrow> sv_keeps e sv sv'"
proof -
  have two: "sv_keeps e sv sv2" if "deliverer_put msg sv = (x, sv1)" "enqueue_child env True task sv1 = (y, sv2)" for msg x sv1 task y sv2
    using that deliverer_put_keeps [of e sv msg] enqueue_child_keeps [of e sv1 env True task] sv_keeps_trans by simp
  have one: "sv_keeps e sv sv1" if "deliverer_put msg sv = (x, sv1)" for msg x sv1
    using that deliverer_put_keeps [of e sv msg] by simp
  show "deliverer_send env request sv = Some (r, sv') \<Longrightarrow> sv_keeps e sv sv'"
    using deliverer_reply_keeps [of e sv env request]
    by (auto simp: deliverer_send_def Let_def split: option.splits sum.splits prod.splits if_splits dest: one two)
qed

section \<open>A driver in a world\<close>

lemma found_in_set: "find P xs = Some x \<Longrightarrow> x \<in> set xs"
  by (auto simp: find_Some_iff)

text \<open>What a run of the driver keeps, when its pushes, its calls on the outside and its caller's boundary check do.\<close>

locale driver_keeps =
  fixes io :: "'w io" and b :: "'w driver \<Rightarrow> 'w \<Rightarrow> boundary \<times> 'w" and Q :: "'w dstate \<Rightarrow> bool"
  assumes push_kept: "Q s \<Longrightarrow> \<forall>eff. p \<noteq> EffectAuthorized eff \<Longrightarrow> Q (push io p act s)"
    and authorized_kept: "Q s \<Longrightarrow> Q (snd (authorize_decided io h eff s))"
    and tool_kept: "Q (d, w) \<Longrightarrow> t \<in> set (io_tools io) \<Longrightarrow> Q (d, snd (tl_call t inp w))"
    and complete_kept: "Q (d, w) \<Longrightarrow> Q (d, snd (io_complete io request w))"
    and read_kept: "Q (d, w) \<Longrightarrow> Q (d, snd (io_read io own key w))"
    and write_kept: "Q (d, w) \<Longrightarrow> Q (d, snd (io_write io own key val w))"
    and decide_kept: "Q (d, w) \<Longrightarrow> Q (d, snd (io_decide io view w))"
    and new_kept: "Q (d, w) \<Longrightarrow> Q (d, snd (io_new io w))"
    and spawner_kept: "Q (d, w) \<Longrightarrow> dv_spawner d = Some sp \<Longrightarrow> Q (d, snd (sp child w))"
    and deliverer_kept: "Q (d, w) \<Longrightarrow> dv_deliverer d = Some dl \<Longrightarrow> Q (d, snd (dl msg w))"
    and pending_kept: "Q (d, w) \<Longrightarrow> Q (d\<lparr>dv_pending := ps\<rparr>, w)"
    and undecided_kept: "Q (d, w) \<Longrightarrow> Q (d\<lparr>dv_undecided := u\<rparr>, w)"
    and resumed_kept: "Q (d, w) \<Longrightarrow> Q (d\<lparr>dv_resumed := r\<rparr>, w)"
    and boundary_kept: "Q (d, w) \<Longrightarrow> Q (d, snd (b d w))"
begin

lemma result_kept:
  "Q (d, w) \<Longrightarrow> t \<in> set (io_tools io) \<Longrightarrow> tl_call t inp w = (r1, w1) \<Longrightarrow> Q (d, w1)"
  "Q (d, w) \<Longrightarrow> io_complete io request w = (r2, w1) \<Longrightarrow> Q (d, w1)"
  "Q (d, w) \<Longrightarrow> io_read io own key w = (r3, w1) \<Longrightarrow> Q (d, w1)"
  "Q (d, w) \<Longrightarrow> io_write io own key val w = (r4, w1) \<Longrightarrow> Q (d, w1)"
  "Q (d, w) \<Longrightarrow> io_decide io view w = (r5, w1) \<Longrightarrow> Q (d, w1)"
  "Q (d, w) \<Longrightarrow> io_new io w = (r6, w1) \<Longrightarrow> Q (d, w1)"
  "Q (d, w) \<Longrightarrow> b d w = (r7, w1) \<Longrightarrow> Q (d, w1)"
  using tool_kept complete_kept read_kept write_kept decide_kept new_kept boundary_kept by (metis snd_conv)+

lemma deliver_tool_kept: "Q s \<Longrightarrow> Q (snd (deliver_tool_result io name call_id out s))"
  by (auto simp: deliver_tool_result_def push_kept split: harness_state.splits)

lemma tool_step_kept: "Q s \<Longrightarrow> Q (snd (perform_tool io name inp call_id s))"
  by (auto simp: perform_tool_def split: prod.splits harness_state.splits option.splits sum.splits
      intro!: push_kept deliver_tool_kept dest!: found_in_set dest: result_kept(1))

lemma io_steps_kept:
  "Q s \<Longrightarrow> Q (snd (perform_model io prompt s))" "Q s \<Longrightarrow> Q (snd (perform_read io scope key s))"
  "Q s \<Longrightarrow> Q (snd (perform_write io scope key val s))" "Q s \<Longrightarrow> Q (ask_user io prompt s)"
  by (auto simp: perform_model_def perform_read_def perform_write_def ask_user_def fail_unowned_def fail_memory_def Let_def
      split: prod.splits option.splits sum.splits intro!: push_kept dest: result_kept)

lemma spawn_kept: "Q (d, w) \<Longrightarrow> spawn_child d step agent inp given w = (r, w1) \<Longrightarrow> Q (d, w1)"
  using spawner_kept by (auto simp: spawn_child_def split: option.splits) (metis snd_conv)

lemma hand_over_kept: "Q (d, w) \<Longrightarrow> hand_over d request w = (r, w1) \<Longrightarrow> Q (d, w1)"
  using deliverer_kept by (auto simp: hand_over_def split: option.splits) (metis snd_conv)

lemma delegate_kept: "Q s \<Longrightarrow> Q (delegate io agent inp s)"
  by (auto simp: delegate_def Let_def split: prod.splits sum.splits intro!: push_kept dest: spawn_kept)

lemma send_kept: "Q s \<Longrightarrow> Q (send_message io to body expects reply_to timeout s)"
  by (auto simp: send_message_def Let_def split: prod.splits sum.splits option.splits intro!: push_kept dest: hand_over_kept)

lemma perform_one_kept: "Q s \<Longrightarrow> Q (snd (perform_one io eff s))"
  by (auto simp: perform_one_def tool_step_kept io_steps_kept delegate_kept send_kept split: effect.split)

lemma perform_kept: "Q s \<Longrightarrow> Q (perform io effs s)"
proof (induction effs arbitrary: s)
  case (Cons eff effs)
  then show ?case using perform_one_kept [of s eff] by (cases "perform_one io eff s") (auto split: prod.split)
qed simp

lemma advance_kept: "Q s \<Longrightarrow> Q (advance_answered_step io s)"
  by (auto simp: advance_answered_step_def push_kept split: harness_state.split bool.split)

lemma decide_step_kept: "Q s \<Longrightarrow> Q (snd (decide io s))"
  by (auto simp: decide_def Let_def split: prod.splits sum.splits intro!: push_kept dest: result_kept(5))
    (metis authorized_kept push_kept result_kept(5) event_payload.distinct snd_conv)+

lemma run_round_kept:
  assumes "Q s" and "run_round io b s = (x, s')"
  shows "Q s'"
proof (cases s)
  case (Pair d w)
  show ?thesis
    using assms decide_step_kept [of "(d, snd (b d w))"] boundary_kept [of d w] Pair
    by (auto simp: run_round_def cancel_def split: if_splits boundary.splits prod.splits sum.splits harness_state.splits
        intro!: push_kept advance_kept perform_kept)
qed

lemma run_start_kept: "Q s \<Longrightarrow> Q (run_start io s)"
proof -
  assume Q: "Q s"
  obtain d w where s: "s = (d, w)" by fastforce
  show "Q (run_start io s)"
  proof (cases "dv_undecided d")
    case None
    with Q show ?thesis
      by (auto simp: run_start_def s Let_def pending_kept resumed_kept intro!: advance_kept perform_kept)
  next
    case (Some he)
    obtain h eff where he: "he = (h, eff)" by fastforce
    obtain effs d1 w1 where auth: "authorize_decided io h eff (d\<lparr>dv_pending := [], dv_undecided := None\<rparr>, w) = (effs, (d1, w1))"
      by (metis surj_pair)
    have "Q (d1, w1)"
      using authorized_kept [of "(d\<lparr>dv_pending := [], dv_undecided := None\<rparr>, w)" h eff] Q undecided_kept [OF pending_kept]
      by (simp add: auth s)
    then show ?thesis
      by (auto simp: run_start_def s Let_def Some he auth resumed_kept intro!: advance_kept perform_kept)
  qed
qed

lemma run_until_kept:
  assumes "Q (d, w)"
  shows "\<exists>s0 r s1. Q s0 \<and> run_round io b s0 = (Inl r, s1) \<and> Q s1 \<and> run_until io b (d, w) = Some (r, s1)"
proof -
  have "\<exists>s0 r s1. Q s0 \<and> run_round io b s0 = (Inl r, s1) \<and> run_loop io b (run_start io (d, w)) = Some (r, s1)"
    by (rule run_loop_total) (use run_start_kept [OF assms] run_round_kept in blast)+
  then show ?thesis unfolding run_until_def using run_round_kept by blast
qed

end

section \<open>A claimed run\<close>

text \<open>A run is in hand when its entry is queued, claimed or parked, or its log has ended. A log is
  stored up to \<open>log\<close> when the stored log starts with it.\<close>

definition in_hand :: "queue_text \<Rightarrow> run_id \<Rightarrow> server \<Rightarrow> bool" where
  "in_hand qt run sv \<longleftrightarrow> held (qt_show qt run) (sv_redis sv) \<or> run_ended (get_run run (sv_store sv))"

definition logged :: "run_id \<Rightarrow> event list \<Rightarrow> server \<Rightarrow> bool" where
  "logged run log sv \<longleftrightarrow> (\<exists>stored rest. get_run run (sv_store sv) = Some stored \<and> sr_events stored = log @ rest)"

text \<open>What a worker relies on of the others.\<close>

definition others_keep :: "queue_text \<Rightarrow> run_id \<Rightarrow> server_calls \<Rightarrow> bool" where
  "others_keep qt run ca \<longleftrightarrow> (\<forall>n. en_txt (ca_env ca n) = qt)
     \<and> (\<forall>n sv. log_grows (sv_store sv) (sv_store (ca_others ca n sv))
          \<and> (in_hand qt run sv \<longrightarrow> in_hand qt run (ca_others ca n sv)))"

lemma grows_ended: "log_grows s s' \<Longrightarrow> run_ended (get_run run s) \<Longrightarrow> run_ended (get_run run s')"
  by (fastforce simp: log_grows_def run_ended_def split: option.splits)

lemma grows_logged: "log_grows (sv_store sv) (sv_store sv') \<Longrightarrow> logged run log sv \<Longrightarrow> logged run log sv'"
  by (fastforce simp: log_grows_def logged_def)

lemma keeps_in_hand: "sv_keeps (qt_show qt run) sv sv' \<Longrightarrow> in_hand qt run sv \<Longrightarrow> in_hand qt run sv'"
  using grows_ended by (auto simp: in_hand_def sv_keeps_def)

lemma keeps_ended: "sv_keeps e sv sv' \<Longrightarrow> run_ended (get_run run (sv_store sv)) \<Longrightarrow> run_ended (get_run run (sv_store sv'))"
  using grows_ended by (auto simp: sv_keeps_def)

lemma keeps_logged: "sv_keeps e sv sv' \<Longrightarrow> logged run log sv \<Longrightarrow> logged run log sv'"
  using grows_logged by (auto simp: sv_keeps_def)

lemma logged_prefix: "logged run (log @ rest) sv \<Longrightarrow> logged run log sv"
  by (auto simp: logged_def)

lemma logged_ended: "logged run log sv \<Longrightarrow> list_ex is_end_event log \<Longrightarrow> run_ended (get_run run (sv_store sv))"
  by (auto simp: logged_def run_ended_def)

text \<open>A step of the world: the server changes as a server may, and the rest of the world may change.\<close>

definition wo_keeps :: "queue_text \<Rightarrow> run_id \<Rightarrow> ('h, 'x) world \<Rightarrow> ('h, 'x) world \<Rightarrow> bool" where
  "wo_keeps qt run w w' \<longleftrightarrow>
     (in_hand qt run (wo_sv w) \<longrightarrow> in_hand qt run (wo_sv w')) \<and> log_grows (sv_store (wo_sv w)) (sv_store (wo_sv w'))"

lemma wo_keeps_refl [simp]: "wo_sv w' = wo_sv w \<Longrightarrow> wo_keeps qt run w w'"
  by (simp add: wo_keeps_def log_grows_same)

lemma wo_keeps_trans [trans]: "wo_keeps qt run a b \<Longrightarrow> wo_keeps qt run b c \<Longrightarrow> wo_keeps qt run a c"
  using log_grows_trans by (auto simp: wo_keeps_def)

lemma wo_keepsD:
  assumes "wo_keeps qt run w w'"
  shows "in_hand qt run (wo_sv w) \<Longrightarrow> in_hand qt run (wo_sv w')" "logged run' log (wo_sv w) \<Longrightarrow> logged run' log (wo_sv w')"
    "run_ended (get_run run' (sv_store (wo_sv w))) \<Longrightarrow> run_ended (get_run run' (sv_store (wo_sv w')))"
  using assms grows_logged grows_ended by (auto simp: wo_keeps_def)

definition same_cells :: "('h, 'x) world \<Rightarrow> ('h, 'x) world \<Rightarrow> bool" where
  "same_cells w w' \<longleftrightarrow> wo_seen w' = wo_seen w \<and> wo_refused w' = wo_refused w \<and> wo_stuck w' = wo_stuck w \<and> wo_host w' = wo_host w"

lemma wcall_eq:
  "wcall wk f w = (r, w') \<longleftrightarrow>
     f (wo_n w) (ca_others (wk_calls wk) (wo_n w) (wo_sv w)) = (r, wo_sv w') \<and> w' = w\<lparr>wo_sv := wo_sv w', wo_n := Suc (wo_n w)\<rparr>"
  by (auto simp: wcall_def call_def split: prod.splits)

lemma wcall_keeps:
  assumes "others_keep qt run (wk_calls wk)" and "wcall wk f w = (r, w')"
    and "\<And>n sv. sv_keeps (qt_show qt run) sv (snd (f n sv))"
  shows "wo_keeps qt run w w'" "same_cells w w'"
proof -
  let ?sv = "ca_others (wk_calls wk) (wo_n w) (wo_sv w)"
  have f: "f (wo_n w) ?sv = (r, wo_sv w')" "w' = w\<lparr>wo_sv := wo_sv w', wo_n := Suc (wo_n w)\<rparr>"
    using assms(2) by (simp_all add: wcall_eq)
  have "sv_keeps (qt_show qt run) ?sv (wo_sv w')" using assms(3) [of ?sv "wo_n w"] by (simp add: f(1))
  moreover have "log_grows (sv_store (wo_sv w)) (sv_store ?sv)" "in_hand qt run (wo_sv w) \<longrightarrow> in_hand qt run ?sv"
    using assms(1) by (simp_all add: others_keep_def)
  ultimately show "wo_keeps qt run w w'" using keeps_in_hand log_grows_trans by (auto simp: wo_keeps_def sv_keeps_def)
  show "same_cells w w'" by (subst f(2)) (simp add: same_cells_def)
qed

section \<open>The worker's calls\<close>

lemma w_holds_keeps:
  assumes "others_keep qt run' (wk_calls wk)" and "w_holds wk run token w = (b, w')"
  shows "wo_keeps qt run' w w'" "same_cells w w'"
proof -
  from assms(2) obtain r where "wcall wk (\<lambda>n. on_redis (renew (en_txt (env_at wk n)) (ca_fate (wk_calls wk) n) (en_redis_now (env_at wk n)) run token
     (qm_lease (wk_timing wk)))) w = (r, w')"
    by (auto simp: w_holds_def w_renew_def split: prod.splits)
  from wcall_keeps [OF assms(1) this on_redis_keeps(7)] show "wo_keeps qt run' w w'" "same_cells w w'" .
qed

lemma w_read_keeps:
  assumes "others_keep qt run' (wk_calls wk)"
  shows "w_run wk run w = (r1, w') \<Longrightarrow> wo_keeps qt run' w w' \<and> same_cells w w' \<and> r1 = get_run run (sv_store (wo_sv w'))"
    "w_stopped wk run w = (r2, w') \<Longrightarrow> wo_keeps qt run' w w' \<and> same_cells w w'"
proof -
  show "w_run wk run w = (r1, w') \<Longrightarrow> wo_keeps qt run' w w' \<and> same_cells w w' \<and> r1 = get_run run (sv_store (wo_sv w'))"
    using wcall_keeps [OF assms, of "\<lambda>n sv. (get_run run (sv_store sv), sv)" w r1 w'] by (auto simp: w_run_def wcall_eq)
  show "w_stopped wk run w = (r2, w') \<Longrightarrow> wo_keeps qt run' w w' \<and> same_cells w w'"
    using wcall_keeps [OF assms, of "\<lambda>n sv. (stopped run (sv_store sv), sv)" w r2 w'] by (simp add: w_stopped_def)
qed

text \<open>A store append: on an open log of the length it was given it lands after it.\<close>

lemma append_checked_result:
  assumes "append_checked t run seen new s = (Inr res, s')"
  shows "res = Appended \<Longrightarrow> \<exists>stored. get_run run s = Some stored \<and> get_run run s' = Some (stored\<lparr>sr_events := sr_events stored @ new\<rparr>)
       \<and> (seen = None \<or> seen = Some (length (sr_events stored)))"
    "res = AppendTerminal \<Longrightarrow> run_ended (get_run run s')" "res = AppendMissing \<Longrightarrow> get_run run s' = None"
proof -
  show "\<exists>stored. get_run run s = Some stored \<and> get_run run s' = Some (stored\<lparr>sr_events := sr_events stored @ new\<rparr>)
       \<and> (seen = None \<or> seen = Some (length (sr_events stored)))" if "res = Appended"
    using assms that by (cases rule: append_cases [of t run seen new s]) (auto simp: get_run_def lock_read_def)
  show "run_ended (get_run run s')" if "res = AppendTerminal"
    using assms that
    by (auto simp: append_checked_def run_ended_def get_run_def lock_read_def lock_write_def Let_def
        split: sum.splits if_splits option.splits prod.splits)
  show "get_run run s' = None" if "res = AppendMissing"
    using assms that
    by (auto simp: append_checked_def get_run_def lock_read_def lock_write_def Let_def
        split: sum.splits if_splits option.splits prod.splits)
qed

text \<open>An answer that makes \<open>ack\<close> acknowledge is only given of a run that has ended.\<close>

definition good_stop :: "run_id \<Rightarrow> string + stop_cause \<Rightarrow> ('h, 'x) world \<Rightarrow> bool" where
  "good_stop run r w \<longleftrightarrow> (\<forall>res. r = Inr (StoppedStore res) \<longrightarrow> res \<noteq> AppendMoved \<longrightarrow> run_ended (get_run run (sv_store (wo_sv w))))"

lemma good_stop_simps [simp]: "good_stop run (Inl e) w" "good_stop run (Inr LostLease) w" "good_stop run (Inr (StoppedWaiting m)) w"
  by (simp_all add: good_stop_def)

lemma good_stop_keeps: "good_stop run r w \<Longrightarrow> wo_keeps qt run' w w' \<Longrightarrow> good_stop run r w'"
  using wo_keepsD(3) by (auto simp: good_stop_def)

text \<open>What an append gives: what was appended is stored after the log that was seen.\<close>

definition appends :: "queue_text \<Rightarrow> run_id \<Rightarrow> event list \<Rightarrow> string + stop_cause \<Rightarrow> ('h, 'x) world \<Rightarrow> ('h, 'x) world \<Rightarrow> bool" where
  "appends qt run new r w w' \<longleftrightarrow> wo_keeps qt run w w' \<and> same_cells w w'
     \<and> (\<forall>log. logged run log (wo_sv w) \<longrightarrow>
          (r = Inr (StoppedStore Appended) \<longrightarrow> (\<exists>mid. logged run (log @ mid @ new) (wo_sv w')))
        \<and> (r \<noteq> Inr (StoppedStore Appended) \<longrightarrow> good_stop run r w'))"

lemma appends_ends:
  assumes "appends qt run new r w w'" and "logged run log (wo_sv w)" and "list_ex is_end_event new"
  shows "good_stop run r w'"
proof (cases "r = Inr (StoppedStore Appended)")
  case True
  then obtain mid where "logged run (log @ mid @ new) (wo_sv w')" using assms(1,2) by (auto simp: appends_def)
  from logged_ended [OF this] assms(3) show ?thesis by (simp add: good_stop_def)
next
  case False
  with assms(1,2) show ?thesis by (auto simp: appends_def)
qed

lemma store_append_appends:
  assumes rely: "others_keep qt run (wk_calls wk)" and app: "w_store_append wk f w = (r, w')"
    and f: "\<And>t s. \<exists>seen. f t s = append_checked t run seen new s"
  shows "appends qt run new r w w'"
proof -
  from app obtain x where call: "wcall wk (\<lambda>n. on_store (f (en_store_now (env_at wk n)))) w = (x, w')"
    and r: "r = (case x of Inl e \<Rightarrow> Inl (error_message e) | Inr res \<Rightarrow> Inr (StoppedStore res))"
    by (auto simp: w_store_append_def split: prod.splits sum.splits)
  have keep: "sv_keeps (qt_show qt run) sv (snd (on_store (f t) sv))" for t sv
    using f [of t "sv_store sv"] append_checked_grows [of "sv_store sv" t run _ new] by (auto simp: sv_keeps_def)
  note kept = wcall_keeps [OF rely call keep]
  let ?sv = "ca_others (wk_calls wk) (wo_n w) (wo_sv w)"
  have here: "on_store (f (en_store_now (env_at wk (wo_n w)))) ?sv = (x, wo_sv w')" using call by (simp add: wcall_eq)
  obtain seen where chk: "append_checked (en_store_now (env_at wk (wo_n w))) run seen new (sv_store ?sv) = (x, sv_store (wo_sv w'))"
    using f [of "en_store_now (env_at wk (wo_n w))" "sv_store ?sv"] here by (auto simp: on_store_res)
  have "(r = Inr (StoppedStore Appended) \<longrightarrow> (\<exists>mid. logged run (log @ mid @ new) (wo_sv w')))
      \<and> (r \<noteq> Inr (StoppedStore Appended) \<longrightarrow> good_stop run r w')" if "logged run log (wo_sv w)" for log
  proof -
    have "log_grows (sv_store (wo_sv w)) (sv_store ?sv)" using rely by (simp add: others_keep_def)
    with that have log: "logged run log ?sv" by (rule grows_logged [rotated])
    have log': "logged run log (wo_sv w')" using wo_keepsD(2) [OF kept(1) that] .
    show ?thesis
    proof (cases x)
      case (Inl e)
      then show ?thesis by (simp add: r)
    next
      case (Inr res)
      note res = append_checked_result [OF chk [unfolded Inr]]
      from log obtain stored rest where stored: "get_run run (sv_store ?sv) = Some stored" "sr_events stored = log @ rest"
        by (auto simp: logged_def)
      have "logged run (log @ rest @ new) (wo_sv w')" if "res = Appended"
        using res(1) [OF that] stored by (auto simp: logged_def)
      then show ?thesis
        using res(2,3) log' by (cases res) (auto simp: r Inr good_stop_def logged_def)
    qed
  qed
  with kept show ?thesis by (simp add: appends_def)
qed

lemma w_append_appends:
  assumes rely: "others_keep qt run (wk_calls wk)" and app: "w_append wk run token seen new w = (r, w')"
  shows "appends qt run new r w w'"
    "r = Inr (StoppedStore Appended) \<Longrightarrow> logged run log (wo_sv w) \<Longrightarrow> length log = seen \<Longrightarrow> logged run (log @ new) (wo_sv w')"
proof -
  obtain b w1 where holds: "w_holds wk run token w = (b, w1)" by fastforce
  note h = w_holds_keeps [OF rely holds]
  have store: "appends qt run new r w1 w'" if b
    using app holds that
    by (intro store_append_appends [OF rely, of "\<lambda>t. append_events_after t run seen new"])
      (auto simp: w_append_def append_events_after_def)
  show "appends qt run new r w w'"
  proof (cases b)
    case False
    with app holds have "r = Inr LostLease" "w' = w1" by (simp_all add: w_append_def)
    with h show ?thesis by (simp add: appends_def)
  next
    case True
    note st = store [OF True, unfolded appends_def]
    have "wo_keeps qt run w w'" using h(1) st by (blast intro: wo_keeps_trans)
    moreover have "same_cells w w'" using h(2) st by (simp add: same_cells_def)
    ultimately show ?thesis unfolding appends_def using st wo_keepsD(2) [OF h(1)] by blast
  qed
  assume res: "r = Inr (StoppedStore Appended)" and log: "logged run log (wo_sv w)" and len: "length log = seen"
  with app holds have call: "wcall wk (\<lambda>n. on_store (append_events_after (en_store_now (env_at wk n)) run seen new)) w1 = (Inr Appended, w')"
    by (auto simp: w_append_def w_store_append_def split: bool.splits prod.splits sum.splits)
  let ?sv = "ca_others (wk_calls wk) (wo_n w1) (wo_sv w1)"
  have "log_grows (sv_store (wo_sv w1)) (sv_store ?sv)" using rely by (simp add: others_keep_def)
  then have "logged run log ?sv" using grows_logged wo_keepsD(2) [OF h(1) log] by blast
  moreover from call have "append_checked (en_store_now (env_at wk (wo_n w1))) run (Some seen) new (sv_store ?sv) = (Inr Appended, sv_store (wo_sv w'))"
    by (simp add: wcall_eq append_events_after_def on_store_res)
  note append_checked_result(1) [OF this refl]
  ultimately show "logged run (log @ new) (wo_sv w')" using len by (auto simp: logged_def)
qed

section \<open>The driver in a worker's world\<close>

text \<open>A log whose harness has ended has a terminal event.\<close>

definition closed_log :: "run_spec \<Rightarrow> event list \<Rightarrow> bool" where
  "closed_log spec events \<longleftrightarrow> (harness_is_terminal (harness (fold_run spec events)) \<longrightarrow> list_ex is_end_event events)"

lemma reduce_ends:
  "\<not> harness_is_terminal h \<Longrightarrow> harness_is_terminal (fst (reduce h ev spec)) \<Longrightarrow> \<forall>eff. ev_payload ev \<noteq> EffectAuthorized eff \<Longrightarrow> is_end_event ev"
  by (auto simp: reduce_defs split: event_payload.splits harness_state.splits effect.splits bool.splits option.splits if_splits)

lemma authorized_ends:
  "harness_is_terminal (fst (on_authorized h eff spec)) \<Longrightarrow> \<not> harness_is_terminal h
     \<Longrightarrow> \<exists>said. eff = Complete said \<and> fst (on_authorized h eff spec) = HCompleted said"
  by (cases h; cases eff) (auto simp: on_authorized_def split: if_splits)

lemma closed_snoc: "closed_log spec events \<Longrightarrow> \<forall>eff. ev_payload ev \<noteq> EffectAuthorized eff \<Longrightarrow> closed_log spec (events @ [ev])"
  using reduce_ends by (fastforce simp: closed_log_def harness_snoc)

lemma closed_ended: "list_ex is_end_event events \<Longrightarrow> closed_log spec events"
  by (simp add: closed_log_def)

text \<open>A driver at work for a claim that was taken up in the world \<open>w0\<close>.\<close>

definition running ::
    "queue_text \<Rightarrow> ('h, 'x) worker \<Rightarrow> run_spec \<Rightarrow> ('h, 'x) world \<Rightarrow> ('h, 'x) world dstate \<Rightarrow> bool" where
  "running qt wk spec w0 = (\<lambda>(d, w). others_keep qt (rs_run_id spec) (wk_calls wk) \<and> dv_spec d = spec \<and> closed_log spec (dv_events d)
     \<and> dv_spawner d \<in> {None, Some (worker_spawner wk)} \<and> dv_deliverer d \<in> {None, Some (worker_deliverer wk)}
     \<and> wo_seen w \<le> length (dv_events d) \<and> logged (rs_run_id spec) (take (wo_seen w) (dv_events d)) (wo_sv w)
     \<and> wo_keeps qt (rs_run_id spec) w0 w \<and> (\<forall>r. wo_refused w = Some r \<longrightarrow> good_stop (rs_run_id spec) r w))"

text \<open>A change of the world that keeps the claim's cells keeps the driver running.\<close>

lemma running_step:
  assumes "running qt wk spec w0 (d, w)" and "wo_keeps qt (rs_run_id spec) w w'" and "wo_seen w' = wo_seen w" and "wo_refused w' = wo_refused w"
  shows "running qt wk spec w0 (d, w')"
  using assms wo_keepsD(2) [OF assms(2)] good_stop_keeps [OF _ assms(2)] wo_keeps_trans [OF _ assms(2)]
  by (auto simp: running_def)

lemma running_same:
  "running qt wk spec w0 (d, w) \<Longrightarrow> wo_sv w' = wo_sv w \<Longrightarrow> wo_seen w' = wo_seen w \<Longrightarrow> wo_refused w' = wo_refused w \<Longrightarrow> running qt wk spec w0 (d, w')"
  by (rule running_step) simp_all

lemma running_event:
  "running qt wk spec w0 (d, w) \<Longrightarrow> closed_log spec (dv_events d @ evs) \<Longrightarrow> running qt wk spec w0 (d\<lparr>dv_events := dv_events d @ evs\<rparr>, w)"
  by (auto simp: running_def)

lemma push_worker:
  "push (worker_io wk spec tools) p act (d, w) =
     (d\<lparr>dv_events := dv_events d @ [record_event (EventId (en_fresh (env_now wk (tick w)))) (for_spec (dv_spec d) act (en_now (env_now wk w))) p]\<rparr>,
      tick (tick w))"
  by (simp add: push_def worker_io_def)

lemma tick_simps [simp]: "wo_sv (tick w) = wo_sv w" "wo_seen (tick w) = wo_seen w" "wo_refused (tick w) = wo_refused w" "wo_stuck (tick w) = wo_stuck w"
    "wo_host (tick w) = wo_host w"
  by (simp_all add: tick_def)

lemma on_outside_same [simp]:
  "wo_sv (snd (on_outside f w)) = wo_sv w" "wo_seen (snd (on_outside f w)) = wo_seen w" "wo_refused (snd (on_outside f w)) = wo_refused w"
  by (auto simp: on_outside_def split: prod.splits)

lemma running_push:
  assumes "running qt wk spec w0 s" and "\<forall>eff. p \<noteq> EffectAuthorized eff"
  shows "running qt wk spec w0 (push (worker_io wk spec tools) p act s)"
proof (cases s)
  case (Pair d w)
  have "running qt wk spec w0 (d, tick (tick w))" using assms(1) Pair by (auto intro: running_same)
  moreover have "closed_log spec (dv_events d)" using assms(1) Pair by (simp add: running_def)
  ultimately show ?thesis unfolding Pair push_worker by (intro running_event closed_snoc) (use assms(2) in \<open>simp_all add: record_event_def\<close>)
qed

lemma running_authorize:
  assumes run: "running qt wk spec w0 s"
  shows "running qt wk spec w0 (snd (authorize_decided (worker_io wk spec tools) h eff s))"
proof -
  let ?io = "worker_io wk spec tools"
  obtain d w where s: "s = (d, w)" by fastforce
  have spec: "dv_spec d = spec" and closed: "closed_log spec (dv_events d)" using run s by (simp_all add: running_def)
  obtain ev where ev: "push ?io (EffectAuthorized eff) ActorPolicy s = (d\<lparr>dv_events := dv_events d @ [ev]\<rparr>, tick (tick w))"
    "ev_payload ev = EffectAuthorized eff"
    by (simp add: s push_worker record_event_def)
  let ?d = "d\<lparr>dv_events := dv_events d @ [ev]\<rparr>"
  have now: "running qt wk spec w0 (d, tick (tick w))" using run s by (auto intro: running_same)
  have goal: "running qt wk spec w0
      (case eff of Complete said \<Rightarrow> (case harness (driver_state ?d) of HCompleted out \<Rightarrow> push ?io (RunCompleted said) ActorSystem (?d, tick (tick w)) | _ \<Rightarrow> (?d, tick (tick w)))
         | _ \<Rightarrow> (?d, tick (tick w)))"
  proof (cases "(\<exists>said. eff = Complete said) \<and> (\<exists>out. harness (driver_state ?d) = HCompleted out)")
    case True
    then obtain said out where eff: "eff = Complete said" "harness (driver_state ?d) = HCompleted out" by blast
    have two: "running qt wk spec w0 (d, tick (tick (tick (tick w))))" using now by (auto intro: running_same)
    have "running qt wk spec w0 (d\<lparr>dv_events := dv_events d @ [ev, e]\<rparr>, tick (tick (tick (tick w))))" if "is_end_event e" for e
      by (intro running_event two closed_ended) (simp add: that)
    with eff show ?thesis by (simp add: push_worker record_event_def)
  next
    case False
    have "closed_log spec (dv_events d @ [ev])"
    proof (cases "harness_is_terminal (harness (fold_run spec (dv_events d)))")
      case True
      with closed show ?thesis by (simp add: closed_log_def)
    next
      case live: False
      have "\<not> harness_is_terminal (harness (fold_run spec (dv_events d @ [ev])))"
        using False authorized_ends [OF _ live] live ev(2) spec
        by (auto simp: driver_state_def harness_snoc reduce_def)
      then show ?thesis by (simp add: closed_log_def)
    qed
    with now have "running qt wk spec w0 (?d, tick (tick w))" by (rule running_event)
    with False show ?thesis by (auto split: effect.split harness_state.split)
  qed
  show ?thesis
    unfolding authorize_decided_def Let_def ev(1) fst_conv using goal running_push [OF run]
    by (auto split: policy_decision.split)
qed

lemma w_option_keeps:
  assumes "others_keep qt run (wk_calls wk)" and "w_option wk f w = (r, w')"
    and "\<And>n sv x sv'. f n sv = Some (x, sv') \<Longrightarrow> sv_keeps (qt_show qt run) sv sv'"
  shows "wo_keeps qt run w w' \<and> wo_seen w' = wo_seen w \<and> wo_refused w' = wo_refused w"
proof -
  obtain x w1 where call: "wcall wk (\<lambda>n sv. case f n sv of None \<Rightarrow> (None, sv) | Some (r, sv1) \<Rightarrow> (Some r, sv1)) w = (x, w1)" by fastforce
  have "sv_keeps (qt_show qt run) sv (snd (case f n sv of None \<Rightarrow> (None, sv) | Some (r, sv1) \<Rightarrow> (Some r, sv1)))" for n sv
    using assms(3) [of n sv] by (cases "f n sv") auto
  note k = wcall_keeps [OF assms(1) call this]
  have w': "wo_sv w' = wo_sv w1" "wo_seen w' = wo_seen w1" "wo_refused w' = wo_refused w1"
    using assms(2) call by (auto simp: w_option_def split: option.splits)
  have "wo_keeps qt run w w'" by (rule wo_keeps_trans [OF k(1)]) (simp add: w')
  with k(2) w' show ?thesis by (simp add: same_cells_def)
qed

lemma running_boundary:
  assumes run: "running qt wk spec w0 (d, w)" and b: "at_boundary wk (rs_run_id spec) token d w = (x, w')"
  shows "running qt wk spec w0 (d, w')" "x = Pause \<Longrightarrow> wo_stuck w' \<or> wo_refused w' \<noteq> None"
proof -
  have rely: "others_keep qt (rs_run_id spec) (wk_calls wk)" using run by (simp add: running_def)
  obtain st w1 where st: "w_stopped wk (rs_run_id spec) w = (st, w1)" by fastforce
  have r1: "running qt wk spec w0 (d, w1)"
    using w_read_keeps(2) [OF rely st] by (intro running_step [OF run]) (auto simp: same_cells_def)
  let ?new = "drop (wo_seen w1) (dv_events d)"
  obtain a w2 where app: "w_append wk (rs_run_id spec) token (wo_seen w1) ?new w1 = (a, w2)" by fastforce
  note aps = w_append_appends(1) [OF rely app]
  have r2: "running qt wk spec w0 (d, w2)"
    using aps by (intro running_step [OF r1]) (auto simp: appends_def same_cells_def)
  have all: "running qt wk spec w0 (d, w2\<lparr>wo_seen := length (dv_events d)\<rparr>)" if "a = Inr (StoppedStore Appended)"
  proof -
    have "logged (rs_run_id spec) (take (wo_seen w1) (dv_events d) @ ?new) (wo_sv w2)"
      using r1 by (intro w_append_appends(2) [OF rely app that]) (auto simp: running_def)
    moreover have "wo_keeps qt (rs_run_id spec) w2 (w2\<lparr>wo_seen := length (dv_events d)\<rparr>)" by simp
    ultimately show ?thesis using r2 wo_keeps_trans by (fastforce simp: running_def good_stop_def)
  qed
  have refused: "running qt wk spec w0 (d, w2\<lparr>wo_refused := Some a\<rparr>)" if "a \<noteq> Inr (StoppedStore Appended)"
  proof -
    have "logged (rs_run_id spec) (take (wo_seen w1) (dv_events d)) (wo_sv w1)" using r1 by (simp add: running_def)
    then have "good_stop (rs_run_id spec) a w2" using aps that by (auto simp: appends_def)
    moreover have "wo_keeps qt (rs_run_id spec) w2 (w2\<lparr>wo_refused := Some a\<rparr>)" by simp
    ultimately show ?thesis using r2 wo_keeps_trans by (fastforce simp: running_def good_stop_def)
  qed
  have stuck: "running qt wk spec w0 (d, w1\<lparr>wo_stuck := True\<rparr>)" using r1 by (rule running_same) simp_all
  show "running qt wk spec w0 (d, w')" "x = Pause \<Longrightarrow> wo_stuck w' \<or> wo_refused w' \<noteq> None"
    using b st app r1 stuck all refused
    by (auto simp: at_boundary_def Let_def split: option.splits bool.splits if_splits sum.splits stop_cause.splits append_result.splits)
qed

lemma running_option:
  assumes "running qt wk spec w0 (d, w)" and "\<And>n sv x sv'. f n sv = Some (x, sv') \<Longrightarrow> sv_keeps (qt_show qt (rs_run_id spec)) sv sv'"
  shows "running qt wk spec w0 (d, snd (w_option wk f w))"
proof -
  obtain r w' where r: "w_option wk f w = (r, w')" by fastforce
  have "others_keep qt (rs_run_id spec) (wk_calls wk)" using assms(1) by (simp add: running_def)
  from w_option_keeps [OF this r assms(2)] show ?thesis unfolding r snd_conv by (intro running_step [OF assms(1)]) simp_all
qed

interpretation worker: driver_keeps "worker_io wk spec tools" "at_boundary wk (rs_run_id spec) token" "running qt wk spec w0"
  for wk :: "('h, 'x) worker" and spec tools token qt w0
proof
  let ?Q = "running qt wk spec w0"
  let ?io = "worker_io wk spec tools"
  fix d w
  show "?Q (d, snd (tl_call t inp w))" if "?Q (d, w)" "t \<in> set (io_tools ?io)" for t inp
    using that(2) by (intro running_same [OF that(1)]) (auto simp: worker_io_def world_tool_def)
  show "?Q (d, snd (io_complete ?io request w))" "?Q (d, snd (io_decide ?io view w))" if "?Q (d, w)" for request view
    by (rule running_same [OF that]; simp add: worker_io_def)+
  show "?Q (d, snd (io_read ?io own key w))" "?Q (d, snd (io_write ?io own key val w))" "?Q (d, snd (io_new ?io w))" if "?Q (d, w)" for own key val
    by (rule running_same [OF that]; simp add: worker_io_def split: prod.split)+
  show "?Q (d, snd (sp child w))" if "?Q (d, w)" "dv_spawner d = Some sp" for sp child
  proof -
    have "sp = worker_spawner wk" using that by (auto simp: running_def)
    then show ?thesis unfolding worker_spawner_def by (simp only:) (rule running_option [OF that(1) spawner_start_keeps])
  qed
  show "?Q (d, snd (dl msg w))" if "?Q (d, w)" "dv_deliverer d = Some dl" for dl msg
  proof -
    have "dl = worker_deliverer wk" using that by (auto simp: running_def)
    then show ?thesis unfolding worker_deliverer_def by (simp only:) (rule running_option [OF that(1) deliverer_send_keeps])
  qed
  show "?Q (d, snd (at_boundary wk (rs_run_id spec) token d w))" if "?Q (d, w)"
    by (rule running_boundary(1) [OF that]) (rule prod.collapse [symmetric])
  show "?Q (d\<lparr>dv_pending := ps\<rparr>, w)" "?Q (d\<lparr>dv_undecided := u\<rparr>, w)" "?Q (d\<lparr>dv_resumed := r\<rparr>, w)" if "?Q (d, w)" for ps u r
    using that by (simp_all add: running_def)
qed (rule running_push running_authorize; assumption)+

text \<open>How a driver that was not paused leaves the log: ended, waiting on an ask, or with an error.\<close>

lemma run_until_worker:
  assumes "running qt wk spec w0 (d, w)"
  shows "\<exists>r d1 w1. run_until (worker_io wk spec tools) (at_boundary wk (rs_run_id spec) token) (d, w) = Some (r, (d1, w1))
     \<and> running qt wk spec w0 (d1, w1)
     \<and> (\<not> wo_stuck w1 \<longrightarrow> wo_refused w1 = None \<longrightarrow> log_ended d1 \<or> (\<exists>st at m. harness (driver_state d1) = HWaitingForMessage st at m) \<or> (\<exists>e. r = Inl e))"
proof -
  obtain s0 r s1 where s0: "running qt wk spec w0 s0" and last: "run_round (worker_io wk spec tools) (at_boundary wk (rs_run_id spec) token) s0 = (Inl r, s1)"
    and s1: "running qt wk spec w0 s1" and run: "run_until (worker_io wk spec tools) (at_boundary wk (rs_run_id spec) token) (d, w) = Some (r, s1)"
    using worker.run_until_kept [OF assms] by blast
  have closed: "dv_spec (fst s1) = spec" "closed_log spec (dv_events (fst s1))" using s1 by (auto simp: running_def)
  have ends: "log_ended (fst s1)" if "harness_is_terminal (harness (driver_state (fst s1)))"
    using that closed by (simp add: closed_log_def driver_state_def log_ended_def)
  have "log_ended (fst s1) \<or> (\<exists>st at m. harness (driver_state (fst s1)) = HWaitingForMessage st at m) \<or> (\<exists>e. r = Inl e)"
    if free: "\<not> wo_stuck (snd s1)" "wo_refused (snd s1) = None"
    using last
  proof (cases rule: run_round_cases)
    case ended
    then show ?thesis using ends by (auto simp: live_iff)
  next
    case (cancelled w1)
    then show ?thesis by (cases s0) (simp add: cancel_def push_worker record_event_def log_ended_def)
  next
    case (paused w1)
    then show ?thesis using running_boundary(2) [of qt wk spec w0 "fst s0" "snd s0" token Pause w1] s0 free by simp
  next
    case (stopped w1)
    then show ?thesis using ends by simp
  qed auto
  with run s1 show ?thesis by (cases s1) auto
qed

lemma unstarted_idle: "\<not> list_ex (\<lambda>ev. ev_payload ev = RunStarted) events \<Longrightarrow> harness (fold_run spec events) = HIdle"
  by (induction events rule: rev_induct)
    (auto simp: harness_snoc reduce_defs harness_fold_run split: event_payload.splits option.splits)

lemma uncompleted_ended:
  "harness_is_terminal (harness (fold_run spec events)) \<Longrightarrow> \<forall>out. harness (fold_run spec events) \<noteq> HCompleted out \<Longrightarrow> list_ex is_end_event events"
proof (induction events rule: rev_induct)
  case (snoc ev events)
  show ?case
  proof (cases "harness_is_terminal (harness (fold_run spec events))")
    case True
    with snoc show ?thesis by (auto simp: harness_snoc reduce_def)
  next
    case False
    have "\<forall>eff. ev_payload ev \<noteq> EffectAuthorized eff"
    proof (intro allI notI)
      fix eff
      assume "ev_payload ev = EffectAuthorized eff"
      with False have "reduce (harness (fold_run spec events)) ev spec = on_authorized (harness (fold_run spec events)) eff spec"
        by (simp add: reduce_def)
      with authorized_ends [OF _ False, of eff spec] snoc.prems show False by (auto simp: harness_snoc)
    qed
    with reduce_ends [OF False, of ev spec] snoc.prems show ?thesis by (simp add: harness_snoc)
  qed
qed (simp add: harness_fold_run)

text \<open>A driver resumed from a log.\<close>

lemma resume_worker:
  assumes "resume (worker_io wk spec tools) spec events w = (r, w1)"
  shows "wo_sv w1 = wo_sv w"
    "r = Inr d \<Longrightarrow> dv_spec d = spec \<and> closed_log spec (dv_events d) \<and> dv_spawner d = None \<and> dv_deliverer d = None \<and> (\<exists>evs. dv_events d = events @ evs)"
proof -
  have other: "closed_log spec events" if "\<forall>out. harness (fold_run spec events) \<noteq> HCompleted out"
    using uncompleted_ended that by (auto simp: closed_log_def)
  have idle: "closed_log spec (events @ [ev])" if "\<not> list_ex (\<lambda>ev. ev_payload ev = RunStarted) events" "ev_payload ev = RunStarted" for ev
    using that other unstarted_idle [OF that(1), of spec] by (intro closed_snoc) simp_all
  show "wo_sv w1 = wo_sv w"
    using assms
    by (auto simp: resume_def Let_def push_worker split: if_splits dispatch_phase.splits harness_state.splits event_payload.splits)
  show "dv_spec d = spec \<and> closed_log spec (dv_events d) \<and> dv_spawner d = None \<and> dv_deliverer d = None \<and> (\<exists>evs. dv_events d = events @ evs)" if "r = Inr d"
    using assms that other idle
    by (auto simp: resume_def Let_def push_worker driver_new_def driver_state_def record_event_def closed_ended
        split: if_splits dispatch_phase.splits harness_state.splits event_payload.splits)
qed

end
