(* ===== verification/Worker_Correct.thy ===== *)
theory Worker_Correct
  imports Worker_Keeps
begin

text \<open>
  What a queue worker does with a claim: the run is never lost, a Box turn ends without sandboxes, the
  attempts are bounded, and a run started too often ends.
\<close>

section \<open>A claim taken up\<close>

text \<open>What a step of a claim's work gives: the run stays in hand, no log loses an event, and an answer
  that lets the claim be acknowledged is given of an ended run.\<close>

definition stops :: "queue_text \<Rightarrow> run_id \<Rightarrow> ('h, 'x) world \<Rightarrow> string + stop_cause \<Rightarrow> ('h, 'x) world \<Rightarrow> bool" where
  "stops qt run w r w' \<longleftrightarrow> wo_keeps qt run w w' \<and> good_stop run r w'"

definition may_stop :: "queue_text \<Rightarrow> run_id \<Rightarrow> ('h, 'x) world \<Rightarrow> ((string + stop_cause) \<times> ('h, 'x) world) option \<Rightarrow> bool" where
  "may_stop qt run w x \<longleftrightarrow> (\<forall>r w'. x = Some (r, w') \<longrightarrow> stops qt run w r w')"

abbreviation on_record :: "run_id \<Rightarrow> ('h, 'x) world \<Rightarrow> bool" where
  "on_record run w \<equiv> logged run [] (wo_sv w)"

lemma on_record_keeps: "wo_keeps qt run w w' \<Longrightarrow> on_record run w \<Longrightarrow> on_record run w'"
  by (rule wo_keepsD(2))

lemma stops_step: "wo_keeps qt run w w1 \<Longrightarrow> stops qt run w1 r w' \<Longrightarrow> stops qt run w r w'"
  using wo_keeps_trans by (auto simp: stops_def)

lemma stops_plain: "wo_keeps qt run w w' \<Longrightarrow> \<forall>res. r \<noteq> Inr (StoppedStore res) \<Longrightarrow> stops qt run w r w'"
  by (simp add: stops_def good_stop_def)

lemma may_stop_simps [simp]: "may_stop qt run w None" "may_stop qt run w (Some x) \<longleftrightarrow> stops qt run w (fst x) (snd x)"
  by (auto simp: may_stop_def split: prod.splits)

lemma may_stop_step: "wo_keeps qt run w w1 \<Longrightarrow> may_stop qt run w1 x \<Longrightarrow> may_stop qt run w x"
  using stops_step by (auto simp: may_stop_def)

lemma appends_stops: "appends qt run new r w w' \<Longrightarrow> on_record run w \<Longrightarrow> list_ex is_end_event new \<Longrightarrow> stops qt run w r w'"
  using appends_ends [of qt run new r w w' "[]"] by (simp add: stops_def) (simp add: appends_def)

lemma appends_refused: "appends qt run new r w w' \<Longrightarrow> on_record run w \<Longrightarrow> r \<noteq> Inr (StoppedStore Appended) \<Longrightarrow> stops qt run w r w'"
  by (auto simp: stops_def appends_def)

lemma cancelled_payload [simp]: "ev_payload (run_cancelled_event env spec) = RunCancelled"
  by (simp add: run_cancelled_event_def)

lemma host_keeps [simp]: "wo_keeps qt run w (w\<lparr>wo_host := h\<rparr>)" "wo_keeps qt run w (drop_own wk name w)" "wo_keeps qt run w (tick w)"
  by (simp_all add: drop_own_def)

lemma clean_box_keeps: "w_clean_box wk run' n w = (x, w') \<Longrightarrow> wo_keeps qt run w w'"
  by (auto simp: w_clean_box_def split: prod.splits sum.splits)

section \<open>Turns in the background\<close>

lemma w_append_stops:
  assumes "others_keep qt run (wk_calls wk)" and "on_record run w"
  shows "list_ex is_end_event new \<Longrightarrow> w_append wk run token seen new w = (r, w') \<Longrightarrow> stops qt run w r w'"
  using appends_stops [OF w_append_appends(1) [OF assms(1)] assms(2)] .

lemma end_box_stops:
  assumes rely: "others_keep qt (rs_run_id spec) (wk_calls wk)" and kn: "on_record (rs_run_id spec) w" and ends: "list_ex is_end_event ending"
    and e: "end_box wk spec attempt ending token w = (r, w')"
  shows "stops qt (rs_run_id spec) w r w'"
proof -
  obtain c w1 where c: "w_clean_box wk (rs_run_id spec) attempt w = (c, w1)" by fastforce
  obtain b w2 where b: "w_holds wk (rs_run_id spec) token w1 = (b, w2)" by fastforce
  note k1 = clean_box_keeps [OF c, of qt "rs_run_id spec"] and k2 = w_holds_keeps(1) [OF rely b]
  note k12 = wo_keeps_trans [OF k1 k2]
  consider (gone) m where "c = Inl m" | (lost) "c = Inr ()" "\<not> b" | (app) "c = Inr ()" b by (cases c) auto
  then show ?thesis
  proof cases
    case gone
    with e c k1 show ?thesis by (auto simp: end_box_def intro: stops_plain)
  next
    case lost
    with e c b k12 show ?thesis by (auto simp: end_box_def intro: stops_plain)
  next
    case app
    with e c b have "w_store_append wk (\<lambda>t. append_events t (rs_run_id spec) ending) w2 = (r, w')" by (simp add: end_box_def)
    from store_append_appends [OF rely this, of ending] have "appends qt (rs_run_id spec) ending r w2 w'"
      by (auto simp: append_events_def)
    from appends_stops [OF this on_record_keeps [OF k12 kn] ends] show ?thesis by (rule stops_step [OF k12])
  qed
qed

lemma end_turn_stops:
  assumes "others_keep qt (rs_run_id spec) (wk_calls wk)" and "on_record (rs_run_id spec) w" and "is_end_event ending"
  shows "end_turn wk spec seen attempt ending token w = (r, w') \<Longrightarrow> stops qt (rs_run_id spec) w r w'"
  using end_box_stops [OF assms(1,2), of "[ending]"] w_append_stops [OF assms(1,2), of "[ending]"] assms(3)
  by (auto simp: end_turn_def split: if_splits)

lemma run_box_turn_stops:
  assumes rely: "others_keep qt (rs_run_id spec) (wk_calls wk)" and kn: "on_record (rs_run_id spec) w"
  shows "may_stop qt (rs_run_id spec) w (run_box_turn wk spec attempt token w)"
proof -
  let ?run = "rs_run_id spec"
  let ?name = "box_attempt_name (en_txt (env_now wk w)) ?run attempt"
  obtain b1 w1 where b1: "w_holds wk ?run token w = (b1, w1)" by fastforce
  obtain p h where p: "sb_provision (wk_sandbox wk) ?name (wo_host w1) = (p, h)" by fastforce
  let ?w1 = "w1\<lparr>wo_host := h\<rparr>"
  obtain b2 w2 where b2: "w_holds wk ?run token ?w1 = (b2, w2)" by fastforce
  obtain st w3 where st: "w_stopped wk ?run w2 = (st, w3)" by fastforce
  obtain b4 w4 where b4: "w_holds wk ?run token (tick w3) = (b4, w4)" by fastforce
  have k1: "wo_keeps qt ?run w w1" using w_holds_keeps(1) [OF rely b1] .
  have k1h: "wo_keeps qt ?run w ?w1" using k1 by (rule wo_keeps_trans) simp
  have k2: "wo_keeps qt ?run w w2" using k1h w_holds_keeps(1) [OF rely b2] by (rule wo_keeps_trans)
  have k3: "wo_keeps qt ?run w w3" using k2 w_read_keeps(2) [OF rely st] by (blast intro: wo_keeps_trans)
  have k3t: "wo_keeps qt ?run w (tick w3)" using k3 by (rule wo_keeps_trans) simp
  have k4: "wo_keeps qt ?run w w4" using k3t w_holds_keeps(1) [OF rely b4] by (rule wo_keeps_trans)
  have ends: "may_stop qt ?run w (Some (end_box wk spec attempt ending token w'))" if "wo_keeps qt ?run w w'" "list_ex is_end_event ending" for w' ending
    using end_box_stops [OF rely on_record_keeps [OF that(1) kn] that(2)] stops_step [OF that(1)] by (auto simp: may_stop_def)
  have lost: "may_stop qt ?run w (Some (Inr LostLease, drop_own wk nm w'))" "may_stop qt ?run w (Some (Inr LostLease, w'))" if "wo_keeps qt ?run w w'" for w' nm
    using that wo_keeps_trans [OF that host_keeps(2)] by (auto intro: stops_plain)
  show ?thesis
    unfolding run_box_turn_def Let_def b1 p b2 st b4 prod.case
    using ends [OF k1h] ends [OF k3] ends [OF k4] completion_events_end lost(2) [OF k1] lost(1) [OF k2] lost(1) [OF k4]
    by (auto simp del: may_stop_simps(2) split: bool.split sum.split option.split)
qed

lemma finish_turn_grows: "finish_turn env complete sb spec events s h = (r, s', h') \<Longrightarrow> log_grows s s'"
  using append_checked_grows
  by (auto simp: finish_turn_def finish_provisioned_def record_completion_def end_failed_def append_events_def Let_def log_grows_same
      split: if_splits sum.splits prod.splits credential_source.splits append_result.splits)
    (metis snd_conv)+

lemma finish_turn_answers:
  assumes fin: "finish_turn env complete sb spec events s h = (r, s', h')" and gw: "wm_credential (rs_work_model spec) = PlatformGateway"
    and stored: "get_run (rs_run_id spec) s \<noteq> None"
  shows "(\<exists>out. r = Inr out) \<or> (\<exists>why. r = Inl (TurnConflict why)) \<Longrightarrow> run_ended (get_run (rs_run_id spec) s')" "r \<noteq> Inl TurnNotFound"
proof -
  have rec: "((\<exists>u. x = Inr u) \<or> (\<exists>why. x = Inl (TurnConflict why)) \<longrightarrow> run_ended (get_run (rs_run_id spec) s1)) \<and> x \<noteq> Inl TurnNotFound"
    if "record_completion env (rs_run_id spec) (completion_events env spec words) s = (x, s1)" for words x s1
  proof -
    obtain y s2 where y2: "append_checked (en_store_now env) (rs_run_id spec) None (completion_events env spec words) s = (y, s2)" by fastforce
    then have y: "append_checked (en_store_now env) (rs_run_id spec) None (completion_events env spec words) s = (y, s1)"
      and x: "x = (case y of Inl e \<Rightarrow> Inl (TurnStore (error_message e)) | Inr Appended \<Rightarrow> Inr ()
          | Inr AppendTerminal \<Rightarrow> Inl (TurnConflict ''turn already completed'') | Inr AppendMissing \<Rightarrow> Inl TurnNotFound
          | Inr AppendMoved \<Rightarrow> Inl (TurnStore ''the run log moved''))"
      using that by (auto simp: record_completion_def append_events_def split: sum.splits prod.splits append_result.splits)
    have grown: "get_run (rs_run_id spec) s1 \<noteq> None"
      using append_checked_grows [of s "en_store_now env" "rs_run_id spec" None "completion_events env spec words"] stored y
      by (auto simp: log_grows_def)
    have full: "run_ended (get_run (rs_run_id spec) s1)" if "y = Inr Appended"
      using append_checked_result(1) [OF y [unfolded that] refl] completion_events_end [of env spec words] by (auto simp: run_ended_def)
    show ?thesis
      using append_checked_result(2,3) [of "en_store_now env" "rs_run_id spec" None "completion_events env spec words" s _ s1] y grown full
      by (auto simp: x split: sum.split append_result.split)
  qed
  have shape: "(\<exists>e. r = Inl e \<and> e \<noteq> TurnNotFound \<and> (\<forall>why. e \<noteq> TurnConflict why))
     \<or> (\<exists>words e. record_completion env (rs_run_id spec) (completion_events env spec words) s = (Inl e, s') \<and> r = Inl e)
     \<or> (\<exists>words. record_completion env (rs_run_id spec) (completion_events env spec words) s = (Inr (), s') \<and> (\<exists>out. r = Inr out))"
    using fin gw
    by (auto simp: finish_turn_def finish_provisioned_def Let_def split: if_splits sum.splits prod.splits)
  then show "(\<exists>out. r = Inr out) \<or> (\<exists>why. r = Inl (TurnConflict why)) \<Longrightarrow> run_ended (get_run (rs_run_id spec) s')" "r \<noteq> Inl TurnNotFound"
    using rec by fastforce+
qed

lemma run_plain_turn_stops:
  assumes rely: "others_keep qt (rs_run_id spec) (wk_calls wk)" and kn: "on_record (rs_run_id spec) w"
    and gw: "wm_credential (rs_work_model spec) = PlatformGateway" and turn: "run_plain_turn wk spec events w = (r, w')"
  shows "stops qt (rs_run_id spec) w r w'"
proof -
  let ?run = "rs_run_id spec"
  let ?f = "\<lambda>n sv. case finish_turn (env_at wk n) (wk_poster wk n) (wk_sandbox wk) spec events (sv_store sv) (wo_host w) of
                              (r, s1, h1) \<Rightarrow> ((r, h1), sv\<lparr>sv_store := s1\<rparr>)"
  obtain xh w1 where xh: "wcall wk ?f w = (xh, w1)" by (rule prod.exhaust)
  obtain x h1 where "xh = (x, h1)" by (rule prod.exhaust)
  with xh have call: "wcall wk ?f w = ((x, h1), w1)" by (simp only:)
  let ?sv = "ca_others (wk_calls wk) (wo_n w) (wo_sv w)" and ?w2 = "w1\<lparr>wo_host := h1\<rparr>"
  have keep: "sv_keeps (qt_show qt ?run) sv (snd (?f n sv))" for n sv
  proof -
    obtain y s1 h2 where e: "finish_turn (env_at wk n) (wk_poster wk n) (wk_sandbox wk) spec events (sv_store sv) (wo_host w) = (y, s1, h2)"
      by (rule prod_cases3)
    show ?thesis using finish_turn_grows [OF e] by (simp add: sv_keeps_def e)
  qed
  have k1: "wo_keeps qt ?run w ?w2" using wcall_keeps(1) [OF rely call keep] by (rule wo_keeps_trans) simp
  obtain s1 where fin: "finish_turn (env_at wk (wo_n w)) (wk_poster wk (wo_n w)) (wk_sandbox wk) spec events (sv_store ?sv) (wo_host w) = (x, s1, h1)"
    and s1: "sv_store (wo_sv w1) = s1"
    using call by (auto simp: wcall_eq split: prod.splits dest: arg_cong [where f = sv_store])
  have "logged ?run [] ?sv" using rely grows_logged [OF _ kn] by (simp add: others_keep_def)
  then have stored: "get_run ?run (sv_store ?sv) \<noteq> None" by (auto simp: logged_def)
  note ans = finish_turn_answers [OF fin gw stored]
  obtain l w3 where rd: "w_run wk ?run ?w2 = (l, w3)" by fastforce
  note k3 = w_read_keeps(1) [OF rely rd]
  have k13: "wo_keeps qt ?run w w3" using k1 k3 wo_keeps_trans by blast
  show ?thesis
    using turn ans k1 k13 k3 s1
    by (auto simp: run_plain_turn_def Let_def call rd stops_def good_stop_def split: sum.splits turn_error.splits if_splits)
qed

lemma run_started_turn_stops:
  assumes rely: "others_keep qt (rs_run_id spec) (wk_calls wk)" and kn: "on_record (rs_run_id spec) w"
    and gw: "wm_credential (rs_work_model spec) = PlatformGateway"
  shows "may_stop qt (rs_run_id spec) w (run_started_turn wk spec events seen attempt token w)"
proof -
  let ?run = "rs_run_id spec"
  obtain st w1 where st: "w_stopped wk ?run w = (st, w1)" by fastforce
  obtain b w2 where b: "w_holds wk ?run token w1 = (b, w2)" by fastforce
  obtain l w3 where l: "w_run wk ?run w2 = (l, w3)" by fastforce
  have k1: "wo_keeps qt ?run w w1" using w_read_keeps(2) [OF rely st] by blast
  have k2: "wo_keeps qt ?run w w2" using k1 w_holds_keeps(1) [OF rely b] by (rule wo_keeps_trans)
  have k3: "wo_keeps qt ?run w w3" and l': "l = get_run ?run (sv_store (wo_sv w3))"
    using k2 w_read_keeps(1) [OF rely l] wo_keeps_trans by blast+
  note kn3 = on_record_keeps [OF k3 kn]
  have box: "may_stop qt ?run w (run_box_turn wk spec attempt token w3)"
    using run_box_turn_stops [OF rely kn3] by (rule may_stop_step [OF k3])
  have plain: "may_stop qt ?run w (Some (run_plain_turn wk spec events w3))"
    using run_plain_turn_stops [OF rely kn3 gw] stops_step [OF k3] by (auto simp: may_stop_def)
  have cancel: "may_stop qt ?run w (Some (end_turn wk spec seen attempt (run_cancelled_event env spec) token w1))" for env
    using end_turn_stops [OF rely on_record_keeps [OF k1 kn], of "run_cancelled_event env spec"] stops_step [OF k1] by (auto simp: may_stop_def)
  have lost: "may_stop qt ?run w (Some (Inr LostLease, w2))" using k2 by (auto intro: stops_plain)
  have ended: "may_stop qt ?run w (Some (Inr (StoppedStore res), w3))" if "run_ended l" for res
    using k3 that l' by (simp add: stops_def good_stop_def)
  have "l \<noteq> None" using kn3 l' by (auto simp: logged_def)
  then show ?thesis
    unfolding run_started_turn_def Let_def st b l prod.case
    using box plain cancel lost ended
    by (auto simp: run_ended_def simp del: may_stop_simps(2) split: bool.split sum.split option.split)
qed

lemma run_turn_stops:
  assumes rely: "others_keep qt (rs_run_id spec) (wk_calls wk)" and kn: "on_record (rs_run_id spec) w"
  shows "may_stop qt (rs_run_id spec) w (run_turn wk spec events seen attempt token w)"
proof -
  let ?run = "rs_run_id spec" and ?begun = "[system_event (env_now wk w) spec RunStarted]"
  obtain a w1 where a: "w_append wk ?run token seen ?begun w = (a, w1)" by fastforce
  note ap = w_append_appends(1) [OF rely a]
  have k1: "wo_keeps qt ?run w w1" using ap by (simp add: appends_def)
  have refused: "may_stop qt ?run w (Some (a, w1))" if "a \<noteq> Inr (StoppedStore Appended)"
    using appends_refused [OF ap kn that] by simp
  have failed: "may_stop qt ?run w (Some (end_turn wk spec seen attempt (run_failed_event env spec cls m) token w))" for env cls m
    using end_turn_stops [OF rely kn, of "run_failed_event env spec cls m"] by (auto simp: may_stop_def)
  have started: "may_stop qt ?run w (run_started_turn wk spec (events @ ?begun) (seen + length ?begun) attempt token w1)"
    "may_stop qt ?run w (run_started_turn wk spec events seen attempt token w)" if "wm_credential (rs_work_model spec) = PlatformGateway"
    using run_started_turn_stops [OF rely on_record_keeps [OF k1 kn] that] run_started_turn_stops [OF rely kn that] may_stop_step [OF k1] by blast+
  show ?thesis
  proof (cases "a = Inr (StoppedStore Appended)")
    case True
    with failed started show ?thesis by (simp add: run_turn_def a Let_def del: may_stop_simps(2))
  next
    case False
    then have "(case (a, w1) of (Inr (StoppedStore Appended), w1) \<Rightarrow> f w1 | (refused, w1) \<Rightarrow> Some (refused, w1)) = Some (a, w1)" for f
      by (auto split: sum.split stop_cause.split append_result.split)
    with failed started refused [OF False] show ?thesis by (simp add: run_turn_def a Let_def del: may_stop_simps(2))
  qed
qed

section \<open>The harness in the background\<close>

lemma store_tail_stops:
  assumes run: "running qt wk spec w0 (d, w)"
    and out: "log_ended d \<or> (\<exists>st at m. harness (driver_state d) = HWaitingForMessage st at m) \<or> (\<exists>e. result = Inl e)"
    and tail: "store_tail wk spec token result d w = (r, w')"
  shows "stops qt (rs_run_id spec) w r w'"
proof -
  let ?run = "rs_run_id spec" and ?tail = "drop (wo_seen w) (dv_events d) @ decider_tail wk spec result w"
  have rely: "others_keep qt ?run (wk_calls wk)" and seen: "wo_seen w \<le> length (dv_events d)"
    and log: "logged ?run (take (wo_seen w) (dv_events d)) (wo_sv w)" using run by (simp_all add: running_def)
  have kn: "on_record ?run w" using logged_prefix [of ?run "[]"] log by simp
  obtain a w1 where a: "(if ?tail = [] then (Inr (StoppedStore Appended), w) else w_append wk ?run token (wo_seen w) ?tail w) = (a, w1)" by (rule prod.exhaust)
  have k: "wo_keeps qt ?run w w1"
    using a w_append_appends(1) [OF rely, of token "wo_seen w" ?tail w a w1] by (auto simp: appends_def split: if_splits)
  have full: "logged ?run (dv_events d @ decider_tail wk spec result w) (wo_sv w1)" if "a = Inr (StoppedStore Appended)"
  proof (cases "?tail = []")
    case True
    then show ?thesis using a log seen by auto
  next
    case False
    with a have "w_append wk ?run token (wo_seen w) ?tail w = (a, w1)" by (simp only: if_False)
    from w_append_appends(2) [OF rely this that log] seen show ?thesis
      by (simp flip: append_assoc)
  qed
  have ends: "list_ex is_end_event (dv_events d @ decider_tail wk spec result w)"
    if "\<forall>st at m. harness (driver_state d) \<noteq> HWaitingForMessage st at m"
    using out that by (auto simp: log_ended_def decider_tail_def split: decider_error.splits)
  have other: "good_stop ?run a w1" if "a \<noteq> Inr (StoppedStore Appended)"
  proof -
    from a that have "w_append wk ?run token (wo_seen w) ?tail w = (a, w1)" by (auto split: if_splits)
    from w_append_appends(1) [OF rely this] log that show ?thesis by (auto simp: appends_def)
  qed
  show ?thesis
  proof (cases "a = Inr (StoppedStore Appended)")
    case True
    have "r = Inr (StoppedStore Appended) \<and> (\<forall>st at m. harness (driver_state d) \<noteq> HWaitingForMessage st at m) \<or> (\<exists>m. r = Inr (StoppedWaiting m))" "w' = w1"
      using tail a True by (auto simp: store_tail_def Let_def split: harness_state.splits)
    with full [OF True] ends logged_ended k show ?thesis by (auto simp: stops_def good_stop_def)
  next
    case False
    then have "r = a" "w' = w1"
      using tail a by (auto simp: store_tail_def Let_def split: sum.splits stop_cause.splits append_result.splits)
    with other [OF False] k show ?thesis by (simp add: stops_def)
  qed
qed

lemma drive_stops:
  assumes rely: "others_keep qt (rs_run_id spec) (wk_calls wk)" and d: "dv_spec d = spec" "closed_log spec (dv_events d)" "dv_events d = events @ evs"
      "dv_spawner d \<in> {None, Some (worker_spawner wk)}" "dv_deliverer d \<in> {None, Some (worker_deliverer wk)}"
    and log: "logged (rs_run_id spec) events (wo_sv w)"
  shows "may_stop qt (rs_run_id spec) w (drive wk spec token (length events) tools d w)"
proof -
  let ?w0 = "w\<lparr>wo_mem := run_memory_new (rm_shared (wo_mem w)), wo_seen := length events, wo_refused := None, wo_stuck := False\<rparr>"
  have "running qt wk spec ?w0 (d, ?w0)" using assms by (simp add: running_def)
  from run_until_worker [OF this, of tools token] obtain res d1 w1
    where ru: "run_until (worker_io wk spec tools) (at_boundary wk (rs_run_id spec) token) (d, ?w0) = Some (res, (d1, w1))"
      and r1: "running qt wk spec ?w0 (d1, w1)"
      and out: "\<not> wo_stuck w1 \<longrightarrow> wo_refused w1 = None \<longrightarrow> log_ended d1 \<or> (\<exists>st at m. harness (driver_state d1) = HWaitingForMessage st at m) \<or> (\<exists>e. res = Inl e)"
    by (elim exE conjE)
  have "wo_keeps qt (rs_run_id spec) ?w0 w1" using r1 by (simp add: running_def)
  then have k: "wo_keeps qt (rs_run_id spec) w w1" by (simp add: wo_keeps_def)
  have refused: "may_stop qt (rs_run_id spec) w (Some (r, w1))" if "wo_refused w1 = Some r" for r
    using r1 that k by (simp add: running_def stops_def)
  have tail: "may_stop qt (rs_run_id spec) w (Some (store_tail wk spec token res d1 w1))" if "\<not> wo_stuck w1" "wo_refused w1 = None"
    using store_tail_stops [OF r1] out that stops_step [OF k] by (auto simp: may_stop_def)
  show ?thesis
    unfolding drive_def Let_def ru using refused tail by (auto simp del: may_stop_simps(2) split: option.split)
qed

lemma delegation_keeps:
  "others_keep qt run (wk_calls wk) \<Longrightarrow> delegation wk spec w = (t, w') \<Longrightarrow> wo_keeps qt run w w'"
  using wcall_keeps(1) [of qt run wk "\<lambda>n sv. (agents_of (rs_owner spec) (sv_store sv), sv)" w]
  by (auto simp: delegation_def split: if_splits prod.splits)

lemma load_tools_keeps:
  assumes "others_keep qt run (wk_calls wk)" and "load_tools wk spec w = (t, w')"
  shows "wo_keeps qt run w w'"
proof -
  obtain f w1 where f: "wcall wk (\<lambda>n sv. (get_agent (rs_agent_id spec) (sv_store sv), sv)) w = (f, w1)" by (rule prod.exhaust)
  have "wo_keeps qt run w w1" by (rule wcall_keeps(1) [OF assms(1) f]) simp
  moreover have "w' = w \<or> w' = w1" using assms(2) f by (auto simp: load_tools_def Let_def split: if_splits option.splits)
  ultimately show ?thesis by auto
qed

lemma equip_simps [simp]:
  "dv_spec (equip wk ts d) = dv_spec d" "dv_events (equip wk ts d) = dv_events d" "dv_spawner (equip wk ts d) = Some (worker_spawner wk)"
  "dv_deliverer (equip wk ts d) = (if wk_messages wk then Some (worker_deliverer wk) else dv_deliverer d)"
  by (simp_all add: equip_def with_user_questions_def with_spawner_def with_deliverer_def Let_def)

lemma run_driver_stops:
  assumes rely: "others_keep qt (rs_run_id spec) (wk_calls wk)" and log: "logged (rs_run_id spec) events (wo_sv w)"
  shows "may_stop qt (rs_run_id spec) w (run_driver wk spec events (length events) token w)"
proof -
  let ?run = "rs_run_id spec"
  obtain x w1 where rs: "resume (worker_io wk spec []) spec events w = (x, w1)" by (rule prod.exhaust)
  note res = resume_worker [OF rs]
  have k1: "wo_keeps qt ?run w w1" using res(1) by simp
  have app: "may_stop qt ?run w (Some (w_append wk ?run token seen new w'))" if "wo_keeps qt ?run w w'" "list_ex is_end_event new" for seen new w'
  proof -
    have "on_record ?run w'" using that(1) log logged_prefix [of ?run "[]"] wo_keepsD(2) by fastforce
    from w_append_stops [OF rely this that(2)] show ?thesis using stops_step [OF that(1)] by (auto simp: may_stop_def)
  qed
  show ?thesis
  proof (cases x)
    case (Inl e)
    with rs app [OF k1] show ?thesis by (simp add: run_driver_def Let_def del: may_stop_simps(2))
  next
    case (Inr d)
    note d = res(2) [OF Inr]
    obtain evs where evs: "dv_events d = events @ evs" using d by blast
    obtain b w2 where b: "w_holds wk ?run token w1 = (b, w2)" by (rule prod.exhaust)
    obtain ts w3 where ts: "delegation wk spec w2 = (ts, w3)" by (rule prod.exhaust)
    obtain tl w4 where tl: "load_tools wk spec w3 = (tl, w4)" by (rule prod.exhaust)
    have k2: "wo_keeps qt ?run w w2" using k1 w_holds_keeps(1) [OF rely b] by (rule wo_keeps_trans)
    have k3: "wo_keeps qt ?run w w3" using k2 delegation_keeps [OF rely ts] by (rule wo_keeps_trans)
    have k4: "wo_keeps qt ?run w w4" using k3 load_tools_keeps [OF rely tl] by (rule wo_keeps_trans)
    have "may_stop qt ?run w4 (drive wk spec token (length events) tools (equip wk ts d) w4)" for tools
      using d evs wo_keepsD(2) [OF k4 log] by (intro drive_stops [OF rely]) simp_all
    note go = may_stop_step [OF k4 this]
    have lost: "may_stop qt ?run w (Some (Inr LostLease, w2))" "may_stop qt ?run w (Some (Inl e, w4))" for e
      using k2 k4 by (auto intro: stops_plain)
    show ?thesis
      unfolding run_driver_def Let_def rs Inr b ts tl prod.case sum.case
      using app [OF k3] go lost by (auto simp del: may_stop_simps(2) split: bool.split sum.split)
  qed
qed

lemma run_scheduled_stops:
  assumes rely: "others_keep qt (rs_run_id spec) (wk_calls wk)" and log: "logged (rs_run_id spec) events (wo_sv w)"
  shows "may_stop qt (rs_run_id spec) w (run_scheduled wk spec events (length events) token attempt w)"
proof -
  have "on_record (rs_run_id spec) w" using log logged_prefix [of "rs_run_id spec" "[]"] by simp
  with run_turn_stops [OF rely] run_driver_stops [OF rely log] show ?thesis by (simp add: run_scheduled_def)
qed

lemma run_from_stops:
  assumes rely: "others_keep qt (rs_run_id spec) (wk_calls wk)" and log: "logged (rs_run_id spec) events (wo_sv w)"
  shows "may_stop qt (rs_run_id spec) w (run_from wk spec events token attempt w)"
proof (cases "list_ex is_end_event events")
  case True
  then show ?thesis using logged_ended [OF log] by (simp add: run_from_def stops_def good_stop_def)
next
  case False
  let ?run = "rs_run_id spec"
  have kn: "on_record ?run w" using log logged_prefix [of ?run "[]"] by simp
  obtain st w1 where st: "w_stopped wk ?run w = (st, w1)" by (rule prod.exhaust)
  let ?ladder = "dispatch_events (env_now wk w1) spec"
  obtain a w2 where a: "w_append wk ?run token (length events) ?ladder w1 = (a, w2)" by (rule prod.exhaust)
  have k1: "wo_keeps qt ?run w w1" using w_read_keeps(2) [OF rely st] by blast
  note log1 = wo_keepsD(2) [OF k1 log] and kn1 = on_record_keeps [OF k1 kn]
  note ap = w_append_appends(1) [OF rely a]
  have k2: "wo_keeps qt ?run w w2" using k1 ap by (auto simp: appends_def intro: wo_keeps_trans)
  have cancel: "may_stop qt ?run w (Some (end_turn wk spec seen attempt (run_cancelled_event env spec) token w1))" for env seen
    using end_turn_stops [OF rely kn1, of "run_cancelled_event env spec"] stops_step [OF k1] by (auto simp: may_stop_def)
  have plain: "may_stop qt ?run w (run_scheduled wk spec events (length events) token attempt w1)"
    using run_scheduled_stops [OF rely log1] by (rule may_stop_step [OF k1])
  have step: "may_stop qt ?run w (case (a, w2) of
      (Inr (StoppedStore Appended), w2) \<Rightarrow> run_scheduled wk spec (events @ ?ladder) (length events + length ?ladder) token attempt w2
    | (refused, w2) \<Rightarrow> Some (refused, w2))"
  proof (cases "a = Inr (StoppedStore Appended)")
    case True
    have "logged ?run (events @ ?ladder) (wo_sv w2)" by (rule w_append_appends(2) [OF rely a True log1 refl])
    from run_scheduled_stops [OF rely this, of token attempt] True show ?thesis using may_stop_step [OF k2] by simp
  next
    case False
    have "may_stop qt ?run w (Some (a, w2))" using stops_step [OF k1 appends_refused [OF ap kn1 False]] by simp
    with False show ?thesis by (auto simp del: may_stop_simps(2) split: sum.split stop_cause.split append_result.split)
  qed
  show ?thesis
    unfolding run_from_def Let_def st a using False cancel plain step
    by (simp add: a del: may_stop_simps(2) split: option.split bool.split)
qed

section \<open>The outcome of a claim\<close>

definition good_outcome :: "run_id \<Rightarrow> string + outcome_of_run \<Rightarrow> ('h, 'x) world \<Rightarrow> bool" where
  "good_outcome run r w \<longleftrightarrow> (\<forall>res. r = Inr (OutcomeStored res) \<longrightarrow> res \<noteq> AppendMoved \<longrightarrow> run_ended (get_run run (sv_store (wo_sv w))))"

lemma store_from_outcome:
  assumes rely: "others_keep qt (rs_run_id spec) (wk_calls wk)" and log: "logged (rs_run_id spec) events (wo_sv w)"
    and sf: "store_from wk spec token attempt left events w = Some (r, w')"
  shows "wo_keeps qt (rs_run_id spec) w w' \<and> good_outcome (rs_run_id spec) r w'"
  using log sf
proof (induction left arbitrary: events w)
  case 0
  then obtain x w1 where rf: "run_from wk spec events token attempt w = Some (x, w1)"
    by (subst (asm) store_from.simps) (auto split: option.splits)
  have "stops qt (rs_run_id spec) w x w1" using run_from_stops [OF rely 0(1), of token attempt] rf by simp
  with 0(2) show ?case
    by (subst (asm) store_from.simps) (auto simp: rf stops_def good_stop_def good_outcome_def split: sum.splits stop_cause.splits if_splits)
next
  case (Suc n)
  then obtain x w1 where rf: "run_from wk spec events token attempt w = Some (x, w1)"
    by (subst (asm) store_from.simps) (auto split: option.splits)
  have st: "stops qt (rs_run_id spec) w x w1" using run_from_stops [OF rely Suc.prems(1), of token attempt] rf by simp
  obtain l w2 where l: "w_run wk (rs_run_id spec) w1 = (l, w2)" by (rule prod.exhaust)
  have k2: "wo_keeps qt (rs_run_id spec) w w2" and l': "l = get_run (rs_run_id spec) (sv_store (wo_sv w2))"
    using w_read_keeps(1) [OF rely l] st wo_keeps_trans by (auto simp: stops_def)
  have "logged (rs_run_id spec) events (wo_sv w2)" by (rule wo_keepsD(2) [OF k2 Suc.prems(1)])
  then obtain stored where l'': "l = Some stored" by (auto simp: l' logged_def)
  have log2: "logged (rs_run_id spec) (sr_events stored) (wo_sv w2)" using l' [symmetric] l'' by (simp add: logged_def)
  note next_try = Suc.IH [OF log2] 
  show ?case
    using Suc.prems(2) st next_try wo_keeps_trans [OF k2]
    by (subst (asm) store_from.simps)
      (auto simp: rf l l'' stops_def good_stop_def good_outcome_def split: sum.splits stop_cause.splits if_splits)
qed

lemma answer_task_ask_keeps:
  assumes rely: "others_keep qt run (wk_calls wk)"
  shows "wo_keeps qt run w (answer_task_ask wk spec w)"
proof -
  obtain m w1 where m: "wcall wk (\<lambda>n sv. (ask_of_task (rs_run_id spec) (sv_store sv), sv)) w = (m, w1)" by (rule prod.exhaust)
  obtain l w2 where l: "w_run wk (rs_run_id spec) w1 = (l, w2)" by (rule prod.exhaust)
  have k1: "wo_keeps qt run w w1" by (rule wcall_keeps(1) [OF rely m]) simp
  have k2: "wo_keeps qt run w w2" using k1 w_read_keeps(1) [OF rely l] wo_keeps_trans by blast
  have k3: "wo_keeps qt run w (snd (wcall wk (\<lambda>n. deliver (env_at wk n) to mid payload UnsentLeave) w2))" for to mid payload
  proof -
    obtain x w3 where x: "wcall wk (\<lambda>n. deliver (env_at wk n) to mid payload UnsentLeave) w2 = (x, w3)" by (rule prod.exhaust)
    have "wo_keeps qt run w2 w3" by (rule wcall_keeps(1) [OF rely x]) (rule deliver_keeps)
    then show ?thesis using wo_keeps_trans [OF k2] by (simp add: x)
  qed
  show ?thesis
    using k1 k2 k3 by (auto simp: answer_task_ask_def m l split: option.split)
qed

lemma execute_outcome:
  assumes rely: "others_keep qt (rs_run_id (sr_spec stored)) (wk_calls wk)" and log: "logged (rs_run_id (sr_spec stored)) (sr_events stored) (wo_sv w)"
    and ex: "execute wk stored token attempt w = Some (r, w')"
  shows "wo_keeps qt (rs_run_id (sr_spec stored)) w w' \<and> good_outcome (rs_run_id (sr_spec stored)) r w'"
proof -
  let ?run = "rs_run_id (sr_spec stored)"
  from ex obtain w1 where sf: "store_from wk (sr_spec stored) token attempt RELOADS (sr_events stored) w = Some (r, w1)"
    and w': "w' = (if r = Inr (OutcomeStored Appended) then answer_task_ask wk (sr_spec stored) w1 else w1)"
    by (auto simp: execute_def store_as_it_goes_def split: option.splits)
  note o1 = store_from_outcome [OF rely log sf]
  have k: "wo_keeps qt ?run w1 w'" using answer_task_ask_keeps [OF rely, of w1 "sr_spec stored"] by (simp add: w')
  show ?thesis using o1 wo_keeps_trans [OF _ k] wo_keepsD(3) [OF k] by (auto simp: good_outcome_def)
qed

definition good_finding :: "run_id \<Rightarrow> finding \<Rightarrow> ('h, 'x) world \<Rightarrow> bool" where
  "good_finding run found w \<longleftrightarrow> (\<forall>res. found = Recorded res \<longrightarrow> res \<noteq> Some AppendMoved \<longrightarrow> run_ended (get_run run (sv_store (wo_sv w))))"

lemma record_failed_found:
  assumes rely: "others_keep qt run (wk_calls wk)" and kn: "on_record run w" and ends: "is_end_event failed"
    and rec: "record_failed wk run failed w = (x, w')"
  shows "wo_keeps qt run w w' \<and> (\<forall>found. x = Inr found \<longrightarrow> good_finding run found w')"
proof -
  obtain r where app: "w_store_append wk (\<lambda>t. append_events t run [failed]) w = (r, w')"
    and x: "(\<exists>e. r = Inl e \<and> x = Inl e) \<or> (\<exists>res. r = Inr (StoppedStore res) \<and> x = Inr (Recorded (Some res)))"
    using rec by (auto simp: record_failed_def w_store_append_def split: prod.splits sum.splits)
  have "stops qt run w r w'"
    by (rule appends_stops [OF store_append_appends [OF rely app] kn]) (use ends in \<open>auto simp: append_events_def\<close>)
  with x show ?thesis
    by (auto simp: stops_def good_stop_def good_finding_def)
qed

lemma give_up_found:
  assumes rely: "others_keep qt run (wk_calls wk)" and kn: "on_record run w" and g: "give_up wk run token stored tries w = (x, w')"
  shows "wo_keeps qt run w w' \<and> (\<forall>found. x = Inr found \<longrightarrow> good_finding run found w')"
proof -
  obtain c w1 where c: "w_clean_box wk run (min tries (qm_max_deliveries (wk_timing wk))) w = (c, w1)" by (rule prod.exhaust)
  obtain b w2 where b: "w_holds wk run token w1 = (b, w2)" by (rule prod.exhaust)
  have k1: "wo_keeps qt run w w1" using clean_box_keeps [OF c] .
  have k2: "wo_keeps qt run w w2" using k1 w_holds_keeps(1) [OF rely b] by (rule wo_keeps_trans)
  have rec: "wo_keeps qt run w w' \<and> (\<forall>found. x = Inr found \<longrightarrow> good_finding run found w')"
    if "wo_keeps qt run w v" "record_failed wk run (run_failed_event env spec cls m) v = (x, w')" for v env spec cls m
    using record_failed_found [OF rely on_record_keeps [OF that(1) kn] _ that(2)] wo_keeps_trans [OF that(1)] by auto
  show ?thesis
    using g rec [of w] rec [OF k2] k1 k2
    by (auto simp: give_up_def Let_def c b good_finding_def split: if_splits sum.splits bool.splits)
qed

lemma prepare_found:
  assumes rely: "others_keep qt run (wk_calls wk)" and stored: "get_run run (sv_store (wo_sv w)) = Some kept" "rs_run_id (sr_spec kept) = run"
    and p: "prepare wk run token w = (x, w')"
  shows "wo_keeps qt run w w'" "x = Inr (PreparedDone found) \<Longrightarrow> good_finding run found w'"
    "x = Inr (PreparedOpen st n) \<Longrightarrow> rs_run_id (sr_spec st) = run \<and> logged run (sr_events st) (wo_sv w')"
proof -
  have kn: "on_record run w" using stored by (simp add: logged_def)
  obtain l w1 where l: "w_run wk run w = (l, w1)" by (rule prod.exhaust)
  obtain t w2 where t: "wcall wk (\<lambda>n. on_redis (start_run (en_txt (env_at wk n)) (ca_fate (wk_calls wk) n) run)) w1 = (t, w2)" by (rule prod.exhaust)
  obtain y w3 where y: "w_release wk run token w2 = (y, w3)" by (rule prod.exhaust)
  have k1: "wo_keeps qt run w w1" and l': "l = get_run run (sv_store (wo_sv w1))" using w_read_keeps(1) [OF rely l] by blast+
  have k12: "wo_keeps qt run w1 w2" by (rule wcall_keeps(1) [OF rely t]) (rule on_redis_keeps)
  have k2: "wo_keeps qt run w w2" using k1 k12 by (rule wo_keeps_trans)
  have k3: "wo_keeps qt run w w3"
    using wo_keeps_trans [OF k2 wcall_keeps(1) [OF rely y [unfolded w_release_def] on_redis_keeps(9)]] .
  have "log_grows (sv_store (wo_sv w)) (sv_store (wo_sv w1))" using k1 by (simp add: wo_keeps_def)
  then obtain st1 where st1: "l = Some st1" "rs_run_id (sr_spec st1) = run"
    using stored l' by (fastforce simp: log_grows_def)
  have log2: "logged run (sr_events st1) (wo_sv w2)"
    using wo_keepsD(2) [OF k12] l' [symmetric] st1(1) by (simp add: logged_def)
  have ended: "good_finding run f w1" if "list_ex is_end_event (sr_events st1)" for f
    using that l' [symmetric] st1(1) by (simp add: good_finding_def run_ended_def)
  have gave: "wo_keeps qt run w v \<and> (\<forall>found. z = Inr found \<longrightarrow> good_finding run found v)" if "give_up wk run token st1 n w2 = (z, v)" for n z v
    using give_up_found [OF rely on_record_keeps [OF k2 kn] that] wo_keeps_trans [OF k2] by blast
  show "wo_keeps qt run w w'" "x = Inr (PreparedDone found) \<Longrightarrow> good_finding run found w'"
    "x = Inr (PreparedOpen st n) \<Longrightarrow> rs_run_id (sr_spec st) = run \<and> logged run (sr_events st) (wo_sv w')"
    using p k1 k2 k3 ended gave log2 st1
    by (auto simp: prepare_def l t y split: if_splits sum.splits prod.splits)
qed

lemma ack_waiting_keeps:
  assumes rely: "others_keep qt run (wk_calls wk)" and a: "ack_waiting wk run token m w = Some (r, w')"
  shows "wo_keeps qt run w w'"
proof -
  obtain p w1 where p: "wcall wk (\<lambda>n. on_redis (park (en_txt (env_at wk n)) (ca_fate (wk_calls wk) n) (en_redis_now (env_at wk n)) run token m)) w = (p, w1)"
    by (rule prod.exhaust)
  obtain l w2 where l: "w_run wk run w1 = (l, w2)" by (rule prod.exhaust)
  obtain st w3 where st: "w_stopped wk run w2 = (st, w3)" by (rule prod.exhaust)
  have k1: "wo_keeps qt run w w1" by (rule wcall_keeps(1) [OF rely p]) (rule on_redis_keeps)
  have k2: "wo_keeps qt run w w2" using k1 w_read_keeps(1) [OF rely l] wo_keeps_trans by blast
  have k3: "wo_keeps qt run w w3" using k2 w_read_keeps(2) [OF rely st] wo_keeps_trans by blast
  have woke: "wo_keeps qt run w v'" if "wo_keeps qt run w v"
      "wcall wk (\<lambda>n. on_redis (wake (en_txt (env_at wk n)) (ca_fate (wk_calls wk) n) run m)) v = (x, v')" for v x v'
    using wo_keeps_trans [OF that(1) wcall_keeps(1) [OF rely that(2) on_redis_keeps(5)]] .
  show ?thesis
    using a k1 k2 k3 woke [OF k2] woke [OF k3]
    by (auto simp: ack_waiting_def Let_def p l st split: if_splits sum.splits bool.splits option.splits prod.splits)
qed

text \<open>What acknowledging leaves: the run in hand, when what was found warrants it.\<close>

lemma ack_found_keeps:
  assumes rely: "others_keep qt run (wk_calls wk)" and good: "good_finding run found w" and a: "ack_found wk run token found w = Some (r, w')"
  shows "(in_hand qt run (wo_sv w) \<longrightarrow> in_hand qt run (wo_sv w')) \<and> log_grows (sv_store (wo_sv w)) (sv_store (wo_sv w'))"
proof (cases "\<exists>res. found = Recorded res \<and> res \<noteq> Some AppendMoved")
  case True
  then have call: "wcall wk (\<lambda>n. on_redis (ack (en_txt (env_at wk n)) (ca_fate (wk_calls wk) n) (en_redis_now (env_at wk n)) run token)) w = (r, w')"
    using a by (auto simp: ack_found_def)
  let ?sv = "ca_others (wk_calls wk) (wo_n w) (wo_sv w)"
  have "sv_store (wo_sv w') = sv_store ?sv" using call by (auto simp: wcall_eq on_redis_def split: prod.splits dest: arg_cong [where f = sv_store])
  moreover have "log_grows (sv_store (wo_sv w)) (sv_store ?sv)" using rely by (simp add: others_keep_def)
  moreover have "run_ended (get_run run (sv_store (wo_sv w)))" using good True by (auto simp: good_finding_def)
  ultimately show ?thesis using grows_ended by (simp add: in_hand_def)
next
  case False
  have "wo_keeps qt run w w'"
  proof (cases found)
    case (Recorded res)
    with False a have "w_release wk run token w = (r, w')" by (simp add: ack_found_def)
    from wcall_keeps(1) [OF rely this [unfolded w_release_def] on_redis_keeps(9)] show ?thesis .
  next
    case (WaitsOn m)
    with a ack_waiting_keeps [OF rely] show ?thesis by (simp add: ack_found_def)
  qed
  then show ?thesis by (simp add: wo_keeps_def)
qed

lemma record_outcome_found:
  "record_outcome r = Inr found \<Longrightarrow> good_outcome run r w \<Longrightarrow> good_finding run found w"
  by (auto simp: record_outcome_def good_outcome_def good_finding_def split: sum.splits outcome_of_run.splits)

text \<open>C32. A worker never loses a run: whatever it does with a claim, and whatever fails on the way, a
  stored run whose entry was queued, claimed or parked is so still or has ended, and no stored log
  lost an event. The others may change the server between its calls, as long as they do the same.\<close>

theorem work_claim_never_loses:
  assumes rely: "others_keep qt run (wk_calls wk)" and stored: "get_run run (sv_store (wo_sv w)) = Some kept" "rs_run_id (sr_spec kept) = run"
    and hand: "held (qt_show qt run) (sv_redis (wo_sv w))" and work: "work_claim wk run token w = Some (r, w')"
  shows "(held (qt_show qt run) (sv_redis (wo_sv w')) \<or> run_ended (get_run run (sv_store (wo_sv w'))))
     \<and> log_grows (sv_store (wo_sv w)) (sv_store (wo_sv w'))"
proof -
  obtain x w1 where p: "prepare wk run token w = (x, w1)" by (rule prod.exhaust)
  note prep = prepare_found [OF rely stored p]
  have acked: "wo_keeps qt run w v \<Longrightarrow> good_finding run found v \<Longrightarrow> ack_found wk run token found v = Some (r, w')
      \<Longrightarrow> (in_hand qt run (wo_sv w) \<longrightarrow> in_hand qt run (wo_sv w')) \<and> log_grows (sv_store (wo_sv w)) (sv_store (wo_sv w'))" for v found
    using ack_found_keeps [OF rely, of found v token r w'] log_grows_trans by (auto simp: wo_keeps_def)
  have "(in_hand qt run (wo_sv w) \<longrightarrow> in_hand qt run (wo_sv w')) \<and> log_grows (sv_store (wo_sv w)) (sv_store (wo_sv w'))"
  proof (cases x)
    case (Inl e)
    with work p prep(1) show ?thesis by (simp add: work_claim_def wo_keeps_def)
  next
    case (Inr y)
    show ?thesis
    proof (cases y)
      case (PreparedDone found)
      with work p Inr acked [OF prep(1) prep(2)] show ?thesis by (simp add: work_claim_def)
    next
      case (PreparedOpen st n)
      note open_st = prep(3) [OF Inr [unfolded PreparedOpen]]
      from work p Inr PreparedOpen obtain o2 w2 where ex: "execute wk st token n w1 = Some (o2, w2)"
        and fin: "(case record_outcome o2 of Inl e \<Rightarrow> Some (Inl e, w2) | Inr found \<Rightarrow> ack_found wk run token found w2) = Some (r, w')"
        by (auto simp: work_claim_def split: option.splits)
      have "wo_keeps qt run w1 w2 \<and> good_outcome run o2 w2"
        using execute_outcome [of qt st wk w1 token n o2 w2] rely open_st ex by simp
      then have k2: "wo_keeps qt run w w2" and out: "good_outcome run o2 w2" using wo_keeps_trans [OF prep(1)] by blast+
      show ?thesis
        using fin acked [OF k2] record_outcome_found [OF _ out] k2 by (auto simp: wo_keeps_def split: sum.splits)
    qed
  qed
  with hand show ?thesis by (auto simp: in_hand_def)
qed

section \<open>The sandboxes of a Box turn\<close>

lemma w_holds_host: "w_holds wk run token w = (b, w') \<Longrightarrow> wo_host w' = wo_host w"
  by (auto simp: w_holds_def w_renew_def wcall_def split: prod.splits)

lemma w_store_append_host: "w_store_append wk f w = (r, w') \<Longrightarrow> wo_host w' = wo_host w"
  by (auto simp: w_store_append_def wcall_def split: prod.splits sum.splits)

context sandbox_host
begin

lemma clean_attempts_shrinks: "live (snd (clean_attempts qt sb run ks h)) \<subseteq> live h"
proof (induction ks arbitrary: h)
  case (Cons k ks)
  let ?name = "box_attempt_name qt run (of_nat k)"
  obtain g h1 where a: "sb_absent sb ?name h = (g, h1)" by (rule prod.exhaust)
  obtain x h2 where d: "sb_destroy sb ?name h1 = (x, h2)" by (rule prod.exhaust)
  obtain g' h3 where b: "sb_absent sb ?name h2 = (g', h3)" by (rule prod.exhaust)
  have "live h1 = live h" "live h2 \<subseteq> live h1" "live h3 = live h2"
    using absent_same [of ?name h] destroy_only [of ?name h1] absent_same [of ?name h2] a b d by simp_all
  with Cons.IH [of h1] Cons.IH [of h3] show ?case by (auto simp: Let_def a b d split: sum.split)
qed simp

lemma clean_attempts_gone:
  "clean_attempts qt sb run ks h = (Inr (), h') \<Longrightarrow> k \<in> set ks \<Longrightarrow> box_attempt_name qt run (of_nat k) \<notin> live h'"
proof (induction ks arbitrary: h)
  case (Cons j ks)
  let ?name = "box_attempt_name qt run (of_nat j)"
  obtain h3 where rest: "clean_attempts qt sb run ks h3 = (Inr (), h')" and gone: "?name \<notin> live h3"
    using Cons.prems(1) absent_gone
    by (auto simp: Let_def split: prod.splits sum.splits if_splits)
  have "live h' \<subseteq> live h3" using clean_attempts_shrinks [of qt run ks h3] by (simp add: rest)
  with Cons.IH [OF rest] Cons.prems(2) gone show ?case by auto
qed simp

lemma end_box_clean:
  assumes sb: "wk_sandbox wk = sb" and e: "end_box wk spec attempt ending token w = (Inr (StoppedStore res), w')"
    and n: "n \<in> {1..attempt}"
  shows "box_attempt_name (en_txt (env_now wk w)) (rs_run_id spec) n \<notin> live (wo_host w')"
proof -
  from e obtain w1 where c: "w_clean_box wk (rs_run_id spec) attempt w = (Inr (), w1)"
    by (auto simp: end_box_def split: sum.splits prod.splits)
  obtain b w2 where b: "w_holds wk (rs_run_id spec) token w1 = (b, w2)" by (rule prod.exhaust)
  with e c have "w_store_append wk (\<lambda>t. append_events t (rs_run_id spec) ending) w2 = (Inr (StoppedStore res), w')"
    by (cases b) (simp_all add: end_box_def)
  then have host: "wo_host w' = wo_host w1" using w_store_append_host w_holds_host [OF b] by fastforce
  from c sb have "clean_attempts (en_txt (env_now wk w)) sb (rs_run_id spec) [1..<Suc (unat attempt)] (wo_host w) = (Inr (), wo_host w1)"
    by (auto simp: w_clean_box_def clean_box_def split: sum.splits prod.splits)
  moreover have "unat n \<in> set [1..<Suc (unat attempt)]"
    using n by (auto simp: word_le_nat_alt unat_eq_0 Suc_le_eq intro: ccontr)
  ultimately have "box_attempt_name (en_txt (env_now wk w)) (rs_run_id spec) (of_nat (unat n)) \<notin> live (wo_host w1)"
    by (rule clean_attempts_gone)
  then show ?thesis by (simp add: host)
qed

end

text \<open>What a Box turn answers with is what \<open>end_box\<close> answered, when something was stored.\<close>

lemma run_box_turn_end:
  assumes "run_box_turn wk spec attempt token w = Some (Inr (StoppedStore res), w')"
  shows "\<exists>ending v. end_box wk spec attempt ending token v = (Inr (StoppedStore res), w')"
  using assms by (auto simp: run_box_turn_def Let_def split: prod.splits bool.splits sum.splits option.splits)

lemma run_turn_end:
  assumes box: "is_box_turn spec" and run: "run_turn wk spec events seen attempt token w = Some (Inr (StoppedStore Appended), w')"
  shows "\<exists>ending v. end_box wk spec attempt ending token v = (Inr (StoppedStore Appended), w')"
proof -
  have ended: "\<exists>ending v. end_box wk spec attempt ending token v = (Inr (StoppedStore Appended), w')"
    if "end_turn wk spec s attempt ending token v = (Inr (StoppedStore Appended), w')" for s ending v
    using that box by (auto simp: end_turn_def)
  have started: "\<exists>ending v. end_box wk spec attempt ending token v = (Inr (StoppedStore Appended), w')"
    if "run_started_turn wk spec evs s attempt token v = Some (Inr (StoppedStore Appended), w')" for evs s v
    using that box ended run_box_turn_end
    by (auto simp: run_started_turn_def Let_def split: prod.splits bool.splits option.splits if_splits)
  show ?thesis
    using run ended started
    by (auto simp: run_turn_def Let_def split: if_splits prod.splits sum.splits stop_cause.splits append_result.splits)
qed

lemma run_from_box_end:
  assumes box: "is_box_turn spec" and run: "run_from wk spec events token attempt w = Some (Inr (StoppedStore Appended), w')"
  shows "\<exists>ending v. end_box wk spec attempt ending token v = (Inr (StoppedStore Appended), w')"
proof -
  have turn: "is_turn spec" using box by (simp add: is_box_turn_def)
  then show ?thesis
    using run box run_turn_end [OF box]
    by (auto simp: run_from_def run_scheduled_def end_turn_def Let_def
        split: if_splits prod.splits option.splits bool.splits sum.splits stop_cause.splits append_result.splits)
qed


section \<open>Deliveries\<close>

lemma START_counts: "START e q = (n, q') \<Longrightarrow> n = hash_get (rd_deliveries q') e"
  by (auto simp: START_def Let_def hash_get_def update_conv')

text \<open>A claim is worked on only within the limit on deliveries: the attempt handed on is the number of
  times Redis has counted the run as started, and at most \<open>max_deliveries\<close>; the run is stored and open.\<close>

theorem prepare_bounds_attempts:
  assumes "prepare wk run token w = (Inr (PreparedOpen stored n), w')" and "\<And>m. en_txt (ca_env (wk_calls wk) m) = qt"
  shows "n \<le> qm_max_deliveries (wk_timing wk) \<and> n = of_int (hash_get (rd_deliveries (sv_redis (wo_sv w'))) (qt_show qt run))
     \<and> \<not> list_ex is_end_event (sr_events stored)"
proof -
  obtain l w1 where l: "w_run wk run w = (l, w1)" by (rule prod.exhaust)
  obtain t w2 where t: "wcall wk (\<lambda>m. on_redis (start_run (en_txt (env_at wk m)) (ca_fate (wk_calls wk) m) run)) w1 = (t, w2)" by (rule prod.exhaust)
  obtain tries where tries: "t = Inr tries" "n = of_int tries" "w' = w2" "\<not> qm_max_deliveries (wk_timing wk) < n" "l = Some stored"
      "\<not> list_ex is_end_event (sr_events stored)"
    using assms(1) by (auto simp: prepare_def l t split: option.splits sum.splits if_splits prod.splits)
  let ?sv = "ca_others (wk_calls wk) (wo_n w1) (wo_sv w1)"
  from t have "on_redis (start_run qt (ca_fate (wk_calls wk) (wo_n w1)) run) ?sv = (t, wo_sv w2)"
    using assms(2) by (simp add: wcall_eq env_at_def)
  then have "with_redis (ca_fate (wk_calls wk) (wo_n w1)) (START (qt_show qt run)) (sv_redis ?sv) = (Inr tries, sv_redis (wo_sv w2))"
    by (simp add: start_run_def on_redis_res tries(1))
  then have "tries = hash_get (rd_deliveries (sv_redis (wo_sv w2))) (qt_show qt run)"
    using START_counts [of "qt_show qt run" "sv_redis ?sv" tries "sv_redis (wo_sv w2)"]
    by (auto simp: with_redis_def prod_eq_iff split: fate.splits)
  with tries show ?thesis by simp
qed

text \<open>A run that was started too often ends: when it is claimed once more, outside a Box and with Redis and
  the store answering, the claim is worked off, the stored log ends with a failure, and nothing else of it changed.\<close>

theorem over_delivered_run_ends:
  assumes still: "quiet (wk_calls wk)" and ok: "\<And>m. ca_fate (wk_calls wk) m = Answered"
    and stored: "get_run run (sv_store (wo_sv w)) = Some kept" "\<not> list_ex is_end_event (sr_events kept)"
    and store: "\<not> mx_poisoned (so_runs (sv_store (wo_sv w)))" "\<not> mx_poisoned (so_outbox (sv_store (wo_sv w)))"
    and plain: "\<not> is_box_turn (sr_spec kept)"
    and over: "qm_max_deliveries (wk_timing wk)
       < (of_int (hash_get (rd_deliveries (sv_redis (wo_sv w))) (qt_show (en_txt (ca_env (wk_calls wk) (Suc (wo_n w)))) run) + 1) :: u32)"
  shows "\<exists>w' failed message. work_claim wk run token w = Some (Inr (), w') \<and> ev_payload failed = RunFailed FInfrastructure message
     \<and> get_run run (sv_store (wo_sv w')) = Some (kept\<lparr>sr_events := sr_events kept @ [failed]\<rparr>)"
proof -
  let ?n = "wo_n w"
  have same: "ca_others (wk_calls wk) m sv = sv" for m sv using still by (simp add: quiet_def)
  obtain w1 where w1: "w_run wk run w = (Some kept, w1)" "wo_sv w1 = wo_sv w" "wo_n w1 = Suc ?n"
    by (simp add: w_run_def wcall_def call_def same stored)
  let ?tries = "hash_get (rd_deliveries (sv_redis (wo_sv w))) (qt_show (en_txt (ca_env (wk_calls wk) (Suc ?n))) run) + 1"
  obtain w2 where w2: "wcall wk (\<lambda>m. on_redis (start_run (en_txt (env_at wk m)) (ca_fate (wk_calls wk) m) run)) w1 = (Inr ?tries, w2)"
      "sv_store (wo_sv w2) = sv_store (wo_sv w)"
    using w1 by (simp add: wcall_def call_def same ok start_run_def with_redis_def START_def on_redis_def Let_def env_at_def)
  let ?failed = "run_failed_event (env_now wk w2) (sr_spec kept) FInfrastructure (too_often (of_int ?tries - 1))"
  obtain s3 where app: "append_events (en_store_now (env_at wk (wo_n w2))) run [?failed] (sv_store (wo_sv w)) = (Inr Appended, s3)"
    using append_events_fits [OF store stored] by (fastforce simp: terminal_last_def)
  obtain w3 where w3: "record_failed wk run ?failed w2 = (Inr (Recorded (Some Appended)), w3)" "sv_store (wo_sv w3) = s3"
    using app w2(2) by (simp add: record_failed_def wcall_def call_def same on_store_def)
  obtain w4 where w4: "wcall wk (\<lambda>m. on_redis (ack (en_txt (env_at wk m)) (ca_fate (wk_calls wk) m) (en_redis_now (env_at wk m)) run token)) w3 = (Inr (), w4)"
      "sv_store (wo_sv w4) = s3"
    using w3(2) by (simp add: wcall_def call_def same ok ack_def forget_def with_redis_def on_redis_def)
  have "work_claim wk run token w = Some (Inr (), w4)"
    using w1 w2 w3 w4 over stored(2) plain
    by (simp add: work_claim_def prepare_def give_up_def Let_def ack_found_def)
  moreover obtain old where "get_run run (sv_store (wo_sv w)) = Some old" "get_run run s3 = Some (old\<lparr>sr_events := sr_events old @ [?failed]\<rparr>)"
    using append_events_stored [OF app] .
  ultimately show ?thesis using w4(2) stored(1) by (intro exI [of _ w4] exI [of _ ?failed]) simp
qed

section \<open>Witnesses\<close>

definition idle_worker :: "(string list, unit) worker" where
  "idle_worker =
     \<lparr>wk_calls = still_calls, wk_timing = timing_default\<lparr>qm_max_deliveries := 2\<rparr>, wk_uuid = canonical_ops, wk_messages = True,
      wk_poster = (\<lambda>m c. Inl ''down''), wk_sandbox = docker_host sample_txt sample_docker, wk_catalog = None,
      wk_echo = \<lparr>tl_descriptor = \<lparr>td_id = ToolId 5, td_name = ''echo'', td_description = [], td_input_schema = [], td_output_schema = [], td_required_capability = ''echo''\<rparr>, tl_call = (\<lambda>inp x. (Inr inp, x))\<rparr>,
      wk_jev = Inr (), wk_complete = (\<lambda>spec request x. (Inl ''down'', x)), wk_read = (\<lambda>x own key. Inr None),
      wk_write = (\<lambda>x own key val. (Inr (), x)), wk_decide = (\<lambda>view x. (Inr (Complete ''done''), x)),
      wk_debug_resume = (\<lambda>e. ''resume''), wk_debug_turn = (\<lambda>e. ''turn'')\<rparr>"

definition claimed_world :: "int \<Rightarrow> run_spec \<Rightarrow> (string list, unit) world" where
  "claimed_world begun_n spec =
     \<lparr>wo_sv = \<lparr>sv_store = store_default\<lparr>so_runs := mutex_new [(RunId 1, \<lparr>sr_spec = spec, sr_events = [sample_event RunStarted]\<rparr>)]\<rparr>,
               sv_redis = redis_empty\<lparr>rd_processing := [''1''], rd_deliveries := [(''1'', begun_n)], rd_leases := [(''1'', ''t'', 100)]\<rparr>\<rparr>,
      wo_n = 0, wo_host = [''gol-box-1-1''], wo_mem = run_memory_new (), wo_seen = 0, wo_refused = None, wo_stuck = False\<rparr>"

lemma idle_simps [simp]:
  "wk_calls idle_worker = still_calls" "qm_max_deliveries (wk_timing idle_worker) = 2" "wk_sandbox idle_worker = docker_host sample_txt sample_docker"
  "en_txt (ca_env still_calls m) = sample_txt" "ca_fate still_calls m = Answered" "ca_others still_calls m sv = sv" "qt_show sample_txt (RunId 1) = ''1''"
  by (simp_all add: idle_worker_def still_calls_def sample_env_def sample_txt_def dec.simps digit_def)

lemma claimed_simps [simp]:
  "get_run (RunId 1) (sv_store (wo_sv (claimed_world n spec))) = Some \<lparr>sr_spec = spec, sr_events = [sample_event RunStarted]\<rparr>"
  "rd_deliveries (sv_redis (wo_sv (claimed_world n spec))) = [(''1'', n)]" "wo_n (claimed_world n spec) = 0"
  "rd_processing (sv_redis (wo_sv (claimed_world n spec))) = [''1'']"
  "\<not> mx_poisoned (so_runs (sv_store (wo_sv (claimed_world n spec))))" "\<not> mx_poisoned (so_outbox (sv_store (wo_sv (claimed_world n spec))))"
  by (simp_all add: claimed_world_def get_run_def lock_read_def mutex_new_def store_default_def)

lemma still_others_keep: "others_keep sample_txt run still_calls"
  by (simp add: others_keep_def log_grows_same)

theorem over_delivered_run_ends_witness:
  "\<exists>w' failed message. work_claim idle_worker (RunId 1) ''t'' (claimed_world 2 sample_spec) = Some (Inr (), w')
     \<and> ev_payload failed = RunFailed FInfrastructure message
     \<and> get_run (RunId 1) (sv_store (wo_sv w')) = Some \<lparr>sr_spec = sample_spec, sr_events = [sample_event RunStarted, failed]\<rparr>"
  using over_delivered_run_ends [of idle_worker "RunId 1" "claimed_world 2 sample_spec" "\<lparr>sr_spec = sample_spec, sr_events = [sample_event RunStarted]\<rparr>" "''t''"]
  by (simp add: quiet_def is_box_turn_def sample_spec_def hash_get_def sample_event_def record_event_def)

theorem prepare_bounds_attempts_witness:
  "\<exists>w'. prepare idle_worker (RunId 1) ''t'' (claimed_world 1 sample_spec)
       = (Inr (PreparedOpen \<lparr>sr_spec = sample_spec, sr_events = [sample_event RunStarted]\<rparr> 2), w') \<and> (2 :: u32) \<le> qm_max_deliveries (wk_timing idle_worker)"
proof -
  obtain w' where p: "prepare idle_worker (RunId 1) ''t'' (claimed_world 1 sample_spec)
       = (Inr (PreparedOpen \<lparr>sr_spec = sample_spec, sr_events = [sample_event RunStarted]\<rparr> 2), w')"
    by (simp add: prepare_def w_run_def wcall_def call_def env_at_def start_run_def with_redis_def START_def on_redis_def hash_get_def
        sample_event_def record_event_def Let_def)
  from prepare_bounds_attempts [OF p, of sample_txt] p show ?thesis by simp
qed

theorem work_claim_never_loses_witness:
  "\<exists>r w'. work_claim idle_worker (RunId 1) ''t'' (claimed_world 2 sample_spec) = Some (r, w')
     \<and> (held ''1'' (sv_redis (wo_sv w')) \<or> run_ended (get_run (RunId 1) (sv_store (wo_sv w'))))"
proof -
  let ?w = "claimed_world 2 sample_spec"
  obtain w' where work: "work_claim idle_worker (RunId 1) ''t'' ?w = Some (Inr (), w')"
    using over_delivered_run_ends [of idle_worker "RunId 1" ?w "\<lparr>sr_spec = sample_spec, sr_events = [sample_event RunStarted]\<rparr>" "''t''"]
    by (auto simp: quiet_def is_box_turn_def sample_spec_def hash_get_def sample_event_def record_event_def)
  from work_claim_never_loses [of sample_txt "RunId 1" idle_worker ?w _ "''t''" "Inr ()" w'] work show ?thesis
    by (simp add: still_others_keep held_def sample_spec_def)
qed

definition byo_box :: run_spec where
  "byo_box = sample_spec\<lparr>rs_placement := Box, rs_metadata := [TURN_KEY \<mapsto> ''x''],
     rs_work_model := \<lparr>wm_provider = OpenAI, wm_model_name = ''m'', wm_credential = BringYourOwn ''r''\<rparr>\<rparr>"

lemma byo_box_simps [simp]:
  "rs_run_id byo_box = RunId 1" "is_turn byo_box" "rs_placement byo_box = Box" "wm_credential (rs_work_model byo_box) \<noteq> PlatformGateway"
  "rs_lineage byo_box = lineage_default"
  by (simp_all add: byo_box_def sample_spec_def is_turn_def)

lemma claimed_unstopped: "stopped (RunId 1) (sv_store (wo_sv (claimed_world n spec))) = Some False" if "rs_lineage spec = lineage_default"
  using that
  by (simp add: stopped_def stopped_up.simps claimed_world_def lock_read_def mutex_new_def store_default_def names_run_def named_by_def parent_of_def lineage_default_def)

lemma claimed_end_box:
  assumes "is_end_event ev"
  shows "\<exists>w'. end_box idle_worker byo_box 1 [ev] ''t'' ((claimed_world 1 byo_box)\<lparr>wo_n := 1\<rparr>) = (Inr (StoppedStore Appended), w')"
proof -
  let ?w = "(claimed_world 1 byo_box)\<lparr>wo_n := 1\<rparr>"
  have name: "box_attempt_name sample_txt (RunId 1) 1 = ''gol-box-1-1''"
    by (simp add: box_attempt_name_def dec.simps digit_def)
  have clean: "w_clean_box idle_worker (RunId 1) 1 ?w = (Inr (), ?w\<lparr>wo_host := []\<rparr>)"
    by (simp add: w_clean_box_def clean_box_def env_now_def env_at_def name Let_def claimed_world_def docker_host_def docker_absent_def
        docker_destroy_def docker_command_def sample_docker_def is_prefix_def)
  show ?thesis
    unfolding end_box_def byo_box_simps clean using assms
    by (simp add: w_holds_def w_renew_def wcall_def call_def renew_def with_redis_def RENEW_def on_redis_def lease_of_def
        claimed_world_def env_at_def still_calls_def sample_env_def w_store_append_def on_store_def append_events_def append_checked_def
        store_default_def mutex_new_def lock_write_def number_def check_one_terminal_def Let_def sample_event_def record_event_def)
qed


end
