(* ===== verification/Streams.thy ===== *)
theory Streams
  imports Store_Machine
begin

text \<open>
  The live streams (\<open>crates/server/src/stream.rs\<close>): the slots of open streams, the wait for a hint, a
  principal's outbox and a run's log as server-sent events. A stream is what it sends over a sequence
  of reads: each read sees the store of its moment, and then come the signals the wait selects on. A
  client takes \<open>room\<close> more events before it goes away. The channel, the tasks and the lengths of the
  polls are the runtime's.
\<close>

section \<open>Slots\<close>

definition PAGE :: nat where
  "PAGE = 500"

definition MAX_STREAMS :: nat where
  "MAX_STREAMS = 16"

type_synonym streams = "(principal_key \<times> nat) list"

definition take_slot :: "owner \<Rightarrow> streams \<Rightarrow> principal_key option \<times> streams" where
  "take_slot own streams =
     (let key = principal own; n = count_of streams key in
      if MAX_STREAMS \<le> n then (None, streams) else (Some key, AList.update key (n + 1) streams))"

definition drop_slot :: "principal_key \<Rightarrow> streams \<Rightarrow> streams" where
  "drop_slot key streams =
     (case map_of streams key of
        None \<Rightarrow> streams
      | Some n \<Rightarrow> if n - 1 = 0 then AList.delete key streams else AList.update key (n - 1) streams)"

section \<open>Waiting\<close>

definition ALL_HINT :: "64 word" where
  "ALL_HINT = 0"

datatype signal = ClientClosed | Polled | Hinted "64 word" | HintsLagged | HintsClosed

text \<open>Without hints a stream waits for its client to go away or for the poll.\<close>

fun wait_poll :: "signal list \<Rightarrow> bool option" where
  "wait_poll [] = None"
| "wait_poll (ClientClosed # sigs) = Some True"
| "wait_poll (Polled # sigs) = Some False"
| "wait_poll (other # sigs) = wait_poll sigs"

text \<open>True when the client went away; \<open>None\<close> while it still waits.\<close>

fun wait_for :: "64 word \<Rightarrow> signal list \<Rightarrow> bool option" where
  "wait_for hint [] = None"
| "wait_for hint (ClientClosed # sigs) = Some True"
| "wait_for hint (Polled # sigs) = Some False"
| "wait_for hint (Hinted got # sigs) = (if got = hint \<or> got = ALL_HINT then Some False else wait_for hint sigs)"
| "wait_for hint (HintsLagged # sigs) = Some False"
| "wait_for hint (HintsClosed # sigs) = wait_poll sigs"

section \<open>Events sent\<close>

datatype sse_data = SseEntry run_id nat event | SseReset nat

record sse_event =
  se_id :: nat
  se_event :: string
  se_data :: sse_data

definition sse_of :: "nat \<Rightarrow> run_id \<Rightarrow> nat \<Rightarrow> event \<Rightarrow> sse_event" where
  "sse_of num run run_seq ev = \<lparr>se_id = num, se_event = event_type (ev_payload ev), se_data = SseEntry run run_seq ev\<rparr>"

definition sse_reset :: "nat \<Rightarrow> sse_event" where
  "sse_reset through = \<lparr>se_id = through, se_event = ''reset'', se_data = SseReset through\<rparr>"

datatype stream_end = ClientGone | StreamReset | LogEnded | NotStored | StoreFailed | StillOpen

section \<open>A principal's outbox\<close>

text \<open>What is sent of a page, the cursor after it, and the room left, or none when the client went away.\<close>

fun send_entries :: "nat \<Rightarrow> outbox_entry list \<Rightarrow> nat \<Rightarrow> sse_event list \<times> nat \<times> nat option" where
  "send_entries room [] cursor = ([], cursor, Some room)"
| "send_entries 0 (e # es) cursor = ([], cursor, None)"
| "send_entries (Suc room) (e # es) cursor =
     (case send_entries room es (oe_seq e) of
        (sent, rest) \<Rightarrow> (sse_of (oe_seq e) (oe_run_id e) (oe_run_seq e) (oe_event e) # sent, rest))"

fun outbox_stream :: "owner \<Rightarrow> nat option \<Rightarrow> nat \<Rightarrow> (store \<times> signal list) list \<Rightarrow> sse_event list \<times> stream_end" where
  "outbox_stream own cursor room [] = ([], StillOpen)"
| "outbox_stream own cursor room ((s, sigs) # reads) =
     (let (after, limit) = (case cursor of Some after \<Rightarrow> (after, PAGE) | None \<Rightarrow> (2 ^ 64 - 1, 0)) in
      case outbox_after own after limit s of
        Inl e \<Rightarrow> ([], StoreFailed)
      | Inr page \<Rightarrow>
          if cursor = None then outbox_stream own (Some (op_last page)) room reads
          else if after < op_pruned_through page then
            (if room = 0 then ([], ClientGone) else ([sse_reset (op_pruned_through page)], StreamReset))
          else
            (case send_entries room (op_entries page) after of
               (sent, cursor1, None) \<Rightarrow> (sent, ClientGone)
             | (sent, cursor1, Some room1) \<Rightarrow>
                 let rest = outbox_stream own (Some cursor1) room1 reads in
                 if length (op_entries page) = PAGE then (sent @ fst rest, snd rest)
                 else
                   (case wait_for (principal_hint own) sigs of
                      None \<Rightarrow> (sent, StillOpen)
                    | Some True \<Rightarrow> (sent, ClientGone)
                    | Some False \<Rightarrow> (sent @ fst rest, snd rest))))"

section \<open>A run's log\<close>

text \<open>The events of one read: what is sent, the cursor after it, and the room left, or how the stream ended.\<close>

fun send_log :: "run_id \<Rightarrow> nat \<Rightarrow> event list \<Rightarrow> nat \<Rightarrow> sse_event list \<times> nat \<times> (stream_end + nat)" where
  "send_log run room [] cursor = ([], cursor, Inr room)"
| "send_log run 0 (ev # evs) cursor = ([], cursor, Inl ClientGone)"
| "send_log run (Suc room) (ev # evs) cursor =
     (if is_end_event ev then ([sse_of (cursor + 1) run (cursor + 1) ev], cursor + 1, Inl LogEnded)
      else
        (case send_log run room evs (cursor + 1) of
           (sent, rest) \<Rightarrow> (sse_of (cursor + 1) run (cursor + 1) ev # sent, rest)))"

fun run_stream :: "owner \<Rightarrow> run_id \<Rightarrow> nat \<Rightarrow> nat \<Rightarrow> (store \<times> signal list) list \<Rightarrow> sse_event list \<times> stream_end" where
  "run_stream own run cursor room [] = ([], StillOpen)"
| "run_stream own run cursor room ((s, sigs) # reads) =
     (case run_page run (cursor - 1) (PAGE + 1) s of
        None \<Rightarrow> ([], NotStored)
      | Some page \<Rightarrow>
          let events = sr_events page in
          if 0 < cursor \<and> events \<noteq> [] \<and> is_end_event (hd events) then ([], LogEnded)
          else
            (case send_log run room (take PAGE (if 0 < cursor then tl events else events)) cursor of
               (sent, cursor1, Inl how) \<Rightarrow> (sent, how)
             | (sent, cursor1, Inr room1) \<Rightarrow>
                 let rest = run_stream own run cursor1 room1 reads in
                 if length sent < PAGE then
                   (case wait_for (principal_hint own) sigs of
                      None \<Rightarrow> (sent, StillOpen)
                    | Some True \<Rightarrow> (sent, ClientGone)
                    | Some False \<Rightarrow> (sent @ fst rest, snd rest))
                 else (sent @ fst rest, snd rest)))"

section \<open>Slots are counted\<close>

text \<open>The streams that are open, each with its slot: one is opened, refused, or closed.\<close>

inductive slot_step :: "streams \<times> principal_key list \<Rightarrow> streams \<times> principal_key list \<Rightarrow> bool" where
  opened: "take_slot own m = (Some key, m') \<Longrightarrow> slot_step (m, ks) (m', key # ks)"
| refused: "take_slot own m = (None, m') \<Longrightarrow> slot_step (m, ks) (m', ks)"
| closed: "key \<in> set ks \<Longrightarrow> slot_step (m, ks) (drop_slot key m, remove1 key ks)"

definition slots_ok :: "streams \<times> principal_key list \<Rightarrow> bool" where
  "slots_ok = (\<lambda>(m, ks). \<forall>key. count_of m key = count_list ks key \<and> count_list ks key \<le> MAX_STREAMS)"

lemma count_list_remove1: "count_list (remove1 x xs) y = (if x = y then count_list xs y - 1 else count_list xs y)"
proof (induction xs)
  case (Cons a xs)
  have "x \<in> set xs \<Longrightarrow> 0 < count_list xs x" using count_list_0_iff [of xs x] by (cases "count_list xs x") auto
  with Cons show ?case by auto
qed simp

lemma count_of_drop: "map_of m key = Some n \<Longrightarrow> count_of (drop_slot key m) k = (if k = key then n - 1 else count_of m k)"
  by (auto simp: drop_slot_def count_of_def delete_conv' update_conv')

lemma slot_step_ok: "slot_step s s' \<Longrightarrow> slots_ok s \<Longrightarrow> slots_ok s'"
proof (induction rule: slot_step.induct)
  case (opened own m key m' ks)
  then show ?case by (auto simp: take_slot_def slots_ok_def Let_def split: if_splits)
next
  case (refused own m m' ks)
  then show ?case by (auto simp: take_slot_def slots_ok_def Let_def split: if_splits)
next
  case (closed key ks m)
  then have "count_of m key = count_list ks key" "count_list ks key \<noteq> 0" by (auto simp: slots_ok_def count_list_0_iff simp del: split_paired_All)
  then have "count_of m key \<noteq> 0" by simp
  then obtain n where n: "map_of m key = Some n" by (auto simp: count_of_def split: option.splits)
  then have "n = count_of m key" by (simp add: count_of_def)
  with closed show ?case by (auto simp: slots_ok_def count_of_drop [OF n] count_list_remove1 intro: diff_le_self le_trans)
qed

lemma slot_steps_ok: "slot_step\<^sup>*\<^sup>* s s' \<Longrightarrow> slots_ok s \<Longrightarrow> slots_ok s'"
  by (induction rule: rtranclp_induct) (auto intro: slot_step_ok)

section \<open>The outbox stream\<close>

definition numbers :: "nat \<Rightarrow> nat \<Rightarrow> nat list" where
  "numbers after n = [Suc after ..< Suc (after + n)]"

lemma numbers_simps [simp]:
  "numbers after 0 = []" "numbers after (Suc n) = Suc after # numbers (Suc after) n" "length (numbers after n) = n"
  by (simp_all add: numbers_def upt_conv_Cons del: upt_Suc)

lemma numbers_append: "numbers after n @ numbers (after + n) m = numbers after (n + m)"
  by (induction n arbitrary: after) (simp, metis add_Suc add_Suc_right append_Cons numbers_simps(2))

lemma take_numbers: "take limit [Suc after ..< Suc upto_n] = numbers after (min limit (upto_n - after))"
proof (cases "after \<le> upto_n")
  case True
  then have "[Suc after ..< Suc upto_n] = numbers after (upto_n - after)" by (simp add: numbers_def)
  moreover have "take limit (numbers after n) = numbers after (min limit n)" for n
    by (induction n arbitrary: after limit) (simp, case_tac limit, auto)
  ultimately show ?thesis by simp
qed (simp add: numbers_def)

lemma send_entries_ids:
  "send_entries room es cursor = (sent, c, rest) \<Longrightarrow> map oe_seq es = numbers cursor (length es)
     \<Longrightarrow> map se_id sent = numbers cursor (length sent) \<and> c = cursor + length sent
       \<and> (\<forall>room'. rest = Some room' \<longrightarrow> length sent = length es)"
proof (induction room es cursor arbitrary: sent rule: send_entries.induct)
  case (3 room e es cursor)
  then obtain sent' where sent: "send_entries room es (oe_seq e) = (sent', c, rest)"
    "sent = sse_of (oe_seq e) (oe_run_id e) (oe_run_seq e) (oe_event e) # sent'" by (auto split: prod.splits)
  have e: "oe_seq e = Suc cursor" "map oe_seq es = numbers (Suc cursor) (length es)"
    using "3.prems"(2) by simp_all
  with "3.IH" [OF sent(1)] sent(2) show ?case by (auto simp: sse_of_def)
qed auto

text \<open>The numbers of a stream that was sent from \<open>after\<close> on: one after the other, then possibly a reset.\<close>

definition runs_on :: "nat \<Rightarrow> sse_event list \<Rightarrow> bool" where
  "runs_on after sent \<longleftrightarrow>
     (\<exists>n. map se_id sent = numbers after n
        \<or> (\<exists>init through. sent = init @ [sse_reset through] \<and> map se_id init = numbers after n \<and> after + n < through))"

lemma runs_on_plain: "map se_id sent = numbers after (length sent) \<Longrightarrow> runs_on after sent"
  by (auto simp: runs_on_def)

lemma runs_on_append:
  assumes "map se_id sent = numbers after (length sent)" and "runs_on (after + length sent) rest"
  shows "runs_on after (sent @ rest)"
proof -
  note joined = numbers_append [of after "length sent"]
  obtain n where n: "map se_id rest = numbers (after + length sent) n
      \<or> (\<exists>init through. rest = init @ [sse_reset through] \<and> map se_id init = numbers (after + length sent) n
           \<and> after + length sent + n < through)"
    using assms(2) by (auto simp: runs_on_def)
  then show ?thesis
  proof
    assume "map se_id rest = numbers (after + length sent) n"
    then have "map se_id (sent @ rest) = numbers after (length sent + n)"
      by (simp only: map_append assms(1) joined)
    then show ?thesis unfolding runs_on_def by blast
  next
    assume "\<exists>init through. rest = init @ [sse_reset through] \<and> map se_id init = numbers (after + length sent) n
           \<and> after + length sent + n < through"
    then obtain init through where rest: "rest = init @ [sse_reset through]" "map se_id init = numbers (after + length sent) n"
        "after + length sent + n < through" by blast
    then have "map se_id (sent @ init) = numbers after (length sent + n)"
      by (simp only: map_append assms(1) joined)
    moreover have "sent @ rest = (sent @ init) @ [sse_reset through]" "after + (length sent + n) < through" using rest by simp_all
    ultimately show ?thesis unfolding runs_on_def by blast
  qed
qed

lemma outbox_stream_runs:
  assumes "\<forall>(s, sigs) \<in> set reads. store_step\<^sup>*\<^sup>* store_default s"
  shows "runs_on after (fst (outbox_stream own (Some after) room reads))"
  using assms
proof (induction reads arbitrary: after room)
  case Nil
  then show ?case by (simp add: runs_on_plain)
next
  case (Cons read reads)
  obtain s sigs where read: "read = (s, sigs)" by fastforce
  have "store_ok s" using Cons.prems read store_steps store_ok_default order_ok_default by auto
  then obtain page where page: "outbox_after own after PAGE s = Inr page"
    "map oe_seq (op_entries page) = take PAGE [Suc (max (op_pruned_through page) after) ..< Suc (op_last page)]"
    using outbox_after_rows by blast
  show ?case
  proof (cases "after < op_pruned_through page")
    case True
    have "runs_on after [sse_reset (op_pruned_through page)]"
      unfolding runs_on_def by (rule exI [of _ 0], rule disjI2, rule exI [of _ "[]"]) (use True in auto)
    with True show ?thesis by (simp add: read page(1) runs_on_plain)
  next
    case False
    have "map oe_seq (op_entries page) = numbers after (min PAGE (op_last page - after))"
      using page(2) False by (simp add: max_def take_numbers del: upt_Suc)
    then have "map oe_seq (op_entries page) = numbers after (length (op_entries page))"
      by (metis length_map numbers_simps(3))
    moreover obtain sent c rest where sent: "send_entries room (op_entries page) after = (sent, c, rest)" by (rule prod_cases3)
    ultimately have ids: "map se_id sent = numbers after (length sent)" "c = after + length sent"
      using send_entries_ids by blast+
    have go: "runs_on after (sent @ fst (outbox_stream own (Some c) room' reads))" for room'
      using runs_on_append [OF ids(1)] Cons.IH [of c room'] Cons.prems ids(2) by simp
    show ?thesis
      using False go runs_on_plain [OF ids(1)] by (simp add: read page(1) sent Let_def split: option.split bool.split)
  qed
qed

section \<open>The stream of a run\<close>

text \<open>The events of a log after the first \<open>cursor\<close>, as they are sent.\<close>

definition sent_of :: "run_id \<Rightarrow> nat \<Rightarrow> event list \<Rightarrow> sse_event list" where
  "sent_of run cursor evs = map (\<lambda>(i, ev). sse_of (cursor + i + 1) run (cursor + i + 1) ev) (enumerate 0 evs)"

lemma sent_of_simps [simp]:
  "sent_of run cursor [] = []" "length (sent_of run cursor evs) = length evs"
  "sent_of run cursor (ev # evs) = sse_of (cursor + 1) run (cursor + 1) ev # sent_of run (cursor + 1) evs"
  by (simp_all add: sent_of_def enumerate_Suc_eq comp_def case_prod_unfold)

lemma sent_of_append: "sent_of run cursor (evs @ more_evs) = sent_of run cursor evs @ sent_of run (cursor + length evs) more_evs"
  by (induction evs arbitrary: cursor) (simp_all add: add.assoc [symmetric])

lemma send_log_sent:
  "send_log run room evs cursor = (sent, c, rest) \<Longrightarrow>
     sent = sent_of run cursor (take (length sent) evs) \<and> length sent \<le> length evs \<and> c = cursor + length sent
     \<and> (\<forall>room'. rest = Inr room' \<longrightarrow> length sent = length evs)
     \<and> (rest = Inl LogEnded \<longrightarrow> sent \<noteq> [] \<and> is_end_event (evs ! (length sent - 1))) \<and> (\<forall>how. rest = Inl how \<longrightarrow> how = LogEnded \<or> how = ClientGone)"
proof (induction run room evs cursor arbitrary: sent rule: send_log.induct)
  case (3 run room ev evs cursor)
  show ?case
  proof (cases "is_end_event ev")
    case True
    with "3.prems" show ?thesis by auto
  next
    case False
    with "3.prems" obtain sent' where s: "send_log run room evs (cursor + 1) = (sent', c, rest)"
      "sent = sse_of (cursor + 1) run (cursor + 1) ev # sent'" by (auto split: prod.splits)
    note ih = "3.IH" [OF False s(1)]
    then have "rest = Inl LogEnded \<Longrightarrow> sent' \<noteq> []" by blast
    with ih show ?thesis by (auto simp: s(2) nth_Cons' )
  qed
qed auto

text \<open>Reads of one run over time: each finds the run stored, with a log that extends the last one.\<close>

fun reads_log :: "run_id \<Rightarrow> event list \<Rightarrow> (store \<times> signal list) list \<Rightarrow> event list \<Rightarrow> bool" where
  "reads_log run log [] full = (\<exists>rest. full = log @ rest)"
| "reads_log run log ((s, sigs) # reads) full =
     (\<exists>stored rest. get_run run s = Some stored \<and> sr_events stored = log @ rest \<and> reads_log run (sr_events stored) reads full)"

lemma reads_log_prefix: "reads_log run log reads full \<Longrightarrow> \<exists>rest. full = log @ rest"
  by (induction run log reads full rule: reads_log.induct) (simp, fastforce)

lemma drop_tl: "0 < c \<Longrightarrow> tl (take (Suc n) (drop (c - 1) xs)) = take n (drop c xs)"
  by (cases c) (auto simp: drop_Suc tl_drop take_Suc tl_take)

definition log_sent :: "run_id \<Rightarrow> nat \<Rightarrow> event list \<Rightarrow> sse_event list \<Rightarrow> stream_end \<Rightarrow> bool" where
  "log_sent run cursor full sent how \<longleftrightarrow> sent = sent_of run cursor (take (length sent) (drop cursor full))
     \<and> (how = LogEnded \<longrightarrow> 0 < cursor + length sent \<and> cursor + length sent \<le> length full \<and> is_end_event (full ! (cursor + length sent - 1)))
     \<and> how \<noteq> NotStored \<and> how \<noteq> StoreFailed \<and> how \<noteq> StreamReset"

lemma run_stream_log:
  assumes "reads_log run log reads full" and "run_stream own run cursor room reads = (sent, how)"
  shows "log_sent run cursor full sent how"
  using assms
proof (induction reads arbitrary: log cursor room sent how)
  case Nil
  then show ?case by (simp add: log_sent_def)
next
  case (Cons read reads)
  obtain s sigs where read: "read = (s, sigs)" by fastforce
  obtain stored where stored: "get_run run s = Some stored" and later: "reads_log run (sr_events stored) reads full"
    using Cons.prems(1) read by auto
  let ?L = "sr_events stored"
  obtain extra where full: "full = ?L @ extra" using reads_log_prefix [OF later] by blast
  have page: "run_page run (cursor - 1) (PAGE + 1) s = Some (stored\<lparr>sr_events := take (PAGE + 1) (drop (cursor - 1) ?L)\<rparr>)"
    by (simp add: run_page_def stored)
  let ?ev = "take (PAGE + 1) (drop (cursor - 1) ?L)"
  have new: "take PAGE (if 0 < cursor then tl ?ev else ?ev) = take PAGE (drop cursor ?L)"
    using drop_tl [of cursor PAGE ?L] by (auto simp: min_def)
  have page_events: "sr_events (stored\<lparr>sr_events := ?ev\<rparr>) = ?ev" by simp
  show ?case
  proof (cases "0 < cursor \<and> ?ev \<noteq> [] \<and> is_end_event (hd ?ev)")
    case True
    then have "cursor - 1 < length ?L" "hd ?ev = ?L ! (cursor - 1)" by (auto simp: hd_drop_conv_nth)
    moreover have "sent = []" "how = LogEnded" using True Cons.prems(2) by (simp_all add: read page [simplified])
    ultimately show ?thesis using True by (auto simp: log_sent_def full nth_append)
  next
    case False
    obtain out c rest where out: "send_log run room (take PAGE (drop cursor ?L)) cursor = (out, c, rest)" by (rule prod_cases3)
    note o = send_log_sent [OF out]
    have here: "out = sent_of run cursor (take (length out) (drop cursor full))" "length out \<le> length ?L - cursor" "c = cursor + length out"
      using o by (auto simp: full min_def split: if_splits)
    have go: "sent = out @ fst (run_stream own run c room' reads) \<Longrightarrow> how = snd (run_stream own run c room' reads) \<Longrightarrow> log_sent run cursor full sent how" for room'
    proof -
      assume sent: "sent = out @ fst (run_stream own run c room' reads)" and how: "how = snd (run_stream own run c room' reads)"
      let ?r = "fst (run_stream own run c room' reads)"
      note ih = Cons.IH [OF later, of c room' ?r how]
      have r: "?r = sent_of run c (take (length ?r) (drop c full))" using ih how by (simp add: log_sent_def)
      have "take (length sent) (drop cursor full) = take (length out) (drop cursor full) @ take (length ?r) (drop c full)"
        by (simp add: sent take_add here(3) add.commute)
      moreover have "length (take (length out) (drop cursor full)) = length out" using here(2) full by simp
      ultimately have "sent_of run cursor (take (length sent) (drop cursor full)) = out @ ?r"
        by (simp only: sent_of_append here(1) [symmetric] here(3) [symmetric] r [symmetric])
      with ih how sent here(3) show "log_sent run cursor full sent how" by (auto simp: log_sent_def add.assoc)
    qed
    have stop: "sent = out \<Longrightarrow> how = ClientGone \<or> how = StillOpen \<Longrightarrow> log_sent run cursor full sent how" using here(1) by (auto simp: log_sent_def)
    have ended: "log_sent run cursor full out LogEnded" if "rest = Inl LogEnded"
    proof -
      have out_ev: "out \<noteq> []" "is_end_event (take PAGE (drop cursor ?L) ! (length out - 1))" "length out \<le> length (take PAGE (drop cursor ?L))"
        using o that by blast+
      then have "0 < length out" "length out - 1 < length ?L - cursor" "length out - 1 < PAGE" by (cases out; simp)+
      moreover then have "take PAGE (drop cursor ?L) ! (length out - 1) = full ! (cursor + length out - 1)"
        by (cases out) (simp_all add: full nth_append)
      ultimately show ?thesis using here(1) out_ev(2) full by (simp add: log_sent_def)
    qed
    have eq: "run_stream own run cursor room (read # reads) =
        (case rest of Inl how \<Rightarrow> (out, how)
         | Inr room1 \<Rightarrow>
             (let rest = run_stream own run c room1 reads in
              if length out < PAGE then
                (case wait_for (principal_hint own) sigs of None \<Rightarrow> (out, StillOpen) | Some True \<Rightarrow> (out, ClientGone)
                 | Some False \<Rightarrow> (out @ fst rest, snd rest))
              else (out @ fst rest, snd rest)))"
      unfolding read run_stream.simps page option.case Let_def page_events new out prod.case using False by auto
    show ?thesis
      using Cons.prems(2) go stop ended o unfolding eq
      by (auto simp: Let_def split: sum.splits if_splits option.splits bool.splits)
  qed
qed

lemma send_log_all:
  assumes "length evs \<le> room" and "\<forall>i < length evs - 1. \<not> is_end_event (evs ! i)"
  shows "\<exists>rest. send_log run room evs cursor = (sent_of run cursor evs, cursor + length evs, rest)
     \<and> (rest = Inr (room - length evs) \<or> evs \<noteq> [] \<and> rest = Inl LogEnded \<and> is_end_event (last evs))"
  using assms
proof (induction evs arbitrary: room cursor)
  case (Cons ev evs)
  then obtain room' where room: "room = Suc room'" "length evs \<le> room'" by (cases room) auto
  show ?case
  proof (cases "evs = []")
    case True
    with room show ?thesis by auto
  next
    case False
    have "\<forall>i < length evs - 1. \<not> is_end_event (evs ! i)"
    proof (intro allI impI)
      fix i assume "i < length evs - 1"
      then show "\<not> is_end_event (evs ! i)" using Cons.prems(2) [rule_format, of "Suc i"] by simp
    qed
    from Cons.IH [OF room(2) this, of "cursor + 1"] obtain rest where rest:
      "send_log run room' evs (cursor + 1) = (sent_of run (cursor + 1) evs, cursor + 1 + length evs, rest)"
      "rest = Inr (room' - length evs) \<or> rest = Inl LogEnded \<and> is_end_event (last evs)" by blast
    moreover have "\<not> is_end_event ev" using Cons.prems(2) [rule_format, of 0] False by simp
    ultimately show ?thesis using room(1) False by auto
  qed
qed simp

lemma run_stream_all:
  assumes "get_run run s = Some stored" and "\<forall>i < length (sr_events stored) - 1. \<not> is_end_event (sr_events stored ! i)"
    and "cursor \<le> length (sr_events stored)" "length (sr_events stored) - cursor \<le> room"
    and "length (sr_events stored) - cursor < length reads * PAGE" "\<forall>(s', sigs) \<in> set reads. s' = s"
  shows "fst (run_stream own run cursor room reads) = sent_of run cursor (drop cursor (sr_events stored))"
  using assms(3-)
proof (induction reads arbitrary: cursor room)
  case (Cons read reads)
  obtain sigs where read: "read = (s, sigs)" using Cons.prems(4) by (cases read) auto
  let ?L = "sr_events stored"
  let ?ev = "take (PAGE + 1) (drop (cursor - 1) ?L)"
  let ?new = "take PAGE (drop cursor ?L)"
  have page: "run_page run (cursor - 1) (PAGE + 1) s = Some (stored\<lparr>sr_events := ?ev\<rparr>)"
    by (simp add: run_page_def assms(1))
  have page_events: "sr_events (stored\<lparr>sr_events := ?ev\<rparr>) = ?ev" by simp
  have new: "take PAGE (if 0 < cursor then tl ?ev else ?ev) = ?new"
    using drop_tl [of cursor PAGE ?L] by (auto simp: min_def)
  show ?case
  proof (cases "0 < cursor \<and> ?ev \<noteq> [] \<and> is_end_event (hd ?ev)")
    case True
    then have "cursor - 1 < length ?L" "is_end_event (?L ! (cursor - 1))" by (auto simp: hd_drop_conv_nth)
    then have "\<not> cursor - 1 < length ?L - 1" using assms(2) by blast
    then have "drop cursor ?L = []" using True by auto
    with True show ?thesis by (simp add: read page [simplified])
  next
    case False
    have plain: "\<forall>i < length ?new - 1. \<not> is_end_event (?new ! i)" using assms(2) by auto
    have fits: "length ?new \<le> room" using Cons.prems(2) by simp
    obtain rest where out: "send_log run room ?new cursor = (sent_of run cursor ?new, cursor + length ?new, rest)"
      and rest: "rest = Inr (room - length ?new) \<or> ?new \<noteq> [] \<and> rest = Inl LogEnded \<and> is_end_event (last ?new)"
      using send_log_all [OF fits plain] by blast
    let ?c = "cursor + length ?new"
    have split: "sent_of run cursor (drop cursor ?L) = sent_of run cursor ?new @ sent_of run ?c (drop ?c ?L)"
    proof -
      have "drop ?c ?L = drop PAGE (drop cursor ?L)" by (auto simp: min_def add.commute)
      then show ?thesis by (metis append_take_drop_id sent_of_append)
    qed
    have eq: "run_stream own run cursor room (read # reads) =
        (case rest of Inl how \<Rightarrow> (sent_of run cursor ?new, how)
         | Inr room1 \<Rightarrow>
             (let rest = run_stream own run ?c room1 reads in
              if length (sent_of run cursor ?new) < PAGE then
                (case wait_for (principal_hint own) sigs of None \<Rightarrow> (sent_of run cursor ?new, StillOpen)
                 | Some True \<Rightarrow> (sent_of run cursor ?new, ClientGone)
                 | Some False \<Rightarrow> (sent_of run cursor ?new @ fst rest, snd rest))
              else (sent_of run cursor ?new @ fst rest, snd rest)))"
      unfolding read run_stream.simps page option.case Let_def page_events new out prod.case using False by auto
    have go: "fst (run_stream own run ?c room1 reads) = sent_of run ?c (drop ?c ?L)" if "rest = Inr room1" for room1
    proof (cases "reads = []")
      case True
      then have "length ?L - cursor < PAGE" using Cons.prems(3) by simp
      then have "?c = length ?L" using Cons.prems(1) by simp
      with True show ?thesis by simp
    next
      case False
      then have some: "PAGE \<le> length reads * PAGE" "0 < PAGE" "0 < length reads * PAGE" by (cases reads; simp add: PAGE_def)+
      have "room1 = room - length ?new" using that rest by simp
      moreover have "length ?L - ?c < length reads * PAGE" using Cons.prems(1,3) some by (simp add: min_def PAGE_def) arith
      moreover have "length ?L - ?c \<le> room - length ?new" using Cons.prems(2) by arith
      moreover have "?c \<le> length ?L" using Cons.prems(1) by (auto simp: min_def)
      ultimately show ?thesis using Cons.prems(4) by (intro Cons.IH) simp_all
    qed
    have whole: "drop ?c ?L = []" if "rest = Inl how" for how
    proof -
      have ends: "?new \<noteq> []" "is_end_event (last ?new)" using rest that by auto
      have at_end: "last xs = ys ! (n + length xs - 1) \<and> n + length xs - 1 < length ys"
        if "xs = take k (drop n ys)" "xs \<noteq> []" for xs ys :: "event list" and n k
        using that by (auto simp: last_conv_nth nth_append min_def)
      from at_end [OF refl ends(1)] have "last ?new = ?L ! (?c - 1)" "?c - 1 < length ?L" by blast+
      then have "\<not> ?c - 1 < length ?L - 1" using assms(2) ends(2) by auto
      moreover have "0 < length ?new" using ends(1) by (rule length_greater_0_conv [THEN iffD2])
      ultimately have "length ?L \<le> ?c" by arith
      then show ?thesis by (rule drop_all)
    qed
    have short: "drop ?c ?L = []" if "length ?new < PAGE" using that by simp
    show ?thesis
      unfolding eq split using go whole short
      by (auto simp: Let_def simp del: length_take length_drop drop_eq_Nil split: sum.split option.split bool.split)
  qed
qed simp

section \<open>Properties\<close>

text \<open>C39. No principal has more than \<open>MAX_STREAMS\<close> streams open, and another one is refused exactly when it has
  that many: over any sequence of streams opened, refused and closed, the counter of a principal is the
  number of its streams that are open.\<close>

theorem streams_counted:
  assumes "slot_step\<^sup>*\<^sup>* ([], []) (m, ks)"
  shows "count_list ks key \<le> MAX_STREAMS \<and> count_of m key = count_list ks key
     \<and> (fst (take_slot own m) = None \<longleftrightarrow> count_list ks (principal own) = MAX_STREAMS)"
proof -
  have "slots_ok (m, ks)" using slot_steps_ok [OF assms] by (simp add: slots_ok_def count_of_def)
  then have "count_of m k = count_list ks k \<and> count_list ks k \<le> MAX_STREAMS" for k by (simp add: slots_ok_def del: split_paired_All)
  then show ?thesis by (auto simp: take_slot_def Let_def le_antisym)
qed

text \<open>C36. A principal's stream has no gap: whatever the store was asked between the reads, however often it
  was pruned and wherever the client leaves, what a client with a cursor is sent is numbered one after the
  other from its cursor, and only a stream that is then told to reset goes on elsewhere.\<close>

theorem outbox_stream_gap_free:
  assumes "\<forall>(s, sigs) \<in> set reads. store_step\<^sup>*\<^sup>* store_default s"
  shows "\<exists>n. map se_id (fst (outbox_stream own (Some after) room reads)) = [Suc after ..< Suc (after + n)]
     \<or> (\<exists>init through. fst (outbox_stream own (Some after) room reads) = init @ [sse_reset through]
          \<and> map se_id init = [Suc after ..< Suc (after + n)] \<and> after + n < through)"
  using outbox_stream_runs [OF assms, of after own room] unfolding runs_on_def numbers_def .

text \<open>C37. A run's stream is its log: over reads of a log that grows, what a client is sent is the log after its cursor,
  event by event with its place, as far as the client stayed; and a stream that ends by itself has sent the log up to its
  terminal event.\<close>

theorem run_stream_is_log:
  assumes "reads_log run log reads full" and "run_stream own run cursor room reads = (sent, how)"
  shows "sent = map (\<lambda>i. sse_of (cursor + i + 1) run (cursor + i + 1) (full ! (cursor + i))) [0 ..< length sent]
     \<and> (how = LogEnded \<longrightarrow> cursor + length sent \<le> length full \<and> is_end_event (full ! (cursor + length sent - 1)))
     \<and> how \<in> {LogEnded, ClientGone, StillOpen}"
proof -
  note log = run_stream_log [OF assms, unfolded log_sent_def]
  let ?evs = "take (length sent) (drop cursor full)"
  have len: "length sent = length ?evs" using log sent_of_simps(2) [of run cursor ?evs] by metis
  have "sent_of run cursor ?evs = map (\<lambda>i. sse_of (cursor + i + 1) run (cursor + i + 1) (full ! (cursor + i))) [0 ..< length ?evs]"
    by (rule nth_equalityI) (auto simp: sent_of_def nth_enumerate_eq)
  then show ?thesis using log len by (cases how) auto
qed

text \<open>C38. A client that stays is sent the whole log: over enough reads of a run whose terminal event, if it has one, is its
  last, a client with room for what is left is sent every event after its cursor in order, whatever it is woken by.\<close>

theorem run_stream_catches_up:
  assumes "get_run run s = Some stored" and "\<forall>i < length (sr_events stored) - 1. \<not> is_end_event (sr_events stored ! i)"
    and "cursor \<le> length (sr_events stored)" "length (sr_events stored) - cursor \<le> room"
    and "length (sr_events stored) - cursor < length reads * PAGE" "\<forall>(s', sigs) \<in> set reads. s' = s"
  shows "fst (run_stream own run cursor room reads)
     = map (\<lambda>i. sse_of (i + 1) run (i + 1) (sr_events stored ! i)) [cursor ..< length (sr_events stored)]"
proof -
  have "sent_of run cursor (drop cursor (sr_events stored))
      = map (\<lambda>i. sse_of (i + 1) run (i + 1) (sr_events stored ! i)) [cursor ..< length (sr_events stored)]"
    by (rule nth_equalityI) (use assms(3) in \<open>auto simp: sent_of_def nth_enumerate_eq\<close>)
  with run_stream_all [OF assms] show ?thesis by simp
qed

section \<open>Witnesses\<close>

theorem streams_counted_witness:
  "count_list [(''iss'', ''sub'')] (''iss'', ''sub'') \<le> MAX_STREAMS
     \<and> count_of (snd (take_slot (rs_owner sample_spec) [])) (''iss'', ''sub'') = 1
     \<and> fst (take_slot (rs_owner sample_spec) (snd (take_slot (rs_owner sample_spec) []))) \<noteq> None"
proof -
  let ?m = "snd (take_slot (rs_owner sample_spec) [])"
  have "principal (rs_owner sample_spec) = (''iss'', ''sub'')" by (simp add: principal_def sample_spec_def)
  moreover then have "take_slot (rs_owner sample_spec) [] = (Some (''iss'', ''sub''), ?m)"
    by (simp add: take_slot_def MAX_STREAMS_def count_of_def Let_def)
  then have "slot_step\<^sup>*\<^sup>* ([], []) (?m, [(''iss'', ''sub'')])" by (blast intro: slot_step.opened)
  from streams_counted [OF this, of "(''iss'', ''sub'')" "rs_owner sample_spec"] calculation show ?thesis
    by (auto simp: MAX_STREAMS_def)
qed

theorem outbox_stream_gap_free_witness:
  "\<exists>n. map se_id (fst (outbox_stream (rs_owner sample_spec) (Some 0) 5 [(sample_store, [])])) = [Suc 0 ..< Suc (0 + n)]
     \<or> (\<exists>init through. fst (outbox_stream (rs_owner sample_spec) (Some 0) 5 [(sample_store, [])]) = init @ [sse_reset through]
          \<and> map se_id init = [Suc 0 ..< Suc (0 + n)] \<and> 0 + n < through)"
proof -
  have "store_step\<^sup>*\<^sup>* store_default sample_store" unfolding sample_store_def by (blast intro: store_step.put_run)
  then show ?thesis using outbox_stream_gap_free [of "[(sample_store, [])]" "rs_owner sample_spec" 0 5] by simp
qed

theorem run_stream_is_log_witness:
  "fst (run_stream (rs_owner sample_spec) (RunId 1) 0 5 [(sample_store, [])])
     = map (\<lambda>i. sse_of (0 + i + 1) (RunId 1) (0 + i + 1) (sr_events sample_run_record ! (0 + i)))
         [0 ..< length (fst (run_stream (rs_owner sample_spec) (RunId 1) 0 5 [(sample_store, [])]))]"
proof -
  obtain sent how where run: "run_stream (rs_owner sample_spec) (RunId 1) 0 5 [(sample_store, [])] = (sent, how)" by fastforce
  have "reads_log (RunId 1) [] [(sample_store, [])] (sr_events sample_run_record)"
    using sample_store_fields(1) by auto
  from run_stream_is_log [OF this run] run show ?thesis by simp
qed

theorem run_stream_catches_up_witness:
  "map se_id (fst (run_stream (rs_owner sample_spec) (RunId 1) 0 5 [(sample_store, [])])) = [1 ..< Suc (length (sr_events sample_run_record))]"
proof -
  have "\<forall>i < length (sr_events sample_run_record) - 1. \<not> is_end_event (sr_events sample_run_record ! i)"
    "length (sr_events sample_run_record) \<le> 5" "length (sr_events sample_run_record) < 1 * PAGE"
    by (simp_all add: sample_run_record_def PAGE_def)
  then have "fst (run_stream (rs_owner sample_spec) (RunId 1) 0 5 [(sample_store, [])])
     = map (\<lambda>i. sse_of (i + 1) (RunId 1) (i + 1) (sr_events sample_run_record ! i)) [0 ..< length (sr_events sample_run_record)]"
    using sample_store_fields(1) by (intro run_stream_catches_up) auto
  then show ?thesis by (simp add: sse_of_def comp_def map_Suc_upt)
qed

end
