(* ===== verification/Scheduler.thy ===== *)
theory Scheduler
  imports Trigger_Fire
begin

text \<open>
  The scheduler (\<open>crates/server/src/scheduler.rs\<close>): the next tick of a schedule, one pass over the due
  triggers, and the passes a server runs back to back. The croner crate (parsing a cron expression,
  its next occurrence, whether a wall-clock time matches) and chrono with its time zones (offsets,
  what instants a wall-clock time names) are the parameters \<open>cron_lib\<close>. Instants and wall-clock times are
  milliseconds: an instant since the epoch, a wall-clock time as if it were UTC. They stay within the
  dates chrono has, far from the ends of \<open>i64\<close>. Reports to stderr are left out.
\<close>

definition MISSED_AFTER_MS :: int where
  "MISSED_AFTER_MS = 60000"

definition PASS_LIMIT :: nat where
  "PASS_LIMIT = 100"

definition MAX_CANDIDATES :: nat where
  "MAX_CANDIDATES = 1000"

definition DRAIN_PASSES :: nat where
  "DRAIN_PASSES = 10"

section \<open>The crates\<close>

text \<open>The instants a wall-clock time names in a zone.\<close>

datatype local_result = LocalNone | LocalSingle int | LocalAmbiguous int int

record ('c, 'z) cron_lib =
  cl_parse :: "string \<Rightarrow> string + 'c"
  cl_zone :: "string \<Rightarrow> 'z option"
  cl_in_range :: "int \<Rightarrow> bool"
  cl_next :: "'c \<Rightarrow> 'z \<Rightarrow> int \<Rightarrow> string + int"
  cl_matching :: "'c \<Rightarrow> int \<Rightarrow> string + bool"
  cl_offset_secs :: "'z \<Rightarrow> int \<Rightarrow> int"
  cl_local :: "'z \<Rightarrow> int \<Rightarrow> local_result"

section \<open>Ticks\<close>

definition MINUTE :: int where
  "MINUTE = 60000"

definition STEP :: int where
  "STEP = 60 * MINUTE"

text \<open>\<open>from_timestamp_millis(ms).unwrap_or_default()\<close>\<close>

definition naive_utc :: "('c, 'z) cron_lib \<Rightarrow> int \<Rightarrow> int" where
  "naive_utc lib ms = (if cl_in_range lib ms then ms else 0)"

definition offset_of :: "('c, 'z) cron_lib \<Rightarrow> 'z \<Rightarrow> int \<Rightarrow> int" where
  "offset_of lib zone ms = cl_offset_secs lib zone (naive_utc lib ms) * 1000"

text \<open>The bisection of \<open>gap_tick\<close>: where the offset is first above the old one, within a minute.\<close>

function bisect_gap :: "(int \<Rightarrow> int) \<Rightarrow> int \<Rightarrow> int \<Rightarrow> int \<Rightarrow> int" where
  "bisect_gap offset old low high =
     (if high - low > MINUTE
      then let middle = low + (high - low) div 2
           in if offset middle > old then bisect_gap offset old low middle else bisect_gap offset old middle high
      else high)"
  by pat_completeness auto
termination
  by (relation "measure (\<lambda>(offset, old, low, high). nat (high - low))") (auto simp: MINUTE_def)

declare bisect_gap.simps [simp del]

definition resume_of :: "(int \<Rightarrow> int) \<Rightarrow> int \<Rightarrow> int \<Rightarrow> int \<Rightarrow> int" where
  "resume_of offset old from to =
     (let high = bisect_gap offset old from to;
          resume = high - high mod MINUTE
      in if offset resume > old then resume else resume + MINUTE)"

text \<open>Whether the pattern names one of the minutes that were skipped.\<close>

function skipped_match :: "('c, 'z) cron_lib \<Rightarrow> 'c \<Rightarrow> int \<Rightarrow> int \<Rightarrow> string + bool" where
  "skipped_match lib cron skipped until =
     (if skipped < until
      then (case cl_matching lib cron (naive_utc lib skipped) of
              Inl e \<Rightarrow> Inl e
            | Inr True \<Rightarrow> Inr True
            | Inr False \<Rightarrow> skipped_match lib cron (skipped + MINUTE) until)
      else Inr False)"
  by pat_completeness auto
termination
  by (relation "measure (\<lambda>(lib, cron, skipped, until). nat (until - skipped))") (auto simp: MINUTE_def)

declare skipped_match.simps [simp del]

function gap_tick :: "('c, 'z) cron_lib \<Rightarrow> 'c \<Rightarrow> 'z \<Rightarrow> int \<Rightarrow> int \<Rightarrow> int \<Rightarrow> string + int option" where
  "gap_tick lib cron zone after_ms before_ms from =
     (if from < before_ms
      then
        let to = min (from + STEP) before_ms;
            old = offset_of lib zone from;
            new = offset_of lib zone to;
            go_on = gap_tick lib cron zone after_ms before_ms to
        in if new > old
           then
             let resume = resume_of (offset_of lib zone) old from to
             in if after_ms < resume \<and> resume < before_ms
                then (case skipped_match lib cron (resume + old) (resume + new) of
                        Inl e \<Rightarrow> Inl e
                      | Inr True \<Rightarrow> Inr (Some resume)
                      | Inr False \<Rightarrow> go_on)
                else go_on
           else go_on
      else Inr None)"
  by pat_completeness auto
termination
  by (relation "measure (\<lambda>(lib, cron, zone, after_ms, before_ms, from). nat (before_ms - from))")
    (auto simp: STEP_def MINUTE_def)

declare gap_tick.simps [simp del]

text \<open>The minutes before the candidate that never happened, three hours of them at most.\<close>

fun before_gap :: "('c, 'z) cron_lib \<Rightarrow> 'c \<Rightarrow> 'z \<Rightarrow> nat \<Rightarrow> int \<Rightarrow> string + bool" where
  "before_gap lib cron zone 0 skipped = Inr False"
| "before_gap lib cron zone (Suc n) skipped =
     (case cl_local lib zone skipped of
        LocalNone \<Rightarrow>
          (case cl_matching lib cron skipped of
             Inl e \<Rightarrow> Inl e
           | Inr True \<Rightarrow> Inr True
           | Inr False \<Rightarrow> before_gap lib cron zone n (skipped - MINUTE))
      | _ \<Rightarrow> Inr False)"

definition is_tick :: "('c, 'z) cron_lib \<Rightarrow> 'c \<Rightarrow> 'z \<Rightarrow> int \<Rightarrow> string + bool" where
  "is_tick lib cron zone candidate =
     (let wall = candidate + cl_offset_secs lib zone candidate * 1000 in
      if (case cl_local lib zone wall of LocalAmbiguous first second \<Rightarrow> candidate \<noteq> first | _ \<Rightarrow> False) then Inr False
      else
        (case cl_matching lib cron wall of
           Inl e \<Rightarrow> Inl e
         | Inr True \<Rightarrow> Inr True
         | Inr False \<Rightarrow> before_gap lib cron zone (3 * 60) (wall - MINUTE)))"

fun next_candidate :: "('c, 'z) cron_lib \<Rightarrow> 'c \<Rightarrow> 'z \<Rightarrow> int \<Rightarrow> nat \<Rightarrow> int \<Rightarrow> string + int" where
  "next_candidate lib cron zone after_ms 0 after = Inl ''no next tick''"
| "next_candidate lib cron zone after_ms (Suc n) after =
     (case cl_next lib cron zone after of
        Inl e \<Rightarrow> Inl (''no next tick: '' @ e)
      | Inr candidate \<Rightarrow>
          (case is_tick lib cron zone candidate of
             Inl e \<Rightarrow> Inl e
           | Inr True \<Rightarrow>
               (case gap_tick lib cron zone after_ms candidate after_ms of
                  Inl e \<Rightarrow> Inl e
                | Inr None \<Rightarrow> Inr candidate
                | Inr (Some tick) \<Rightarrow> Inr tick)
           | Inr False \<Rightarrow> next_candidate lib cron zone after_ms n candidate))"

definition next_tick :: "('c, 'z) cron_lib \<Rightarrow> string \<Rightarrow> string \<Rightarrow> int \<Rightarrow> string + int" where
  "next_tick lib cron_text time_zone after_ms =
     (case cl_parse lib cron_text of
        Inl e \<Rightarrow> Inl (''not a cron expression: '' @ e)
      | Inr cron \<Rightarrow>
          (case cl_zone lib time_zone of
             None \<Rightarrow> Inl (''not a known time zone: '' @ time_zone)
           | Some zone \<Rightarrow>
               if \<not> cl_in_range lib after_ms then Inl ''a time out of range''
               else next_candidate lib cron zone after_ms MAX_CANDIDATES after_ms))"

section \<open>A pass\<close>

text \<open>\<open>format!("{error:?}")\<close> of a \<open>FireError\<close>\<close>

fun fire_debug :: "env \<Rightarrow> fire_error \<Rightarrow> string" where
  "fire_debug env (NotStored message) = ''NotStored('' @ qt_debug (en_txt env) message @ '')''"
| "fire_debug env (MaybeStored run message) =
     ''MaybeStored { run: RunId('' @ uuid_to_string (en_uuid env) (run_uuid run) @ ''), message: ''
       @ qt_debug (en_txt env) message @ '' }''"

text \<open>\<open>None\<close> is a panic; it does not happen.\<close>

definition fire_due_trigger ::
    "('c, 'z) cron_lib \<Rightarrow> env \<Rightarrow> stored_trigger \<Rightarrow> int \<Rightarrow> server \<Rightarrow> ((string + run_id option) \<times> server) option" where
  "fire_due_trigger lib env t now sv =
     (case (tr_kind t, tr_next_fire_ms t) of
        (Schedule cron time_zone, Some due) \<Rightarrow>
          (let missed = now - due > MISSED_AFTER_MS;
               move = (\<lambda>run sv1.
                 let next = (case next_tick lib cron time_zone now of Inl e \<Rightarrow> None | Inr tick \<Rightarrow> Some tick)
                 in (case on_store (advance_trigger (tr_id t) (Some due) next) sv1 of
                       (Inl e, sv2) \<Rightarrow> (Inl (error_message e), sv2)
                     | (Inr moved, sv2) \<Rightarrow> (Inr run, sv2)))
           in if missed \<and> tr_missed t = MissedSkip then Some (move None sv)
              else
                map_option
                  (\<lambda>(fired, sv1).
                     case fired of
                       Inl e \<Rightarrow> (Inl (fire_debug env e), sv1)
                     | Inr (FiredRun run) \<Rightarrow> move (Some run) sv1
                     | Inr _ \<Rightarrow> move None sv1)
                  (fire_trigger_at env (tr_owner t) (tr_id t) due sv))
      | _ \<Rightarrow> Some (Inr None, sv))"

text \<open>The first loop of a pass: a schedule with no tick gets its first, or is paused when it has none.\<close>

definition first_tick :: "('c, 'z) cron_lib \<Rightarrow> int \<Rightarrow> stored_trigger \<Rightarrow> server \<Rightarrow> (string + unit) \<times> server" where
  "first_tick lib now t sv =
     (case tr_kind t of
        Schedule cron time_zone \<Rightarrow>
          (case next_tick lib cron time_zone now of
             Inr first \<Rightarrow>
               (case on_store (advance_trigger (tr_id t) None (Some first)) sv of
                  (Inl e, sv1) \<Rightarrow> (Inl (error_message e), sv1) | (Inr moved, sv1) \<Rightarrow> (Inr (), sv1))
           | Inl e \<Rightarrow>
               (case on_store (set_enabled (tr_owner t) (tr_id t) False) sv of
                  (Inl e, sv1) \<Rightarrow> (Inl (error_message e), sv1) | (Inr found, sv1) \<Rightarrow> (Inr (), sv1)))
      | Webhook rotation \<Rightarrow> (Inr (), sv))"

fun schedule_first :: "('c, 'z) cron_lib \<Rightarrow> int \<Rightarrow> stored_trigger list \<Rightarrow> server \<Rightarrow> (string + unit) \<times> server" where
  "schedule_first lib now [] sv = (Inr (), sv)"
| "schedule_first lib now (t # ts) sv =
     (case first_tick lib now t sv of
        (Inl e, sv1) \<Rightarrow> (Inl e, sv1)
      | (Inr u, sv1) \<Rightarrow> schedule_first lib now ts sv1)"

text \<open>The second: each due trigger is fired, with what the environment decides for it.\<close>

fun fire_all ::
    "('c, 'z) cron_lib \<Rightarrow> (trigger_id \<Rightarrow> env) \<Rightarrow> int \<Rightarrow> stored_trigger list \<Rightarrow> server \<Rightarrow> (run_id list \<times> server) option" where
  "fire_all lib envs now [] sv = Some ([], sv)"
| "fire_all lib envs now (t # ts) sv =
     (case fire_due_trigger lib (envs (tr_id t)) t now sv of
        None \<Rightarrow> None
      | Some (r, sv1) \<Rightarrow>
          map_option (\<lambda>(fired, sv2). ((case r of Inr (Some run) \<Rightarrow> run # fired | _ \<Rightarrow> fired), sv2))
            (fire_all lib envs now ts sv1))"

definition scheduler_pass ::
    "('c, 'z) cron_lib \<Rightarrow> (trigger_id \<Rightarrow> env) \<Rightarrow> int \<Rightarrow> server \<Rightarrow> ((string + run_id list \<times> bool) \<times> server) option" where
  "scheduler_pass lib envs now sv =
     (case schedule_first lib now (unscheduled_triggers PASS_LIMIT (sv_store sv)) sv of
        (Inl e, sv1) \<Rightarrow> Some (Inl e, sv1)
      | (Inr u, sv1) \<Rightarrow>
          let due = due_triggers now PASS_LIMIT (sv_store sv1) in
          map_option (\<lambda>(fired, sv2). (Inr (fired, length due = PASS_LIMIT), sv2)) (fire_all lib envs now due sv1))"

definition schedule_due ::
    "('c, 'z) cron_lib \<Rightarrow> (trigger_id \<Rightarrow> env) \<Rightarrow> int \<Rightarrow> server \<Rightarrow> ((string + run_id list) \<times> server) option" where
  "schedule_due lib envs now sv =
     map_option (\<lambda>(r, sv1). (map_sum id fst r, sv1)) (scheduler_pass lib envs now sv)"

text \<open>One round of \<open>schedule_forever\<close>: passes back to back while each is full. A clock reading is what the
  call of \<open>now_ms\<close> came to; a pass that panics leaves the server as it was found here.\<close>

fun drain ::
    "('c, 'z) cron_lib \<Rightarrow> ((string + int) \<times> (trigger_id \<Rightarrow> env)) list \<Rightarrow> server \<Rightarrow> server" where
  "drain lib [] sv = sv"
| "drain lib ((clock, envs) # rest) sv =
     (case clock of
        Inl e \<Rightarrow> sv
      | Inr now \<Rightarrow>
          (case scheduler_pass lib envs now sv of
             Some (Inr (fired, True), sv1) \<Rightarrow> drain lib rest sv1
           | Some (r, sv1) \<Rightarrow> sv1
           | None \<Rightarrow> sv))"

definition drain_round ::
    "('c, 'z) cron_lib \<Rightarrow> (nat \<Rightarrow> (string + int) \<times> (trigger_id \<Rightarrow> env)) \<Rightarrow> server \<Rightarrow> server" where
  "drain_round lib readings sv = drain lib (map readings [0..<DRAIN_PASSES]) sv"

section \<open>Gaps\<close>

lemma bisect_gap_near:
  assumes "low < T" and "T \<le> high" and "\<forall>ms \<in> {low..high}. offset ms > old \<longleftrightarrow> T \<le> ms"
  shows "T \<le> bisect_gap offset old low high \<and> bisect_gap offset old low high < T + MINUTE
    \<and> bisect_gap offset old low high \<le> high"
  using assms
proof (induction offset old low high rule: bisect_gap.induct)
  case (1 offset old low high)
  let ?m = "low + (high - low) div 2"
  show ?case
  proof (cases "high - low > MINUTE")
    case wide: True
    then have m: "low < ?m" "?m < high" by (auto simp: MINUTE_def)
    show ?thesis
    proof (cases "offset ?m > old")
      case True
      then have "T \<le> ?m" using "1.prems"(3) m by auto
      then have "T \<le> bisect_gap offset old low ?m \<and> bisect_gap offset old low ?m < T + MINUTE \<and> bisect_gap offset old low ?m \<le> ?m"
        using "1.IH"(1) [OF wide refl True] "1.prems" m by auto
      then show ?thesis using wide True m by (subst (1 2 3) bisect_gap.simps) (simp add: Let_def)
    next
      case False
      then have "?m < T" using "1.prems"(3) m by auto
      then have "T \<le> bisect_gap offset old ?m high \<and> bisect_gap offset old ?m high < T + MINUTE \<and> bisect_gap offset old ?m high \<le> high"
        using "1.IH"(2) [OF wide refl False] "1.prems" m by auto
      then show ?thesis using wide False m by (subst (1 2 3) bisect_gap.simps) (simp add: Let_def)
    qed
  next
    case False
    then show ?thesis using "1.prems" by (subst (1 2 3) bisect_gap.simps) simp
  qed
qed

lemma aligned_floor:
  fixes T high :: int
  assumes "T mod MINUTE = 0" and "T \<le> high" and "high < T + MINUTE"
  shows "high - high mod MINUTE = T"
proof -
  from assms have "high mod MINUTE = (high - T) mod MINUTE" by (simp add: mod_diff_right_eq [of high T MINUTE, symmetric])
  also have "\<dots> = high - T" using assms by (simp add: MINUTE_def)
  finally show ?thesis by simp
qed

lemma resume_found:
  assumes "from < T" and "T \<le> to" and "T mod MINUTE = 0" and "\<forall>ms \<in> {from..to}. offset ms > old \<longleftrightarrow> T \<le> ms"
  shows "resume_of offset old from to = T"
  using bisect_gap_near [OF assms(1,2,4)] aligned_floor [OF assms(3)] assms by (simp add: resume_of_def Let_def)

lemma gap_tick_between: "gap_tick lib cron zone after_ms before_ms from = Inr (Some t) \<Longrightarrow> after_ms < t \<and> t < before_ms"
proof (induction lib cron zone after_ms before_ms "from" rule: gap_tick.induct)
  case (1 lib cron zone after_ms before_ms "from")
  then show ?case
    by (subst (asm) (2) gap_tick.simps) (auto simp: Let_def split: if_splits sum.splits bool.splits)
qed

text \<open>The schedule names the wall-clock time of an instant; the instant repeats one the clocks went back over.\<close>

definition named :: "('c, 'z) cron_lib \<Rightarrow> 'c \<Rightarrow> 'z \<Rightarrow> int \<Rightarrow> bool" where
  "named lib cron zone at \<longleftrightarrow> cl_matching lib cron (at + cl_offset_secs lib zone at * 1000) = Inr True"

definition repeated :: "('c, 'z) cron_lib \<Rightarrow> 'z \<Rightarrow> int \<Rightarrow> bool" where
  "repeated lib zone at \<longleftrightarrow>
     (case cl_local lib zone (at + cl_offset_secs lib zone at * 1000) of LocalAmbiguous first second \<Rightarrow> at \<noteq> first | _ \<Rightarrow> False)"

lemma is_tick_named: "is_tick lib cron zone at = Inr False \<Longrightarrow> named lib cron zone at \<Longrightarrow> repeated lib zone at"
  by (auto simp: is_tick_def named_def repeated_def Let_def split: if_splits)

text \<open>What croner documents of its next occurrence: it is later, and no instant between has a wall-clock time
  the pattern names.\<close>

definition croner_ok :: "('c, 'z) cron_lib \<Rightarrow> bool" where
  "croner_ok lib \<longleftrightarrow> (\<forall>cron zone after c. cl_next lib cron zone after = Inr c \<longrightarrow>
     after < c \<and> (\<forall>u. after < u \<and> u < c \<longrightarrow> \<not> named lib cron zone u))"

lemma next_candidate_first:
  assumes "croner_ok lib"
  shows "next_candidate lib cron zone after_ms n after = Inr t \<Longrightarrow> after_ms \<le> after
    \<Longrightarrow> \<forall>u. after_ms < u \<and> u \<le> after \<longrightarrow> named lib cron zone u \<longrightarrow> repeated lib zone u
    \<Longrightarrow> after_ms < t \<and> (\<forall>u. after_ms < u \<and> u < t \<longrightarrow> named lib cron zone u \<longrightarrow> repeated lib zone u)"
proof (induction n arbitrary: after)
  case (Suc n)
  from Suc.prems(1) obtain c where c: "cl_next lib cron zone after = Inr c" by (auto split: sum.splits)
  then have later: "after < c" and quiet: "\<And>u. after < u \<Longrightarrow> u < c \<Longrightarrow> \<not> named lib cron zone u"
    using assms unfolding croner_ok_def by blast+
  have before: "\<forall>u. after_ms < u \<and> u < c \<longrightarrow> named lib cron zone u \<longrightarrow> repeated lib zone u"
    using Suc.prems(3) quiet by (metis not_le)
  from Suc.prems(1) c obtain b where b: "is_tick lib cron zone c = Inr b" by (auto split: sum.splits)
  show ?case
  proof (cases b)
    case True
    with Suc.prems(1) b c have "t = c \<or> gap_tick lib cron zone after_ms c after_ms = Inr (Some t)"
      by (auto split: sum.splits option.splits)
    then have "after_ms < t \<and> t \<le> c" using gap_tick_between [of lib cron zone after_ms c after_ms t] later Suc.prems(2) by auto
    with before show ?thesis by auto
  next
    case False
    then have "repeated lib zone c \<or> \<not> named lib cron zone c" using b is_tick_named [of lib cron zone c] by auto
    with before have "\<forall>u. after_ms < u \<and> u \<le> c \<longrightarrow> named lib cron zone u \<longrightarrow> repeated lib zone u"
      by (metis order_le_less)
    with Suc.IH [of c] Suc.prems(1,2) b c False later show ?thesis by simp
  qed
qed simp

lemma next_tick_parts:
  assumes "next_tick lib expr time_zone after_ms = Inr t"
  obtains cron zone where "cl_parse lib expr = Inr cron" "cl_zone lib time_zone = Some zone"
    "next_candidate lib cron zone after_ms MAX_CANDIDATES after_ms = Inr t"
  using assms by (auto simp: next_tick_def split: sum.splits option.splits if_splits)

lemma next_tick_after: "croner_ok lib \<Longrightarrow> next_tick lib expr time_zone after_ms = Inr t \<Longrightarrow> after_ms < t"
  by (erule next_tick_parts) (frule next_candidate_first, auto)

section \<open>Fires of the scheduler\<close>

lemma append_events_triggers: "so_triggers (snd (append_events now nm events s)) = so_triggers s"
  by (cases rule: append_events_cases [of now nm events s]) simp_all

lemma put_run_triggers: "so_triggers (snd (put_run now run s)) = so_triggers s"
  by (auto simp: put_run_def lock_write_def number_def Let_def split: sum.splits option.splits if_splits)

lemma settle_fire_triggers:
  "settle_fire env spec gate sv cell = (r, sv', cell') \<Longrightarrow> so_triggers (sv_store sv') = so_triggers (sv_store sv)"
proof (erule settle_fire_cases)
  fix res
  assume "append_events (en_store_now env) (rs_run_id spec) [run_cancelled_event env spec] (sv_store sv) = (Inr res, sv_store sv')"
  then show "so_triggers (sv_store sv') = so_triggers (sv_store sv)" by (metis append_events_triggers snd_conv)
qed simp_all

lemma fire_with_triggers:
  assumes "store_ok (sv_store sv)" and "fire_with env own nm key sv = Some (r, sv')"
  shows "so_triggers (sv_store sv') = so_triggers (sv_store sv)"
  using assms
proof (cases rule: fire_with_cases)
  case (settled t agent spec sv2 fr cell put)
  then show ?thesis using settle_fire_triggers [OF settled(9)] put_run_triggers by (metis snd_conv)
qed simp_all

lemma tick_triggers:
  assumes "store_ok (sv_store sv)" and "fire_trigger_at env own nm tick sv = Some (r, sv')"
  shows "so_triggers (sv_store sv') = so_triggers (sv_store sv)"
  using assms(2) fire_with_triggers [OF assms(1)] by (auto simp: fire_trigger_at_def drop_pushed_def)

lemma fire_trigger_at_touches:
  assumes "store_ok (sv_store sv)" and "fire_trigger_at env own nm tick sv = Some (r, sv')"
  shows "touches_only env (tick_run (en_uuid env) nm tick) sv sv' \<and> (\<forall>run. r = Inr (FiredRun run) \<longrightarrow>
     run = tick_run (en_uuid env) nm tick \<and> get_run run (sv_store sv') \<noteq> None)"
proof -
  let ?key = "KeyTick (tick_run (en_uuid env) nm tick) tick"
  from assms(2) obtain r1 where fire: "fire_with env own nm (Some ?key) sv = Some (r1, sv')" and r: "r = map_sum id fst r1"
    by (auto simp: fire_trigger_at_def drop_pushed_def)
  have "\<exists>p. r1 = Inr (f, p)" if "r = Inr f" for f using r that by (cases r1) auto
  then show ?thesis using fire_touches_only [OF assms(1) fire] by (fastforce simp: key_run_def)
qed

lemma advance_runs: "get_run k (snd (advance_trigger nm due next s)) = get_run k s"
  by (simp add: advance_trigger_def on_triggers_def get_run_def lock_read_def Let_def split: sum.split)

text \<open>A fire of a due trigger that succeeds: its tick's run is fired first, unless the tick is skipped, and
  then its tick is moved.\<close>

lemma fire_due_cases:
  assumes "fire_due_trigger lib env t now sv = Some (Inr run, sv')" and "tr_kind t = Schedule cron time_zone" and "tr_next_fire_ms t = Some due"
  obtains (skipped) moved where "now - due > MISSED_AFTER_MS" "tr_missed t = MissedSkip" "run = None"
      "on_store (advance_trigger (tr_id t) (Some due)
        (case next_tick lib cron time_zone now of Inl e \<Rightarrow> None | Inr tick \<Rightarrow> Some tick)) sv = (Inr moved, sv')"
  | (fired) sv1 f moved where "\<not> (now - due > MISSED_AFTER_MS \<and> tr_missed t = MissedSkip)"
      "fire_trigger_at env (tr_owner t) (tr_id t) due sv = Some (Inr f, sv1)" "\<forall>k. run = Some k \<longrightarrow> f = FiredRun k"
      "on_store (advance_trigger (tr_id t) (Some due)
        (case next_tick lib cron time_zone now of Inl e \<Rightarrow> None | Inr tick \<Rightarrow> Some tick)) sv1 = (Inr moved, sv')"
proof -
  let ?next = "case next_tick lib cron time_zone now of Inl e \<Rightarrow> None | Inr tick \<Rightarrow> Some tick"
  let ?move = "\<lambda>run sv1. case on_store (advance_trigger (tr_id t) (Some due) ?next) sv1 of
     (Inl e, sv2) \<Rightarrow> (Inl (error_message e), sv2) | (Inr moved, sv2) \<Rightarrow> (Inr run, sv2)"
  have move: "run' = run \<and> (\<exists>moved. on_store (advance_trigger (tr_id t) (Some due) ?next) sv1 = (Inr moved, sv'))"
    if "?move run' sv1 = (Inr run, sv')" for run' sv1
    using that by (auto split: prod.splits sum.splits)
  show thesis
  proof (cases "now - due > MISSED_AFTER_MS \<and> tr_missed t = MissedSkip")
    case True
    with assms have "?move None sv = (Inr run, sv')" by (simp add: fire_due_trigger_def Let_def)
    from move [OF this] True show thesis using skipped by metis
  next
    case False
    with assms obtain r1 sv1 where fire: "fire_trigger_at env (tr_owner t) (tr_id t) due sv = Some (r1, sv1)"
      and res: "(case r1 of Inl e \<Rightarrow> (Inl (fire_debug env e), sv1) | Inr (FiredRun k) \<Rightarrow> ?move (Some k) sv1 | Inr _ \<Rightarrow> ?move None sv1)
        = (Inr run, sv')"
      unfolding fire_due_trigger_def Let_def by auto
    from res obtain f where f: "r1 = Inr f" by (cases r1) auto
    have "\<exists>run'. ?move run' sv1 = (Inr run, sv') \<and> (\<forall>k. run' = Some k \<longrightarrow> f = FiredRun k)"
      using res f by (cases f) auto
    then obtain run' where "?move run' sv1 = (Inr run, sv')" "\<forall>k. run' = Some k \<longrightarrow> f = FiredRun k" by blast
    with move [of run' sv1] fired [OF False fire [unfolded f]] show thesis by blast
  qed
qed

lemma moved_tick_gone:
  assumes "on_store (advance_trigger nm (Some due) next) sv = (Inr moved, sv')" and "next \<noteq> Some due"
    and "distinct (map tr_id (mx_value (so_triggers (sv_store sv))))"
  shows "\<not> has_tick nm (Some due) (sv_store sv')"
proof -
  from assms(1) have adv: "advance_trigger nm (Some due) next (sv_store sv) = (Inr moved, sv_store sv')" by (simp add: on_store_res)
  then have "\<not> mx_poisoned (so_triggers (sv_store sv))"
    by (auto simp: advance_trigger_def on_triggers_def lock_write_def split: if_splits)
  from advance_trigger_tick(3) [OF this assms(3,2), of nm] adv show ?thesis by simp
qed


section \<open>Passes\<close>

lemma store_ok_advance: "store_ok (snd (advance_trigger nm due next s)) = store_ok s"
  by (simp add: store_ok_def advance_trigger_def on_triggers_def Let_def split: sum.split)

lemma settle_fire_ok:
  assumes "settle_fire env spec gate sv cell = (r, sv', cell')" and "store_ok (sv_store sv)"
  shows "store_ok (sv_store sv')"
  using assms(1)
proof (cases rule: settle_fire_cases)
  case (held res)
  then show ?thesis using append_checked_ok [OF assms(2)] by (metis append_events_def snd_conv)
qed (use assms(2) in simp_all)

lemma fire_with_ok:
  assumes "store_ok (sv_store sv)" and "fire_with env own nm key sv = Some (r, sv')"
  shows "store_ok (sv_store sv')"
  using assms
proof (cases rule: fire_with_cases)
  case (settled t agent spec sv2 fr cell put)
  then have "store_ok (sv_store sv2)" using put_run_ok [OF assms(1)] by (metis snd_conv)
  with settled(9) show ?thesis by (rule settle_fire_ok)
qed (use assms(1) in simp_all)

lemma fire_trigger_at_returns: "\<exists>r sv'. fire_trigger_at env own nm tick sv = Some (r, sv')"
  using fire_with_returns by (fastforce simp: fire_trigger_at_def drop_pushed_def)

text \<open>What a fire of a trigger as it was read does to the runs, whatever it answers.\<close>

definition fires_only :: "(trigger_id \<Rightarrow> env) \<Rightarrow> stored_trigger list \<Rightarrow> server \<Rightarrow> server \<Rightarrow> bool" where
  "fires_only envs ts sv sv' \<longleftrightarrow>
     store_ok (sv_store sv') \<and> (\<forall>k. get_run k (sv_store sv) \<noteq> None \<longrightarrow> get_run k (sv_store sv') \<noteq> None)
     \<and> (\<forall>k. get_run k (sv_store sv') \<noteq> get_run k (sv_store sv) \<longrightarrow>
          (\<exists>t \<in> set ts. \<exists>due. tr_next_fire_ms t = Some due \<and> k = tick_run (en_uuid (envs (tr_id t))) (tr_id t) due))"

lemma fires_only_refl: "store_ok (sv_store sv) \<Longrightarrow> fires_only envs ts sv sv"
  by (simp add: fires_only_def)

lemma fires_only_moved:
  "fires_only envs ts sv sv1 \<Longrightarrow> fires_only envs ts sv (snd (on_store (advance_trigger nm due next) sv1))"
  by (simp add: fires_only_def store_ok_advance advance_runs)

lemma fires_only_append:
  assumes "fires_only envs ts sv sv1" and "fires_only envs ts' sv1 sv2"
  shows "fires_only envs (ts @ ts') sv sv2"
  using assms unfolding fires_only_def by (metis UnI1 UnI2 set_append)

lemma tick_fires_only:
  assumes "store_ok (sv_store sv)" and "fire_trigger_at (envs (tr_id t)) own (tr_id t) due sv = Some (r, sv')"
    and "tr_next_fire_ms t = Some due"
  shows "fires_only envs [t] sv sv'"
proof -
  have ok: "store_ok (sv_store sv')"
    using assms(2) fire_with_ok [OF assms(1)] by (auto simp: fire_trigger_at_def drop_pushed_def)
  have touch: "touches_only (envs (tr_id t)) (tick_run (en_uuid (envs (tr_id t))) (tr_id t) due) sv sv'"
    using fire_trigger_at_touches [OF assms(1,2)] by blast
  then have "get_run k (sv_store sv') \<noteq> None" if "get_run k (sv_store sv) \<noteq> None" for k
    using that unfolding touches_only_def by (metis option.distinct(1) option.exhaust)
  with ok touch assms(3) show ?thesis unfolding fires_only_def touches_only_def by (metis list.set_intros(1))
qed

lemma fire_due_fires_only:
  assumes "store_ok (sv_store sv)"
  shows "\<exists>r sv'. fire_due_trigger lib (envs (tr_id t)) t now sv = Some (r, sv') \<and> fires_only envs [t] sv sv'
    \<and> (\<forall>run. r = Inr (Some run) \<longrightarrow> get_run run (sv_store sv') \<noteq> None
         \<and> (\<exists>due. tr_next_fire_ms t = Some due \<and> run = tick_run (en_uuid (envs (tr_id t))) (tr_id t) due))"
proof (cases "\<exists>cron time_zone due. tr_kind t = Schedule cron time_zone \<and> tr_next_fire_ms t = Some due")
  case False
  then have "fire_due_trigger lib (envs (tr_id t)) t now sv = Some (Inr None, sv)"
    by (auto simp: fire_due_trigger_def split: trigger_kind.splits option.splits)
  then show ?thesis using fires_only_refl [OF assms] by simp
next
  case True
  then obtain cron time_zone due where t: "tr_kind t = Schedule cron time_zone" "tr_next_fire_ms t = Some due" by blast
  let ?env = "envs (tr_id t)"
  let ?adv = "advance_trigger (tr_id t) (Some due) (case next_tick lib cron time_zone now of Inl e \<Rightarrow> None | Inr tick \<Rightarrow> Some tick)"
  let ?move = "\<lambda>run sv1. case on_store ?adv sv1 of
     (Inl e, sv2) \<Rightarrow> (Inl (error_message e), sv2) | (Inr moved, sv2) \<Rightarrow> (Inr run, sv2)"
  have move: "snd (?move run sv1) = snd (on_store ?adv sv1) \<and> (\<forall>x. fst (?move run sv1) = Inr x \<longrightarrow> x = run)" for run :: "run_id option" and sv1
    by (auto split: prod.split sum.split)
  have moved: ?thesis if "fire_due_trigger lib ?env t now sv = Some (?move run sv1)" and "fires_only envs [t] sv sv1"
    and "\<forall>k. run = Some k \<longrightarrow> get_run k (sv_store sv1) \<noteq> None \<and> k = tick_run (en_uuid ?env) (tr_id t) due" for run sv1
  proof -
    obtain r sv' where m: "?move run sv1 = (r, sv')" by fastforce
    then have sv': "sv' = snd (on_store ?adv sv1)" and r: "\<forall>x. r = Inr x \<longrightarrow> x = run" using move [of run sv1] by auto
    have "fires_only envs [t] sv sv'" unfolding sv' by (rule fires_only_moved [OF that(2)])
    moreover have "get_run k (sv_store sv') = get_run k (sv_store sv1)" for k unfolding sv' by (simp add: advance_runs)
    ultimately show ?thesis using that(1,3) m r t(2) by auto
  qed
  obtain r1 sv1 where fire: "fire_trigger_at ?env (tr_owner t) (tr_id t) due sv = Some (r1, sv1)"
    using fire_trigger_at_returns by blast
  note one = tick_fires_only [OF assms, of envs t "tr_owner t" due r1 sv1, OF fire t(2)]
  note found = fire_trigger_at_touches [OF assms fire, THEN conjunct2]
  show ?thesis
  proof (cases "now - due > MISSED_AFTER_MS \<and> tr_missed t = MissedSkip")
    case True
    then have "fire_due_trigger lib ?env t now sv = Some (?move None sv)" using t by (simp add: fire_due_trigger_def Let_def)
    then show ?thesis by (rule moved) (simp_all add: fires_only_refl [OF assms])
  next
    case False
    then have res: "fire_due_trigger lib ?env t now sv = Some (case r1 of Inl e \<Rightarrow> (Inl (fire_debug ?env e), sv1)
        | Inr (FiredRun k) \<Rightarrow> ?move (Some k) sv1 | Inr _ \<Rightarrow> ?move None sv1)"
      using t fire by (auto simp: fire_due_trigger_def Let_def)
    consider e where "r1 = Inl e" | k where "r1 = Inr (FiredRun k)" | "\<forall>k. r1 \<noteq> Inr (FiredRun k)" "\<forall>e. r1 \<noteq> Inl e"
      by (cases r1) auto
    then show ?thesis
    proof cases
      case 1
      with res one show ?thesis by auto
    next
      case 2
      with res have "fire_due_trigger lib ?env t now sv = Some (?move (Some k) sv1)" by simp
      then show ?thesis by (rule moved) (use one found 2 in auto)
    next
      case 3
      then obtain f where "r1 = Inr f" "\<forall>k. f \<noteq> FiredRun k" by (cases r1) auto
      with res have "fire_due_trigger lib ?env t now sv = Some (?move None sv1)" by (cases f) auto
      then show ?thesis by (rule moved) (use one in simp_all)
    qed
  qed
qed

lemma fire_all_fires_only:
  assumes "store_ok (sv_store sv)"
  shows "\<exists>fired sv'. fire_all lib envs now ts sv = Some (fired, sv') \<and> fires_only envs ts sv sv'
    \<and> (\<forall>run \<in> set fired. get_run run (sv_store sv') \<noteq> None
         \<and> (\<exists>t \<in> set ts. \<exists>due. tr_next_fire_ms t = Some due \<and> run = tick_run (en_uuid (envs (tr_id t))) (tr_id t) due))"
  using assms
proof (induction ts arbitrary: sv)
  case Nil
  then show ?case by (simp add: fires_only_refl)
next
  case (Cons t ts)
  from fire_due_fires_only [OF Cons.prems, of lib envs t now] obtain r sv1 where
    one: "fire_due_trigger lib (envs (tr_id t)) t now sv = Some (r, sv1)" "fires_only envs [t] sv sv1"
      "\<forall>run. r = Inr (Some run) \<longrightarrow> get_run run (sv_store sv1) \<noteq> None
         \<and> (\<exists>due. tr_next_fire_ms t = Some due \<and> run = tick_run (en_uuid (envs (tr_id t))) (tr_id t) due)" by blast
  have "store_ok (sv_store sv1)" using one(2) by (simp add: fires_only_def)
  from Cons.IH [OF this] obtain fired sv2 where
    more: "fire_all lib envs now ts sv1 = Some (fired, sv2)" "fires_only envs ts sv1 sv2"
      "\<forall>run \<in> set fired. get_run run (sv_store sv2) \<noteq> None
         \<and> (\<exists>t \<in> set ts. \<exists>due. tr_next_fire_ms t = Some due \<and> run = tick_run (en_uuid (envs (tr_id t))) (tr_id t) due)" by blast
  have "fires_only envs (t # ts) sv sv2" using fires_only_append [OF one(2) more(2)] by simp
  moreover have "get_run run (sv_store sv2) \<noteq> None" if "get_run run (sv_store sv1) \<noteq> None" for run
    using that more(2) unfolding fires_only_def by blast
  ultimately show ?case using one more
    by (cases "\<exists>run. r = Inr (Some run)") (auto split: sum.split option.split)
qed


definition same_runs :: "server \<Rightarrow> server \<Rightarrow> bool" where
  "same_runs sv sv' \<longleftrightarrow> (\<forall>k. get_run k (sv_store sv') = get_run k (sv_store sv))
     \<and> store_ok (sv_store sv') = store_ok (sv_store sv) \<and> sv_redis sv' = sv_redis sv"

lemma advance_same_runs: "same_runs sv (snd (on_store (advance_trigger nm due next) sv))"
  by (simp add: same_runs_def advance_runs store_ok_advance)

lemma enable_same_runs: "same_runs sv (snd (on_store (set_enabled own nm enabled) sv))"
  by (simp add: same_runs_def store_ok_def set_enabled_def on_triggers_def get_run_def lock_read_def Let_def split: sum.split)

lemma first_tick_same_runs: "same_runs sv (snd (first_tick lib now t sv))"
proof -
  have "same_runs sv sv1" if "on_store (advance_trigger nm d n) sv = (r, sv1)" for nm d n r sv1
    using advance_same_runs [of sv nm d n] that by simp
  moreover have "same_runs sv sv1" if "on_store (set_enabled own nm b) sv = (r, sv1)" for own nm b r sv1
    using enable_same_runs [of sv own nm b] that by simp
  moreover have "same_runs sv sv" by (simp add: same_runs_def)
  ultimately show ?thesis by (simp add: first_tick_def split: trigger_kind.split sum.split prod.split)
qed

lemma schedule_first_same_runs: "same_runs sv (snd (schedule_first lib now ts sv))"
proof (induction ts arbitrary: sv)
  case (Cons t ts)
  obtain r sv1 where one: "first_tick lib now t sv = (r, sv1)" by fastforce
  then have "same_runs sv sv1" using first_tick_same_runs [of sv lib now t] by simp
  then show ?case using Cons.IH [of sv1] one by (auto simp: same_runs_def split: sum.split)
qed (simp add: same_runs_def)

section \<open>Properties\<close>


text \<open>A schedule of every minute, in UTC.\<close>

definition minutely :: "(unit, unit) cron_lib" where
  "minutely = \<lparr>cl_parse = (\<lambda>s. Inr ()), cl_zone = (\<lambda>s. Some ()), cl_in_range = (\<lambda>ms. True),
     cl_next = (\<lambda>c z after. Inr (after - after mod MINUTE + MINUTE)), cl_matching = (\<lambda>c ms. Inr (ms mod MINUTE = 0)),
     cl_offset_secs = (\<lambda>z ms. 0), cl_local = (\<lambda>z ms. LocalSingle ms)\<rparr>"

lemma minutely_ok: "croner_ok minutely"
proof -
  have "\<not> MINUTE dvd u" if u: "after < u" "u < after - after mod MINUTE + MINUTE" for after u :: int
  proof -
    have "0 \<le> after mod MINUTE" by (simp add: MINUTE_def)
    then have "after - after mod MINUTE \<le> u" using u by linarith
    moreover have "(after - after mod MINUTE) mod MINUTE = 0" by (simp add: mod_diff_right_eq)
    ultimately have "u - u mod MINUTE = after - after mod MINUTE" using u by (intro aligned_floor) auto
    with u \<open>0 \<le> after mod MINUTE\<close> have "u mod MINUTE \<noteq> 0" by linarith
    then show ?thesis by (simp add: dvd_eq_mod_eq_0)
  qed
  then show ?thesis by (auto simp: croner_ok_def minutely_def named_def MINUTE_def)
qed

lemma minutely_tick: "next_tick minutely s z 0 = Inr MINUTE"
proof -
  have gap: "gap_tick minutely () () 0 MINUTE 0 = Inr None"
    by (subst gap_tick.simps, subst gap_tick.simps)
      (simp add: Let_def offset_of_def minutely_def MINUTE_def STEP_def)
  have "next_candidate minutely () () 0 (Suc n) 0 = Inr MINUTE" for n
    using gap by (simp add: minutely_def is_tick_def MINUTE_def)
  from this [of 999] have "next_candidate minutely () () 0 MAX_CANDIDATES 0 = Inr MINUTE" by (simp add: MAX_CANDIDATES_def)
  then show ?thesis by (simp add: next_tick_def minutely_def)
qed



text \<open>A wall-clock time the clocks skip runs once, when they resume: if the clocks go forward once, at a whole
  minute within an hour after the instant asked for and before the candidate, and the schedule names
  one of the minutes skipped, then that instant is the tick.\<close>

theorem skipped_time_runs_at_resume:
  assumes "after_ms < T" and "T < before_ms" and "before_ms \<le> after_ms + STEP" and "T mod MINUTE = 0"
    and "\<forall>ms \<in> {after_ms..before_ms}. offset_of lib zone ms > offset_of lib zone after_ms \<longleftrightarrow> T \<le> ms"
    and "skipped_match lib cron (T + offset_of lib zone after_ms) (T + offset_of lib zone before_ms) = Inr True"
  shows "gap_tick lib cron zone after_ms before_ms after_ms = Inr (Some T)"
proof -
  have "resume_of (offset_of lib zone) (offset_of lib zone after_ms) after_ms before_ms = T"
    using assms by (intro resume_found) auto
  then show ?thesis using assms by (subst gap_tick.simps) (simp add: Let_def min_def)
qed

text \<open>A zone whose clocks go forward by an hour at the second minute, and a schedule that names every minute.\<close>

definition spring :: "(unit, unit) cron_lib" where
  "spring = minutely\<lparr>cl_offset_secs := (\<lambda>z ms. if 2 * MINUTE \<le> ms then 3600 else 0)\<rparr>"

theorem skipped_time_runs_at_resume_witness: "gap_tick spring () () 0 (5 * MINUTE) 0 = Inr (Some (2 * MINUTE))"
proof (rule skipped_time_runs_at_resume)
  show "skipped_match spring () (2 * MINUTE + offset_of spring () 0) (2 * MINUTE + offset_of spring () (5 * MINUTE)) = Inr True"
    by (subst skipped_match.simps) (simp add: spring_def minutely_def offset_of_def naive_utc_def MINUTE_def)
qed (auto simp: spring_def minutely_def offset_of_def naive_utc_def MINUTE_def STEP_def)

text \<open>A due tick is settled once: a fire of a due schedule that succeeds takes that tick off the trigger
  (another scheduler that read it moves nothing), touches only the run of that tick, and reports no
  other run; a tick that was missed under a skipping rule starts nothing and leaves the queue alone.\<close>

theorem due_tick_settled:
  assumes "croner_ok lib" and "store_ok (sv_store sv)" and "distinct (map tr_id (mx_value (so_triggers (sv_store sv))))"
    and "tr_kind t = Schedule cron time_zone" and "tr_next_fire_ms t = Some due" and "due \<le> now"
    and "fire_due_trigger lib env t now sv = Some (Inr run, sv')"
  shows "\<not> has_tick (tr_id t) (Some due) (sv_store sv')
    \<and> touches_only env (tick_run (en_uuid env) (tr_id t) due) sv sv'
    \<and> (\<forall>k. run = Some k \<longrightarrow> k = tick_run (en_uuid env) (tr_id t) due)
    \<and> (now - due > MISSED_AFTER_MS \<and> tr_missed t = MissedSkip \<longrightarrow>
         run = None \<and> sv_redis sv' = sv_redis sv \<and> (\<forall>k. get_run k (sv_store sv') = get_run k (sv_store sv)))"
proof -
  let ?next = "case next_tick lib cron time_zone now of Inl e \<Rightarrow> None | Inr tick \<Rightarrow> Some tick"
  have later: "?next \<noteq> Some due" using next_tick_after [OF assms(1), of cron time_zone now] assms(6) by (auto split: sum.split)
  have moved: "(\<forall>k. get_run k (sv_store sv') = get_run k (sv_store sv1)) \<and> sv_redis sv' = sv_redis sv1"
    if "on_store (advance_trigger (tr_id t) (Some due) ?next) sv1 = (Inr m, sv')" for sv1 m
    using advance_same_runs [of sv1 "tr_id t" "Some due" ?next] that by (simp add: same_runs_def)
  from assms(7,4,5) show ?thesis
  proof (cases rule: fire_due_cases)
    case (skipped m)
    have "touches_only env nm sv sv'" for nm
      using moved [OF skipped(4)] touches_only_nothing [of sv sv env nm] by (simp add: touches_only_def)
    with skipped moved [OF skipped(4)] moved_tick_gone [OF skipped(4) later assms(3)] show ?thesis by simp
  next
    case (fired sv1 f m)
    have gone: "\<not> has_tick (tr_id t) (Some due) (sv_store sv')"
      using moved_tick_gone [OF fired(4) later] tick_triggers [OF assms(2) fired(2)] assms(3) by simp
    have "touches_only env (tick_run (en_uuid env) (tr_id t) due) sv sv1"
      using fire_trigger_at_touches [OF assms(2) fired(2)] by blast
    then have "touches_only env (tick_run (en_uuid env) (tr_id t) due) sv sv'"
      using moved [OF fired(4)] by (simp add: touches_only_def)
    with gone fired fire_trigger_at_touches [OF assms(2) fired(2)] show ?thesis by auto
  qed
qed


definition sched_trigger :: stored_trigger where
  "sched_trigger = (sample_trigger 1)\<lparr>tr_kind := Schedule ''* * * * *'' ''UTC'', tr_missed := MissedSkip, tr_next_fire_ms := Some 0\<rparr>"

definition sched_server :: server where
  "sched_server = fire_server\<lparr>sv_store := (sv_store fire_server)\<lparr>so_triggers := mutex_new [sched_trigger]\<rparr>\<rparr>"

lemma sched_server_facts:
  "store_ok (sv_store sched_server)" "mx_value (so_triggers (sv_store sched_server)) = [sched_trigger]"
  "\<not> mx_poisoned (so_triggers (sv_store sched_server))"
  using fire_server_ok by (simp_all add: store_ok_def sched_server_def mutex_new_def)

theorem due_tick_settled_witness:
  "\<exists>run sv'. fire_due_trigger minutely (sample_env (\<lambda>c. Answered)) sched_trigger 120000 sched_server = Some (Inr run, sv')
     \<and> \<not> has_tick (TriggerId 1) (Some 0) (sv_store sv')"
proof -
  let ?env = "sample_env (\<lambda>c. Answered)"
  have t: "tr_kind sched_trigger = Schedule ''* * * * *'' ''UTC''" "tr_next_fire_ms sched_trigger = Some 0" "tr_missed sched_trigger = MissedSkip"
    "tr_id sched_trigger = TriggerId 1"
    by (simp_all add: sched_trigger_def sample_trigger_def)
  obtain sv' where fire: "fire_due_trigger minutely ?env sched_trigger 120000 sched_server = Some (Inr None, sv')"
    using t sched_server_facts(3)
    by (auto simp: fire_due_trigger_def Let_def MISSED_AFTER_MS_def on_store_def advance_trigger_def on_triggers_def lock_write_def)
  from due_tick_settled [OF minutely_ok sched_server_facts(1) _ t(1,2) _ fire] sched_server_facts(2) fire t(4) show ?thesis by simp
qed



end
