(* ===== verification/Surface.thy ===== *)
theory Surface
  imports Run_Identity Harness_Reduce
begin

text \<open>
  What a run's screen is made of (\<open>crates/server/src/surface.rs\<close>): its events as AG-UI events, and the
  json-render document of its input and outcome. A JSON value is a constructor with the fields the source gives it. The lemmas
  show that the AG-UI events parse: each message and each tool call is whole.
\<close>

section \<open>AG-UI\<close>

datatype ag_ui =
    AgRunStarted string
  | AgToolStart string string
  | AgToolArgs string string
  | AgToolEnd string
  | AgToolResult string string string
  | AgTextStart string string
  | AgTextContent string string
  | AgTextEnd string
  | AgRunFinished string
  | AgRunError string

fun authorized_input :: "event_payload \<Rightarrow> (invocation_id \<times> string) option" where
  "authorized_input (EffectAuthorized (ToolCall name inp invocation)) = Some (invocation, inp)"
| "authorized_input _ = None"

text \<open>The last input of an invocation wins, as a collected hash map has it.\<close>

definition tool_inputs :: "event list \<Rightarrow> invocation_id \<rightharpoonup> string" where
  "tool_inputs events = map_of (rev (List.map_filter (\<lambda>ev. authorized_input (ev_payload ev)) events))"

definition text_message :: "string \<Rightarrow> string \<Rightarrow> string \<Rightarrow> ag_ui list" where
  "text_message msg role words = [AgTextStart msg role, AgTextContent msg words, AgTextEnd msg]"

fun role_name :: "message_role \<Rightarrow> string" where
  "role_name RoleAssistant = ''assistant''"
| "role_name RoleUser = ''user''"
| "role_name RoleSystem = ''system''"

text \<open>What one event emits, and the assistant reply it is.\<close>

fun emitted :: "uuid_ops \<Rightarrow> string \<Rightarrow> (invocation_id \<rightharpoonup> string) \<Rightarrow> string \<Rightarrow> string option \<Rightarrow> event_payload \<Rightarrow> ag_ui list \<times> string option" where
  "emitted ops run inputs nm last_reply (PToolResult name invocation step attempt out) =
     (let call = uuid_to_string ops (invocation_uuid invocation);
          delta = (case inputs invocation of None \<Rightarrow> [] | Some inp \<Rightarrow> inp)
      in ([AgToolStart call name, AgToolArgs call delta, AgToolEnd call, AgToolResult (''result-'' @ nm) call out], None))"
| "emitted ops run inputs nm last_reply (UserMessage words) =
     (if words \<noteq> [] then (text_message nm ''user'' words, None) else ([], None))"
| "emitted ops run inputs nm last_reply (ModelResponded message usage) =
     (if mm_text message \<noteq> []
      then (text_message nm (role_name (mm_role message)) (mm_text message),
            if mm_role message = RoleAssistant then Some (mm_text message) else None)
      else ([], None))"
| "emitted ops run inputs nm last_reply (RunCompleted outcome) =
     ((if outcome \<noteq> [] \<and> last_reply \<noteq> Some outcome then text_message (''outcome-'' @ run) ''assistant'' outcome else [])
        @ [AgRunFinished run], None)"
| "emitted ops run inputs nm last_reply (RunFailed cls message) = ([AgRunError message], None)"
| "emitted ops run inputs nm last_reply RunCancelled = ([AgRunError ''cancelled''], None)"
| "emitted ops run inputs nm last_reply RunExpired = ([AgRunError ''expired''], None)"
| "emitted ops run inputs nm last_reply _ = ([], None)"

fun emit_events :: "uuid_ops \<Rightarrow> string \<Rightarrow> (invocation_id \<rightharpoonup> string) \<Rightarrow> string option \<Rightarrow> event list \<Rightarrow> ag_ui list" where
  "emit_events ops run inputs last_reply [] = []"
| "emit_events ops run inputs last_reply (ev # evs) =
     (case emitted ops run inputs (uuid_to_string ops (event_uuid (env_event_id (ev_envelope ev)))) last_reply (ev_payload ev) of
        (out, reply) \<Rightarrow> out @ emit_events ops run inputs (if out \<noteq> [] then reply else last_reply) evs)"

definition ag_ui_events :: "uuid_ops \<Rightarrow> run_id \<Rightarrow> event list \<Rightarrow> ag_ui list" where
  "ag_ui_events ops run events =
     (let name = uuid_to_string ops (run_uuid run) in
      AgRunStarted name # emit_events ops name (tool_inputs events) None events)"

section \<open>json-render\<close>

record render_text =
  rt_title :: string
  rt_input :: string
  rt_outcome :: string

definition json_render_spec :: "string \<Rightarrow> string \<Rightarrow> render_text" where
  "json_render_spec inp outcome = \<lparr>rt_title = ''gol'', rt_input = inp, rt_outcome = outcome\<rparr>"

section \<open>The events parse\<close>

text \<open>What follows the start is whole messages with some text, whole tool calls, and the ends of the run.\<close>

definition ag_block :: "ag_ui list \<Rightarrow> bool" where
  "ag_block b \<longleftrightarrow>
     (\<exists>m role words. words \<noteq> [] \<and> b = [AgTextStart m role, AgTextContent m words, AgTextEnd m])
     \<or> (\<exists>c name delta m out. b = [AgToolStart c name, AgToolArgs c delta, AgToolEnd c, AgToolResult m c out])
     \<or> (\<exists>run. b = [AgRunFinished run]) \<or> (\<exists>message. b = [AgRunError message])"

fun is_ag_end :: "ag_ui \<Rightarrow> bool" where
  "is_ag_end (AgRunFinished run) = True"
| "is_ag_end (AgRunError message) = True"
| "is_ag_end _ = False"

lemma text_block: "words \<noteq> [] \<Longrightarrow> ag_block (text_message m role words)"
  by (simp add: ag_block_def text_message_def)

lemma tool_block: "ag_block [AgToolStart c name, AgToolArgs c delta, AgToolEnd c, AgToolResult m c out]"
  by (simp add: ag_block_def)

lemma end_block: "ag_block [AgRunFinished run]" "ag_block [AgRunError message]"
  by (simp_all add: ag_block_def)

definition ag_whole :: "ag_ui list \<Rightarrow> bool" where
  "ag_whole out \<longleftrightarrow> (\<exists>blocks. out = concat blocks \<and> (\<forall>b \<in> set blocks. ag_block b))"

lemma wholeI: "ag_whole []" "ag_block b \<Longrightarrow> ag_whole b"
  unfolding ag_whole_def by (rule exI [of _ "[]"], simp, rule exI [of _ "[b]"], simp)

lemma whole_append: "ag_whole a \<Longrightarrow> ag_whole b \<Longrightarrow> ag_whole (a @ b)"
  unfolding ag_whole_def by (metis concat_append Un_iff set_append)

lemma emitted_whole: "ag_whole (fst (emitted ops run inputs nm last_reply p))"
proof -
  have "words \<noteq> [] \<Longrightarrow> ag_whole (text_message m role words)" "ag_whole [AgRunFinished r]" "ag_whole [AgRunError message]"
    "ag_whole [AgToolStart c name, AgToolArgs c delta, AgToolEnd c, AgToolResult m c out]" for m role words r message c name delta out
    by (simp_all add: wholeI text_block tool_block end_block)
  then show ?thesis by (cases p) (simp_all add: Let_def wholeI whole_append)
qed

lemma emit_whole: "ag_whole (emit_events ops run inputs last_reply evs)"
  by (induction evs arbitrary: last_reply) (simp_all add: wholeI whole_append emitted_whole case_prod_unfold)

text \<open>An event emits an end of the run exactly when it ends the run, and then last.\<close>

lemma emitted_ends:
  "fst (emitted ops run inputs nm last_reply p) = out \<Longrightarrow>
     if is_run_end p then \<exists>init e. out = init @ [e] \<and> is_ag_end e \<and> list_all (\<lambda>x. \<not> is_ag_end x) init
     else list_all (\<lambda>x. \<not> is_ag_end x) out"
  by (cases p) (auto simp: Let_def text_message_def)

lemma emit_no_end: "list_all (\<lambda>ev. \<not> is_end_event ev) evs \<Longrightarrow> list_all (\<lambda>x. \<not> is_ag_end x) (emit_events ops run inputs last_reply evs)"
proof (induction evs arbitrary: last_reply)
  case (Cons ev evs)
  let ?e = "emitted ops run inputs (uuid_to_string ops (event_uuid (env_event_id (ev_envelope ev)))) last_reply (ev_payload ev)"
  have "list_all (\<lambda>x. \<not> is_ag_end x) (fst ?e)" using emitted_ends [of ops run inputs _ last_reply "ev_payload ev", OF refl] Cons.prems by auto
  with Cons show ?case by (simp add: case_prod_unfold)
qed simp

lemma emit_append:
  "\<exists>r. emit_events ops run inputs last_reply (evs @ more_evs) = emit_events ops run inputs last_reply evs @ emit_events ops run inputs r more_evs"
proof (induction evs arbitrary: last_reply)
  case Nil
  show ?case by auto
next
  case (Cons ev evs)
  then show ?case by (auto simp: case_prod_unfold)
qed

section \<open>Properties\<close>

text \<open>C40. The AG-UI events of a log parse: after the start come whole messages, each with the same id throughout and some text,
  whole tool calls, and ends of the run; and for a log whose terminal event, if any, is its last, exactly one end is sent when the
  run has ended, as the last event, and none before.\<close>

theorem ag_ui_events_whole:
  assumes "terminal_last events"
  shows "\<exists>blocks. ag_ui_events ops run events = AgRunStarted (uuid_to_string ops (run_uuid run)) # concat blocks
       \<and> (\<forall>b \<in> set blocks. ag_block b)
     \<and> list_all (\<lambda>x. \<not> is_ag_end x) (butlast (ag_ui_events ops run events))
     \<and> (is_ag_end (last (ag_ui_events ops run events)) \<longleftrightarrow> list_ex is_end_event events)"
proof -
  let ?run = "uuid_to_string ops (run_uuid run)" and ?in = "tool_inputs events"
  let ?out = "emit_events ops ?run ?in None events"
  obtain blocks where blocks: "?out = concat blocks" "\<forall>b \<in> set blocks. ag_block b" using emit_whole [of ops ?run ?in None events] unfolding ag_whole_def by blast
  have "list_all (\<lambda>x. \<not> is_ag_end x) (butlast (AgRunStarted ?run # ?out)) \<and> (is_ag_end (last (AgRunStarted ?run # ?out)) \<longleftrightarrow> list_ex is_end_event events)"
  proof (cases "list_ex is_end_event events")
    case False
    then have "list_all (\<lambda>ev. \<not> is_end_event ev) events" by (simp add: list_all_iff list_ex_iff)
    then have "list_all (\<lambda>x. \<not> is_ag_end x) (AgRunStarted ?run # ?out)" using emit_no_end by simp
    with False show ?thesis by (auto simp: list_all_iff dest: in_set_butlastD)
  next
    case True
    then have ne: "events \<noteq> []" by auto
    then have split: "events = butlast events @ [last events]" by simp
    have early: "list_all (\<lambda>ev. \<not> is_end_event ev) (butlast events)" using assms by (simp add: terminal_last_def)
    then have ends: "is_end_event (last events)" using True by (subst (asm) split) (auto simp: list_all_iff list_ex_iff)
    obtain r where "emit_events ops ?run ?in None (butlast events @ [last events])
        = emit_events ops ?run ?in None (butlast events) @ emit_events ops ?run ?in r [last events]" using emit_append by blast
    then have out: "?out = emit_events ops ?run ?in None (butlast events) @ emit_events ops ?run ?in r [last events]"
      using split by simp
    obtain init e where last_out: "emit_events ops ?run ?in r [last events] = init @ [e]" "is_ag_end e" "list_all (\<lambda>x. \<not> is_ag_end x) init"
      using emitted_ends [of ops ?run ?in "uuid_to_string ops (event_uuid (env_event_id (ev_envelope (last events))))" r "ev_payload (last events)", OF refl] ends
      by (auto simp: case_prod_unfold)
    show ?thesis using True emit_no_end [OF early, of ops ?run ?in None] last_out by (simp add: out butlast_append)
  qed
  with blocks show ?thesis by (auto simp: ag_ui_events_def Let_def)
qed

section \<open>Witness\<close>

theorem ag_ui_events_whole_witness:
  "is_ag_end (last (ag_ui_events canonical_ops (RunId 1) [sample_event (UserMessage ''hi''), sample_event (RunCompleted ''ok'')]))
     \<and> length (ag_ui_events canonical_ops (RunId 1) [sample_event (UserMessage ''hi''), sample_event (RunCompleted ''ok'')]) = 8"
  using ag_ui_events_whole [of "[sample_event (UserMessage ''hi''), sample_event (RunCompleted ''ok'')]" canonical_ops "RunId 1"]
  by (simp add: terminal_last_def sample_event_def ag_ui_events_def text_message_def Let_def)

end
