(* ===== verification/Http_Api.thy ===== *)
theory Http_Api
  imports Queue_Worker Streams Scheduler Surface
begin

text \<open>
  The HTTP interface (\<open>crates/server/src/http.rs\<close>): the handlers of every route, from what axum
  extracted of a request to a typed answer. A handler runs in the worker's world, since it makes the same calls: each
  call on the store or on Redis takes place at a moment, and before it others may have changed the
  server. The runs it carries out here use the same tools, models and decider as a worker's. A handler that asks a question of the
  store which does not return is \<open>None\<close>. The store is the in-memory one: it keeps threads, stops,
  triggers and an outbox, so the branches for a store without them have no counterpart, and its reads
  do not fail. JSON text, the answer's headers, and a task of the runtime that panicked are not modelled.
\<close>

section \<open>Requests\<close>

record caller =
  pr_issuer :: string
  pr_subject :: string
  pr_tenant :: string

datatype auth_error = AuthUnauthorized | AuthUnavailable string

record run_body =
  rb_agent_id :: agent_id
  rb_agent_version :: string
  rb_input :: string
  rb_placement :: execution_placement
  rb_work_model :: work_model
  rb_limits :: "limits option"
  rb_metadata :: "string \<rightharpoonup> string"

record turn_request =
  tq_agent_id :: agent_id
  tq_agent_version :: string
  tq_input :: string
  tq_placement :: execution_placement
  tq_work_model :: work_model
  tq_capabilities :: "capability list"
  tq_limits :: "limits option"
  tq_metadata :: "string \<rightharpoonup> string"
  tq_background :: bool

text \<open>What the server was started with: the worker's calls, whether it has a queue, the webhook key,
  its authenticator, and the cron, HMAC and uuid crates it calls.\<close>

record ('h, 'x, 'c, 'z) api =
  ap_wk :: "('h, 'x) worker"
  ap_queue :: bool
  ap_webhook_key :: "string option"
  ap_auth :: "string \<Rightarrow> auth_error + caller"
  ap_cron :: "('c, 'z) cron_lib"
  ap_hmac :: "string \<Rightarrow> string \<Rightarrow> string"
  ap_parse :: "string \<Rightarrow> trigger_id option"

definition owner_of :: "caller \<Rightarrow> owner" where
  "owner_of p = \<lparr>ow_issuer = pr_issuer p, ow_subject = pr_subject p, ow_tenant = pr_tenant p\<rparr>"

definition MIN_WEBHOOK_KEY_BYTES :: nat where
  "MIN_WEBHOOK_KEY_BYTES = 32"

definition usable_webhook_key :: "string \<Rightarrow> string option" where
  "usable_webhook_key secret = (if length secret < MIN_WEBHOOK_KEY_BYTES then None else Some secret)"

definition bearer :: "(string \<Rightarrow> string option) \<Rightarrow> string option" where
  "bearer headers =
     (case header_value headers ''authorization'' of
        None \<Rightarrow> None
      | Some val \<Rightarrow>
          (case (case strip_prefix ''Bearer '' val of None \<Rightarrow> strip_prefix ''bearer '' val | Some rest \<Rightarrow> Some rest) of
             None \<Rightarrow> None
           | Some token \<Rightarrow> let token = trim_end (trim_start token) in if token = [] then None else Some token))"

definition authenticated :: "(string \<Rightarrow> auth_error + caller) \<Rightarrow> (string \<Rightarrow> string option) \<Rightarrow> api_error + caller" where
  "authenticated auth headers =
     (case bearer headers of
        None \<Rightarrow> Inl ApiUnauthorized
      | Some token \<Rightarrow>
          (case auth token of
             Inr p \<Rightarrow> Inr p
           | Inl AuthUnauthorized \<Rightarrow> Inl ApiUnauthorized
           | Inl (AuthUnavailable message) \<Rightarrow> Inl (ApiAuthUnavailable message)))"

fun body_rejection :: "json_rejection \<Rightarrow> api_error" where
  "body_rejection (JsonDataError words) = ApiInvalidBody words"
| "body_rejection (JsonSyntaxError words) = ApiInvalidBody words"
| "body_rejection (OtherRejection status words) = ApiRejected (OtherRejection status words)"

section \<open>The runs of a caller\<close>

definition a_read :: "('h, 'x, 'c, 'z) api \<Rightarrow> (store \<Rightarrow> 'a) \<Rightarrow> ('h, 'x) world \<Rightarrow> 'a \<times> ('h, 'x) world" where
  "a_read ap f = wcall (ap_wk ap) (\<lambda>n sv. (f (sv_store sv), sv))"

definition a_write :: "('h, 'x, 'c, 'z) api \<Rightarrow> (env \<Rightarrow> store \<Rightarrow> (store_error + 'a) \<times> store) \<Rightarrow> ('h, 'x) world \<Rightarrow> (api_error + 'a) \<times> ('h, 'x) world" where
  "a_write ap f w =
     (case wcall (ap_wk ap) (\<lambda>n. on_store (f (env_at (ap_wk ap) n))) w of
        (Inl e, w1) \<Rightarrow> (Inl (ApiStore (error_message e)), w1)
      | (Inr a, w1) \<Rightarrow> (Inr a, w1))"

definition owned ::
    "('h, 'x, 'c, 'z) api \<Rightarrow> caller \<Rightarrow> (store \<Rightarrow> stored_run option) \<Rightarrow> ('h, 'x) world \<Rightarrow> (api_error + stored_run) \<times> ('h, 'x) world" where
  "owned ap p read w =
     (case a_read ap read w of
        (None, w1) \<Rightarrow> (Inl ApiNotFound, w1)
      | (Some run, w1) \<Rightarrow>
          (if same_principal (rs_owner (sr_spec run)) (owner_of p) then Inr run else Inl ApiNotFound, w1))"

definition owned_run ::
    "('h, 'x, 'c, 'z) api \<Rightarrow> run_id \<Rightarrow> caller \<Rightarrow> ('h, 'x) world \<Rightarrow> (api_error + stored_run) \<times> ('h, 'x) world" where
  "owned_run ap run p = owned ap p (get_run run)"

definition owned_run_page ::
    "('h, 'x, 'c, 'z) api \<Rightarrow> run_id \<Rightarrow> caller \<Rightarrow> nat \<Rightarrow> nat \<Rightarrow> ('h, 'x) world \<Rightarrow> (api_error + stored_run) \<times> ('h, 'x) world" where
  "owned_run_page ap run p after limit = owned ap p (run_page run after limit)"

definition create_agent ::
    "('h, 'x, 'c, 'z) api \<Rightarrow> caller \<Rightarrow> agent_manifest \<Rightarrow> ('h, 'x) world \<Rightarrow> (api_error + agent_manifest) \<times> ('h, 'x) world" where
  "create_agent ap p agent w =
     (case a_write ap (\<lambda>env. put_agent \<lparr>sa_manifest = agent, sa_owner = owner_of p\<rparr>) w of
        (Inl e, w1) \<Rightarrow> (Inl e, w1)
      | (Inr AgentStored, w1) \<Rightarrow> (Inr agent, w1)
      | (Inr OwnedByOther, w1) \<Rightarrow> (Inl (ApiConflict ''agent belongs to another principal''), w1))"

section \<open>Specs\<close>

definition MAX_LIMIT :: u32 where
  "MAX_LIMIT = 64"

definition bounded_limits :: "limits \<Rightarrow> bool" where
  "bounded_limits lims \<longleftrightarrow> 1 \<le> max_steps lims \<and> max_steps lims \<le> MAX_LIMIT
     \<and> 1 \<le> max_model_calls lims \<and> max_model_calls lims \<le> MAX_LIMIT"

record spec_core =
  sc_agent_id :: agent_id
  sc_agent_version :: string
  sc_input :: string
  sc_placement :: execution_placement
  sc_work_model :: work_model
  sc_limits :: "limits option"
  sc_metadata :: "string \<rightharpoonup> string"

text \<open>Whether a key of the metadata is the server's to set.\<close>

definition has_server_key :: "(string \<rightharpoonup> string) \<Rightarrow> bool" where
  "has_server_key meta \<longleftrightarrow> (\<exists>key \<in> dom meta. is_prefix ''gol.'' key)"

text \<open>\<open>None\<close> is a builder with a part missing, which has no spec to build.\<close>

definition build_spec :: "env \<Rightarrow> owner \<Rightarrow> spec_core \<Rightarrow> capability list \<Rightarrow> (api_error + run_spec) option" where
  "build_spec env own core caps =
     (let lims = (case sc_limits core of None \<Rightarrow> \<lparr>max_steps = 8, max_model_calls = 4\<rparr> | Some lims \<Rightarrow> lims);
          meta = sc_metadata core
      in if \<not> bounded_limits lims then Some (Inl (ApiBadRequest ''limits must be between 1 and 64''))
         else if meta TURN_KEY \<noteq> None then Some (Inl (ApiBadRequest ''gol.turn is set by the server''))
         else if meta TRIGGER_KEY \<noteq> None then Some (Inl (ApiBadRequest ''gol.trigger is set by the server''))
         else if has_server_key meta then Some (Inl (ApiBadRequest ''gol. metadata is set by the server''))
         else map_option Inr
           (build (en_uuid env) (en_fresh env)
             ((set_metadata meta \<circ> set_limits lims \<circ> set_capabilities caps \<circ> set_work_model (sc_work_model core)
               \<circ> set_placement (sc_placement core) \<circ> set_input (sc_input core)
               \<circ> set_agent (sc_agent_id core) (sc_agent_version core) \<circ> set_owner own) builder_new)))"

definition core_of_run :: "run_body \<Rightarrow> spec_core" where
  "core_of_run body =
     \<lparr>sc_agent_id = rb_agent_id body, sc_agent_version = rb_agent_version body, sc_input = rb_input body,
      sc_placement = rb_placement body, sc_work_model = rb_work_model body, sc_limits = rb_limits body,
      sc_metadata = rb_metadata body\<rparr>"

definition core_of_turn :: "turn_request \<Rightarrow> spec_core" where
  "core_of_turn body =
     \<lparr>sc_agent_id = tq_agent_id body, sc_agent_version = tq_agent_version body, sc_input = tq_input body,
      sc_placement = tq_placement body, sc_work_model = tq_work_model body, sc_limits = tq_limits body,
      sc_metadata = tq_metadata body\<rparr>"

section \<open>Running here\<close>

datatype run_start_error = StartUnsupported execution_placement | StartDecider string | StartStore store_error

text \<open>The harness with Jev, and the events it recorded with how it ended.\<close>

definition run_with_jev ::
    "('h, 'x) worker \<Rightarrow> run_spec \<Rightarrow> 'x tool list \<Rightarrow> ('h, 'x) world \<Rightarrow> ((event list \<times> (run_start_error + unit)) \<times> ('h, 'x) world) option" where
  "run_with_jev wk spec tools w =
     (let io = worker_io wk spec tools in
      case boot io spec (w\<lparr>wo_mem := run_memory_new (rm_shared (wo_mem w))\<rparr>) of
        (d, w1) \<Rightarrow>
          (case wk_jev wk of
             Inl message \<Rightarrow> Some (([], Inl (StartDecider message)), w1)
           | Inr u \<Rightarrow>
               (case run_to_completion io (d, w1) of
                  None \<Rightarrow> None
                | Some (Inl (DeciderError message), (d1, w2)) \<Rightarrow> Some ((dv_events d1, Inl (StartDecider message)), w2)
                | Some (Inr u, (d1, w2)) \<Rightarrow> Some ((dv_events d1, Inr ()), w2))))"

definition start_failure :: "(execution_placement \<Rightarrow> string) \<Rightarrow> run_start_error \<Rightarrow> failure_class \<times> string" where
  "start_failure debug e =
     (case e of
        StartUnsupported placement \<Rightarrow> (FEnvironment, ''unsupported placement: '' @ debug placement)
      | StartDecider message \<Rightarrow> (FDependency, ''decider: '' @ message)
      | StartStore e \<Rightarrow> (FInfrastructure, ''store unavailable''))"

text \<open>The derived \<open>Debug\<close> of a placement.\<close>

fun debug_placement :: "execution_placement \<Rightarrow> string" where
  "debug_placement Local = ''Local''"
| "debug_placement Reverse = ''Reverse''"
| "debug_placement Box = ''Box''"

definition harness_events ::
    "('h, 'x) worker \<Rightarrow> run_spec \<Rightarrow> 'x tool list \<Rightarrow> ('h, 'x) world \<Rightarrow> ((event list \<times> (run_start_error + unit)) \<times> ('h, 'x) world) option" where
  "harness_events wk spec tools w =
     (case run_with_jev wk spec tools w of
        None \<Rightarrow> None
      | Some ((events, Inr u), w1) \<Rightarrow> Some ((events, Inr ()), w1)
      | Some ((events, Inl e), w1) \<Rightarrow>
          (case start_failure debug_placement e of
             (cls, message) \<Rightarrow> Some ((events @ [run_failed_event (env_now wk w1) spec cls message], Inl e), w1)))"

fun start_error_api :: "run_start_error \<Rightarrow> api_error" where
  "start_error_api (StartUnsupported placement) = ApiUnsupported placement"
| "start_error_api (StartDecider message) = ApiDecider message"
| "start_error_api (StartStore e) = ApiStore (error_message e)"

text \<open>The events of a run whose tools were loaded, or not.\<close>

definition inline_events ::
    "('h, 'x) worker \<Rightarrow> run_spec \<Rightarrow> string list \<Rightarrow> ('h, 'x) world \<Rightarrow> ((event list \<times> (run_start_error + unit)) \<times> ('h, 'x) world) option" where
  "inline_events wk spec tool_names w =
     (case run_tools wk tool_names of
        Inr tools \<Rightarrow> harness_events wk spec tools w
      | Inl message \<Rightarrow>
          (let reason = ''the tool catalog did not load'' in
           Some (([run_failed_event (env_now wk w) spec FEnvironment reason], Inl (StartDecider reason)), w)))"

definition start_inline ::
    "('h, 'x, 'c, 'z) api \<Rightarrow> run_spec \<Rightarrow> string list \<Rightarrow> ('h, 'x) world \<Rightarrow> ((api_error + run_state) \<times> ('h, 'x) world) option" where
  "start_inline ap spec tool_names w =
     (let wk = ap_wk ap; run = rs_run_id spec in
      case a_write ap (\<lambda>env. put_run (en_store_now env) \<lparr>sr_spec = spec, sr_events = [user_message_event (env_now wk w) spec]\<rparr>) w of
        (Inl e, w1) \<Rightarrow> Some (Inl e, w1)
      | (Inr put, w1) \<Rightarrow>
          (case inline_events wk spec tool_names w1 of
             None \<Rightarrow> None
           | Some ((events, ended), w2) \<Rightarrow>
               (case a_write ap (\<lambda>env. append_events (en_store_now env) run events) w2 of
                  (Inl e, w3) \<Rightarrow> Some (Inl e, w3)
                | (Inr res, w3) \<Rightarrow>
                    (case ended of
                       Inl e \<Rightarrow> Some (Inl (start_error_api e), w3)
                     | Inr u \<Rightarrow>
                         (case a_read ap (get_run run) w3 of
                            (None, w4) \<Rightarrow> Some (Inl (ApiDecider ''run is not stored''), w4)
                          | (Some stored, w4) \<Rightarrow> Some (Inr (fold_run (sr_spec stored) (sr_events stored)), w4))))))"

section \<open>Starting a run\<close>

fun enqueue_api :: "enqueue_error \<Rightarrow> api_error" where
  "enqueue_api (EqQueue e) = ApiDecider (''queue unavailable: '' @ e)"
| "enqueue_api (EqStore e) = ApiStore (error_message e)"
| "enqueue_api (EqPush e) = ApiDecider e"
| "enqueue_api (EqHeld e) = ApiDecider e"

definition a_enqueue ::
    "('h, 'x, 'c, 'z) api \<Rightarrow> run_spec \<Rightarrow> ('h, 'x) world \<Rightarrow> (api_error + put_run_result) \<times> ('h, 'x) world" where
  "a_enqueue ap spec w =
     (case wcall (ap_wk ap) (\<lambda>n. enqueue (env_at (ap_wk ap) n) spec PushEnd) w of
        (Inl e, w1) \<Rightarrow> (Inl (enqueue_api e), w1)
      | (Inr put, w1) \<Rightarrow> (Inr put, w1))"

definition start_queued ::
    "('h, 'x, 'c, 'z) api \<Rightarrow> run_spec \<Rightarrow> ('h, 'x) world \<Rightarrow> (api_error + run_state) \<times> ('h, 'x) world" where
  "start_queued ap spec w =
     (case a_enqueue ap spec w of
        (Inl e, w1) \<Rightarrow> (Inl e, w1)
      | (Inr put, w1) \<Rightarrow> (Inr (fold_run spec (queued_events (env_now (ap_wk ap) w) spec)), w1))"

definition start_owned ::
    "('h, 'x, 'c, 'z) api \<Rightarrow> owner \<Rightarrow> run_body \<Rightarrow> ('h, 'x) world \<Rightarrow> ((api_error + run_state) \<times> ('h, 'x) world) option" where
  "start_owned ap own body w =
     (case a_read ap (get_agent (rb_agent_id body)) w of
        (None, w1) \<Rightarrow> Some (Inl ApiAgentNotFound, w1)
      | (Some agent, w1) \<Rightarrow>
          if \<not> same_principal (sa_owner agent) own then Some (Inl ApiAgentNotFound, w1)
          else if mf_version (sa_manifest agent) \<noteq> rb_agent_version body
            then Some (Inl (ApiConflict ''agent_version does not match the stored manifest''), w1)
          else
            (case build_spec (env_now (ap_wk ap) w1) own (core_of_run body) (mf_required_capabilities (sa_manifest agent)) of
               None \<Rightarrow> None
             | Some (Inl e) \<Rightarrow> Some (Inl e, w1)
             | Some (Inr spec) \<Rightarrow>
                 if ap_queue ap then Some (start_queued ap spec (tick w1))
                 else start_inline ap spec (mf_tools (sa_manifest agent)) (tick w1)))"

definition create_run ::
    "('h, 'x, 'c, 'z) api \<Rightarrow> caller \<Rightarrow> json_rejection + run_body \<Rightarrow> ('h, 'x) world \<Rightarrow> ((api_error + run_state) \<times> ('h, 'x) world) option" where
  "create_run ap p body w =
     (case body of
        Inl rejected \<Rightarrow> Some (Inl (body_rejection rejected), w)
      | Inr body \<Rightarrow> start_owned ap (owner_of p) body w)"

section \<open>Coworker turns\<close>

record turn_body =
  tb_run_id :: run_id
  tb_placement :: execution_placement
  tb_credential_mode :: string
  tb_user_message :: string
  tb_completion :: "string option"
  tb_computer :: computer_plan

fun user_words :: "event_payload \<Rightarrow> string option" where
  "user_words (UserMessage words) = Some words"
| "user_words _ = None"

definition turn_body_of :: "turn_outcome \<Rightarrow> turn_body" where
  "turn_body_of out =
     \<lparr>tb_run_id = rs_run_id (to_spec out), tb_placement = rs_placement (to_spec out),
      tb_credential_mode = to_credential_mode out,
      tb_user_message = (case first_some (\<lambda>ev. user_words (ev_payload ev)) (to_events out) of
                           None \<Rightarrow> rs_input (to_spec out) | Some words \<Rightarrow> words),
      tb_completion = to_completion out, tb_computer = to_computer out\<rparr>"

fun turn_error_api :: "turn_error \<Rightarrow> api_error" where
  "turn_error_api (TurnStore message) = ApiStore message"
| "turn_error_api (TurnProxy message) = ApiProxy message"
| "turn_error_api (TurnSandbox message) = ApiSandbox message"
| "turn_error_api TurnNotFound = ApiNotFound"
| "turn_error_api (TurnConflict message) = ApiConflict message"
| "turn_error_api (TurnBadRequest message) = ApiBadRequest message"

definition a_turn ::
    "('h, 'x, 'c, 'z) api \<Rightarrow> (nat \<Rightarrow> store \<Rightarrow> 'h \<Rightarrow> (turn_error + turn_outcome) \<times> store \<times> 'h) \<Rightarrow> ('h, 'x) world
     \<Rightarrow> (api_error + turn_body) \<times> ('h, 'x) world" where
  "a_turn ap f w =
     (case wcall (ap_wk ap) (\<lambda>n sv. case f n (sv_store sv) (wo_host w) of (r, s1, h1) \<Rightarrow> ((r, h1), sv\<lparr>sv_store := s1\<rparr>)) w of
        ((Inl e, h1), w1) \<Rightarrow> (Inl (turn_error_api e), w1\<lparr>wo_host := h1\<rparr>)
      | ((Inr out, h1), w1) \<Rightarrow> (Inr (turn_body_of out), w1\<lparr>wo_host := h1\<rparr>))"

datatype turn_answer = TurnDone turn_body | TurnQueued run_id execution_placement

definition background_turn ::
    "('h, 'x, 'c, 'z) api \<Rightarrow> caller \<Rightarrow> turn_request \<Rightarrow> ('h, 'x) world \<Rightarrow> ((api_error + turn_answer) \<times> ('h, 'x) world) option" where
  "background_turn ap p body w =
     (if wm_credential (tq_work_model body) \<noteq> PlatformGateway
      then Some (Inl (ApiBadRequest ''a subscription turn cannot run in the background''), w)
      else
        (case build_spec (env_now (ap_wk ap) w) (owner_of p) (core_of_turn body) (tq_capabilities body) of
           None \<Rightarrow> None
         | Some (Inl e) \<Rightarrow> Some (Inl e, w)
         | Some (Inr spec) \<Rightarrow>
             if \<not> ap_queue ap then Some (Inl (ApiUnavailable ''background turns are not available''), w)
             else
               (let spec = spec\<lparr>rs_metadata := (rs_metadata spec)(TURN_KEY \<mapsto> ''1'')\<rparr> in
                case a_enqueue ap spec (tick w) of
                  (Inl e, w1) \<Rightarrow> Some (Inl e, w1)
                | (Inr put, w1) \<Rightarrow> Some (Inr (TurnQueued (rs_run_id spec) (rs_placement spec)), w1))))"

definition create_coworker_turn ::
    "('h, 'x, 'c, 'z) api \<Rightarrow> caller \<Rightarrow> turn_request \<Rightarrow> ('h, 'x) world \<Rightarrow> ((api_error + turn_answer) \<times> ('h, 'x) world) option" where
  "create_coworker_turn ap p body w =
     (let wk = ap_wk ap in
      if tq_background body then background_turn ap p body w
      else
        (case build_spec (env_now wk w) (owner_of p) (core_of_turn body) (tq_capabilities body) of
           None \<Rightarrow> None
         | Some (Inl e) \<Rightarrow> Some (Inl e, w)
         | Some (Inr spec) \<Rightarrow>
             (case a_turn ap (\<lambda>n. open_turn (env_at wk n) (wk_poster wk n) (wk_sandbox wk) spec) (tick w) of
                (Inl e, w1) \<Rightarrow> Some (Inl e, w1)
              | (Inr out, w1) \<Rightarrow> Some (Inr (TurnDone out), w1))))"

definition complete_coworker_turn ::
    "('h, 'x, 'c, 'z) api \<Rightarrow> caller \<Rightarrow> run_id \<Rightarrow> string \<Rightarrow> ('h, 'x) world \<Rightarrow> (api_error + turn_body) \<times> ('h, 'x) world" where
  "complete_coworker_turn ap p run words w =
     (let wk = ap_wk ap in
      case owned_run ap run p w of
        (Inl e, w1) \<Rightarrow> (Inl e, w1)
      | (Inr stored, w1) \<Rightarrow> a_turn ap (\<lambda>n. accept_subscription_completion (env_at wk n) (wk_sandbox wk) run words) w1)"

definition fail_coworker_turn ::
    "('h, 'x, 'c, 'z) api \<Rightarrow> caller \<Rightarrow> run_id \<Rightarrow> string \<Rightarrow> ('h, 'x) world \<Rightarrow> (api_error + turn_body) \<times> ('h, 'x) world" where
  "fail_coworker_turn ap p run message w =
     (let wk = ap_wk ap in
      case owned_run ap run p w of
        (Inl e, w1) \<Rightarrow> (Inl e, w1)
      | (Inr stored, w1) \<Rightarrow> a_turn ap (\<lambda>n. fail_turn (env_at wk n) (wk_sandbox wk) run message) w1)"

section \<open>Reading a run\<close>

definition show_run ::
    "('h, 'x, 'c, 'z) api \<Rightarrow> caller \<Rightarrow> run_id \<Rightarrow> ('h, 'x) world \<Rightarrow> (api_error + run_state) \<times> ('h, 'x) world" where
  "show_run ap p run w =
     (case owned_run ap run p w of
        (Inl e, w1) \<Rightarrow> (Inl e, w1)
      | (Inr stored, w1) \<Rightarrow> (Inr (fold_run (sr_spec stored) (sr_events stored)), w1))"

definition EVENTS_PAGE_MAX :: nat where
  "EVENTS_PAGE_MAX = 500"

text \<open>A query axum rejected is \<open>None\<close>.\<close>

definition get_events ::
    "('h, 'x, 'c, 'z) api \<Rightarrow> caller \<Rightarrow> run_id \<Rightarrow> (nat \<times> nat option) option \<Rightarrow> ('h, 'x) world
     \<Rightarrow> (api_error + event list) \<times> ('h, 'x) world" where
  "get_events ap p run query w =
     (case query of
        None \<Rightarrow> (Inl (ApiBadRequest ''after and limit must be counts''), w)
      | Some (after, limit) \<Rightarrow>
          (let limit = (case limit of None \<Rightarrow> EVENTS_PAGE_MAX | Some limit \<Rightarrow> limit) in
           if limit = 0 \<or> EVENTS_PAGE_MAX < limit then (Inl (ApiBadRequest ''limit must be between 1 and 500''), w)
           else
             (case owned_run_page ap run p after limit w of
                (Inl e, w1) \<Rightarrow> (Inl e, w1)
              | (Inr stored, w1) \<Rightarrow> (Inr (sr_events stored), w1))))"

definition get_ag_ui ::
    "('h, 'x, 'c, 'z) api \<Rightarrow> caller \<Rightarrow> run_id \<Rightarrow> ('h, 'x) world \<Rightarrow> (api_error + ag_ui list) \<times> ('h, 'x) world" where
  "get_ag_ui ap p run w =
     (case owned_run ap run p w of
        (Inl e, w1) \<Rightarrow> (Inl e, w1)
      | (Inr stored, w1) \<Rightarrow> (Inr (ag_ui_events (wk_uuid (ap_wk ap)) (rs_run_id (sr_spec stored)) (sr_events stored)), w1))"

definition ui_outcome :: "run_state \<Rightarrow> string" where
  "ui_outcome st =
     (case (harness st, dispatch st) of
        (HCompleted out, _) \<Rightarrow> out
      | (_, DCompleted out) \<Rightarrow> out
      | (HFailed cls message, _) \<Rightarrow> message
      | (_, DFailed cls message) \<Rightarrow> message
      | (HCancelled, _) \<Rightarrow> ''cancelled''
      | (_, DCancelled) \<Rightarrow> ''cancelled''
      | (_, DExpired) \<Rightarrow> ''expired''
      | _ \<Rightarrow> ''running'')"

definition get_ui ::
    "('h, 'x, 'c, 'z) api \<Rightarrow> caller \<Rightarrow> run_id \<Rightarrow> ('h, 'x) world \<Rightarrow> (api_error + render_text) \<times> ('h, 'x) world" where
  "get_ui ap p run w =
     (case owned_run ap run p w of
        (Inl e, w1) \<Rightarrow> (Inl e, w1)
      | (Inr stored, w1) \<Rightarrow>
          (Inr (json_render_spec (rs_input (sr_spec stored)) (ui_outcome (fold_run (sr_spec stored) (sr_events stored)))), w1))"

section \<open>Streams\<close>

text \<open>The \<open>Last-Event-ID\<close> header is absent, present without being text, or text; a rejected query is \<open>None\<close>.\<close>

definition stream_cursor :: "string option option \<Rightarrow> nat option option \<Rightarrow> api_error + nat option" where
  "stream_cursor last_event_id query =
     (case query of
        None \<Rightarrow> Inl (ApiBadRequest ''after must be a count'')
      | Some after \<Rightarrow>
          (case last_event_id of
             None \<Rightarrow> Inr after
           | Some text_opt \<Rightarrow>
               (case Option.bind text_opt (\<lambda>raw. parse_u64 (trim_end (trim_start raw))) of
                  None \<Rightarrow> Inl (ApiBadRequest ''Last-Event-ID must be a count'')
                | Some n \<Rightarrow> Inr (Some n))))"

text \<open>A stream that was opened: whose it is, where it resumes, and the slot it holds.\<close>

datatype opened = OutboxOpened owner "nat option" principal_key | RunOpened owner run_id nat principal_key | NoContent

definition get_stream ::
    "caller \<Rightarrow> string option option \<Rightarrow> nat option option \<Rightarrow> streams \<Rightarrow> (api_error + opened) \<times> streams" where
  "get_stream p last_event_id query streams =
     (case stream_cursor last_event_id query of
        Inl e \<Rightarrow> (Inl e, streams)
      | Inr cursor \<Rightarrow>
          (case take_slot (owner_of p) streams of
             (None, streams1) \<Rightarrow> (Inl ApiTooManyStreams, streams1)
           | (Some slot, streams1) \<Rightarrow> (Inr (OutboxOpened (owner_of p) cursor slot), streams1)))"

definition get_run_stream ::
    "('h, 'x, 'c, 'z) api \<Rightarrow> caller \<Rightarrow> run_id \<Rightarrow> string option option \<Rightarrow> nat option option \<Rightarrow> streams \<Rightarrow> ('h, 'x) world
     \<Rightarrow> ((api_error + opened) \<times> streams) \<times> ('h, 'x) world" where
  "get_run_stream ap p run last_event_id query streams w =
     (case stream_cursor last_event_id query of
        Inl e \<Rightarrow> ((Inl e, streams), w)
      | Inr cursor \<Rightarrow>
          (let resume_at = (case cursor of None \<Rightarrow> 0 | Some n \<Rightarrow> n) in
           case owned_run_page ap run p (resume_at - 1) 1 w of
             (Inl e, w1) \<Rightarrow> ((Inl e, streams), w1)
           | (Inr at, w1) \<Rightarrow>
               if 0 < resume_at \<and> sr_events at \<noteq> [] \<and> is_end_event (hd (sr_events at)) then ((Inr NoContent, streams), w1)
               else if 0 < resume_at \<and> sr_events at = []
                 then ((Inl (ApiBadRequest ''the cursor is past the run's log''), streams), w1)
               else
                 (case take_slot (owner_of p) streams of
                    (None, streams1) \<Rightarrow> ((Inl ApiTooManyStreams, streams1), w1)
                  | (Some slot, streams1) \<Rightarrow> ((Inr (RunOpened (owner_of p) run resume_at slot), streams1), w1))))"

section \<open>Threads\<close>

definition create_thread ::
    "('h, 'x, 'c, 'z) api \<Rightarrow> caller \<Rightarrow> json_rejection + run_body \<Rightarrow> ('h, 'x) world
     \<Rightarrow> ((api_error + string \<times> run_state) \<times> ('h, 'x) world) option" where
  "create_thread ap p body w =
     (case body of
        Inl rejected \<Rightarrow> Some (Inl (body_rejection rejected), w)
      | Inr body \<Rightarrow>
          if rb_metadata body SESSION_ID \<noteq> None
          then Some (Inl (ApiBadRequest ''a thread's session is the server's to choose''), w)
          else
            (let env = env_now (ap_wk ap) w; thread = uuid_to_string (en_uuid env) (en_fresh env) in
             case start_owned ap (owner_of p) (body\<lparr>rb_metadata := (rb_metadata body)(SESSION_ID \<mapsto> thread)\<rparr>) (tick w) of
               None \<Rightarrow> None
             | Some (Inl e, w1) \<Rightarrow> Some (Inl e, w1)
             | Some (Inr run, w1) \<Rightarrow> Some (Inr (thread, run), w1)))"

definition BOARD_RUNS :: nat where
  "BOARD_RUNS = 1000"

definition PAGE_MAX :: nat where
  "PAGE_MAX = 50"

definition waiting_on_user :: "stored_run list \<Rightarrow> waiting_task list" where
  "waiting_on_user runs =
     List.map_filter
       (\<lambda>(at, run). map_option (\<lambda>(question_id, question).
            \<lparr>wt_label = at + 1, wt_run_id = rs_run_id (sr_spec run), wt_question_id = question_id, wt_question = question\<rparr>)
          (open_question (sr_spec run) (sr_events run)))
       (enumerate 0 runs)"

text \<open>\<open>T\<close> or \<open>t\<close>, 1 to 9 digits naming a task from 1, a colon, and the text.\<close>

definition addressed :: "string \<Rightarrow> (nat \<times> string) option" where
  "addressed inp =
     (let rest = trim_start inp in
      case (case strip_prefix ''T'' rest of None \<Rightarrow> strip_prefix ''t'' rest | Some r \<Rightarrow> Some r) of
        None \<Rightarrow> None
      | Some rest \<Rightarrow>
          (let digit_run = takeWhile is_ascii_digit rest in
           if digit_run = [] \<or> 9 < length digit_run then None
           else
             (case strip_prefix '':'' (drop (length digit_run) rest) of
                None \<Rightarrow> None
              | Some words \<Rightarrow>
                  if 1 \<le> undec digit_run then Some (undec digit_run, trim_end (trim_start words)) else None)))"

definition user_answer :: "env \<Rightarrow> run_spec \<Rightarrow> message_id \<Rightarrow> string \<Rightarrow> event" where
  "user_answer env spec question words = system_event env spec (UserAnswered question words)"

definition a_wake :: "('h, 'x, 'c, 'z) api \<Rightarrow> run_id \<Rightarrow> message_id \<Rightarrow> ('h, 'x) world \<Rightarrow> (string + bool) \<times> ('h, 'x) world" where
  "a_wake ap run ask =
     wcall (ap_wk ap) (\<lambda>n. on_redis (wake (en_txt (env_at (ap_wk ap) n)) (ca_fate (wk_calls (ap_wk ap)) n) run ask))"

text \<open>The loop of \<open>answer_question\<close>: \<open>tries\<close> reads are left, and \<open>asked\<close> is the question meant, once known.\<close>

fun answer_loop ::
    "('h, 'x, 'c, 'z) api \<Rightarrow> run_id \<Rightarrow> string \<Rightarrow> nat \<Rightarrow> message_id option \<Rightarrow> ('h, 'x) world \<Rightarrow> (api_error + unit) \<times> ('h, 'x) world" where
  "answer_loop ap run words 0 asked w = (Inl (ApiStore ''the task kept changing while it was answered''), w)"
| "answer_loop ap run words (Suc tries) asked w =
     (case a_read ap (get_run run) w of
        (None, w1) \<Rightarrow> (Inl ApiNotFound, w1)
      | (Some stored, w1) \<Rightarrow>
          (case open_question (sr_spec stored) (sr_events stored) of
             None \<Rightarrow> (Inl (ApiConflict ''the task is not waiting for you''), w1)
           | Some (question, prompt) \<Rightarrow>
               (let meant = (case asked of None \<Rightarrow> question | Some q \<Rightarrow> q) in
                if meant \<noteq> question then (Inl (ApiConflict ''the task is waiting on another question''), w1)
                else
                  (let ev = user_answer (env_now (ap_wk ap) w1) (sr_spec stored) question words in
                   case a_write ap (\<lambda>env. append_events_after (en_store_now env) run (length (sr_events stored)) [ev]) w1 of
                     (Inl e, w2) \<Rightarrow> (Inl e, w2)
                   | (Inr Appended, w2) \<Rightarrow> (Inr (), if ap_queue ap then snd (a_wake ap run question w2) else w2)
                   | (Inr AppendMoved, w2) \<Rightarrow> answer_loop ap run words tries (Some meant) w2
                   | (Inr AppendMissing, w2) \<Rightarrow> (Inl ApiNotFound, w2)
                   | (Inr AppendTerminal, w2) \<Rightarrow> (Inl (ApiConflict ''the task is not waiting for you''), w2)))))"

declare answer_loop.simps [simp del]

definition answer_question ::
    "('h, 'x, 'c, 'z) api \<Rightarrow> run_id \<Rightarrow> string \<Rightarrow> message_id option \<Rightarrow> ('h, 'x) world \<Rightarrow> (api_error + unit) \<times> ('h, 'x) world" where
  "answer_question ap run raw asked w =
     (let words = trim_end (trim_start raw) in
      if words = [] then (Inl (ApiBadRequest ''the answer is empty''), w)
      else if MAX_MESSAGE_BYTES < length words then (Inl (ApiTooLarge ''the answer is too long''), w)
      else answer_loop ap run words 3 asked w)"

definition reply_run ::
    "('h, 'x, 'c, 'z) api \<Rightarrow> caller \<Rightarrow> run_id \<Rightarrow> json_rejection + string \<times> message_id option \<Rightarrow> ('h, 'x) world
     \<Rightarrow> (api_error + run_id) \<times> ('h, 'x) world" where
  "reply_run ap p run body w =
     (case body of
        Inl rejected \<Rightarrow> (Inl (body_rejection rejected), w)
      | Inr (words, question) \<Rightarrow>
          (case owned_run_page ap run p 0 1 w of
             (Inl e, w1) \<Rightarrow> (Inl e, w1)
           | (Inr stored, w1) \<Rightarrow>
               (case answer_question ap run words question w1 of
                  (Inl e, w2) \<Rightarrow> (Inl e, w2)
                | (Inr u, w2) \<Rightarrow> (Inr run, w2))))"

text \<open>The task a message answers, and its text: the one it names, or the only one that waits.\<close>

definition which_task :: "waiting_task list \<Rightarrow> string \<Rightarrow> api_error + waiting_task \<times> string" where
  "which_task waiting inp =
     (case addressed inp of
        Some (label, words) \<Rightarrow>
          (case find (\<lambda>task. wt_label task = label) waiting of
             Some task \<Rightarrow> Inr (task, words)
           | None \<Rightarrow> Inl (ApiWhichTask waiting))
      | None \<Rightarrow> if length waiting = 1 then Inr (hd waiting, inp) else Inl (ApiWhichTask waiting))"

datatype thread_answer = ThreadRun string run_state | ThreadAnswered string nat run_id

text \<open>A follow-up that is the next run of the thread.\<close>

definition follow_run ::
    "('h, 'x, 'c, 'z) api \<Rightarrow> owner \<Rightarrow> string \<Rightarrow> run_spec \<Rightarrow> stored_agent option \<Rightarrow> string \<Rightarrow> limits option \<Rightarrow> ('h, 'x) world
     \<Rightarrow> ((api_error + thread_answer) \<times> ('h, 'x) world) option" where
  "follow_run ap own thread root agent inp lims w =
     (case agent of
        None \<Rightarrow> Some (Inl ApiAgentNotFound, w)
      | Some agent \<Rightarrow>
          if \<not> same_principal (sa_owner agent) own then Some (Inl ApiAgentNotFound, w)
          else
            (case start_owned ap own
                    \<lparr>rb_agent_id = rs_agent_id root, rb_agent_version = mf_version (sa_manifest agent), rb_input = inp,
                     rb_placement = rs_placement root, rb_work_model = rs_work_model root,
                     rb_limits = Some (case lims of None \<Rightarrow> rs_limits root | Some l \<Rightarrow> l),
                     rb_metadata = (\<lambda>key. if is_prefix ''gol.'' key then None else rs_metadata root key)\<rparr> w of
               None \<Rightarrow> None
             | Some (Inl e, w1) \<Rightarrow> Some (Inl e, w1)
             | Some (Inr run, w1) \<Rightarrow> Some (Inr (ThreadRun thread run), w1)))"

definition follow_up ::
    "('h, 'x, 'c, 'z) api \<Rightarrow> caller \<Rightarrow> string \<Rightarrow> json_rejection + string \<times> limits option \<Rightarrow> ('h, 'x) world
     \<Rightarrow> ((api_error + thread_answer) \<times> ('h, 'x) world) option" where
  "follow_up ap p thread body w =
     (case body of
        Inl rejected \<Rightarrow> Some (Inl (body_rejection rejected), w)
      | Inr (inp, lims) \<Rightarrow>
          (let own = owner_of p in
           case a_read ap (thread_root own thread) w of
             (None, w1) \<Rightarrow> Some (Inl ApiThreadNotFound, w1)
           | (Some root, w1) \<Rightarrow>
               (case a_read ap (get_agent (rs_agent_id root)) w1 of
                  (agent, w2) \<Rightarrow>
                    (case a_read ap (runs_of_thread own thread BOARD_RUNS) w2 of
                       (runs, w3) \<Rightarrow>
                         (let waiting = waiting_on_user runs in
                          if waiting = [] then follow_run ap own thread root agent inp lims w3
                          else
                            (case which_task waiting inp of
                               Inl e \<Rightarrow> Some (Inl e, w3)
                             | Inr (task, words) \<Rightarrow>
                                 if lims \<noteq> None
                                 then Some (Inl (ApiBadRequest ''an answer takes no limits: they are for a follow-up''), w3)
                                 else
                                   (case answer_question ap (wt_run_id task) words (Some (wt_question_id task)) w3 of
                                      (Inl e, w4) \<Rightarrow> Some (Inl e, w4)
                                    | (Inr u, w4) \<Rightarrow> Some (Inr (ThreadAnswered thread (wt_label task) (wt_run_id task)), w4))))))))"

section \<open>Boards\<close>

definition page_bounds :: "nat option \<Rightarrow> nat option \<Rightarrow> api_error + nat \<times> nat" where
  "page_bounds after limit =
     (let limit = (case limit of None \<Rightarrow> PAGE_MAX | Some n \<Rightarrow> n) in
      if limit = 0 \<or> PAGE_MAX < limit then Inl (ApiBadRequest ''limit must be between 1 and 50'')
      else Inr (case after of None \<Rightarrow> 0 | Some n \<Rightarrow> n, limit))"

definition list_threads ::
    "('h, 'x, 'c, 'z) api \<Rightarrow> caller \<Rightarrow> (nat option \<times> nat option) option \<Rightarrow> ('h, 'x) world
     \<Rightarrow> (api_error + thread_summary list) \<times> ('h, 'x) world" where
  "list_threads ap p query w =
     (case query of
        None \<Rightarrow> (Inl (ApiBadRequest ''after and limit must be counts''), w)
      | Some (after, limit) \<Rightarrow>
          (case page_bounds after limit of
             Inl e \<Rightarrow> (Inl e, w)
           | Inr (after, limit) \<Rightarrow>
               (case a_read ap (threads_of (owner_of p) after limit) w of (threads, w1) \<Rightarrow> (Inr threads, w1))))"

datatype card_state =
  CardQueued | CardRunning | CardWaiting | CardCompleted | CardFailed | CardCancelled | CardExpired

definition card_state_of :: "run_state \<Rightarrow> card_state" where
  "card_state_of st =
     (case dispatch st of
        DCreated \<Rightarrow> CardQueued
      | DQueued \<Rightarrow> CardQueued
      | DCompleted out \<Rightarrow> CardCompleted
      | DFailed cls message \<Rightarrow> CardFailed
      | DCancelled \<Rightarrow> CardCancelled
      | DExpired \<Rightarrow> CardExpired
      | DWaiting reason \<Rightarrow> CardWaiting
      | DAwaitingApproval a \<Rightarrow> CardWaiting
      | DPaused \<Rightarrow> CardWaiting
      | _ \<Rightarrow> (case harness st of HWaitingForMessage step attempt m \<Rightarrow> CardWaiting | _ \<Rightarrow> CardRunning))"

record board_card =
  bc_label :: nat
  bc_question :: "(message_id \<times> string) option"
  bc_run_id :: run_id
  bc_agent_id :: agent_id
  bc_parent :: "run_id option"
  bc_children :: "run_id list"
  bc_state :: card_state
  bc_outcome :: "string option"
  bc_steps :: u32
  bc_model_calls :: u32
  bc_created_at :: "timestamp option"
  bc_started_at :: "timestamp option"
  bc_ended_at :: "timestamp option"

fun started_child_of :: "event_payload \<Rightarrow> run_id option" where
  "started_child_of (ChildStarted run agent lims) = Some run"
| "started_child_of _ = None"

text \<open>Once each, in the order started.\<close>

definition board_children :: "event list \<Rightarrow> run_id list" where
  "board_children events =
     foldl (\<lambda>seen run. if run \<in> set seen then seen else seen @ [run]) []
       (List.map_filter (\<lambda>ev. started_child_of (ev_payload ev)) events)"

definition first_at :: "(event_payload \<Rightarrow> bool) \<Rightarrow> event list \<Rightarrow> timestamp option" where
  "first_at wanted events = map_option (\<lambda>ev. event_envelope.env_at (ev_envelope ev)) (find (\<lambda>ev. wanted (ev_payload ev)) events)"

definition card_of :: "nat \<Rightarrow> stored_run \<Rightarrow> board_card" where
  "card_of label run =
     (let st = fold_run (sr_spec run) (sr_events run) in
      \<lparr>bc_label = label,
       bc_question = open_question (sr_spec run) (sr_events run),
       bc_run_id = rs_run_id (sr_spec run), bc_agent_id = rs_agent_id (sr_spec run),
       bc_parent = lin_parent (rs_lineage (sr_spec run)),
       bc_children = board_children (sr_events run),
       bc_state = card_state_of st,
       bc_outcome = (case dispatch st of DCompleted out \<Rightarrow> Some out | _ \<Rightarrow> None),
       bc_steps = steps st, bc_model_calls = model_calls st,
       bc_created_at = (case sr_events run of [] \<Rightarrow> None | ev # evs \<Rightarrow> Some (event_envelope.env_at (ev_envelope ev))),
       bc_started_at = first_at (\<lambda>payload. payload = RunStarted) (sr_events run),
       bc_ended_at = first_at is_run_end (sr_events run)\<rparr>)"

definition board_cards :: "card_state option \<Rightarrow> nat \<Rightarrow> nat \<Rightarrow> stored_run list \<Rightarrow> board_card list" where
  "board_cards wanted after limit runs =
     (case wanted of
        None \<Rightarrow> map (\<lambda>(at, run). card_of (at + 1) run) (take limit (drop after (enumerate 0 runs)))
      | Some state \<Rightarrow>
          take limit (drop after (filter (\<lambda>c. bc_state c = state) (map (\<lambda>(at, run). card_of (at + 1) run) (enumerate 0 runs)))))"

definition get_board ::
    "('h, 'x, 'c, 'z) api \<Rightarrow> caller \<Rightarrow> string \<Rightarrow> (nat option \<times> nat option \<times> card_state option) option \<Rightarrow> ('h, 'x) world
     \<Rightarrow> (api_error + board_card list \<times> bool) \<times> ('h, 'x) world" where
  "get_board ap p thread query w =
     (case query of
        None \<Rightarrow> (Inl (ApiBadRequest ''after and limit must be counts, and state a card state''), w)
      | Some (after, limit, wanted) \<Rightarrow>
          (case page_bounds after limit of
             Inl e \<Rightarrow> (Inl e, w)
           | Inr (after, limit) \<Rightarrow>
               (case a_read ap (runs_of_thread (owner_of p) thread (BOARD_RUNS + 1)) w of
                  (runs, w1) \<Rightarrow>
                    if runs = [] then (Inl ApiThreadNotFound, w1)
                    else (Inr (board_cards wanted after limit (take BOARD_RUNS runs), BOARD_RUNS < length runs), w1))))"

section \<open>Stops\<close>

definition never_started :: "stored_run \<Rightarrow> bool" where
  "never_started run \<longleftrightarrow>
     (case dispatch (fold_run (sr_spec run) (sr_events run)) of DCreated \<Rightarrow> True | DQueued \<Rightarrow> True | _ \<Rightarrow> False)"

text \<open>The cancel of one run: what was appended, and whether something failed.\<close>

definition cancel_run ::
    "('h, 'x, 'c, 'z) api \<Rightarrow> stored_run \<Rightarrow> message_id option \<Rightarrow> ('h, 'x) world \<Rightarrow> (bool \<times> bool) \<times> ('h, 'x) world" where
  "cancel_run ap run ask w =
     (let spec = sr_spec run; ev = run_cancelled_event (env_now (ap_wk ap) w) spec in
      case a_write ap (\<lambda>env. append_events_after (en_store_now env) (rs_run_id spec) (length (sr_events run)) [ev]) w of
        (Inl e, w1) \<Rightarrow> ((False, True), w1)
      | (Inr Appended, w1) \<Rightarrow>
          (case ask of
             None \<Rightarrow> ((True, False), w1)
           | Some m \<Rightarrow>
               (case a_wake ap (rs_run_id spec) m w1 of
                  (Inl e, w2) \<Rightarrow> ((True, True), w2)
                | (Inr woken, w2) \<Rightarrow> ((True, False), w2)))
      | (Inr other, w1) \<Rightarrow> ((False, False), w1))"

text \<open>The loop over the open runs under a stop: those cancelled, in order, and whether something failed.\<close>

fun cancel_runs ::
    "('h, 'x, 'c, 'z) api \<Rightarrow> (run_id \<times> message_id) list \<Rightarrow> stored_run list \<Rightarrow> ('h, 'x) world
     \<Rightarrow> ((run_id list \<times> bool) \<times> ('h, 'x) world) option" where
  "cancel_runs ap parked_runs [] w = Some (([], False), w)"
| "cancel_runs ap parked_runs (run # runs) w =
     (let nm = rs_run_id (sr_spec run); ask = map_option snd (find (\<lambda>(r, m). r = nm) parked_runs) in
      if \<not> never_started run \<and> ask = None then cancel_runs ap parked_runs runs w
      else
        (case a_read ap (stopped nm) w of
           (None, w1) \<Rightarrow> None
         | (Some False, w1) \<Rightarrow> cancel_runs ap parked_runs runs w1
         | (Some True, w1) \<Rightarrow>
             (case cancel_run ap run ask w1 of
                ((appended, failed), w2) \<Rightarrow>
                  map_option (\<lambda>((cancelled, fails), w3). ((if appended then nm # cancelled else cancelled, failed \<or> fails), w3))
                    (cancel_runs ap parked_runs runs w2))))"

definition a_parked :: "('h, 'x, 'c, 'z) api \<Rightarrow> ('h, 'x) world \<Rightarrow> (string + (run_id \<times> message_id) list) \<times> ('h, 'x) world" where
  "a_parked ap = wcall (ap_wk ap) (\<lambda>n. on_redis (parked (en_txt (env_at (ap_wk ap) n)) (ca_fate (wk_calls (ap_wk ap)) n)))"

definition stop ::
    "('h, 'x, 'c, 'z) api \<Rightarrow> owner \<Rightarrow> stop_scope \<Rightarrow> ('h, 'x) world \<Rightarrow> ((api_error + run_id list) \<times> ('h, 'x) world) option" where
  "stop ap own scope w =
     (case a_write ap (\<lambda>env. put_stop own scope) w of
        (Inl e, w1) \<Rightarrow> Some (Inl e, w1)
      | (Inr u, w1) \<Rightarrow>
          if \<not> ap_queue ap then Some (Inr [], w1)
          else
            (case a_parked ap w1 of
               (listed, w2) \<Rightarrow>
                 (let parked_runs = (case listed of Inl e \<Rightarrow> [] | Inr rows \<Rightarrow> rows) in
                  case a_read ap (open_runs_under own scope) w2 of
                    (None, w3) \<Rightarrow> None
                  | (Some runs, w3) \<Rightarrow>
                      (case cancel_runs ap parked_runs runs w3 of
                         None \<Rightarrow> None
                       | Some ((cancelled, failed), w4) \<Rightarrow>
                           Some (if isl listed \<or> failed then Inl (ApiStore ''a stop could not cancel every run'') else Inr cancelled,
                                 w4)))))"

definition stop_run ::
    "('h, 'x, 'c, 'z) api \<Rightarrow> caller \<Rightarrow> run_id \<Rightarrow> ('h, 'x) world \<Rightarrow> ((api_error + run_id list) \<times> ('h, 'x) world) option" where
  "stop_run ap p run w =
     (case owned_run_page ap run p 0 1 w of
        (Inl e, w1) \<Rightarrow> Some (Inl e, w1)
      | (Inr stored, w1) \<Rightarrow> stop ap (owner_of p) (StopRun run) w1)"

definition stop_thread ::
    "('h, 'x, 'c, 'z) api \<Rightarrow> caller \<Rightarrow> string \<Rightarrow> ('h, 'x) world \<Rightarrow> ((api_error + run_id list) \<times> ('h, 'x) world) option" where
  "stop_thread ap p thread w =
     (let own = owner_of p in
      case a_read ap (thread_root own thread) w of
        (Some root, w1) \<Rightarrow> stop ap own (StopThread thread) w1
      | (None, w1) \<Rightarrow>
          (case a_read ap (open_runs_under own (StopThread thread)) w1 of
             (None, w2) \<Rightarrow> None
           | (Some runs, w2) \<Rightarrow>
               if runs = [] then Some (Inl ApiThreadNotFound, w2) else stop ap own (StopThread thread) w2))"

definition stop_owner ::
    "('h, 'x, 'c, 'z) api \<Rightarrow> caller \<Rightarrow> ('h, 'x) world \<Rightarrow> ((api_error + run_id list \<times> nat) \<times> ('h, 'x) world) option" where
  "stop_owner ap p w =
     (case a_write ap (\<lambda>env. pause_triggers (owner_of p)) w of
        (paused, w1) \<Rightarrow>
          (case stop ap (owner_of p) StopOwner w1 of
             None \<Rightarrow> None
           | Some (Inl e, w2) \<Rightarrow> Some (Inl e, w2)
           | Some (Inr cancelled, w2) \<Rightarrow>
               Some (case paused of Inl e \<Rightarrow> Inl e | Inr n \<Rightarrow> Inr (cancelled, n), w2)))"

section \<open>Triggers\<close>

datatype kind_body = KindSchedule string string | KindWebhook

record trigger_body =
  gb_agent_id :: agent_id
  gb_kind :: kind_body
  gb_input :: string
  gb_placement :: execution_placement
  gb_work_model :: work_model
  gb_limits :: "limits option"
  gb_missed :: "missed option"

text \<open>A trigger as it is shown, with its thread, and the secret where an answer carries it.\<close>

record trigger_answer =
  ta_trigger :: stored_trigger
  ta_thread :: string
  ta_secret :: "string option"

definition trigger_view :: "uuid_ops \<Rightarrow> stored_trigger \<Rightarrow> trigger_answer" where
  "trigger_view ops t = \<lparr>ta_trigger = t, ta_thread = trigger_thread ops (tr_id t), ta_secret = None\<rparr>"

definition with_secret :: "('h, 'x, 'c, 'z) api \<Rightarrow> stored_trigger \<Rightarrow> trigger_answer \<Rightarrow> trigger_answer" where
  "with_secret ap t view =
     (case Option.bind (ap_webhook_key ap) (\<lambda>secret_key. webhook_secret (ap_hmac ap) (wk_uuid (ap_wk ap)) secret_key t) of
        None \<Rightarrow> view
      | Some secret \<Rightarrow> view\<lparr>ta_secret := Some secret\<rparr>)"

definition shaped :: "string \<Rightarrow> nat \<Rightarrow> bool" where
  "shaped words most \<longleftrightarrow> \<not> trim_is_empty words \<and> length words \<le> most \<and> CHR 0x00 \<notin> set words"

definition kind_of :: "('h, 'x, 'c, 'z) api \<Rightarrow> kind_body \<Rightarrow> api_error + trigger_kind" where
  "kind_of ap kind =
     (case kind of
        KindSchedule cron zone \<Rightarrow>
          if \<not> shaped cron 256 \<or> \<not> shaped zone 64 \<or> isl (next_tick (ap_cron ap) cron zone 0)
          then Inl (ApiBadRequest ''a schedule needs a cron expression and a known time zone'')
          else Inr (Schedule cron zone)
      | KindWebhook \<Rightarrow>
          if ap_webhook_key ap = None then Inl (ApiUnavailable ''webhooks are not available'') else Inr (Webhook 0))"

definition tick_after_now :: "('h, 'x, 'c, 'z) api \<Rightarrow> int \<Rightarrow> trigger_kind \<Rightarrow> api_error + int option" where
  "tick_after_now ap now kind =
     (case kind of
        Schedule cron zone \<Rightarrow>
          (case next_tick (ap_cron ap) cron zone now of
             Inl e \<Rightarrow> Inl (ApiBadRequest ''the schedule has no next tick'')
           | Inr at \<Rightarrow> Inr (Some at))
      | Webhook rotation \<Rightarrow> Inr None)"

text \<open>The trigger a request asks for, with the checks on its body.\<close>

definition new_trigger :: "('h, 'x, 'c, 'z) api \<Rightarrow> caller \<Rightarrow> trigger_body \<Rightarrow> env \<Rightarrow> api_error + stored_trigger" where
  "new_trigger ap p body env =
     (case kind_of ap (gb_kind body) of
        Inl e \<Rightarrow> Inl e
      | Inr kind \<Rightarrow>
          if (case gb_limits body of None \<Rightarrow> False | Some lims \<Rightarrow> \<not> bounded_limits lims)
          then Inl (ApiBadRequest ''limits must be between 1 and 64'')
          else if CHR 0x00 \<in> set (gb_input body) then Inl (ApiBadRequest ''the input holds a NUL character'')
          else if MAX_MESSAGE_BYTES < length (gb_input body) then Inl (ApiTooLarge ''the input is over 32 KiB'')
          else if \<not> ap_queue ap then Inl (ApiUnavailable ''triggers need the run queue'')
          else
            (case tick_after_now ap (en_now env) kind of
               Inl e \<Rightarrow> Inl e
             | Inr first \<Rightarrow>
                 Inr \<lparr>tr_id = TriggerId (en_fresh env), tr_owner = owner_of p, tr_agent_id = gb_agent_id body, tr_kind = kind,
                      tr_input = gb_input body, tr_placement = gb_placement body, tr_work_model = gb_work_model body,
                      tr_limits = gb_limits body, tr_missed = (case gb_missed body of None \<Rightarrow> RunOnceLate | Some m \<Rightarrow> m),
                      tr_enabled = True, tr_next_fire_ms = first, tr_created_ms = en_now env, tr_generation = 0\<rparr>))"

definition create_trigger ::
    "('h, 'x, 'c, 'z) api \<Rightarrow> caller \<Rightarrow> json_rejection + trigger_body \<Rightarrow> ('h, 'x) world \<Rightarrow> (api_error + trigger_answer) \<times> ('h, 'x) world" where
  "create_trigger ap p body w =
     (case body of
        Inl rejected \<Rightarrow> (Inl (body_rejection rejected), w)
      | Inr body \<Rightarrow>
          (case new_trigger ap p body (env_now (ap_wk ap) w) of
             Inl e \<Rightarrow> (Inl e, w)
           | Inr t \<Rightarrow>
               (case a_read ap (get_agent (tr_agent_id t)) (tick w) of
                  (agent, w1) \<Rightarrow>
                    if \<not> (case agent of None \<Rightarrow> False | Some a \<Rightarrow> same_principal (sa_owner a) (tr_owner t))
                    then (Inl ApiAgentNotFound, w1)
                    else
                      (case a_write ap (\<lambda>env. put_trigger t MAX_TRIGGERS) w1 of
                         (Inl e, w2) \<Rightarrow> (Inl e, w2)
                       | (Inr False, w2) \<Rightarrow> (Inl (ApiConflict ''a principal keeps at most 100 triggers''), w2)
                       | (Inr True, w2) \<Rightarrow> (Inr (with_secret ap t (trigger_view (wk_uuid (ap_wk ap)) t)), w2)))))"

definition list_triggers ::
    "('h, 'x, 'c, 'z) api \<Rightarrow> caller \<Rightarrow> ('h, 'x) world \<Rightarrow> (api_error + trigger_answer list) \<times> ('h, 'x) world" where
  "list_triggers ap p w =
     (case a_read ap (triggers_of (owner_of p)) w of
        (triggers, w1) \<Rightarrow> (Inr (map (trigger_view (wk_uuid (ap_wk ap))) triggers), w1))"

text \<open>A write that answers with the trigger, where there is one.\<close>

definition a_trigger ::
    "('h, 'x, 'c, 'z) api \<Rightarrow> api_error \<Rightarrow> (store \<Rightarrow> (store_error + stored_trigger option) \<times> store) \<Rightarrow> ('h, 'x) world
     \<Rightarrow> (api_error + stored_trigger) \<times> ('h, 'x) world" where
  "a_trigger ap missing f w =
     (case a_write ap (\<lambda>env. f) w of
        (Inl e, w1) \<Rightarrow> (Inl e, w1)
      | (Inr None, w1) \<Rightarrow> (Inl missing, w1)
      | (Inr (Some t), w1) \<Rightarrow> (Inr t, w1))"

definition set_trigger_enabled ::
    "('h, 'x, 'c, 'z) api \<Rightarrow> caller \<Rightarrow> trigger_id \<Rightarrow> bool \<Rightarrow> ('h, 'x) world \<Rightarrow> (api_error + trigger_answer) \<times> ('h, 'x) world" where
  "set_trigger_enabled ap p nm enabled w =
     (case a_trigger ap ApiTriggerNotFound (set_enabled (owner_of p) nm enabled) w of
        (Inl e, w1) \<Rightarrow> (Inl e, w1)
      | (Inr t, w1) \<Rightarrow> (Inr (trigger_view (wk_uuid (ap_wk ap)) t), w1))"

definition pause_trigger ::
    "('h, 'x, 'c, 'z) api \<Rightarrow> caller \<Rightarrow> trigger_id \<Rightarrow> ('h, 'x) world \<Rightarrow> (api_error + trigger_answer) \<times> ('h, 'x) world" where
  "pause_trigger ap p nm = set_trigger_enabled ap p nm False"

definition post_resume ::
    "('h, 'x, 'c, 'z) api \<Rightarrow> caller \<Rightarrow> trigger_id \<Rightarrow> ('h, 'x) world \<Rightarrow> (api_error + trigger_answer) \<times> ('h, 'x) world" where
  "post_resume ap p nm w =
     (let own = owner_of p; view = trigger_view (wk_uuid (ap_wk ap)) in
      case a_read ap (get_trigger own nm) w of
        (None, w1) \<Rightarrow> (Inl ApiTriggerNotFound, w1)
      | (Some t, w1) \<Rightarrow>
          if tr_enabled t then (Inr (view t), w1)
          else
            (case tick_after_now ap (en_now (env_now (ap_wk ap) w1)) (tr_kind t) of
               Inl e \<Rightarrow> (Inl e, w1)
             | Inr next_fire \<Rightarrow>
                 (case a_trigger ap ApiTriggerNotFound (resume_trigger own nm next_fire) w1 of
                    (Inl e, w2) \<Rightarrow> (Inl e, w2)
                  | (Inr t1, w2) \<Rightarrow> (Inr (view t1), w2))))"

definition rotate_trigger ::
    "('h, 'x, 'c, 'z) api \<Rightarrow> caller \<Rightarrow> trigger_id \<Rightarrow> ('h, 'x) world \<Rightarrow> (api_error + trigger_answer) \<times> ('h, 'x) world" where
  "rotate_trigger ap p nm w =
     (let own = owner_of p in
      if ap_webhook_key ap = None then (Inl (ApiUnavailable ''webhooks are not available''), w)
      else
        (case a_read ap (get_trigger own nm) w of
           (None, w1) \<Rightarrow> (Inl ApiTriggerNotFound, w1)
         | (Some t, w1) \<Rightarrow>
             if \<not> is_webhook (tr_kind t) then (Inl (ApiConflict ''only a webhook trigger has a secret''), w1)
             else
               (case a_trigger ap (ApiConflict ''the secret cannot be rotated again'') (rotate_webhook own nm) w1 of
                  (Inl e, w2) \<Rightarrow> (Inl e, w2)
                | (Inr t1, w2) \<Rightarrow> (Inr (with_secret ap t1 (trigger_view (wk_uuid (ap_wk ap)) t1)), w2))))"

definition remove_trigger ::
    "('h, 'x, 'c, 'z) api \<Rightarrow> caller \<Rightarrow> trigger_id \<Rightarrow> ('h, 'x) world \<Rightarrow> (api_error + unit) \<times> ('h, 'x) world" where
  "remove_trigger ap p nm w =
     (case a_write ap (\<lambda>env. delete_trigger (owner_of p) nm) w of
        (Inl e, w1) \<Rightarrow> (Inl e, w1)
      | (Inr deleted, w1) \<Rightarrow> (if deleted then Inr () else Inl ApiTriggerNotFound, w1))"

section \<open>Errors\<close>

fun error_status :: "api_error \<Rightarrow> nat" where
  "error_status (ApiUnsupported placement) = 422"
| "error_status (ApiDecider message) = 502"
| "error_status ApiNotFound = 404"
| "error_status ApiNoStreams = 404"
| "error_status ApiNoStops = 404"
| "error_status ApiNoThreads = 404"
| "error_status ApiNoTriggers = 404"
| "error_status ApiTriggerNotFound = 404"
| "error_status ApiThreadNotFound = 404"
| "error_status (ApiUnavailable message) = 503"
| "error_status (ApiTooLarge message) = 413"
| "error_status (ApiWhichTask waiting) = 409"
| "error_status ApiTooManyStreams = 429"
| "error_status (ApiStore message) = 503"
| "error_status ApiAgentNotFound = 404"
| "error_status (ApiProxy message) = 502"
| "error_status (ApiSandbox message) = 502"
| "error_status (ApiConflict message) = 409"
| "error_status (ApiBadRequest message) = 400"
| "error_status (ApiInvalidBody message) = 400"
| "error_status (ApiRejected rejection) =
     (case rejection of JsonDataError words \<Rightarrow> 422 | JsonSyntaxError words \<Rightarrow> 400 | OtherRejection status words \<Rightarrow> status)"
| "error_status ApiUnauthorized = 401"
| "error_status (ApiAuthUnavailable message) = 503"

fun error_words :: "api_error \<Rightarrow> string" where
  "error_words (ApiUnsupported placement) = ''unsupported placement''"
| "error_words (ApiDecider message) = message"
| "error_words ApiNotFound = ''run not found''"
| "error_words ApiNoStreams = ''streams are not available''"
| "error_words ApiNoStops = ''stops are not available''"
| "error_words ApiNoThreads = ''threads are not available''"
| "error_words ApiNoTriggers = ''triggers are not available''"
| "error_words ApiTriggerNotFound = ''trigger not found''"
| "error_words ApiThreadNotFound = ''thread not found''"
| "error_words (ApiUnavailable message) = message"
| "error_words (ApiTooLarge message) = message"
| "error_words (ApiWhichTask waiting) = ''which task?''"
| "error_words ApiTooManyStreams = ''too many open streams''"
| "error_words (ApiStore message) = ''store unavailable''"
| "error_words ApiAgentNotFound = ''agent not found''"
| "error_words (ApiProxy message) = message"
| "error_words (ApiSandbox message) = message"
| "error_words (ApiConflict message) = message"
| "error_words (ApiBadRequest message) = message"
| "error_words (ApiInvalidBody message) = message"
| "error_words (ApiRejected rejection) =
     (case rejection of JsonDataError words \<Rightarrow> words | JsonSyntaxError words \<Rightarrow> words | OtherRejection status words \<Rightarrow> words)"
| "error_words ApiUnauthorized = ''unauthorized''"
| "error_words (ApiAuthUnavailable message) = ''identity provider unavailable''"

section \<open>Routes\<close>

datatype api_request =
    PostAgents agent_manifest
  | PostRuns "json_rejection + run_body"
  | GetRun run_id
  | GetEvents run_id "(nat \<times> nat option) option"
  | GetAgUi run_id
  | GetUi run_id
  | GetRunStream run_id "string option option" "nat option option"
  | GetStream "string option option" "nat option option"
  | PostThreads "json_rejection + run_body"
  | GetThreads "(nat option \<times> nat option) option"
  | PostMessages string "json_rejection + string \<times> limits option"
  | GetBoard string "(nat option \<times> nat option \<times> card_state option) option"
  | PostStopRun run_id
  | PostReply run_id "json_rejection + string \<times> message_id option"
  | PostStopThread string
  | PostStop
  | PostTriggers "json_rejection + trigger_body"
  | GetTriggers
  | DeleteTrigger trigger_id
  | PostPause trigger_id
  | PostResume trigger_id
  | PostRotate trigger_id
  | PostTurns turn_request
  | PostCompletion run_id string
  | PostFail run_id string

datatype api_answer =
    AnswerAgent agent_manifest
  | AnswerRun run_state
  | AnswerEvents "event list"
  | AnswerAgUi "ag_ui list"
  | AnswerUi render_text
  | AnswerStream opened
  | AnswerThread string run_state
  | AnswerThreads "thread_summary list"
  | AnswerMessage thread_answer
  | AnswerBoard "board_card list" bool
  | AnswerStopped "run_id list"
  | AnswerReplied run_id
  | AnswerStoppedAll "run_id list" nat
  | AnswerTrigger trigger_answer
  | AnswerTriggers "trigger_answer list"
  | AnswerDeleted
  | AnswerTurn turn_answer

text \<open>An answer of a handler that always returns, and of one that may not.\<close>

definition answer_with :: "('a \<Rightarrow> api_answer) \<Rightarrow> streams \<Rightarrow> (api_error + 'a) \<times> ('h, 'x) world
     \<Rightarrow> ((api_error + api_answer) \<times> streams \<times> ('h, 'x) world) option" where
  "answer_with f streams r = (case r of (r, w) \<Rightarrow> Some (map_sum id f r, streams, w))"

definition answer_if :: "('a \<Rightarrow> api_answer) \<Rightarrow> streams \<Rightarrow> ((api_error + 'a) \<times> ('h, 'x) world) option
     \<Rightarrow> ((api_error + api_answer) \<times> streams \<times> ('h, 'x) world) option" where
  "answer_if f streams r = (case r of None \<Rightarrow> None | Some r \<Rightarrow> answer_with f streams r)"

fun route ::
    "('h, 'x, 'c, 'z) api \<Rightarrow> caller \<Rightarrow> api_request \<Rightarrow> streams \<Rightarrow> ('h, 'x) world
     \<Rightarrow> ((api_error + api_answer) \<times> streams \<times> ('h, 'x) world) option" where
  "route ap p (PostAgents agent) ss w = answer_with AnswerAgent ss (create_agent ap p agent w)"
| "route ap p (PostRuns body) ss w = answer_if AnswerRun ss (create_run ap p body w)"
| "route ap p (GetRun run) ss w = answer_with AnswerRun ss (show_run ap p run w)"
| "route ap p (GetEvents run query) ss w = answer_with AnswerEvents ss (get_events ap p run query w)"
| "route ap p (GetAgUi run) ss w = answer_with AnswerAgUi ss (get_ag_ui ap p run w)"
| "route ap p (GetUi run) ss w = answer_with AnswerUi ss (get_ui ap p run w)"
| "route ap p (GetRunStream run header query) ss w =
     (case get_run_stream ap p run header query ss w of ((r, ss1), w1) \<Rightarrow> Some (map_sum id AnswerStream r, ss1, w1))"
| "route ap p (GetStream header query) ss w =
     (case get_stream p header query ss of (r, ss1) \<Rightarrow> Some (map_sum id AnswerStream r, ss1, w))"
| "route ap p (PostThreads body) ss w = answer_if (\<lambda>(thread, run). AnswerThread thread run) ss (create_thread ap p body w)"
| "route ap p (GetThreads query) ss w = answer_with AnswerThreads ss (list_threads ap p query w)"
| "route ap p (PostMessages thread body) ss w = answer_if AnswerMessage ss (follow_up ap p thread body w)"
| "route ap p (GetBoard thread query) ss w =
     answer_with (\<lambda>(cards, truncated). AnswerBoard cards truncated) ss (get_board ap p thread query w)"
| "route ap p (PostStopRun run) ss w = answer_if AnswerStopped ss (stop_run ap p run w)"
| "route ap p (PostReply run body) ss w = answer_with AnswerReplied ss (reply_run ap p run body w)"
| "route ap p (PostStopThread thread) ss w = answer_if AnswerStopped ss (stop_thread ap p thread w)"
| "route ap p PostStop ss w = answer_if (\<lambda>(cancelled, paused). AnswerStoppedAll cancelled paused) ss (stop_owner ap p w)"
| "route ap p (PostTriggers body) ss w = answer_with AnswerTrigger ss (create_trigger ap p body w)"
| "route ap p GetTriggers ss w = answer_with AnswerTriggers ss (list_triggers ap p w)"
| "route ap p (DeleteTrigger nm) ss w = answer_with (\<lambda>u. AnswerDeleted) ss (remove_trigger ap p nm w)"
| "route ap p (PostPause nm) ss w = answer_with AnswerTrigger ss (pause_trigger ap p nm w)"
| "route ap p (PostResume nm) ss w = answer_with AnswerTrigger ss (post_resume ap p nm w)"
| "route ap p (PostRotate nm) ss w = answer_with AnswerTrigger ss (rotate_trigger ap p nm w)"
| "route ap p (PostTurns body) ss w = answer_if AnswerTurn ss (create_coworker_turn ap p body w)"
| "route ap p (PostCompletion run words) ss w =
     answer_with (AnswerTurn \<circ> TurnDone) ss (complete_coworker_turn ap p run words w)"
| "route ap p (PostFail run message) ss w = answer_with (AnswerTurn \<circ> TurnDone) ss (fail_coworker_turn ap p run message w)"

text \<open>Every route but the hook's extracts its caller first.\<close>

definition serve ::
    "('h, 'x, 'c, 'z) api \<Rightarrow> (string \<Rightarrow> string option) \<Rightarrow> api_request \<Rightarrow> streams \<Rightarrow> ('h, 'x) world
     \<Rightarrow> ((api_error + api_answer) \<times> streams \<times> ('h, 'x) world) option" where
  "serve ap headers request ss w =
     (case authenticated (ap_auth ap) headers of
        Inl e \<Rightarrow> Some (Inl e, ss, w)
      | Inr p \<Rightarrow> route ap p request ss w)"

text \<open>The hook, which has no caller.\<close>

definition serve_hook ::
    "('h, 'x, 'c, 'z) api \<Rightarrow> string \<Rightarrow> (string \<Rightarrow> string option) \<Rightarrow> string \<Rightarrow> ('h, 'x) world
     \<Rightarrow> ((api_error + hook_answer) \<times> ('h, 'x) world) option" where
  "serve_hook ap path headers body w =
     (case wcall (ap_wk ap)
             (\<lambda>n sv. case webhook_hook (env_at (ap_wk ap) n) (ap_hmac ap) (ap_parse ap) (ap_webhook_key ap) (ap_queue ap) path headers body sv of
                       None \<Rightarrow> (None, sv) | Some (r, sv1) \<Rightarrow> (Some r, sv1)) w of
        (None, w1) \<Rightarrow> None
      | (Some r, w1) \<Rightarrow> Some (r, w1))"

end
