(* ===== verification/Http_Frame.thy ===== *)
theory Http_Frame
  imports Http_Api Worker_Keeps
begin

text \<open>
  What a request leaves alone. Between the calls of a handler others may change the server, so what a
  handler does is told as a relation: one that the others keep is kept by a handler that changes
  nothing itself.
\<close>

section \<open>Calls in a frame\<close>

locale frame =
  fixes ap :: "('h, 'x, 'c, 'z) api" and R :: "server \<Rightarrow> server \<Rightarrow> bool"
  assumes same: "R sv sv"
    and chain: "R a b \<Longrightarrow> R b c \<Longrightarrow> R a c"
    and others: "R sv (ca_others (wk_calls (ap_wk ap)) n sv)"
begin

lemma wcall_frame:
  assumes "wcall (ap_wk ap) f w = (r, w')" and "\<And>n sv sv'. f n sv = (r, sv') \<Longrightarrow> R sv sv'"
  shows "R (wo_sv w) (wo_sv w')"
  using assms(1) assms(2) [of "wo_n w" "ca_others (wk_calls (ap_wk ap)) (wo_n w) (wo_sv w)" "wo_sv w'"] others chain
  unfolding wcall_eq by blast

lemma read_frame: "a_read ap f w = (r, w') \<Longrightarrow> R (wo_sv w) (wo_sv w')"
  unfolding a_read_def by (rule wcall_frame) (auto simp: same)

lemma write_frame:
  assumes "a_write ap f w = (r, w')"
    and "\<And>env sv x sv'. on_store (f env) sv = (x, sv') \<Longrightarrow> r = map_sum (\<lambda>e. ApiStore (error_message e)) id x \<Longrightarrow> R sv sv'"
  shows "R (wo_sv w) (wo_sv w')"
proof -
  obtain x w1 where x: "wcall (ap_wk ap) (\<lambda>n. on_store (f (env_at (ap_wk ap) n))) w = (x, w1)" by fastforce
  then have r: "r = map_sum (\<lambda>e. ApiStore (error_message e)) id x" "w' = w1"
    using assms(1) by (auto simp: a_write_def split: sum.splits)
  show ?thesis unfolding r(2) by (rule wcall_frame [OF x]) (use assms(2) r(1) in blast)
qed

lemma owned_frame: "owned ap p read w = (r, w') \<Longrightarrow> R (wo_sv w) (wo_sv w')"
  by (auto simp: owned_def split: prod.splits option.splits dest: read_frame)

text \<open>A write that leaves the store as it was.\<close>

lemma write_same:
  assumes "a_write ap f w = (Inr a, w')" and "\<And>env s s'. f env s = (Inr a, s') \<Longrightarrow> s' = s"
  shows "R (wo_sv w) (wo_sv w')"
proof (rule write_frame [OF assms(1)])
  fix env sv x sv'
  assume "on_store (f env) sv = (x, sv')" "Inr a = map_sum (\<lambda>e. ApiStore (error_message e)) id x"
  then have "f env (sv_store sv) = (Inr a, sv_store sv')" "sv_redis sv' = sv_redis sv" by (cases x; simp add: on_store_res)+
  then have "sv' = sv" using assms(2) [of env "sv_store sv" "sv_store sv'"] by simp
  then show "R sv sv'" by (simp add: same)
qed

end

text \<open>The refusals a client is told: its request changed nothing.\<close>

definition refusal :: "api_error \<Rightarrow> bool" where
  "refusal e \<longleftrightarrow> error_status e \<in> {400, 401, 404, 409, 413, 429}"

lemma refusal_simps [simp]:
  "\<not> refusal (ApiStore m)" "\<not> refusal (ApiDecider m)" "\<not> refusal (ApiProxy m)" "\<not> refusal (ApiSandbox m)"
  "\<not> refusal (ApiUnsupported pl)" "\<not> refusal (ApiUnavailable m)" "\<not> refusal (ApiAuthUnavailable m)"
  by (simp_all add: refusal_def)

lemma enqueue_api_refusal [simp]: "\<not> refusal (enqueue_api e)"
  by (cases e) simp_all

lemma start_error_refusal [simp]: "\<not> refusal (start_error_api e)"
  by (cases e) simp_all

lemma write_error: "a_write ap f w = (Inl e, w') \<Longrightarrow> \<exists>m. e = ApiStore m"
  by (auto simp: a_write_def split: prod.splits sum.splits)

lemma write_error_refusal: "a_write ap f w = (Inl e, w') \<Longrightarrow> \<not> refusal e"
  using write_error by fastforce

section \<open>Refused writes\<close>

lemma put_agent_refused: "put_agent a s = (Inr OwnedByOther, s') \<Longrightarrow> s' = s"
  by (auto simp: put_agent_def Let_def split: sum.splits option.splits if_splits)

lemma append_refused:
  "append_events_after t nm seen events s = (r, s') \<Longrightarrow> r \<noteq> Inr Appended \<Longrightarrow> s' = s"
  "append_events t nm events s = (r, s') \<Longrightarrow> r \<noteq> Inr Appended \<Longrightarrow> s' = s"
  using append_cases [of t nm "Some seen" events s] append_cases [of t nm None events s]
  by (auto simp: append_events_after_def append_events_def)

lemma put_trigger_refused: "put_trigger t most s = (Inr False, s') \<Longrightarrow> s' = s"
  by (auto simp: put_trigger_def on_triggers_def lock_write_def Let_def split: if_splits)

lemma update_first_none: "find P xs = None \<Longrightarrow> update_first P f xs = xs"
  by (induction xs) (auto split: if_splits)

lemma update_first_same: "find P xs = Some x \<Longrightarrow> f x = x \<Longrightarrow> update_first P f xs = xs"
  by (induction xs) (auto split: if_splits)

lemma triggers_same: "ts = mx_value (so_triggers s) \<Longrightarrow> s\<lparr>so_triggers := (so_triggers s)\<lparr>mx_value := ts\<rparr>\<rparr> = s"
  by simp

lemma trigger_refused:
  "set_enabled own nm b s = (Inr None, s') \<Longrightarrow> s' = s"
  "resume_trigger own nm t s = (Inr None, s') \<Longrightarrow> s' = s"
  by (auto simp: trigger_op_defs on_triggers_def lock_write_def update_first_none split: if_splits)

lemma rotate_refused: "rotate_webhook own nm s = (Inr None, s') \<Longrightarrow> s' = s"
proof (cases "find (owned_trigger own nm) (mx_value (so_triggers s))")
  case (Some t)
  then show "rotate_webhook own nm s = (Inr None, s') \<Longrightarrow> s' = s"
    by (auto simp: rotate_webhook_def on_triggers_def lock_write_def split: if_splits
        intro!: triggers_same update_first_same)
qed (auto simp: rotate_webhook_def on_triggers_def lock_write_def update_first_none split: if_splits)

lemma delete_refused: "delete_trigger own nm s = (Inr False, s') \<Longrightarrow> s' = s"
proof -
  have "length (filter P xs) < length xs \<or> filter P xs = xs" for P and xs :: "stored_trigger list"
    by (cases "\<forall>x \<in> set xs. P x") (simp, meson length_filter_less)
  then show "delete_trigger own nm s = (Inr False, s') \<Longrightarrow> s' = s"
    by (auto simp: delete_trigger_def on_triggers_def lock_write_def Let_def split: if_splits intro!: triggers_same)
qed

lemma append_why:
  assumes "append_events t nm evs s = (Inr res, s')"
  shows "res = AppendTerminal \<Longrightarrow> run_ended (get_run nm s)" "res = AppendMissing \<Longrightarrow> get_run nm s = None"
  using append_checked_result(2,3) [of t nm None evs s res s'] append_refused(2) [OF assms] assms
  by (auto simp: append_events_def)

lemma record_refused:
  assumes "record_completion env run evs s = (Inl e, s')"
  shows "s' = s" "refusal (turn_error_api e) \<Longrightarrow> run_ended (get_run run s) \<or> get_run run s = None"
  using assms append_refused(2) append_why
  by (auto simp: record_completion_def split: prod.splits sum.splits append_result.splits)

lemma provisioned_refused:
  assumes "finish_provisioned env complete sb spec events s h = (Inl e, s', h')" and "refusal (turn_error_api e)"
  shows "s' = s \<and> (run_ended (get_run (rs_run_id spec) s) \<or> get_run (rs_run_id spec) s = None)"
  using assms record_refused
  by (auto simp: finish_provisioned_def Let_def split: sum.splits prod.splits credential_source.splits if_splits)

lemma open_turn_refused:
  assumes "open_turn env complete sb spec s h = (Inl e, s', h')" and "refusal (turn_error_api e)"
  shows "s' = s"
proof -
  obtain r s1 where put: "put_run (en_store_now env) \<lparr>sr_spec = spec, sr_events = opening_events env spec\<rparr> s = (r, s1)" by fastforce
  have fin: "finish_turn env complete sb spec (opening_events env spec) s1 h = (Inl e, s', h')" and ok: "\<exists>x. r = Inr x"
    using assms put by (auto simp: open_turn_def split: sum.splits)
  have "s' = s1 \<and> (run_ended (get_run (rs_run_id spec) s1) \<or> get_run (rs_run_id spec) s1 = None)"
    using fin assms(2)
    by (auto simp: finish_turn_def Let_def split: sum.splits prod.splits if_splits dest: provisioned_refused)
  moreover have "\<not> list_ex is_end_event (opening_events env spec)"
    by (auto simp: opening_events_def actor_event_def record_event_def split: prod.split)
  moreover obtain x where "put_run (en_store_now env) \<lparr>sr_spec = spec, sr_events = opening_events env spec\<rparr> s = (Inr x, s1)"
    using put ok by auto
  from put_run_result [OF this] have "s1 = s \<or> get_run (rs_run_id spec) s1 = Some \<lparr>sr_spec = spec, sr_events = opening_events env spec\<rparr>" by auto
  ultimately show ?thesis by (auto simp: run_ended_def)
qed

lemma accept_refused:
  assumes "accept_subscription_completion env sb run raw s h = (Inl e, s', h')"
  shows "s' = s"
proof (cases "trim_end (trim_start raw) = [] \<or> isl (open_subscription ''gateway completions come from the server'' run s)")
  case True
  with assms show ?thesis by (auto simp: accept_subscription_completion_def Let_def isl_def split: if_splits)
next
  case False
  then obtain stored where stored: "open_subscription ''gateway completions come from the server'' run s = Inr stored"
    by (cases "open_subscription ''gateway completions come from the server'' run s") auto
  let ?spec = "sr_spec stored"
  obtain x s1 where rec: "record_completion env (rs_run_id ?spec) (completion_events env ?spec (trim_end (trim_start raw))) s = (x, s1)" by fastforce
  then have "x = Inl y \<Longrightarrow> s1 = s" for y using record_refused(1) by blast
  with assms False stored rec show ?thesis
    by (auto simp: accept_subscription_completion_def Let_def split: sum.splits prod.splits if_splits bool.splits)
qed

lemma fail_refused:
  assumes "fail_turn env sb run raw s h = (Inl e, s', h')"
  shows "s' = s"
proof (cases "trim_end (trim_start raw) = [] \<or> isl (open_subscription ''gateway turns end on the server'' run s)")
  case True
  with assms show ?thesis by (auto simp: fail_turn_def Let_def isl_def split: if_splits)
next
  case False
  then obtain stored where stored: "open_subscription ''gateway turns end on the server'' run s = Inr stored"
    by (cases "open_subscription ''gateway turns end on the server'' run s") auto
  obtain x s1 where rec: "record_completion env run [run_failed_event env (sr_spec stored) FDependency (trim_end (trim_start raw))] s = (x, s1)" by fastforce
  then have "x = Inl y \<Longrightarrow> s1 = s" for y using record_refused(1) by blast
  with assms False stored rec show ?thesis
    by (auto simp: fail_turn_def Let_def split: sum.splits prod.splits if_splits bool.splits)
qed

context frame
begin

lemma turn_frame:
  assumes "a_turn ap f w = (Inl e, w')" and "refusal e"
    and "\<And>n s h x s' h'. f n s h = (Inl x, s', h') \<Longrightarrow> refusal (turn_error_api x) \<Longrightarrow> s' = s"
  shows "R (wo_sv w) (wo_sv w')"
proof -
  let ?f = "\<lambda>n sv. case f n (sv_store sv) (wo_host w) of (r, s1, h1) \<Rightarrow> ((r, h1), sv\<lparr>sv_store := s1\<rparr>)"
  obtain xh w1 where "wcall (ap_wk ap) ?f w = (xh, w1)" by fastforce
  moreover obtain x h1 where "xh = (x, h1)" by fastforce
  ultimately have call: "wcall (ap_wk ap) ?f w = ((x, h1), w1)" by simp
  then obtain y where y: "x = Inl y" "e = turn_error_api y" "wo_sv w' = wo_sv w1" using assms(1) by (auto simp: a_turn_def split: sum.splits)
  show ?thesis unfolding y(3)
  proof (rule wcall_frame [OF call])
    fix n and sv sv' :: server
    assume "(case f n (sv_store sv) (wo_host w) of (r, s1, h1) \<Rightarrow> ((r, h1), sv\<lparr>sv_store := s1\<rparr>)) = ((x, h1), sv')"
    then obtain s1 where "f n (sv_store sv) (wo_host w) = (Inl y, s1, h1)" "sv' = sv\<lparr>sv_store := s1\<rparr>" using y(1) by (auto split: prod.splits)
    with assms(2,3) y(2) show "R sv sv'" by (fastforce simp: same)
  qed
qed

lemma create_agent_refused: "create_agent ap p agent w = (Inl e, w') \<Longrightarrow> refusal e \<Longrightarrow> R (wo_sv w) (wo_sv w')"
  by (auto simp: create_agent_def split: prod.splits sum.splits put_agent_result.splits
      dest: write_error_refusal elim!: write_same put_agent_refused)

lemma start_refused:
  assumes "start_owned ap own body w = Some (Inl e, w')" and "refusal e"
  shows "R (wo_sv w) (wo_sv w')"
proof -
  have queued: "start_queued ap spec v \<noteq> (Inl e, v')" for spec v v'
    using assms(2) by (auto simp: start_queued_def a_enqueue_def split: prod.splits sum.splits)
  have inline: "start_inline ap spec names v \<noteq> Some (Inl e, v')" for spec names v v'
    using assms(2) by (auto simp: start_inline_def Let_def split: prod.splits sum.splits option.splits dest: write_error_refusal)
  show ?thesis
    using assms(1) queued inline
    by (auto simp: start_owned_def split: prod.splits option.splits sum.splits if_splits dest: read_frame)
qed

lemma turn_refused:
  "create_coworker_turn ap p body w = Some (Inl e, w') \<Longrightarrow> refusal e \<Longrightarrow> R (wo_sv w) (wo_sv w')"
proof -
  have bg: "R (wo_sv w) (wo_sv w')" if "background_turn ap p body w = Some (Inl e, w')" "refusal e"
    using that by (auto simp: background_turn_def a_enqueue_def Let_def same split: option.splits prod.splits sum.splits if_splits)
  have op: "R (wo_sv w) (wo_sv w')"
    if "a_turn ap (\<lambda>n. open_turn (env_at (ap_wk ap) n) (wk_poster (ap_wk ap) n) (wk_sandbox (ap_wk ap)) spec) (tick w) = (Inl e, w')" "refusal e" for spec
    using turn_frame [OF that open_turn_refused] by simp
  show "create_coworker_turn ap p body w = Some (Inl e, w') \<Longrightarrow> refusal e \<Longrightarrow> R (wo_sv w) (wo_sv w')"
    by (auto simp: create_coworker_turn_def Let_def same split: option.splits prod.splits sum.splits if_splits dest: bg op)
qed

lemma end_turn_refused:
  "complete_coworker_turn ap p run words w = (Inl e, w') \<Longrightarrow> refusal e \<Longrightarrow> R (wo_sv w) (wo_sv w')"
  "fail_coworker_turn ap p run words w = (Inl e, w') \<Longrightarrow> refusal e \<Longrightarrow> R (wo_sv w) (wo_sv w')"
proof -
  have ends: "a_turn ap (\<lambda>n. accept_subscription_completion (env_at (ap_wk ap) n) (wk_sandbox (ap_wk ap)) run words) v = (Inl e, w')
      \<Longrightarrow> refusal e \<Longrightarrow> R (wo_sv v) (wo_sv w')"
    "a_turn ap (\<lambda>n. fail_turn (env_at (ap_wk ap) n) (wk_sandbox (ap_wk ap)) run words) v = (Inl e, w') \<Longrightarrow> refusal e \<Longrightarrow> R (wo_sv v) (wo_sv w')" for v
    by (erule (1) turn_frame, erule accept_refused fail_refused)+
  show "complete_coworker_turn ap p run words w = (Inl e, w') \<Longrightarrow> refusal e \<Longrightarrow> R (wo_sv w) (wo_sv w')"
    "fail_coworker_turn ap p run words w = (Inl e, w') \<Longrightarrow> refusal e \<Longrightarrow> R (wo_sv w) (wo_sv w')"
    by (auto simp: complete_coworker_turn_def fail_coworker_turn_def owned_run_def Let_def split: prod.splits sum.splits
        dest!: owned_frame dest: ends intro: chain)
qed

lemma read_handlers_frame:
  "show_run ap p run w = (r1, w') \<Longrightarrow> R (wo_sv w) (wo_sv w')"
  "get_events ap p run query w = (r2, w') \<Longrightarrow> R (wo_sv w) (wo_sv w')"
  "get_ag_ui ap p run w = (r3, w') \<Longrightarrow> R (wo_sv w) (wo_sv w')"
  "get_ui ap p run w = (r4, w') \<Longrightarrow> R (wo_sv w) (wo_sv w')"
  "get_run_stream ap p run header after ss w = (r5, w') \<Longrightarrow> R (wo_sv w) (wo_sv w')"
  "list_threads ap p bounds w = (r6, w') \<Longrightarrow> R (wo_sv w) (wo_sv w')"
  "get_board ap p thread cards w = (r7, w') \<Longrightarrow> R (wo_sv w) (wo_sv w')"
  "list_triggers ap p w = (r8, w') \<Longrightarrow> R (wo_sv w) (wo_sv w')"
  by (auto simp: show_run_def get_events_def get_ag_ui_def get_ui_def get_run_stream_def list_threads_def get_board_def list_triggers_def
      owned_run_def owned_run_page_def Let_def same split: prod.splits sum.splits option.splits if_splits dest: owned_frame read_frame)

lemma answer_loop_refused:
  "answer_loop ap run words tries asked w = (Inl e, w') \<Longrightarrow> R (wo_sv w) (wo_sv w')"
proof (induction tries arbitrary: asked w)
  case 0
  then show ?case by (simp add: answer_loop.simps same)
next
  case (Suc tries)
  have wrote: "R (wo_sv v) (wo_sv v')" if "a_write ap (\<lambda>env. append_events_after (en_store_now env) run n evs) v = (r, v')" "r \<noteq> Inr Appended" for v v' n evs r
  proof (rule write_frame [OF that(1)])
    fix env and sv sv' :: server and x
    assume "on_store (append_events_after (en_store_now env) run n evs) sv = (x, sv')" "r = map_sum (\<lambda>e. ApiStore (error_message e)) id x"
    moreover then have "x \<noteq> Inr Appended" using that(2) by auto
    ultimately have "sv_store sv' = sv_store sv" "sv_redis sv' = sv_redis sv" using append_refused(1) by (auto simp: on_store_res)
    then have "sv' = sv" by simp
    then show "R sv sv'" by (simp add: same)
  qed
  show ?case
    using Suc.prems unfolding answer_loop.simps Let_def
    by (auto split: prod.splits option.splits if_splits sum.splits append_result.splits dest!: read_frame dest: wrote Suc.IH intro: chain)
qed

lemma answer_refused: "answer_question ap run raw asked w = (Inl e, w') \<Longrightarrow> R (wo_sv w) (wo_sv w')"
  by (auto simp: answer_question_def Let_def same split: if_splits dest: answer_loop_refused)

lemma reply_refused: "reply_run ap p run body w = (Inl e, w') \<Longrightarrow> R (wo_sv w) (wo_sv w')"
  by (auto simp: reply_run_def owned_run_page_def same split: sum.splits prod.splits dest!: owned_frame dest: answer_refused intro: chain)

lemma follow_run_refused:
  "follow_run ap own thread root agent inp lims w = Some (Inl e, w') \<Longrightarrow> refusal e \<Longrightarrow> R (wo_sv w) (wo_sv w')"
  by (auto simp: follow_run_def same split: option.splits if_splits sum.splits prod.splits dest: start_refused)

lemma follow_up_refused:
  "follow_up ap p thread body w = Some (Inl e, w') \<Longrightarrow> refusal e \<Longrightarrow> R (wo_sv w) (wo_sv w')"
  by (auto simp: follow_up_def Let_def same split: option.splits if_splits sum.splits prod.splits
      dest!: read_frame dest: answer_refused follow_run_refused intro: chain)

lemma create_refused:
  "create_run ap p body w = Some (Inl e, w') \<Longrightarrow> refusal e \<Longrightarrow> R (wo_sv w) (wo_sv w')"
  "create_thread ap p body w = Some (Inl e, w') \<Longrightarrow> refusal e \<Longrightarrow> R (wo_sv w) (wo_sv w')"
  by (auto simp: create_run_def create_thread_def Let_def same split: sum.splits if_splits option.splits prod.splits dest: start_refused)

lemma stop_not_refused: "stop ap own scope w = Some (Inl e, w') \<Longrightarrow> \<not> refusal e"
  by (auto simp: stop_def Let_def split: prod.splits sum.splits if_splits option.splits dest: write_error_refusal)

lemma stop_refused:
  "stop_run ap p run w = Some (Inl e, w') \<Longrightarrow> refusal e \<Longrightarrow> R (wo_sv w) (wo_sv w')"
  "stop_thread ap p thread w = Some (Inl e, w') \<Longrightarrow> refusal e \<Longrightarrow> R (wo_sv w) (wo_sv w')"
  "stop_owner ap p w = Some (Inl e, w') \<Longrightarrow> refusal e \<Longrightarrow> R (wo_sv w) (wo_sv w')"
  by (auto simp: stop_run_def stop_thread_def stop_owner_def owned_run_page_def Let_def split: prod.splits sum.splits option.splits if_splits
      dest: stop_not_refused owned_frame write_error_refusal dest!: read_frame intro: chain)

lemma a_trigger_refused:
  assumes "a_trigger ap missing f w = (Inl e, w')" and "refusal e" and "\<And>s s'. f s = (Inr None, s') \<Longrightarrow> s' = s"
  shows "R (wo_sv w) (wo_sv w')"
  using assms(1,2)
  by (auto simp: a_trigger_def split: prod.splits sum.splits option.splits dest: write_error_refusal assms(3) elim!: write_same)

lemma trigger_handlers_refused:
  "create_trigger ap p body w = (Inl e, w') \<Longrightarrow> refusal e \<Longrightarrow> R (wo_sv w) (wo_sv w')"
  "pause_trigger ap p nm w = (Inl e, w') \<Longrightarrow> refusal e \<Longrightarrow> R (wo_sv w) (wo_sv w')"
  "post_resume ap p nm w = (Inl e, w') \<Longrightarrow> refusal e \<Longrightarrow> R (wo_sv w) (wo_sv w')"
  "rotate_trigger ap p nm w = (Inl e, w') \<Longrightarrow> refusal e \<Longrightarrow> R (wo_sv w) (wo_sv w')"
  "remove_trigger ap p nm w = (Inl e, w') \<Longrightarrow> refusal e \<Longrightarrow> R (wo_sv w) (wo_sv w')"
proof -
  have put: "R (wo_sv v) (wo_sv v')" if "a_write ap (\<lambda>env. put_trigger t MAX_TRIGGERS) v = (Inr False, v')" for t v v'
    by (rule write_same [OF that]) (rule put_trigger_refused)
  show "create_trigger ap p body w = (Inl e, w') \<Longrightarrow> refusal e \<Longrightarrow> R (wo_sv w) (wo_sv w')"
    by (auto simp: create_trigger_def same split: prod.splits sum.splits if_splits bool.splits dest: write_error_refusal dest!: read_frame put intro: chain)
  have ops: "R (wo_sv v) (wo_sv v')" if "a_trigger ap missing f v = (Inl e, v')" "refusal e"
    "f = set_enabled own nm b \<or> f = resume_trigger own nm t \<or> f = rotate_webhook own nm" for missing f v v' own b t
    using that(3) by (intro a_trigger_refused [OF that(1,2)]) (auto dest: trigger_refused rotate_refused)
  show "pause_trigger ap p nm w = (Inl e, w') \<Longrightarrow> refusal e \<Longrightarrow> R (wo_sv w) (wo_sv w')"
    by (auto simp: pause_trigger_def set_trigger_enabled_def split: prod.splits sum.splits dest: ops)
  show "post_resume ap p nm w = (Inl e, w') \<Longrightarrow> refusal e \<Longrightarrow> R (wo_sv w) (wo_sv w')"
    by (auto simp: post_resume_def Let_def split: prod.splits sum.splits option.splits if_splits dest!: read_frame dest: ops intro: chain)
  show "rotate_trigger ap p nm w = (Inl e, w') \<Longrightarrow> refusal e \<Longrightarrow> R (wo_sv w) (wo_sv w')"
    by (auto simp: rotate_trigger_def Let_def same split: prod.splits sum.splits option.splits if_splits dest!: read_frame dest: ops intro: chain)
  have del: "R (wo_sv v) (wo_sv v')" if "a_write ap (\<lambda>env. delete_trigger own nm) v = (Inr False, v')" for own v v'
    by (rule write_same [OF that]) (rule delete_refused)
  show "remove_trigger ap p nm w = (Inl e, w') \<Longrightarrow> refusal e \<Longrightarrow> R (wo_sv w) (wo_sv w')"
    by (auto simp: remove_trigger_def split: prod.splits sum.splits if_splits dest: write_error_refusal del)
qed

lemma answer_with_Inl: "answer_with f ss r = Some (Inl e, ss', w') \<longleftrightarrow> r = (Inl e, w') \<and> ss' = ss"
  by (cases r) (auto simp: answer_with_def map_sum_def split: sum.splits)

lemma answer_if_Inl: "answer_if f ss r = Some (Inl e, ss', w') \<longleftrightarrow> r = Some (Inl e, w') \<and> ss' = ss"
  by (cases r) (simp_all add: answer_if_def answer_with_Inl)

lemma route_refused:
  assumes "route ap p req ss w = Some (Inl e, ss', w')" and "refusal e"
  shows "R (wo_sv w) (wo_sv w')"
proof (cases req)
  case (GetRunStream run header query)
  then show ?thesis using assms by (auto split: prod.splits dest: read_handlers_frame)
next
  case (GetStream header query)
  then show ?thesis using assms by (auto simp: same split: prod.splits)
qed (use assms in \<open>auto simp: answer_with_Inl answer_if_Inl dest: create_agent_refused create_refused follow_up_refused read_handlers_frame reply_refused
    stop_refused trigger_handlers_refused turn_refused end_turn_refused\<close>)

end

end
