(* ===== verification/Http_Keeps.thy ===== *)
theory Http_Keeps
  imports Http_Frame
begin

text \<open>
  What a request keeps. A request writes runs of its caller: those it draws an id for, those it finds to be the
  caller's, and those listed for the caller. A relation that such writes keep, and the others too, is kept by every route.
\<close>

section \<open>The spec of a request\<close>

lemma build_spec_built:
  assumes "build_spec env own core caps = Some (Inr spec)"
  shows "spec = \<lparr>rs_run_id = RunId (en_fresh env), rs_owner = own, rs_agent_id = sc_agent_id core, rs_agent_version = sc_agent_version core,
      rs_input = sc_input core, rs_placement = sc_placement core, rs_work_model = sc_work_model core, rs_capabilities = caps,
      rs_limits = (case sc_limits core of None \<Rightarrow> \<lparr>max_steps = 8, max_model_calls = 4\<rparr> | Some lims \<Rightarrow> lims),
      rs_metadata = sc_metadata core, rs_lineage = lineage_default\<rparr>"
    "bounded_limits (rs_limits spec)" "\<not> has_server_key (sc_metadata core)"
  using assms by (auto simp: build_spec_def builder_defs Let_def split: if_splits)

lemma build_spec_total: "build_spec env own core caps \<noteq> None"
  by (auto simp: build_spec_def builder_defs Let_def)

section \<open>The harness of a request\<close>

text \<open>A driver without a spawner and a deliverer leaves the server alone.\<close>

definition apart :: "server \<Rightarrow> ('h, 'x) world dstate \<Rightarrow> bool" where
  "apart sv s \<longleftrightarrow> wo_sv (snd s) = sv \<and> dv_spawner (fst s) = None \<and> dv_deliverer (fst s) = None"

lemma push_apart: "apart sv s \<Longrightarrow> apart sv (push (worker_io wk spec tools) p act s)"
  by (cases s) (simp add: push_worker apart_def)

interpretation inline: driver_keeps "worker_io wk spec tools" "\<lambda>d w. (Continue, w)" "apart sv"
  for wk :: "('h, 'x) worker" and spec tools sv
proof
  let ?io = "worker_io wk spec tools"
  show "apart sv (push ?io p act s)" if "apart sv s" for s p act
    using that by (rule push_apart)
  show "apart sv (snd (authorize_decided ?io h eff s))" if "apart sv s" for s h eff
    using that
    by (auto simp: authorize_decided_def Let_def intro!: push_apart split: policy_decision.split effect.split harness_state.split)
  show "apart sv (d, snd (tl_call t inp w))" if "apart sv (d, w)" "t \<in> set (io_tools ?io)" for d w t inp
    using that by (auto simp: apart_def worker_io_def world_tool_def)
qed (auto simp: apart_def worker_io_def on_outside_def split: prod.splits)

lemma run_with_jev_apart:
  "\<exists>events ended w'. run_with_jev wk spec tools w = Some ((events, ended), w') \<and> wo_sv w' = wo_sv w"
proof -
  let ?io = "worker_io wk spec tools"
  let ?w = "w\<lparr>wo_mem := run_memory_new (rm_shared (wo_mem w))\<rparr>"
  obtain d w1 where boot: "boot ?io spec ?w = (d, w1)" by fastforce
  then have "apart (wo_sv w) (d, w1)" by (auto simp: boot_def push_worker driver_new_def apart_def)
  from inline.run_until_kept [OF this, of wk spec tools] obtain r d1 w2 where
    "run_to_completion ?io (d, w1) = Some (r, (d1, w2))" "wo_sv w2 = wo_sv w"
    by (auto simp: run_to_completion_def apart_def)
  moreover have "wo_sv w1 = wo_sv w" using boot by (auto simp: boot_def push_worker)
  ultimately show ?thesis
    by (auto simp: run_with_jev_def Let_def boot split: sum.split decider_error.split)
qed

lemma inline_events_apart:
  "\<exists>events ended w'. inline_events wk spec names w = Some ((events, ended), w') \<and> wo_sv w' = wo_sv w"
proof (cases "run_tools wk names")
  case (Inl message)
  then show ?thesis by (simp add: inline_events_def Let_def)
next
  case (Inr tools)
  with run_with_jev_apart [of wk spec tools w] show ?thesis
    by (auto simp: inline_events_def harness_events_def Let_def split: sum.split prod.split)
qed

section \<open>What every request keeps\<close>

text \<open>The spec of a run that a caller starts.\<close>

definition own_root :: "caller \<Rightarrow> run_spec \<Rightarrow> bool" where
  "own_root p spec \<longleftrightarrow> rs_owner spec = owner_of p \<and> rs_lineage spec = lineage_default \<and> bounded_limits (rs_limits spec)"

locale request_frame = frame ap R for ap :: "('h, 'x, 'c, 'z) api" and R +
  fixes p :: caller and mine :: "run_id \<Rightarrow> server \<Rightarrow> bool"
  assumes store_same: "sv_store sv' = sv_store sv \<Longrightarrow> R sv sv'"
    and mine_kept: "R a b \<Longrightarrow> mine run a \<Longrightarrow> mine run b"
    and fresh_mine: "mine (RunId (en_fresh (env_at (ap_wk ap) n))) sv"
    and found_mine: "get_run run (sv_store sv) = Some stored \<Longrightarrow> same_principal (rs_owner (sr_spec stored)) (owner_of p) \<Longrightarrow> mine run sv"
    and named_mine: "get_run run (sv_store sv) = Some stored \<Longrightarrow> mine run sv \<Longrightarrow> mine (rs_run_id (sr_spec stored)) sv"
    and listed_mine: "stored \<in> set (map snd (mx_value (so_runs (sv_store sv)))) \<Longrightarrow> same_principal (rs_owner (sr_spec stored)) (owner_of p)
        \<Longrightarrow> mine (rs_run_id (sr_spec stored)) sv"
    and put_kept: "own_root p (sr_spec row) \<Longrightarrow> R sv (snd (on_store (put_run t row) sv))"
    and append_kept: "mine nm sv \<Longrightarrow> R sv (snd (on_store (append_checked t nm seen events) sv))"
    and agent_kept: "R sv (snd (on_store (put_agent \<lparr>sa_manifest = manifest, sa_owner = (owner_of p)\<rparr>) sv))"
    and stop_kept: "R sv (snd (on_store (put_stop (owner_of p) scope) sv))"
    and trigger_kept: "tr_owner tr = (owner_of p) \<Longrightarrow> R sv (snd (on_store (put_trigger tr most) sv))"
      "R sv (snd (on_store (set_enabled (owner_of p) tnm enabled) sv))" "R sv (snd (on_store (resume_trigger (owner_of p) tnm tick_at) sv))"
      "R sv (snd (on_store (rotate_webhook (owner_of p) tnm) sv))" "R sv (snd (on_store (delete_trigger (owner_of p) tnm) sv))"
      "R sv (snd (on_store (pause_triggers (owner_of p)) sv))"
begin

lemma write_kept: "a_write ap f w = (r, w') \<Longrightarrow> (\<And>env sv. R sv (snd (on_store (f env) sv))) \<Longrightarrow> R (wo_sv w) (wo_sv w')"
  by (erule write_frame) (metis snd_conv)

lemma redis_kept: "R sv (snd (on_redis f sv))"
  by (rule store_same) simp

lemma wake_kept: "a_wake ap run m w = (r, w') \<Longrightarrow> R (wo_sv w) (wo_sv w')"
  unfolding a_wake_def by (erule wcall_frame) (metis redis_kept snd_conv)

lemma write_mine:
  assumes "a_write ap f w = (r, w')" and "mine nm (wo_sv w)" and "\<And>env sv. mine nm sv \<Longrightarrow> R sv (snd (on_store (f env) sv))"
  shows "R (wo_sv w) (wo_sv w')"
proof -
  let ?sv = "ca_others (wk_calls (ap_wk ap)) (wo_n w) (wo_sv w)"
  have first: "R (wo_sv w) ?sv" by (rule others)
  obtain x w1 where x: "wcall (ap_wk ap) (\<lambda>n. on_store (f (env_at (ap_wk ap) n))) w = (x, w1)" by fastforce
  then have "w' = w1" using assms(1) by (auto simp: a_write_def split: sum.splits)
  with x have "on_store (f (env_at (ap_wk ap) (wo_n w))) ?sv = (x, wo_sv w')" by (simp add: wcall_eq)
  moreover have "mine nm ?sv" using mine_kept [OF first assms(2)] .
  ultimately have "R ?sv (wo_sv w')" using assms(3) by (metis snd_conv)
  with first show ?thesis by (rule chain)
qed

lemma append_mine:
  "a_write ap (\<lambda>env. append_events_after (t env) nm n evs) w = (r, w') \<Longrightarrow> mine nm (wo_sv w) \<Longrightarrow> R (wo_sv w) (wo_sv w')"
  "a_write ap (\<lambda>env. append_events (t env) nm evs) w = (r, w') \<Longrightarrow> mine nm (wo_sv w) \<Longrightarrow> R (wo_sv w) (wo_sv w')"
  unfolding append_events_after_def append_events_def by (erule (1) write_mine, erule append_kept)+

lemma enqueue_kept:
  assumes "\<And>sv. mine (rs_run_id spec) sv" and "own_root p spec"
  shows "R sv (snd (enqueue env spec opf sv))"
proof -
  let ?put = "put_run (en_store_now env) \<lparr>sr_spec = spec, sr_events = queued_events env spec\<rparr>"
  obtain r1 sv1 where a: "on_redis (pend (en_txt env) (en_fate env AtPend) (en_redis_now env) (rs_run_id spec)) sv = (r1, sv1)" by fastforce
  obtain r2 sv2 where b: "on_store ?put sv1 = (r2, sv2)" by fastforce
  obtain r3 sv3 where c: "on_redis (push_run (en_txt env) (en_fate env AtPush) (rs_run_id spec)) sv2 = (r3, sv3)" by fastforce
  have "R sv1 (snd (on_store ?put sv1))" by (rule put_kept) (simp add: assms(2))
  then have k: "R sv sv1" "R sv1 sv2" "R sv2 sv3" using redis_kept a b c by (metis snd_conv)+
  have ends: "R v (end_run env spec message v)" for message v
    unfolding end_run_def append_events_def by (rule append_kept [OF assms(1)])
  have two: "R sv sv2" using chain [OF k(1,2)] .
  have three: "R sv sv3" using chain [OF two k(3)] .
  have ended: "R sv (end_run env spec message sv2)" "R sv (end_run env spec message sv3)" for message
    using chain [OF two ends] chain [OF three ends] .
  show ?thesis
    unfolding enqueue_def Let_def a using b c k(1) two three ended by (simp split: sum.split on_push_failure.split)
qed

lemma a_enqueue_kept:
  assumes "a_enqueue ap spec w = (r, w')" and "\<And>sv. mine (rs_run_id spec) sv" and "own_root p spec"
  shows "R (wo_sv w) (wo_sv w')"
proof -
  obtain x w1 where x: "wcall (ap_wk ap) (\<lambda>n. enqueue (env_at (ap_wk ap) n) spec PushEnd) w = (x, w1)" by fastforce
  then have "w' = w1" using assms(1) by (auto simp: a_enqueue_def split: sum.splits)
  moreover have "R (wo_sv w) (wo_sv w1)" by (rule wcall_frame [OF x]) (metis enqueue_kept [OF assms(2,3)] snd_conv)
  ultimately show ?thesis by simp
qed

end

text \<open>The writes of a turn.\<close>

definition turn_step :: "run_id \<Rightarrow> store \<Rightarrow> store \<Rightarrow> bool" where
  "turn_step nm s s' \<longleftrightarrow> s' = s \<or> (\<exists>t seen evs. s' = snd (append_checked t nm seen evs s))"

context request_frame
begin

lemma start_inline_kept:
  assumes "start_inline ap spec names w = Some (r, w')" and "\<And>sv. mine (rs_run_id spec) sv" and "own_root p spec"
  shows "R (wo_sv w) (wo_sv w')"
proof -
  obtain r1 w1 where put: "a_write ap (\<lambda>env. put_run (en_store_now env) \<lparr>sr_spec = spec, sr_events = [user_message_event (env_now (ap_wk ap) w) spec]\<rparr>) w = (r1, w1)"
    by fastforce
  have k1: "R (wo_sv w) (wo_sv w1)" by (rule write_kept [OF put]) (rule put_kept, simp add: assms(3))
  obtain events ended w2 where ran: "inline_events (ap_wk ap) spec names w1 = Some ((events, ended), w2)" "wo_sv w2 = wo_sv w1"
    using inline_events_apart by blast
  obtain r3 w3 where app: "a_write ap (\<lambda>env. append_events (en_store_now env) (rs_run_id spec) events) w2 = (r3, w3)" by fastforce
  have k3: "R (wo_sv w) (wo_sv w3)" using append_mine(2) [OF app assms(2)] k1 ran(2) chain by simp
  obtain r4 w4 where rd: "a_read ap (get_run (rs_run_id spec)) w3 = (r4, w4)" by fastforce
  have "R (wo_sv w) (wo_sv w4)" using chain [OF k3 read_frame [OF rd]] .
  with assms(1) put k1 ran app k3 rd show ?thesis
    by (auto simp: start_inline_def Let_def split: sum.splits option.splits)
qed

lemma start_kept:
  assumes "start_owned ap (owner_of p) body w = Some (r, w')"
  shows "R (wo_sv w) (wo_sv w')"
proof -
  obtain agent w1 where rd: "a_read ap (get_agent (rb_agent_id body)) w = (agent, w1)" by fastforce
  have k1: "R (wo_sv w) (wo_sv w1)" using read_frame [OF rd] .
  have go: "R (wo_sv w) (wo_sv w')"
    if built: "build_spec (env_now (ap_wk ap) w1) (owner_of p) (core_of_run body) caps = Some (Inr spec)"
      and ran: "start_queued ap spec (tick w1) = (r, w') \<or> start_inline ap spec names (tick w1) = Some (r, w')" for caps spec names
  proof -
    note spec = build_spec_built(1) [OF built]
    have mine: "mine (rs_run_id spec) sv" for sv unfolding spec by (simp add: env_now_def fresh_mine)
    have lin: "own_root p spec" using build_spec_built(1,2) [OF built] by (simp add: own_root_def)
    have "R (wo_sv v) (wo_sv w')" if "start_queued ap spec v = (r, w') \<or> start_inline ap spec names v = Some (r, w')" for v
      using that a_enqueue_kept [OF _ mine lin] start_inline_kept [OF _ mine lin]
      by (auto simp: start_queued_def split: prod.splits sum.splits)
    from this [OF ran] k1 show ?thesis using chain by simp
  qed
  show ?thesis
    using assms rd k1 go by (auto simp: start_owned_def split: option.splits sum.splits if_splits)
qed

lemma create_kept:
  "create_run ap p body w = Some (r1, w') \<Longrightarrow> R (wo_sv w) (wo_sv w')"
  "create_thread ap p body w = Some (r2, w') \<Longrightarrow> R (wo_sv w) (wo_sv w')"
  by (auto simp: create_run_def create_thread_def Let_def same split: sum.splits if_splits option.splits prod.splits dest: start_kept)

lemma create_agent_kept: "create_agent ap p agent w = (r, w') \<Longrightarrow> R (wo_sv w) (wo_sv w')"
  by (auto simp: create_agent_def split: prod.splits sum.splits put_agent_result.splits elim!: write_kept intro: agent_kept)

lemma turn_kept:
  assumes "a_turn ap f w = (r, w')" and "mine nm (wo_sv w)"
    and "\<And>n sv h x s' h'. mine nm sv \<Longrightarrow> f n (sv_store sv) h = (x, s', h') \<Longrightarrow> R sv (sv\<lparr>sv_store := s'\<rparr>)"
  shows "R (wo_sv w) (wo_sv w')"
proof -
  let ?f = "\<lambda>n sv. case f n (sv_store sv) (wo_host w) of (r, s1, h1) \<Rightarrow> ((r, h1), sv\<lparr>sv_store := s1\<rparr>)"
  let ?sv = "ca_others (wk_calls (ap_wk ap)) (wo_n w) (wo_sv w)"
  obtain xh w1 where "wcall (ap_wk ap) ?f w = (xh, w1)" by fastforce
  moreover obtain x h1 where "xh = (x, h1)" by fastforce
  ultimately have call: "wcall (ap_wk ap) ?f w = ((x, h1), w1)" by simp
  then have w1: "wo_sv w' = wo_sv w1" using assms(1) by (auto simp: a_turn_def split: sum.splits)
  have first: "R (wo_sv w) ?sv" by (rule others)
  from call obtain s1 where "f (wo_n w) (sv_store ?sv) (wo_host w) = (x, s1, h1)" "wo_sv w1 = ?sv\<lparr>sv_store := s1\<rparr>"
    by (auto simp: wcall_eq split: prod.splits)
  then have "R ?sv (wo_sv w1)" using assms(3) mine_kept [OF first assms(2)] by fastforce
  with first w1 show ?thesis using chain by simp
qed

lemma turn_step_kept: "turn_step nm (sv_store sv) s' \<Longrightarrow> mine nm sv \<Longrightarrow> R sv (sv\<lparr>sv_store := s'\<rparr>)"
proof -
  assume "turn_step nm (sv_store sv) s'" "mine nm sv"
  then consider "s' = sv_store sv" | t seen evs where "s' = snd (append_checked t nm seen evs (sv_store sv))" by (auto simp: turn_step_def)
  then show "R sv (sv\<lparr>sv_store := s'\<rparr>)"
  proof cases
    case 2
    have "sv\<lparr>sv_store := s'\<rparr> = snd (on_store (append_checked t nm seen evs) sv)" using 2 by (simp add: on_store_def split: prod.split)
    with append_kept [OF \<open>mine nm sv\<close>] show ?thesis by simp
  qed (simp add: same)
qed

end

lemma record_step: "record_completion env nm evs s = (r, s') \<Longrightarrow> turn_step nm s s'"
  by (auto simp: record_completion_def append_events_def turn_step_def split: prod.splits sum.splits append_result.splits) (metis snd_conv)+

lemma failed_step: "turn_step (rs_run_id spec) s (end_failed env spec cls message s)"
  by (auto simp: end_failed_def append_events_def turn_step_def)

lemma step_refl: "turn_step nm s s"
  by (simp add: turn_step_def)

lemma provisioned_step: "finish_provisioned env complete sb spec events s h = (r, s', h') \<Longrightarrow> turn_step (rs_run_id spec) s s'"
  by (auto simp: finish_provisioned_def Let_def step_refl failed_step split: credential_source.splits sum.splits prod.splits if_splits
      dest: record_step)

lemma finish_step: "finish_turn env complete sb spec events s h = (r, s', h') \<Longrightarrow> turn_step (rs_run_id spec) s s'"
  by (auto simp: finish_turn_def Let_def step_refl failed_step split: if_splits prod.splits sum.splits dest: provisioned_step)

lemma open_subscription_found: "open_subscription why run s = Inr stored \<Longrightarrow> get_run run s = Some stored"
  by (auto simp: open_subscription_def split: option.splits if_splits sum.splits)

lemma accept_step:
  assumes "accept_subscription_completion env sb run raw s h = (r, s', h')"
  shows "s' = s \<or> (\<exists>stored. get_run run s = Some stored \<and> turn_step (rs_run_id (sr_spec stored)) s s')"
proof (cases "trim_end (trim_start raw) = [] \<or> isl (open_subscription ''gateway completions come from the server'' run s)")
  case True
  with assms show ?thesis by (auto simp: accept_subscription_completion_def Let_def isl_def split: if_splits)
next
  case False
  then obtain stored where stored: "open_subscription ''gateway completions come from the server'' run s = Inr stored"
    by (cases "open_subscription ''gateway completions come from the server'' run s") auto
  let ?spec = "sr_spec stored"
  obtain x s1 where rec: "record_completion env (rs_run_id ?spec) (completion_events env ?spec (trim_end (trim_start raw))) s = (x, s1)" by fastforce
  have "s' = s \<or> s' = s1"
    using assms False stored rec
    by (auto simp: accept_subscription_completion_def Let_def split: sum.splits prod.splits if_splits bool.splits)
  then show ?thesis using record_step [OF rec] open_subscription_found [OF stored] by blast
qed

lemma fail_step:
  assumes "fail_turn env sb run raw s h = (r, s', h')"
  shows "turn_step run s s'"
proof (cases "trim_end (trim_start raw) = [] \<or> isl (open_subscription ''gateway turns end on the server'' run s)")
  case True
  with assms show ?thesis by (auto simp: fail_turn_def Let_def isl_def step_refl split: if_splits)
next
  case False
  then obtain stored where stored: "open_subscription ''gateway turns end on the server'' run s = Inr stored"
    by (cases "open_subscription ''gateway turns end on the server'' run s") auto
  obtain x s1 where rec: "record_completion env run [run_failed_event env (sr_spec stored) FDependency (trim_end (trim_start raw))] s = (x, s1)" by fastforce
  have "s' = s \<or> s' = s1"
    using assms False stored rec
    by (auto simp: fail_turn_def Let_def split: sum.splits prod.splits if_splits bool.splits)
  then show ?thesis using record_step [OF rec] step_refl by blast
qed

context request_frame
begin

lemma open_turn_kept:
  assumes "open_turn env complete sb spec (sv_store sv) h = (r, s', h')"
    and "\<And>sv. mine (rs_run_id spec) sv" and "own_root p spec"
  shows "R sv (sv\<lparr>sv_store := s'\<rparr>)"
proof -
  let ?put = "put_run (en_store_now env) \<lparr>sr_spec = spec, sr_events = opening_events env spec\<rparr>"
  obtain x s1 where put: "?put (sv_store sv) = (x, s1)" by fastforce
  have "snd (on_store ?put sv) = sv\<lparr>sv_store := s1\<rparr>" by (simp add: on_store_def put)
  then have one: "R sv (sv\<lparr>sv_store := s1\<rparr>)" using put_kept [of "\<lparr>sr_spec = spec, sr_events = opening_events env spec\<rparr>" sv "en_store_now env"] assms(3) by simp
  have "s' = s1 \<or> turn_step (rs_run_id spec) s1 s'" using assms(1) put by (auto simp: open_turn_def split: sum.splits dest: finish_step)
  moreover have "turn_step (rs_run_id spec) s1 s' \<Longrightarrow> R (sv\<lparr>sv_store := s1\<rparr>) (sv\<lparr>sv_store := s'\<rparr>)"
    using turn_step_kept [of "rs_run_id spec" "sv\<lparr>sv_store := s1\<rparr>" s'] assms(2) by simp
  ultimately show ?thesis using one chain by blast
qed

lemma create_turn_kept: "create_coworker_turn ap p body w = Some (r, w') \<Longrightarrow> R (wo_sv w) (wo_sv w')"
proof -
  have mine: "mine (rs_run_id spec) sv" "own_root p spec"
    if "build_spec (env_now (ap_wk ap) w) (owner_of p) core caps = Some (Inr spec)" for core caps spec sv
    using build_spec_built(1,2) [OF that] by (simp_all add: env_now_def fresh_mine own_root_def)
  have bg: "R (wo_sv w) (wo_sv w')" if b: "background_turn ap p body w = Some (r, w')"
  proof -
    have go: "R (wo_sv w) (wo_sv w')" if "build_spec (env_now (ap_wk ap) w) (owner_of p) core caps = Some (Inr spec)"
        "a_enqueue ap (spec\<lparr>rs_metadata := meta\<rparr>) (tick w) = (x, w')" for core caps spec meta x
      using a_enqueue_kept [OF that(2)] mine [OF that(1)] by (simp add: own_root_def)
    show ?thesis using b go
      by (auto simp: background_turn_def Let_def same split: option.splits sum.splits if_splits prod.splits)
  qed
  have op: "R (wo_sv w) (wo_sv w')" if "build_spec (env_now (ap_wk ap) w) (owner_of p) core caps = Some (Inr spec)"
      "a_turn ap (\<lambda>n. open_turn (env_at (ap_wk ap) n) (wk_poster (ap_wk ap) n) (wk_sandbox (ap_wk ap)) spec) (tick w) = (x, w')" for core caps spec x
    using turn_kept [OF that(2) mine(1) [OF that(1)]] open_turn_kept mine [OF that(1)] by (metis tick_simps(1))
  show "create_coworker_turn ap p body w = Some (r, w') \<Longrightarrow> R (wo_sv w) (wo_sv w')"
    using bg op by (auto simp: create_coworker_turn_def Let_def same split: option.splits sum.splits if_splits prod.splits)
qed

lemma owned_mine:
  assumes "owned ap p read w = (Inr stored, w')" and "\<And>s x. read s = Some x \<Longrightarrow> \<exists>y. get_run run s = Some y \<and> sr_spec y = sr_spec x"
  shows "R (wo_sv w) (wo_sv w')" "mine run (wo_sv w')"
proof -
  show "R (wo_sv w) (wo_sv w')" by (rule owned_frame [OF assms(1)])
  from assms(1) have "read (sv_store (wo_sv w')) = Some stored" "same_principal (rs_owner (sr_spec stored)) (owner_of p)"
    by (auto simp: owned_def a_read_def wcall_eq split: prod.splits option.splits if_splits)
  with assms(2) show "mine run (wo_sv w')" using found_mine by fastforce
qed

lemma end_turn_kept:
  "complete_coworker_turn ap p run words w = (r, w') \<Longrightarrow> R (wo_sv w) (wo_sv w')"
  "fail_coworker_turn ap p run words w = (r, w') \<Longrightarrow> R (wo_sv w) (wo_sv w')"
proof -
  have acc: "R (wo_sv v) (wo_sv w')" if "mine run (wo_sv v)"
    "a_turn ap (\<lambda>n. accept_subscription_completion (env_at (ap_wk ap) n) (wk_sandbox (ap_wk ap)) run words) v = (r, w')" for v
  proof (rule turn_kept [OF that(2,1)])
    fix n sv h x s' h'
    assume m: "mine run sv" and "accept_subscription_completion (env_at (ap_wk ap) n) (wk_sandbox (ap_wk ap)) run words (sv_store sv) h = (x, s', h')"
    from accept_step [OF this(2)] show "R sv (sv\<lparr>sv_store := s'\<rparr>)"
      using turn_step_kept named_mine [OF _ m] same by auto
  qed
  have fails: "R (wo_sv v) (wo_sv w')" if "mine run (wo_sv v)"
    "a_turn ap (\<lambda>n. fail_turn (env_at (ap_wk ap) n) (wk_sandbox (ap_wk ap)) run words) v = (r, w')" for v
    by (rule turn_kept [OF that(2,1)]) (rule turn_step_kept [OF fail_step])
  have own: "R (wo_sv w) (wo_sv v)" "mine run (wo_sv v)" if "owned ap p (get_run run) w = (Inr stored, v)" for stored v
    using owned_mine [OF that] by auto
  show "complete_coworker_turn ap p run words w = (r, w') \<Longrightarrow> R (wo_sv w) (wo_sv w')"
    "fail_coworker_turn ap p run words w = (r, w') \<Longrightarrow> R (wo_sv w) (wo_sv w')"
    by (auto simp: complete_coworker_turn_def fail_coworker_turn_def owned_run_def Let_def split: prod.splits sum.splits
        dest: owned_frame own acc fails intro: chain)
qed

end

lemma read_result: "a_read ap f w = (x, w') \<Longrightarrow> x = f (sv_store (wo_sv w'))"
  by (auto simp: a_read_def wcall_eq)

lemma waiting_listed:
  "task \<in> set (waiting_on_user runs) \<Longrightarrow> \<exists>run \<in> set runs. wt_run_id task = rs_run_id (sr_spec run)"
  by (auto simp: waiting_on_user_def List.map_filter_def in_set_enumerate_eq) (metis nth_mem)

lemma which_task_in: "which_task waiting inp = Inr (task, words) \<Longrightarrow> waiting \<noteq> [] \<Longrightarrow> task \<in> set waiting"
  by (auto simp: which_task_def find_Some_iff split: option.splits prod.splits if_splits)

lemma thread_listed:
  "run \<in> set (runs_of_thread own thread n s) \<Longrightarrow> run \<in> set (map snd (mx_value (so_runs s))) \<and> same_principal (rs_owner (sr_spec run)) own"
  by (auto simp: runs_of_thread_def lock_read_def dest!: in_set_takeD)

lemma open_listed:
  "open_runs_under own scope s = Some runs \<Longrightarrow> run \<in> set runs
     \<Longrightarrow> run \<in> set (map snd (mx_value (so_runs s))) \<and> same_principal (rs_owner (sr_spec run)) own"
  by (auto simp: open_runs_under_def lock_read_def Let_def dest: filter_ends_sound)

lemma answer_loop_step:
  assumes "answer_loop ap run words (Suc tries) asked w = (r, w')"
  obtains (unread) found e where "a_read ap (get_run run) w = (found, w')" "r = Inl e"
  | (meant) stored w1 question prompt x w2 where "a_read ap (get_run run) w = (Some stored, w1)"
      "open_question (sr_spec stored) (sr_events stored) = Some (question, prompt)" "asked \<in> {None, Some question}"
      "a_write ap (\<lambda>env. append_events_after (en_store_now env) run (length (sr_events stored))
         [user_answer (env_now (ap_wk ap) w1) (sr_spec stored) question words]) w1 = (x, w2)"
      "x = Inr Appended \<and> r = Inr () \<and> w' = (if ap_queue ap then snd (a_wake ap run question w2) else w2)
       \<or> x = Inr AppendMoved \<and> answer_loop ap run words tries (Some question) w2 = (r, w')
       \<or> x \<noteq> Inr Appended \<and> x \<noteq> Inr AppendMoved \<and> w' = w2 \<and> (\<exists>e. r = Inl e)"
proof -
  obtain found w1 where rd: "a_read ap (get_run run) w = (found, w1)" by fastforce
  show thesis
  proof (cases found)
    case None
    with assms rd unread show thesis by (auto simp: answer_loop.simps)
  next
    case (Some stored)
    note S = this
    show thesis
    proof (cases "open_question (sr_spec stored) (sr_events stored)")
      case None
      with assms rd unread S show thesis by (auto simp: answer_loop.simps)
    next
      case (Some qp)
      then obtain question prompt where q: "open_question (sr_spec stored) (sr_events stored) = Some (question, prompt)" by (cases qp) auto
      show thesis
      proof (cases "asked \<in> {None, Some question}")
        case False
        with assms rd q S unread show thesis by (auto simp: answer_loop.simps Let_def split: option.splits)
      next
        case True
        then have m: "(case asked of None \<Rightarrow> question | Some q \<Rightarrow> q) = question" by auto
        obtain x w2 where wr: "a_write ap (\<lambda>env. append_events_after (en_store_now env) run (length (sr_events stored))
         [user_answer (env_now (ap_wk ap) w1) (sr_spec stored) question words]) w1 = (x, w2)" by fastforce
        show thesis
          by (rule meant [OF _ q True wr], simp add: rd S)
            (use assms in \<open>auto simp: answer_loop.simps rd S q m wr Let_def split: sum.splits append_result.splits\<close>)
      qed
    qed
  qed
qed

context request_frame
begin

lemma answer_loop_kept: "answer_loop ap run words tries asked w = (r, w') \<Longrightarrow> mine run (wo_sv w) \<Longrightarrow> R (wo_sv w) (wo_sv w')"
proof (induction tries arbitrary: asked w)
  case 0
  then show ?case by (simp add: answer_loop.simps same)
next
  case (Suc tries)
  from Suc.prems(1) show ?case
  proof (cases rule: answer_loop_step)
    case (unread found e)
    show ?thesis using read_frame [OF unread(1)] .
  next
    case (meant stored w1 question prompt x w2)
    have m1: "R (wo_sv w) (wo_sv w1)" using read_frame [OF meant(1)] .
    have m2: "R (wo_sv w) (wo_sv w2)" using chain [OF m1 append_mine(1) [OF meant(4) mine_kept [OF m1 Suc.prems(2)]]] .
    have "R (wo_sv w2) (wo_sv (snd (a_wake ap run question w2)))" by (rule wake_kept, rule prod.collapse [symmetric])
    with meant(5) m2 show ?thesis
      using chain [OF m2 Suc.IH [OF _ mine_kept [OF m2 Suc.prems(2)]]] chain [OF m2] by auto
  qed
qed

lemma answer_kept: "answer_question ap run raw asked w = (r, w') \<Longrightarrow> mine run (wo_sv w) \<Longrightarrow> R (wo_sv w) (wo_sv w')"
  by (auto simp: answer_question_def Let_def same split: if_splits dest: answer_loop_kept)

lemma owned_page_mine:
  "owned_run_page ap run p after limit w = (Inr stored, w') \<Longrightarrow> R (wo_sv w) (wo_sv w') \<and> mine run (wo_sv w')"
  unfolding owned_run_page_def by (frule owned_mine [where run = run]) (auto simp: run_page_def dest: owned_frame split: option.splits)

lemma reply_kept: "reply_run ap p run body w = (r, w') \<Longrightarrow> R (wo_sv w) (wo_sv w')"
  by (auto simp: reply_run_def same split: sum.splits prod.splits dest!: owned_page_mine dest: owned_frame [folded owned_run_page_def] answer_kept intro: chain)
    (auto simp: owned_run_page_def dest: owned_frame)

lemma follow_run_kept: "follow_run ap (owner_of p) thread root agent inp lims w = Some (r, w') \<Longrightarrow> R (wo_sv w) (wo_sv w')"
  by (auto simp: follow_run_def same split: option.splits if_splits sum.splits prod.splits dest: start_kept)

lemma follow_up_kept:
  assumes "follow_up ap p thread body w = Some (r, w')"
  shows "R (wo_sv w) (wo_sv w')"
proof (cases body)
  case (Inl rejected)
  with assms show ?thesis by (auto simp: follow_up_def same)
next
  case (Inr b)
  obtain inp lims where b: "b = (inp, lims)" by fastforce
  obtain root w1 where r1: "a_read ap (thread_root (owner_of p) thread) w = (root, w1)" by fastforce
  have k1: "R (wo_sv w) (wo_sv w1)" using read_frame [OF r1] .
  show ?thesis
  proof (cases root)
    case None
    with assms Inr b r1 k1 show ?thesis by (simp add: follow_up_def)
  next
    case (Some spec)
    obtain agent w2 where r2: "a_read ap (get_agent (rs_agent_id spec)) w1 = (agent, w2)" by fastforce
    obtain runs w3 where r3: "a_read ap (runs_of_thread (owner_of p) thread BOARD_RUNS) w2 = (runs, w3)" by fastforce
    have k3: "R (wo_sv w) (wo_sv w3)" using chain [OF chain [OF k1 read_frame [OF r2]] read_frame [OF r3]] .
    have answered: "R (wo_sv w) (wo_sv v)" if a: "which_task (waiting_on_user runs) inp = Inr (task, words)" "waiting_on_user runs \<noteq> []"
      "answer_question ap (wt_run_id task) words q w3 = (x, v)" for task words q x v
    proof -
      obtain run where "run \<in> set runs" "wt_run_id task = rs_run_id (sr_spec run)"
        using waiting_listed which_task_in [OF a(1,2)] by blast
      moreover then have "run \<in> set (map snd (mx_value (so_runs (sv_store (wo_sv w3))))) \<and> same_principal (rs_owner (sr_spec run)) (owner_of p)"
        using read_result [OF r3] thread_listed by blast
      ultimately have "mine (wt_run_id task) (wo_sv w3)" using listed_mine by simp
      then show ?thesis using answer_kept [OF a(3)] k3 chain by blast
    qed
    show ?thesis
      using assms Inr b r1 Some r2 r3 k3 answered chain [OF k3 follow_run_kept]
      by (auto simp: follow_up_def Let_def split: if_splits sum.splits prod.splits)
  qed
qed

end

context request_frame
begin

lemma cancel_run_kept: "cancel_run ap run ask w = (r, w') \<Longrightarrow> mine (rs_run_id (sr_spec run)) (wo_sv w) \<Longrightarrow> R (wo_sv w) (wo_sv w')"
  unfolding cancel_run_def Let_def
  by (auto split: prod.splits sum.splits append_result.splits option.splits dest: append_mine(1) dest!: wake_kept intro: chain)

lemma cancel_runs_kept:
  "cancel_runs ap rows runs w = Some (r, w') \<Longrightarrow> \<forall>run \<in> set runs. mine (rs_run_id (sr_spec run)) (wo_sv w) \<Longrightarrow> R (wo_sv w) (wo_sv w')"
proof (induction runs arbitrary: w r)
  case Nil
  then show ?case by (simp add: same)
next
  case (Cons run runs)
  have on: "R (wo_sv w) (wo_sv w')" if "cancel_runs ap rows runs v = Some (x, w')" "R (wo_sv w) (wo_sv v)" for v x
    using chain [OF that(2) Cons.IH [OF that(1)]] mine_kept [OF that(2)] Cons.prems(2) by simp
  obtain found w1 where rd: "a_read ap (stopped (rs_run_id (sr_spec run))) w = (found, w1)" by fastforce
  have k1: "R (wo_sv w) (wo_sv w1)" using read_frame [OF rd] .
  have k2: "R (wo_sv w) (wo_sv w2)" if "cancel_run ap run ask w1 = (x, w2)" for ask x w2
    using chain [OF k1 cancel_run_kept [OF that]] mine_kept [OF k1] Cons.prems(2) by simp
  show ?case
    using Cons.prems(1) rd same k1
    by (auto simp: Let_def split: if_splits prod.splits option.splits bool.splits intro: on dest!: k2)
qed

lemma stop_all_kept: "stop ap (owner_of p) scope w = Some (r, w') \<Longrightarrow> R (wo_sv w) (wo_sv w')"
proof -
  assume st: "stop ap (owner_of p) scope w = Some (r, w')"
  obtain x w1 where wr: "a_write ap (\<lambda>env. put_stop (owner_of p) scope) w = (x, w1)" by fastforce
  obtain listed w2 where pk: "a_parked ap w1 = (listed, w2)" by fastforce
  obtain found w3 where rd: "a_read ap (open_runs_under (owner_of p) scope) w2 = (found, w3)" by fastforce
  have k1: "R (wo_sv w) (wo_sv w1)" using write_kept [OF wr] stop_kept by blast
  have k2: "R (wo_sv w1) (wo_sv w2)" using pk unfolding a_parked_def by (rule wcall_frame) (metis redis_kept snd_conv)
  have k3: "R (wo_sv w) (wo_sv w3)" using chain [OF chain [OF k1 k2] read_frame [OF rd]] .
  have k4: "R (wo_sv w) (wo_sv w')" if c: "cancel_runs ap rows runs w3 = Some (y, w')" "found = Some runs" for rows runs y
  proof (rule chain [OF k3 cancel_runs_kept [OF c(1)]], rule ballI)
    fix run assume "run \<in> set runs"
    with c(2) read_result [OF rd] show "mine (rs_run_id (sr_spec run)) (wo_sv w3)"
      by (intro listed_mine) (auto dest!: open_listed)
  qed
  show ?thesis
    using st wr pk rd k1 by (auto simp: stop_def Let_def split: sum.splits if_splits option.splits intro: k4)
qed

lemma stop_run_kept: "stop_run ap p run w = Some (r, w') \<Longrightarrow> R (wo_sv w) (wo_sv w')"
  by (auto simp: stop_run_def split: prod.splits sum.splits dest!: owned_frame [folded owned_run_page_def] stop_all_kept intro: chain)
    (auto simp: owned_run_page_def dest!: owned_frame stop_all_kept intro: chain)

lemma stop_thread_kept: "stop_thread ap p thread w = Some (r, w') \<Longrightarrow> R (wo_sv w) (wo_sv w')"
proof -
  assume st: "stop_thread ap p thread w = Some (r, w')"
  obtain root w1 where r1: "a_read ap (thread_root (owner_of p) thread) w = (root, w1)" by fastforce
  obtain runs w2 where r2: "a_read ap (open_runs_under (owner_of p) (StopThread thread)) w1 = (runs, w2)" by fastforce
  have k1: "R (wo_sv w) (wo_sv w1)" using read_frame [OF r1] .
  have k2: "R (wo_sv w) (wo_sv w2)" using chain [OF k1 read_frame [OF r2]] .
  show ?thesis
    using st r1 r2 k2 chain [OF k1 stop_all_kept] chain [OF k2 stop_all_kept]
    by (auto simp: stop_thread_def Let_def split: option.splits if_splits)
qed

lemma stop_owner_kept: "stop_owner ap p w = Some (r, w') \<Longrightarrow> R (wo_sv w) (wo_sv w')"
proof -
  assume st: "stop_owner ap p w = Some (r, w')"
  obtain x w1 where wr: "a_write ap (\<lambda>env. pause_triggers (owner_of p)) w = (x, w1)" by fastforce
  have k1: "R (wo_sv w) (wo_sv w1)" using write_kept [OF wr] trigger_kept(6) by blast
  show ?thesis
    using st wr chain [OF k1 stop_all_kept] by (auto simp: stop_owner_def split: option.splits sum.splits)
qed

lemma a_trigger_kept: "a_trigger ap missing f w = (r, w') \<Longrightarrow> (\<And>sv. R sv (snd (on_store f sv))) \<Longrightarrow> R (wo_sv w) (wo_sv w')"
  by (auto simp: a_trigger_def split: prod.splits sum.splits option.splits dest: write_kept)

lemma new_trigger_owner: "new_trigger ap p body env = Inr t \<Longrightarrow> tr_owner t = owner_of p"
  by (auto simp: new_trigger_def split: sum.splits if_splits)

lemma create_trigger_kept: "create_trigger ap p body w = (r, w') \<Longrightarrow> R (wo_sv w) (wo_sv w')"
proof -
  assume cr: "create_trigger ap p body w = (r, w')"
  have put: "R (wo_sv w) (wo_sv w2)" if "a_read ap (get_agent nm) (tick w) = (x, w1)" "new_trigger ap p b env = Inr t"
      "a_write ap (\<lambda>env. put_trigger t n) w1 = (y, w2)" for nm x w1 b env t n y w2
    using chain [OF read_frame [OF that(1)] write_kept [OF that(3)]] trigger_kept(1) [OF new_trigger_owner [OF that(2)]] by simp
  have rd: "R (wo_sv w) (wo_sv w1)" if "a_read ap (get_agent nm) (tick w) = (x, w1)" for nm x w1
    using read_frame [OF that] by simp
  show ?thesis
    using cr same by (auto simp: create_trigger_def split: sum.splits prod.splits if_splits bool.splits dest: rd put)
qed

lemma set_enabled_kept: "set_trigger_enabled ap p nm on w = (r, w') \<Longrightarrow> R (wo_sv w) (wo_sv w')"
  by (auto simp: set_trigger_enabled_def split: prod.splits sum.splits dest: a_trigger_kept [OF _ trigger_kept(2)])

lemma resume_kept: "post_resume ap p nm w = (r, w') \<Longrightarrow> R (wo_sv w) (wo_sv w')"
  by (auto simp: post_resume_def Let_def split: prod.splits sum.splits option.splits if_splits
      dest!: read_frame a_trigger_kept [OF _ trigger_kept(3)] intro: chain)

lemma rotate_kept: "rotate_trigger ap p nm w = (r, w') \<Longrightarrow> R (wo_sv w) (wo_sv w')"
  by (auto simp: rotate_trigger_def Let_def same split: prod.splits sum.splits option.splits if_splits
      dest!: read_frame a_trigger_kept [OF _ trigger_kept(4)] intro: chain)

lemma remove_kept: "remove_trigger ap p nm w = (r, w') \<Longrightarrow> R (wo_sv w) (wo_sv w')"
  by (auto simp: remove_trigger_def split: prod.splits sum.splits dest: write_kept [OF _ trigger_kept(5)])

lemma route_kept:
  assumes "route ap p req ss w = Some (r, ss', w')"
  shows "R (wo_sv w) (wo_sv w')"
proof (cases req)
  case (GetRunStream run header query)
  then show ?thesis using assms by (auto split: prod.splits dest: read_handlers_frame)
next
  case (GetStream header query)
  then show ?thesis using assms by (auto simp: same split: prod.splits)
qed (use assms in \<open>auto simp: answer_with_def answer_if_def pause_trigger_def split: option.splits prod.splits
    dest: create_agent_kept create_kept follow_up_kept read_handlers_frame reply_kept stop_run_kept stop_thread_kept stop_owner_kept
      create_trigger_kept set_enabled_kept resume_kept rotate_kept remove_kept create_turn_kept end_turn_kept\<close>)

end

end
