(* ===== verification/Http_Isolation.thy ===== *)
theory Http_Isolation
  imports Http_Keeps
begin

text \<open>
  Who a request can reach. The laws of requests hold of two relations here: that only the others changed the server, which a
  refused request keeps, and that nothing of another principal changed, which every request keeps. And a run of
  another principal is answered for like one that is not there.
\<close>

section \<open>Refused requests\<close>

definition others_step :: "('h, 'x, 'c, 'z) api \<Rightarrow> server \<Rightarrow> server \<Rightarrow> bool" where
  "others_step ap sv sv' \<longleftrightarrow> (\<exists>n. sv' = ca_others (wk_calls (ap_wk ap)) n sv)"

interpretation untouched: frame ap "(others_step ap)\<^sup>*\<^sup>*" for ap :: "('h, 'x, 'c, 'z) api"
  by unfold_locales (auto simp: others_step_def intro!: r_into_rtranclp)

lemma stream_refused:
  "get_stream p header query ss = (Inl e, ss') \<Longrightarrow> ss' = ss"
  "get_run_stream ap p run header query ss w = ((Inl e, ss'), w') \<Longrightarrow> ss' = ss"
  by (auto simp: get_stream_def get_run_stream_def take_slot_def Let_def split: sum.splits prod.splits if_splits option.splits)

lemma route_refused_streams: "route ap p req ss w = Some (Inl e, ss', w') \<Longrightarrow> ss' = ss"
  by (cases req) (auto simp: answer_with_def answer_if_def map_sum_def split: sum.splits prod.splits option.splits dest: stream_refused)


section \<open>Isolation\<close>

text \<open>The runs of a server by id, with their specs. A server only gains runs, each under its own id and once, and never changes a spec.\<close>

definition specs_of :: "server \<Rightarrow> (run_id \<times> run_spec) list" where
  "specs_of sv = map (map_prod id sr_spec) (mx_value (so_runs (sv_store sv)))"

definition well_named :: "(run_id \<times> run_spec) list \<Rightarrow> bool" where
  "well_named specs \<longleftrightarrow> distinct (map fst specs) \<and> list_all (\<lambda>(nm, spec). rs_run_id spec = nm) specs"

definition gains :: "server \<Rightarrow> server \<Rightarrow> bool" where
  "gains sv sv' \<longleftrightarrow> (\<exists>new. specs_of sv' = specs_of sv @ new \<and> well_named new \<and> fst ` set new \<inter> fst ` set (specs_of sv) = {})"

lemma gains_same: "specs_of sv' = specs_of sv \<Longrightarrow> gains sv sv'"
  by (auto simp: gains_def well_named_def)

lemma gains_trans: "gains a b \<Longrightarrow> gains b c \<Longrightarrow> gains a c"
proof -
  assume "gains a b" "gains b c"
  then obtain new1 new2 where n: "specs_of b = specs_of a @ new1" "well_named new1" "fst ` set new1 \<inter> fst ` set (specs_of a) = {}"
    "specs_of c = specs_of b @ new2" "well_named new2" "fst ` set new2 \<inter> fst ` set (specs_of b) = {}"
    by (auto simp: gains_def)
  then have "specs_of c = specs_of a @ new1 @ new2" "well_named (new1 @ new2)" "fst ` set (new1 @ new2) \<inter> fst ` set (specs_of a) = {}"
    by (auto simp: well_named_def)
  then show ?thesis unfolding gains_def by blast
qed

lemma gains_named: "gains a b \<Longrightarrow> well_named (specs_of b) \<longleftrightarrow> well_named (specs_of a)"
  by (fastforce simp: gains_def well_named_def)

lemma get_run_spec: "map_option sr_spec (get_run run (sv_store sv)) = map_of (specs_of sv) run"
  by (simp add: get_run_def lock_read_def specs_of_def map_prod_def id_def map_of_map [symmetric] option.map_comp) (simp add: map_of_map o_def)

lemma gains_spec: "gains a b \<Longrightarrow> get_run run (sv_store a) = Some stored \<Longrightarrow> \<exists>stored'. get_run run (sv_store b) = Some stored' \<and> sr_spec stored' = sr_spec stored"
  using get_run_spec [of run a] get_run_spec [of run b]
  by (auto simp: gains_def map_add_def split: option.splits)

text \<open>The ids that are drawn for new runs.\<close>

definition drawn :: "('h, 'x, 'c, 'z) api \<Rightarrow> run_id set" where
  "drawn ap = range (\<lambda>n. RunId (en_fresh (env_at (ap_wk ap) n)))"

definition spares :: "('h, 'x, 'c, 'z) api \<Rightarrow> caller \<Rightarrow> server \<Rightarrow> server \<Rightarrow> bool" where
  "spares ap p sv sv' \<longleftrightarrow>
     (\<forall>run stored. get_run run (sv_store sv) = Some stored \<longrightarrow> \<not> same_principal (rs_owner (sr_spec stored)) (owner_of p) \<longrightarrow> run \<notin> drawn ap
        \<longrightarrow> get_run run (sv_store sv') = Some stored)
   \<and> (\<forall>run stored. get_run run (sv_store sv) = None \<longrightarrow> get_run run (sv_store sv') = Some stored \<longrightarrow> own_root p (sr_spec stored))
   \<and> (\<forall>nm agent. get_agent nm (sv_store sv) = Some agent \<longrightarrow> \<not> same_principal (sa_owner agent) (owner_of p) \<longrightarrow> get_agent nm (sv_store sv') = Some agent)
   \<and> (\<forall>other. \<not> same_principal other (owner_of p) \<longrightarrow> triggers_of other (sv_store sv') = triggers_of other (sv_store sv))
   \<and> filter (\<lambda>(key, scope, n). key \<noteq> principal (owner_of p)) (mx_value (so_stops (sv_store sv')))
       = filter (\<lambda>(key, scope, n). key \<noteq> principal (owner_of p)) (mx_value (so_stops (sv_store sv)))"

definition caller_step :: "('h, 'x, 'c, 'z) api \<Rightarrow> caller \<Rightarrow> server \<Rightarrow> server \<Rightarrow> bool" where
  "caller_step ap p sv sv' \<longleftrightarrow> others_step ap sv sv' \<or> spares ap p sv sv'"

definition others_gain :: "('h, 'x, 'c, 'z) api \<Rightarrow> bool" where
  "others_gain ap \<longleftrightarrow> (\<forall>n sv. gains sv (ca_others (wk_calls (ap_wk ap)) n sv))"

definition isolated :: "('h, 'x, 'c, 'z) api \<Rightarrow> caller \<Rightarrow> server \<Rightarrow> server \<Rightarrow> bool" where
  "isolated ap p a b \<longleftrightarrow> (others_gain ap \<longrightarrow> gains a b \<and> (well_named (specs_of a) \<longrightarrow> (caller_step ap p)\<^sup>*\<^sup>* a b))"

definition callers_run :: "('h, 'x, 'c, 'z) api \<Rightarrow> caller \<Rightarrow> run_id \<Rightarrow> server \<Rightarrow> bool" where
  "callers_run ap p run sv \<longleftrightarrow> (others_gain ap \<longrightarrow> well_named (specs_of sv)
     \<longrightarrow> run \<in> drawn ap \<or> (\<exists>stored. get_run run (sv_store sv) = Some stored \<and> same_principal (rs_owner (sr_spec stored)) (owner_of p)))"

lemma isolatedI: "gains a b \<Longrightarrow> (well_named (specs_of a) \<Longrightarrow> spares ap p a b) \<Longrightarrow> isolated ap p a b"
  by (auto simp: isolated_def caller_step_def)

text \<open>A step that leaves the runs alone.\<close>

definition apart_from_runs :: "server \<Rightarrow> server \<Rightarrow> bool" where
  "apart_from_runs a b \<longleftrightarrow> so_runs (sv_store b) = so_runs (sv_store a)"

lemma apart_isolated:
  assumes "apart_from_runs a b"
    and "\<And>nm agent. get_agent nm (sv_store a) = Some agent \<Longrightarrow> \<not> same_principal (sa_owner agent) (owner_of p) \<Longrightarrow> get_agent nm (sv_store b) = Some agent"
    and "\<And>q. q \<noteq> principal (owner_of p) \<Longrightarrow> kept_of q (mx_value (so_triggers (sv_store b))) = kept_of q (mx_value (so_triggers (sv_store a)))"
    and "filter (\<lambda>(key, scope, n). key \<noteq> principal (owner_of p)) (mx_value (so_stops (sv_store b)))
       = filter (\<lambda>(key, scope, n). key \<noteq> principal (owner_of p)) (mx_value (so_stops (sv_store a)))"
  shows "isolated ap p a b"
proof (rule isolatedI)
  have runs: "get_run run (sv_store b) = get_run run (sv_store a)" for run
    using assms(1) by (simp add: get_run_def apart_from_runs_def)
  show "gains a b" using assms(1) by (simp add: gains_same specs_of_def apart_from_runs_def)
  show "spares ap p a b"
    using assms(2-) by (simp add: spares_def runs triggers_of_kept same_principal_iff)
qed

lemma on_store_snd: "snd (on_store f sv) = sv\<lparr>sv_store := snd (f (sv_store sv))\<rparr>"
  by (simp add: on_store_def split: prod.split)

lemma trigger_isolated:
  assumes "so_runs (snd (f (sv_store sv))) = so_runs (sv_store sv)" "so_agents (snd (f (sv_store sv))) = so_agents (sv_store sv)"
    "so_stops (snd (f (sv_store sv))) = so_stops (sv_store sv)"
    and "\<And>q. q \<noteq> principal (owner_of p) \<Longrightarrow> kept_of q (mx_value (so_triggers (snd (f (sv_store sv))))) = kept_of q (mx_value (so_triggers (sv_store sv)))"
  shows "isolated ap p sv (snd (on_store f sv))"
  using assms by (intro apart_isolated) (simp_all add: apart_from_runs_def on_store_snd get_agent_def)

lemma principal_step_frame:
  "principal_step most q s s' \<Longrightarrow> so_runs s' = so_runs s \<and> so_agents s' = so_agents s \<and> so_stops s' = so_stops s"
  by (cases rule: principal_step.cases, assumption) (auto simp: trigger_op_defs on_triggers_def lock_write_def Let_def)

lemma step_isolated: "principal_step most (principal (owner_of p)) (sv_store sv) (snd (f (sv_store sv))) \<Longrightarrow> isolated ap p sv (snd (on_store f sv))"
  using principal_step_frame [of most "principal (owner_of p)" "sv_store sv" "snd (f (sv_store sv))"]
    principal_step_other [of most "principal (owner_of p)" "sv_store sv" "snd (f (sv_store sv))"]
  by (intro trigger_isolated) auto

lemma put_trigger_isolated:
  assumes "tr_owner tr = owner_of p"
  shows "isolated ap p sv (snd (on_store (put_trigger tr most) sv))"
  using assms
  by (intro trigger_isolated) (auto simp: put_trigger_def on_triggers_def lock_write_def Let_def kept_of_def split: if_split)

lemma agent_isolated: "isolated ap p sv (snd (on_store (put_agent \<lparr>sa_manifest = manifest, sa_owner = owner_of p\<rparr>) sv))"
  by (rule apart_isolated)
    (auto simp: apart_from_runs_def on_store_snd put_agent_def get_agent_def lock_read_def lock_write_def Let_def split: option.splits)

lemma stop_isolated: "isolated ap p sv (snd (on_store (put_stop (owner_of p) scope) sv))"
  by (rule apart_isolated)
    (auto simp: apart_from_runs_def on_store_snd put_stop_def get_agent_def lock_read_def lock_write_def Let_def intro!: filter_cong)

lemma number_frame:
  "number t own nm seen n s = (r, s') \<Longrightarrow> s' = s\<lparr>so_outbox := so_outbox s', so_hints := so_hints s'\<rparr>"
  by (auto simp: number_def lock_write_def Let_def split: if_splits)

lemma update_missing: "map_of xs k = None \<Longrightarrow> AList.update k v xs = xs @ [(k, v)]"
  by (induction xs) auto

lemma put_run_runs:
  assumes "put_run t row s = (r, s')"
  shows "so_runs s' = so_runs s
      \<or> get_run (rs_run_id (sr_spec row)) s = None \<and> mx_value (so_runs s') = mx_value (so_runs s) @ [(rs_run_id (sr_spec row), row)]"
    "so_agents s' = so_agents s \<and> so_triggers s' = so_triggers s \<and> so_stops s' = so_stops s"
proof -
  show "so_runs s' = so_runs s
      \<or> get_run (rs_run_id (sr_spec row)) s = None \<and> mx_value (so_runs s') = mx_value (so_runs s) @ [(rs_run_id (sr_spec row), row)]"
    using assms
    by (auto simp: put_run_def get_run_def Let_def lock_write_def lock_read_def update_missing number_def
        split: sum.splits option.splits prod.splits if_splits)
  show "so_agents s' = so_agents s \<and> so_triggers s' = so_triggers s \<and> so_stops s' = so_stops s"
    using assms by (auto simp: put_run_def Let_def lock_write_def number_def split: sum.splits option.splits prod.splits if_splits)
qed

lemma put_isolated:
  assumes "own_root p (sr_spec row)"
  shows "isolated ap p sv (snd (on_store (put_run t row) sv))"
proof -
  obtain r s' where put: "put_run t row (sv_store sv) = (r, s')" by fastforce
  note frame = put_run_runs(2) [OF put]
  let ?nm = "rs_run_id (sr_spec row)" and ?sv' = "sv\<lparr>sv_store := s'\<rparr>"
  have "isolated ap p sv ?sv'"
    using put_run_runs(1) [OF put]
  proof
    assume "so_runs s' = so_runs (sv_store sv)"
    with frame show ?thesis by (intro apart_isolated) (simp_all add: apart_from_runs_def get_agent_def)
  next
    assume new: "get_run ?nm (sv_store sv) = None \<and> mx_value (so_runs s') = mx_value (so_runs (sv_store sv)) @ [(?nm, row)]"
    then have specs: "specs_of ?sv' = specs_of sv @ [(?nm, sr_spec row)]" by (simp add: specs_of_def)
    have "?nm \<notin> fst ` set (specs_of sv)"
      using new get_run_spec [of ?nm sv] by (metis map_of_eq_None_iff option.map(1))
    then have gains: "gains sv ?sv'" unfolding gains_def specs by (auto simp: well_named_def)
    have runs: "get_run run s' = (case get_run run (sv_store sv) of None \<Rightarrow> if run = ?nm then Some row else None | Some stored \<Rightarrow> Some stored)" for run
      using new by (simp add: get_run_def lock_read_def map_add_def split: option.split)
    have "spares ap p sv ?sv'"
      using frame assms by (auto simp: spares_def runs own_root_def get_agent_def triggers_of_def same_principal_iff split: if_splits)
    with gains show ?thesis by (rule isolatedI)
  qed
  with put show ?thesis by (simp add: on_store_snd)
qed

lemma specs_update:
  "map_of runs nm = Some old \<Longrightarrow> sr_spec new = sr_spec old \<Longrightarrow> map (map_prod id sr_spec) (AList.update nm new runs) = map (map_prod id sr_spec) runs"
  by (induction runs) auto

lemma append_isolated:
  assumes "callers_run ap p nm sv"
  shows "isolated ap p sv (snd (on_store (append_checked t nm seen events) sv))"
proof (cases rule: append_cases [of t nm seen events "sv_store sv"])
  case (appended s' old)
  let ?sv' = "sv\<lparr>sv_store := s'\<rparr>"
  have frame: "so_agents s' = so_agents (sv_store sv)" "so_triggers s' = so_triggers (sv_store sv)" "so_stops s' = so_stops (sv_store sv)"
    by (subst appended(8), simp)+
  have gains: "gains sv ?sv'" using appended(2,6) by (intro gains_same) (simp add: specs_of_def specs_update)
  have runs: "get_run run s' = (if run = nm then Some (old\<lparr>sr_events := sr_events old @ events\<rparr>) else get_run run (sv_store sv))" for run
    using appended(6) by (simp add: get_run_def lock_read_def)
  have old: "get_run nm (sv_store sv) = Some old" using appended(2) by (simp add: get_run_def lock_read_def)
  have "others_gain ap \<Longrightarrow> well_named (specs_of sv) \<Longrightarrow> spares ap p sv ?sv'"
    using assms frame old
    by (auto simp: spares_def runs callers_run_def get_agent_def triggers_of_def split: if_splits)
  with gains appended(1) show ?thesis by (auto simp: isolated_def caller_step_def on_store_snd)
next
  case (unchanged r)
  then show ?thesis by (intro apart_isolated) (simp_all add: apart_from_runs_def on_store_snd)
qed

lemma isolated_trans: "isolated ap p a b \<Longrightarrow> isolated ap p b c \<Longrightarrow> isolated ap p a c"
  unfolding isolated_def using gains_trans gains_named by (metis (mono_tags) rtranclp_trans)

lemma named_listed:
  assumes "well_named (specs_of sv)" and "stored \<in> set (map snd (mx_value (so_runs (sv_store sv))))"
  shows "get_run (rs_run_id (sr_spec stored)) (sv_store sv) = Some stored"
proof -
  obtain nm where nm: "(nm, stored) \<in> set (mx_value (so_runs (sv_store sv)))" using assms(2) by auto
  then have "rs_run_id (sr_spec stored) = nm" using assms(1) by (auto simp: well_named_def specs_of_def list_all_iff)
  moreover have "map fst (specs_of sv) = map fst (mx_value (so_runs (sv_store sv)))" by (simp add: specs_of_def)
  then have "distinct (map fst (mx_value (so_runs (sv_store sv))))" using assms(1) by (simp add: well_named_def)
  ultimately show ?thesis using nm by (simp add: get_run_def lock_read_def)
qed

lemma get_run_listed: "get_run run s = Some stored \<Longrightarrow> stored \<in> set (map snd (mx_value (so_runs s)))"
  by (force simp: get_run_def lock_read_def dest: map_of_SomeD)

lemma get_run_named:
  assumes "well_named (specs_of sv)" and "get_run run (sv_store sv) = Some stored"
  shows "rs_run_id (sr_spec stored) = run"
  using assms by (auto simp: get_run_def lock_read_def well_named_def specs_of_def list_all_iff dest!: map_of_SomeD)

interpretation own_requests: request_frame ap "isolated ap p" p "callers_run ap p" for ap :: "('h, 'x, 'c, 'z) api" and p
proof
  fix sv sv' a b c :: server and run stored row t nm seen events n
  show "isolated ap p sv sv" by (rule apart_isolated) (simp_all add: apart_from_runs_def)
  show "isolated ap p a b \<Longrightarrow> isolated ap p b c \<Longrightarrow> isolated ap p a c" by (rule isolated_trans)
  show "isolated ap p sv (ca_others (wk_calls (ap_wk ap)) n sv)"
    by (auto simp: isolated_def others_gain_def caller_step_def others_step_def intro!: r_into_rtranclp)
  show "sv_store sv' = sv_store sv \<Longrightarrow> isolated ap p sv sv'"
    by (rule apart_isolated) (simp_all add: apart_from_runs_def)
  show "isolated ap p a b \<Longrightarrow> callers_run ap p run a \<Longrightarrow> callers_run ap p run b"
    unfolding isolated_def callers_run_def using gains_named gains_spec by metis
  show "callers_run ap p (RunId (en_fresh (env_at (ap_wk ap) n))) sv" by (simp add: callers_run_def drawn_def)
  show "get_run run (sv_store sv) = Some stored \<Longrightarrow> same_principal (rs_owner (sr_spec stored)) (owner_of p) \<Longrightarrow> callers_run ap p run sv"
    by (simp add: callers_run_def)
  show "get_run run (sv_store sv) = Some stored \<Longrightarrow> callers_run ap p run sv \<Longrightarrow> callers_run ap p (rs_run_id (sr_spec stored)) sv"
    by (simp add: callers_run_def get_run_named)
  show "stored \<in> set (map snd (mx_value (so_runs (sv_store sv)))) \<Longrightarrow> same_principal (rs_owner (sr_spec stored)) (owner_of p)
        \<Longrightarrow> callers_run ap p (rs_run_id (sr_spec stored)) sv"
    unfolding callers_run_def by (metis named_listed)
qed (rule put_isolated append_isolated agent_isolated stop_isolated put_trigger_isolated, assumption?
  | rule step_isolated, rule principal_step.intros)+

text \<open>C6. A request changes nothing of another principal. Where the others only add runs, each under an id of its own,
  every change of the server while a request of a caller is served is one the others made, or one that leaves every
  run, agent, trigger and stop of the other principals as it was and adds only runs of the caller, each without a
  parent and with limits between 1 and 64; the exception is a run under an id that is drawn for a new one.\<close>

theorem request_spares_others:
  assumes "authenticated (ap_auth ap) headers = Inr p" and "serve ap headers req ss w = Some (r, ss', w')"
    and "others_gain ap" and "well_named (specs_of (wo_sv w))"
  shows "(caller_step ap p)\<^sup>*\<^sup>* (wo_sv w) (wo_sv w')"
  using own_requests.route_kept [of ap p req ss w r ss' w'] assms by (simp add: serve_def isolated_def)

section \<open>Hidden runs\<close>

text \<open>The run a request names.\<close>

fun run_asked :: "api_request \<Rightarrow> run_id option" where
  "run_asked (GetRun run) = Some run"
| "run_asked (GetEvents run query) = Some run"
| "run_asked (GetAgUi run) = Some run"
| "run_asked (GetUi run) = Some run"
| "run_asked (GetRunStream run header query) = Some run"
| "run_asked (PostStopRun run) = Some run"
| "run_asked (PostReply run body) = Some run"
| "run_asked (PostCompletion run words) = Some run"
| "run_asked (PostFail run message) = Some run"
| "run_asked _ = None"

definition hidden_from :: "caller \<Rightarrow> run_id \<Rightarrow> server \<Rightarrow> bool" where
  "hidden_from p run sv \<longleftrightarrow>
     (case get_run run (sv_store sv) of None \<Rightarrow> True | Some stored \<Rightarrow> \<not> same_principal (rs_owner (sr_spec stored)) (owner_of p))"

definition after_others :: "('h, 'x, 'c, 'z) api \<Rightarrow> ('h, 'x) world \<Rightarrow> server" where
  "after_others ap w = ca_others (wk_calls (ap_wk ap)) (wo_n w) (wo_sv w)"

lemma owned_hidden:
  assumes "hidden_from p run (after_others ap w)"
  obtains w' where "owned_run ap run p w = (Inl ApiNotFound, w')" "\<And>after limit. owned_run_page ap run p after limit w = (Inl ApiNotFound, w')"
    "wo_sv w' = after_others ap w"
proof
  let ?w = "w\<lparr>wo_sv := after_others ap w, wo_n := Suc (wo_n w)\<rparr>"
  show "owned_run ap run p w = (Inl ApiNotFound, ?w)" "owned_run_page ap run p after limit w = (Inl ApiNotFound, ?w)" for after limit
    using assms
    by (auto simp: owned_run_def owned_run_page_def owned_def a_read_def wcall_def call_def hidden_from_def after_others_def run_page_def split: option.splits)
qed simp

text \<open>C9. A run of another principal and a run that does not exist are answered alike: to a request that names a run the
  caller does not own there is one answer, an error, which is the same in every state of the store, and nothing changes.\<close>

theorem foreign_run_is_missing:
  assumes "run_asked req = Some run"
  shows "\<exists>e. \<forall>w. hidden_from p run (after_others ap w)
     \<longrightarrow> (\<exists>w'. route ap p req ss w = Some (Inl e, ss, w') \<and> wo_sv w' \<in> {wo_sv w, after_others ap w})"
proof -
  have "\<exists>e. \<forall>w w1. owned_run ap run p w = (Inl ApiNotFound, w1) \<longrightarrow> (\<forall>after limit. owned_run_page ap run p after limit w = (Inl ApiNotFound, w1))
     \<longrightarrow> (\<exists>w'. route ap p req ss w = Some (Inl e, ss, w') \<and> w' \<in> {w, w1})"
  proof (cases req)
    case (GetEvents nm query)
    let ?bad = "\<lambda>limit. (case limit of None \<Rightarrow> EVENTS_PAGE_MAX | Some limit \<Rightarrow> limit) \<in> {0} \<union> {EVENTS_PAGE_MAX<..}"
    from GetEvents assms show ?thesis
      by (cases query; cases "?bad (snd (the query))") (auto simp: get_events_def answer_with_def Let_def)
  next
    case (GetRunStream nm header query)
    with assms show ?thesis by (cases "stream_cursor header query") (auto simp: get_run_stream_def Let_def)
  next
    case (PostReply nm body)
    with assms show ?thesis by (cases body) (auto simp: reply_run_def answer_with_def)
  qed (use assms in \<open>auto simp: answer_with_def answer_if_def show_run_def get_ag_ui_def get_ui_def stop_run_def complete_coworker_turn_def
      fail_coworker_turn_def\<close>)
  then show ?thesis by (metis (no_types, lifting) owned_hidden insertE insertI1 insert_subset singletonD subset_insertI)
qed

end
