(* ===== verification/Http_Correct.thy ===== *)
theory Http_Correct
  imports Http_Isolation Worker_Correct Scheduler
begin

text \<open>
  What requests do: that each is answered, that an answer reaches the question it is for, that the labels and pages of a board
  agree with the runs, and that a stop cancels what waits in the queue; then the witnesses, on a server of one idle process.
\<close>

section \<open>Requests return\<close>

text \<open>The walks up the lineage of a stop end where a child's hop is above its parent's.\<close>

definition specs_fall :: "(run_id \<times> run_spec) list \<Rightarrow> bool" where
  "specs_fall specs \<longleftrightarrow>
     list_all (\<lambda>(nm, spec). case lin_parent (rs_lineage spec) of
         None \<Rightarrow> True
       | Some up \<Rightarrow> 0 < lin_hop (rs_lineage spec)
           \<and> (case map_of specs up of None \<Rightarrow> True | Some senior \<Rightarrow> lin_hop (rs_lineage senior) < lin_hop (rs_lineage spec))) specs"

definition others_fall :: "('h, 'x, 'c, 'z) api \<Rightarrow> bool" where
  "others_fall ap \<longleftrightarrow> (\<forall>n sv. specs_fall (specs_of sv) \<longrightarrow> specs_fall (specs_of (ca_others (wk_calls (ap_wk ap)) n sv)))"

definition fall_kept :: "('h, 'x, 'c, 'z) api \<Rightarrow> server \<Rightarrow> server \<Rightarrow> bool" where
  "fall_kept ap a b \<longleftrightarrow> (others_fall ap \<longrightarrow> specs_fall (specs_of a) \<longrightarrow> specs_fall (specs_of b))"

lemma map_of_specs: "map_of (specs_of sv) nm = map_option sr_spec (map_of (mx_value (so_runs (sv_store sv))) nm)"
  using get_run_spec [of nm sv] by (simp add: get_run_def lock_read_def)

lemma specs_fall_lineage: "specs_fall (specs_of sv) \<Longrightarrow> lineage_falls (mx_value (so_runs (sv_store sv)))"
  unfolding specs_fall_def lineage_falls_def list_all_iff map_of_specs
  by (auto simp: parent_of_def specs_of_def split: option.splits)

lemma specs_fall_root:
  assumes "specs_fall specs" and "lin_parent (rs_lineage spec) = None" and "lin_hop (rs_lineage spec) = 0"
  shows "specs_fall (specs @ [(nm, spec)])"
  using assms unfolding specs_fall_def list_all_iff by (fastforce simp: map_add_def split: option.splits if_splits)

lemma fall_same: "specs_of b = specs_of a \<Longrightarrow> fall_kept ap a b"
  by (simp add: fall_kept_def)

lemma fall_put:
  assumes "own_root p (sr_spec row)"
  shows "fall_kept ap sv (snd (on_store (put_run t row) sv))"
proof -
  obtain r s' where put: "put_run t row (sv_store sv) = (r, s')" by fastforce
  from put_run_runs(1) [OF this] have "specs_of (sv\<lparr>sv_store := s'\<rparr>) = specs_of sv
      \<or> specs_of (sv\<lparr>sv_store := s'\<rparr>) = specs_of sv @ [(rs_run_id (sr_spec row), sr_spec row)]"
    by (auto simp: specs_of_def)
  then show ?thesis
    using specs_fall_root [of "specs_of sv" "sr_spec row"] assms put
    by (auto simp: fall_kept_def on_store_snd own_root_def lineage_default_def)
qed

lemma fall_append: "fall_kept ap sv (snd (on_store (append_checked t nm seen events) sv))"
proof (cases rule: append_cases [of t nm seen events "sv_store sv"])
  case (appended s' old)
  then show ?thesis by (intro fall_same) (simp add: on_store_snd specs_of_def specs_update)
next
  case (unchanged r)
  then show ?thesis by (intro fall_same) (simp add: on_store_snd)
qed

interpretation falling: request_frame ap "fall_kept ap" p "\<lambda>run sv. True" for ap :: "('h, 'x, 'c, 'z) api" and p
proof
  fix sv a b c :: server and n
  show "fall_kept ap sv (ca_others (wk_calls (ap_wk ap)) n sv)" by (simp add: fall_kept_def others_fall_def)
  show "fall_kept ap a b \<Longrightarrow> fall_kept ap b c \<Longrightarrow> fall_kept ap a c" by (auto simp: fall_kept_def)
qed ((rule TrueI fall_append | erule fall_put)
  | rule fall_same, simp add: specs_of_def on_store_snd put_agent_def put_stop_def trigger_op_defs on_triggers_def lock_write_def
    Let_def fall_kept_def)+

lemma cancel_runs_returns:
  assumes "others_fall ap"
  shows "specs_fall (specs_of (wo_sv w)) \<Longrightarrow> cancel_runs ap rows runs w \<noteq> None"
proof (induction runs arbitrary: w)
  case (Cons run runs)
  have on: "cancel_runs ap rows runs v \<noteq> None" if "fall_kept ap (wo_sv w) (wo_sv v)" for v
    using that Cons assms by (simp add: fall_kept_def)
  obtain found w1 where rd: "a_read ap (stopped (rs_run_id (sr_spec run))) w = (found, w1)" by fastforce
  have k1: "fall_kept ap (wo_sv w) (wo_sv w1)" using falling.read_frame [OF rd] .
  then have "lineage_falls (mx_value (so_runs (sv_store (wo_sv w1))))" using Cons.prems assms by (intro specs_fall_lineage) (simp add: fall_kept_def)
  then obtain b where found: "found = Some b" using read_result [OF rd] stopped_iff by blast
  have k2: "fall_kept ap (wo_sv w) (wo_sv w2)" if "cancel_run ap run ask w1 = (x, w2)" for ask x w2
    using falling.chain [OF k1 falling.cancel_run_kept [OF that TrueI]] .
  obtain a f w2 where cr: "cancel_run ap run (map_option snd (find (\<lambda>(r, m). r = rs_run_id (sr_spec run)) rows)) w1 = ((a, f), w2)"
    by (metis surj_pair)
  show ?case
    using rd found on [OF k1] on [OF falling.same] on [OF k2 [OF cr]] cr by (cases b) (auto simp: Let_def)
qed simp

lemma open_runs_return:
  assumes "lineage_falls (mx_value (so_runs s))"
  shows "\<exists>found. open_runs_under own scope s = Some found"
proof -
  have "\<exists>b. scope_covers (mx_value (so_runs s)) scope run = Some b" for run
    using within_up_ends [OF assms] by (cases scope) (auto simp: scope_covers_def)
  then show ?thesis
    using filter_ends_ends [where P = "scope_covers (mx_value (so_runs s)) scope"] by (simp add: open_runs_under_def lock_read_def Let_def) blast
qed

lemma stop_returns:
  assumes "others_fall ap" and "specs_fall (specs_of (wo_sv w))"
  shows "stop ap (owner_of p) scope w \<noteq> None"
proof -
  obtain x w1 where wr: "a_write ap (\<lambda>env. put_stop (owner_of p) scope) w = (x, w1)" by fastforce
  obtain listed w2 where pk: "a_parked ap w1 = (listed, w2)" by fastforce
  obtain found w3 where rd: "a_read ap (open_runs_under (owner_of p) scope) w2 = (found, w3)" by fastforce
  have "fall_kept ap (wo_sv w) (wo_sv w1)" using falling.write_kept [OF wr] falling.stop_kept by blast
  moreover have "fall_kept ap (wo_sv w1) (wo_sv w2)" using pk unfolding a_parked_def by (rule falling.wcall_frame) (metis falling.redis_kept snd_conv)
  ultimately have "specs_fall (specs_of (wo_sv w3))" using falling.read_frame [OF rd] assms by (simp add: fall_kept_def)
  moreover then obtain runs where "found = Some runs" using read_result [OF rd] open_runs_return [OF specs_fall_lineage] by blast
  moreover have "(cancel_runs ap rows l w3 = None) = False" for rows l
    using cancel_runs_returns [OF assms(1) calculation(1)] by simp
  ultimately show ?thesis
    by (simp add: stop_def Let_def wr pk rd split: sum.split prod.split option.split del: not_None_eq)
qed

lemma stops_return:
  assumes "others_fall ap" and "specs_fall (specs_of (wo_sv w))"
  shows "stop_run ap p run w \<noteq> None" "stop_thread ap p thread w \<noteq> None" "stop_owner ap p w \<noteq> None"
proof -
  have go: "stop ap (owner_of p) scope v \<noteq> None" if "fall_kept ap (wo_sv w) (wo_sv v)" for v scope
    using that assms by (intro stop_returns) (simp_all add: fall_kept_def)
  show "stop_run ap p run w \<noteq> None"
    using go falling.owned_frame by (fastforce simp: stop_run_def owned_run_page_def split: prod.splits sum.splits)
  obtain root w1 where r1: "a_read ap (thread_root (owner_of p) thread) w = (root, w1)" by fastforce
  obtain runs w2 where r2: "a_read ap (open_runs_under (owner_of p) (StopThread thread)) w1 = (runs, w2)" by fastforce
  have k1: "fall_kept ap (wo_sv w) (wo_sv w1)" using falling.read_frame [OF r1] .
  have k2: "fall_kept ap (wo_sv w) (wo_sv w2)" using falling.chain [OF k1 falling.read_frame [OF r2]] .
  then have "specs_fall (specs_of (wo_sv w2))" using assms by (simp add: fall_kept_def)
  then have "runs \<noteq> None" using read_result [OF r2] open_runs_return [OF specs_fall_lineage] by (metis option.distinct(1))
  then show "stop_thread ap p thread w \<noteq> None"
    using r1 r2 go [OF k1] go [OF k2] by (auto simp: stop_thread_def Let_def split: option.splits)
  obtain x w3 where wr: "a_write ap (\<lambda>env. pause_triggers (owner_of p)) w = (x, w3)" by fastforce
  have "fall_kept ap (wo_sv w) (wo_sv w3)" using falling.write_kept [OF wr] falling.trigger_kept(6) by blast
  from go [OF this] wr show "stop_owner ap p w \<noteq> None" by (auto simp: stop_owner_def split: option.splits sum.splits)
qed

lemma start_returns: "start_owned ap own body w \<noteq> None"
proof -
  have inline: "start_inline ap spec names v \<noteq> None" for spec names v
    using inline_events_apart [of "ap_wk ap" spec names] by (auto simp: start_inline_def Let_def split: prod.splits sum.splits option.splits) (metis option.distinct(1))
  show ?thesis
    using inline by (auto simp: start_owned_def build_spec_total split: prod.splits option.splits sum.splits)
qed

lemma starts_return:
  "create_run ap p body w \<noteq> None" "create_thread ap p body w \<noteq> None" "follow_up ap p thread text w \<noteq> None" "create_coworker_turn ap p turn w \<noteq> None"
  by (auto simp: start_returns build_spec_total create_run_def create_thread_def follow_up_def follow_run_def create_coworker_turn_def background_turn_def Let_def
      split: sum.splits prod.splits option.splits if_splits simp del: not_None_eq)

text \<open>C7. Every request is answered: where a child's hop is above its parent's, which the others keep, no walk up a lineage
  and no run inside a request goes on forever, whatever the tools, the models and the calls do.\<close>

theorem every_request_returns:
  assumes "others_fall ap" and "specs_fall (specs_of (wo_sv w))"
  shows "\<exists>r ss' w'. serve ap headers req ss w = Some (r, ss', w')"
proof -
  have "route ap p req ss w \<noteq> None" for p
    using stops_return [OF assms, of p] starts_return [of ap p]
    by (cases req) (auto simp: answer_with_def answer_if_def split: prod.splits option.splits)
  then show ?thesis by (cases "authenticated (ap_auth ap) headers") (auto simp: serve_def)
qed

section \<open>Answers\<close>

definition beside_store :: "('h, 'x, 'c, 'z) api \<Rightarrow> server \<Rightarrow> server \<Rightarrow> bool" where
  "beside_store ap sv sv' \<longleftrightarrow> others_step ap sv sv' \<or> sv_store sv' = sv_store sv"

lemma read_others: "a_read ap f w = (r, w') \<Longrightarrow> others_step ap (wo_sv w) (wo_sv w')"
  by (auto simp: a_read_def wcall_def call_def others_step_def)

lemma wake_beside: "(beside_store ap)\<^sup>*\<^sup>* (wo_sv w) (wo_sv (snd (a_wake ap run m w)))"
proof -
  let ?sv = "ca_others (wk_calls (ap_wk ap)) (wo_n w) (wo_sv w)"
  obtain r w' where wake: "a_wake ap run m w = (r, w')" by fastforce
  then have "sv_store (wo_sv w') = sv_store ?sv" by (auto simp: a_wake_def wcall_def call_def on_redis_def split: prod.splits)
  then have "beside_store ap ?sv (wo_sv w')" "beside_store ap (wo_sv w) ?sv" by (auto simp: beside_store_def others_step_def)
  then show ?thesis using wake by (simp add: converse_rtranclp_into_rtranclp)
qed

definition answered :: "('h, 'x, 'c, 'z) api \<Rightarrow> run_id \<Rightarrow> string \<Rightarrow> message_id option \<Rightarrow> server \<Rightarrow> server \<Rightarrow> bool" where
  "answered ap run words asked sv sv' \<longleftrightarrow>
     (\<exists>a b stored question prompt ev.
        (others_step ap)\<^sup>*\<^sup>* sv a \<and> get_run run (sv_store a) = Some stored
      \<and> open_question (sr_spec stored) (sr_events stored) = Some (question, prompt) \<and> asked \<in> {None, Some question}
      \<and> ev_payload ev = UserAnswered question words
      \<and> get_run run (sv_store b) = Some (stored\<lparr>sr_events := sr_events stored @ [ev]\<rparr>)
      \<and> (\<forall>other. other \<noteq> run \<longrightarrow> get_run other (sv_store b) = get_run other (sv_store a))
      \<and> (beside_store ap)\<^sup>*\<^sup>* b sv')"

lemma answered_before: "(others_step ap)\<^sup>*\<^sup>* sv sv1 \<Longrightarrow> answered ap run words asked sv1 sv' \<Longrightarrow> answered ap run words asked sv sv'"
  unfolding answered_def by (blast intro: rtranclp_trans)

lemma answered_weaken: "answered ap run words (Some q) sv sv' \<Longrightarrow> asked \<in> {None, Some q} \<Longrightarrow> answered ap run words asked sv sv'"
  unfolding answered_def by blast

lemma append_write:
  assumes "a_write ap (\<lambda>env. append_events_after (t env) run n evs) w = (x, w')"
  defines "a \<equiv> after_others ap w"
  shows "x = Inr Appended \<Longrightarrow> \<exists>stored. get_run run (sv_store a) = Some stored \<and> n = length (sr_events stored)
      \<and> get_run run (sv_store (wo_sv w')) = Some (stored\<lparr>sr_events := sr_events stored @ evs\<rparr>)
      \<and> (\<forall>other. other \<noteq> run \<longrightarrow> get_run other (sv_store (wo_sv w')) = get_run other (sv_store a))"
    and "x \<noteq> Inr Appended \<Longrightarrow> wo_sv w' = a"
proof -
  obtain t' r s' where app: "append_checked t' run (Some n) evs (sv_store a) = (r, s')" "wo_sv w' = a\<lparr>sv_store := s'\<rparr>"
      "x = map_sum (\<lambda>e. ApiStore (error_message e)) id r"
    using assms(1) unfolding a_def after_others_def
    by (auto simp: a_write_def wcall_def call_def on_store_def append_events_after_def split: prod.splits sum.splits)
  show "x = Inr Appended \<Longrightarrow> \<exists>stored. get_run run (sv_store a) = Some stored \<and> n = length (sr_events stored)
      \<and> get_run run (sv_store (wo_sv w')) = Some (stored\<lparr>sr_events := sr_events stored @ evs\<rparr>)
      \<and> (\<forall>other. other \<noteq> run \<longrightarrow> get_run other (sv_store (wo_sv w')) = get_run other (sv_store a))"
    using app by (cases rule: append_cases [of t' run "Some n" evs "sv_store a"]) (cases r; auto simp: get_run_def lock_read_def)+
  show "x \<noteq> Inr Appended \<Longrightarrow> wo_sv w' = a"
    using app by (cases rule: append_cases [of t' run "Some n" evs "sv_store a"]) auto
qed

definition others_append :: "('h, 'x, 'c, 'z) api \<Rightarrow> bool" where
  "others_append ap \<longleftrightarrow> (\<forall>n sv. log_grows (sv_store sv) (sv_store (ca_others (wk_calls (ap_wk ap)) n sv)))"

lemma answer_loop_answers:
  assumes "others_append ap"
  shows "answer_loop ap run words tries asked w = (Inr (), w') \<Longrightarrow> answered ap run words asked (wo_sv w) (wo_sv w')"
proof (induction tries arbitrary: asked w)
  case 0
  then show ?case by (simp add: answer_loop.simps)
next
  case (Suc tries)
  from Suc.prems show ?case
  proof (cases rule: answer_loop_step)
    case (unread found e)
    then show ?thesis by simp
  next
    case (meant stored w1 question prompt x w2)
    let ?a = "after_others ap w1"
    have got: "get_run run (sv_store (wo_sv w1)) = Some stored" using read_result [OF meant(1)] by simp
    have a: "(others_step ap)\<^sup>*\<^sup>* (wo_sv w) ?a"
      using read_others [OF meant(1)] by (rule converse_rtranclp_into_rtranclp) (auto simp: others_step_def after_others_def)
    note ap_write = append_write [OF meant(4)]
    from meant(5) show ?thesis
    proof (elim disjE conjE)
      assume x: "x = Inr Appended" and w': "w' = (if ap_queue ap then snd (a_wake ap run question w2) else w2)"
      from ap_write(1) [OF x] obtain now where now: "get_run run (sv_store ?a) = Some now" "length (sr_events stored) = length (sr_events now)"
        "get_run run (sv_store (wo_sv w2)) = Some (now\<lparr>sr_events := sr_events now @ [user_answer (env_now (ap_wk ap) w1) (sr_spec stored) question words]\<rparr>)"
        "\<forall>other. other \<noteq> run \<longrightarrow> get_run other (sv_store (wo_sv w2)) = get_run other (sv_store ?a)" by blast
      have "log_grows (sv_store (wo_sv w1)) (sv_store ?a)" using assms by (simp add: others_append_def after_others_def)
      with got obtain more_events where "get_run run (sv_store ?a) = Some (stored\<lparr>sr_events := sr_events stored @ more_events\<rparr>)"
        unfolding log_grows_def by blast
      with now(1,2) have "now = stored" by auto
      moreover have "(beside_store ap)\<^sup>*\<^sup>* (wo_sv w2) (wo_sv w')" using w' wake_beside [of ap w2 run question] by simp
      moreover have "ev_payload (user_answer (env_now (ap_wk ap) w1) (sr_spec stored) question words) = UserAnswered question words"
        by (simp add: user_answer_def)
      ultimately show ?thesis using a now meant(2,3) unfolding answered_def by blast
    next
      assume x: "x = Inr AppendMoved" and again: "answer_loop ap run words tries (Some question) w2 = (Inr (), w')"
      have "wo_sv w2 = ?a" using ap_write(2) x by simp
      with Suc.IH [of "Some question" w2] again meant(3) a Suc.prems show ?thesis
        by (auto intro: answered_before answered_weaken)
    qed simp
  qed
qed

text \<open>C11. An answer goes to the question it was meant for. Where an answer is taken, the run was waiting on the question
  that was named (any, if none was), and the log it was read with gained exactly the user's words for that question; no other run
  changed with it. Where it is not taken, nothing was written. The others may write in between, at the ends of logs.\<close>

theorem answer_meets_its_question:
  assumes "others_append ap"
  shows "case answer_question ap run raw asked w of
     (Inl e, w') \<Rightarrow> (others_step ap)\<^sup>*\<^sup>* (wo_sv w) (wo_sv w')
   | (Inr u, w') \<Rightarrow> answered ap run (trim_end (trim_start raw)) asked (wo_sv w) (wo_sv w')
       \<and> trim_end (trim_start raw) \<noteq> [] \<and> length (trim_end (trim_start raw)) \<le> MAX_MESSAGE_BYTES"
proof (cases "answer_question ap run raw asked w")
  case (Pair r w')
  show ?thesis
  proof (cases r)
    case (Inl e)
    with Pair untouched.answer_refused [of ap run raw asked w e w'] show ?thesis by simp
  next
    case (Inr u)
    with Pair answer_loop_answers [OF assms, of run "trim_end (trim_start raw)" 3 asked w w'] show ?thesis
      by (auto simp: answer_question_def Let_def split: if_splits)
  qed
qed

section \<open>Boards and labels\<close>

lemma length_dec: "n < 10 ^ k \<Longrightarrow> 0 < k \<Longrightarrow> length (dec n) \<le> k"
proof (induction n arbitrary: k rule: dec.induct)
  case (1 n)
  show ?case
  proof (cases "n < 10")
    case True
    with "1.prems" show ?thesis by (subst dec.simps) simp
  next
    case False
    with "1.prems" obtain j where k: "k = Suc j" "0 < j" by (cases k; cases "k - 1") auto
    with "1.prems" have "n div 10 < 10 ^ j" by (simp add: less_mult_imp_div_less mult.commute)
    with "1.IH" [OF False this k(2)] False k show ?thesis by (subst dec.simps) simp
  qed
qed

lemma addressed_label:
  assumes "1 \<le> n" and "n < 10 ^ 9"
  shows "addressed (''T'' @ dec n @ '':'' @ words) = Some (n, trim_end (trim_start words))"
proof -
  have digits: "takeWhile is_ascii_digit (dec n @ CHR '':'' # words) = dec n"
    using dec_ascii [of n] by (subst takeWhile_append2) (auto simp: list_all_iff is_ascii_digit_def)
  have "length (dec n) \<le> 9" using length_dec [of n 9] assms by simp
  moreover have "trim_start (CHR ''T'' # xs) = CHR ''T'' # xs" for xs by (subst trim_start.simps) (simp add: white_space_def is_prefix_def)
  ultimately show ?thesis
    using assms dec_ascii [of n] digits by (simp add: addressed_def strip_prefix_def is_prefix_def Let_def)
qed

lemma map_filter_label:
  assumes "i < length runs" and "open_question (sr_spec (runs ! i)) (sr_events (runs ! i)) = Some (q, prompt)"
  shows "find (\<lambda>task. wt_label task = i + 1) (waiting_on_user runs)
     = Some \<lparr>wt_label = i + 1, wt_run_id = rs_run_id (sr_spec (runs ! i)), wt_question_id = q, wt_question = prompt\<rparr>"
proof -
  let ?task = "\<lambda>(at, run). map_option (\<lambda>(question_id, question).
            \<lparr>wt_label = at + 1, wt_run_id = rs_run_id (sr_spec run), wt_question_id = question_id, wt_question = question\<rparr>)
          (open_question (sr_spec run) (sr_events run))"
  have "find (\<lambda>task. wt_label task = k + j + 1) (List.map_filter ?task (enumerate k xs))
     = Some \<lparr>wt_label = k + j + 1, wt_run_id = rs_run_id (sr_spec (xs ! j)), wt_question_id = q, wt_question = prompt\<rparr>"
    if "j < length xs" "open_question (sr_spec (xs ! j)) (sr_events (xs ! j)) = Some (q, prompt)" for k j xs
    using that
  proof (induction xs arbitrary: k j)
    case (Cons x xs)
    show ?case
    proof (cases j)
      case 0
      with Cons.prems show ?thesis by (simp add: List.map_filter_simps)
    next
      case (Suc m)
      with Cons.IH [of m "Suc k"] Cons.prems show ?thesis by (auto simp: List.map_filter_simps split: option.splits)
    qed
  qed simp
  from this [of i runs 0] assms show ?thesis by (simp add: waiting_on_user_def)
qed

lemma board_card_at:
  assumes "shown \<in> set (board_cards wanted after limit runs)"
  obtains i where "i < length runs" "shown = card_of (i + 1) (runs ! i)"
proof -
  have "\<exists>(at, run) \<in> set (enumerate 0 runs). shown = card_of (at + 1) run"
    using assms by (auto simp: board_cards_def split: option.splits dest!: in_set_takeD in_set_dropD) force+
  then show thesis using that by (auto simp: in_set_enumerate_eq)
qed

text \<open>C12. The labels of a board are addresses. Whatever page of a board is shown, and for whatever state, the card labelled
  \<open>n\<close> of a task that waits for the user is answered by \<open>Tn:\<close> and the words: the text is read as an answer to that run's open question.\<close>

theorem board_label_round_trip:
  assumes "length runs \<le> BOARD_RUNS" and "shown \<in> set (board_cards wanted after limit runs)" and "bc_question shown = Some (question, prompt)"
  shows "\<exists>task. which_task (waiting_on_user runs) (''T'' @ dec (bc_label shown) @ '':'' @ words) = Inr (task, trim_end (trim_start words))
     \<and> wt_label task = bc_label shown \<and> wt_run_id task = bc_run_id shown \<and> wt_question_id task = question \<and> wt_question task = prompt"
proof -
  obtain i where i: "i < length runs" "shown = card_of (i + 1) (runs ! i)" using board_card_at [OF assms(2)] .
  then have "open_question (sr_spec (runs ! i)) (sr_events (runs ! i)) = Some (question, prompt)" using assms(3) by (simp add: card_of_def Let_def)
  note task = map_filter_label [OF i(1) this]
  have "i + 1 < 10 ^ 9" using i(1) assms(1) by (simp add: BOARD_RUNS_def)
  from addressed_label [OF _ this, of words] task i(2) show ?thesis by (simp add: which_task_def card_of_def Let_def)
qed

text \<open>The pages of a board are slices of one list: of the cards of all runs, in the order stored and labelled from 1, the ones in the state asked for.\<close>

theorem board_pages_slice:
  "board_cards wanted after limit runs
     = take limit (drop after (filter (\<lambda>shown. wanted = None \<or> wanted = Some (bc_state shown)) (map (\<lambda>i. card_of (i + 1) (runs ! i)) [0..<length runs])))"
proof -
  have "map (\<lambda>(at, run). card_of (at + 1) run) (enumerate 0 runs) = map (\<lambda>i. card_of (i + 1) (runs ! i)) [0..<length runs]"
    by (auto intro: nth_equalityI simp: nth_enumerate_eq)
  then have cards: "map (\<lambda>(at, run). card_of (Suc at) run) (enumerate 0 runs) = map (\<lambda>i. card_of (Suc i) (runs ! i)) [0..<length runs]" by simp
  show ?thesis
  proof (cases wanted)
    case None
    then show ?thesis by (simp add: board_cards_def take_map [symmetric] drop_map [symmetric] cards)
  next
    case (Some state)
    then show ?thesis by (simp add: board_cards_def cards eq_commute [of state])
  qed
qed

section \<open>Stops\<close>

definition cancelled_from :: "stored_run \<Rightarrow> server \<Rightarrow> bool" where
  "cancelled_from run sv \<longleftrightarrow>
     (\<exists>ev. ev_payload ev = RunCancelled \<and> get_run (rs_run_id (sr_spec run)) (sv_store sv) = Some (run\<lparr>sr_events := sr_events run @ [ev]\<rparr>))"

lemma append_fits:
  assumes "get_run nm s = Some run" and "\<not> list_ex is_end_event (sr_events run)"
  shows "fst (append_checked t nm (Some (length (sr_events run))) events s) \<in> insert (Inr Appended) (range Inl)"
  using assms
  by (auto simp: append_checked_def get_run_def lock_read_def lock_write_def split: sum.splits prod.splits)

lemma cancel_run_done:
  assumes quiet: "quiet (wk_calls (ap_wk ap))" and "get_run (rs_run_id (sr_spec run)) (sv_store (wo_sv w)) = Some run"
    and "\<not> list_ex is_end_event (sr_events run)" and run: "cancel_run ap run ask w = ((appended, False), w')"
  shows "appended" "cancelled_from run (wo_sv w')"
    "\<And>other. other \<noteq> rs_run_id (sr_spec run) \<Longrightarrow> get_run other (sv_store (wo_sv w')) = get_run other (sv_store (wo_sv w))"
    "\<exists>t events. sv_store (wo_sv w') = snd (append_checked t (rs_run_id (sr_spec run)) (Some (length (sr_events run))) events (sv_store (wo_sv w)))"
proof -
  let ?nm = "rs_run_id (sr_spec run)" and ?ev = "run_cancelled_event (env_now (ap_wk ap) w) (sr_spec run)"
  let ?t = "en_store_now (env_at (ap_wk ap) (wo_n w))"
  obtain x w1 where wr: "a_write ap (\<lambda>env. append_events_after (en_store_now env) ?nm (length (sr_events run)) [?ev]) w = (x, w1)" by fastforce
  have here: "after_others ap w = wo_sv w" using quiet by (simp add: after_others_def quiet_def)
  obtain r s' where app: "append_checked ?t ?nm (Some (length (sr_events run))) [?ev] (sv_store (wo_sv w)) = (r, s')"
      "wo_sv w1 = (wo_sv w)\<lparr>sv_store := s'\<rparr>" "x = map_sum (\<lambda>e. ApiStore (error_message e)) id r"
    using wr quiet
    by (auto simp: a_write_def wcall_def call_def on_store_def append_events_after_def quiet_def split: prod.splits sum.splits)
  have "x = Inr Appended \<or> isl x"
    using append_fits [OF assms(2,3), of ?t "[?ev]"] app by auto
  moreover have "\<not> isl x" using run wr by (cases x) (auto simp: cancel_run_def Let_def)
  ultimately have x: "x = Inr Appended" by blast
  have wake: "sv_store (wo_sv (snd (a_wake ap nm m v))) = sv_store (wo_sv v)" for nm m v
    using quiet by (auto simp: a_wake_def wcall_def call_def on_redis_def quiet_def split: prod.splits)
  have w': "sv_store (wo_sv w') = s' \<and> appended"
    using run wr x app(2) wake [of ?nm "the ask" w1] by (auto simp: cancel_run_def Let_def split: option.splits prod.splits sum.splits)
  then show appended ..
  have ev: "ev_payload ?ev = RunCancelled" by (simp add: run_cancelled_event_def)
  from append_write(1) [OF wr x] assms(2) w' app(2) show "cancelled_from run (wo_sv w')"
    "\<And>other. other \<noteq> ?nm \<Longrightarrow> get_run other (sv_store (wo_sv w')) = get_run other (sv_store (wo_sv w))"
    by (auto simp: here cancelled_from_def intro: exI [of _ ?ev] ev)
  show "\<exists>t events. sv_store (wo_sv w') = snd (append_checked t ?nm (Some (length (sr_events run))) events (sv_store (wo_sv w)))"
    using app(1) w' by (metis snd_conv)
qed

lemma cancel_runs_done:
  assumes quiet: "quiet (wk_calls (ap_wk ap))"
  shows "cancel_runs ap rows runs w = Some ((cancelled, False), w') \<Longrightarrow> specs_fall (specs_of (wo_sv w)) \<Longrightarrow> distinct (map (rs_run_id \<circ> sr_spec) runs)
     \<Longrightarrow> (\<And>run. run \<in> set runs \<Longrightarrow> get_run (rs_run_id (sr_spec run)) (sv_store (wo_sv w)) = Some run \<and> \<not> list_ex is_end_event (sr_events run)
            \<and> stopped (rs_run_id (sr_spec run)) (sv_store (wo_sv w)) = Some True)
     \<Longrightarrow> (\<forall>run \<in> set runs. never_started run \<longrightarrow> rs_run_id (sr_spec run) \<in> set cancelled \<and> cancelled_from run (wo_sv w'))
       \<and> (\<forall>other. other \<notin> (rs_run_id \<circ> sr_spec) ` set runs \<longrightarrow> get_run other (sv_store (wo_sv w')) = get_run other (sv_store (wo_sv w)))"
proof (induction runs arbitrary: w cancelled)
  case Nil
  then show ?case by simp
next
  case (Cons run runs)
  let ?nm = "rs_run_id (sr_spec run)"
  obtain found w1 where rd: "a_read ap (stopped ?nm) w = (found, w1)" by fastforce
  have w1: "wo_sv w1 = wo_sv w" using rd quiet by (auto simp: a_read_def wcall_def call_def quiet_def)
  have found: "found = Some True" using read_result [OF rd] w1 Cons.prems(4) [of run] by simp
  show ?case
  proof (cases "\<not> never_started run \<and> map_option snd (find (\<lambda>(r, m). r = ?nm) rows) = None")
    case True
    with Cons.prems(1) have "cancel_runs ap rows runs w = Some ((cancelled, False), w')" by (simp add: Let_def)
    from Cons.IH [OF this Cons.prems(2)] Cons.prems(3,4) True show ?thesis by simp
  next
    case False
    obtain appended failed w2 where cr: "cancel_run ap run (map_option snd (find (\<lambda>(r, m). r = ?nm) rows)) w1 = ((appended, failed), w2)"
      by (metis surj_pair)
    with Cons.prems(1) False rd found obtain rest where rest: "cancel_runs ap rows runs w2 = Some ((rest, False), w')"
      "cancelled = (if appended then ?nm # rest else rest)" "\<not> failed" by (auto simp: Let_def)
    have at: "get_run ?nm (sv_store (wo_sv w1)) = Some run" "\<not> list_ex is_end_event (sr_events run)" using Cons.prems(4) [of run] w1 by auto
    have cr': "cancel_run ap run (map_option snd (find (\<lambda>(r, m). r = ?nm) rows)) w1 = ((appended, False), w2)" using cr rest(3) by simp
    note cancel = cancel_run_done [OF quiet at cr']
    obtain t events where app: "sv_store (wo_sv w2) = snd (append_checked t ?nm (Some (length (sr_events run))) events (sv_store (wo_sv w)))"
      using cancel(4) w1 by auto
    have falls: "specs_fall (specs_of (wo_sv w2))"
      using fall_append [of ap "wo_sv w" t ?nm "Some (length (sr_events run))" events] Cons.prems(2) quiet app
      by (simp add: fall_kept_def others_fall_def quiet_def on_store_snd specs_of_def)
    have "run' \<in> set runs \<Longrightarrow> get_run (rs_run_id (sr_spec run')) (sv_store (wo_sv w2)) = Some run' \<and> \<not> list_ex is_end_event (sr_events run')
            \<and> stopped (rs_run_id (sr_spec run')) (sv_store (wo_sv w2)) = Some True" for run'
      using cancel(3) [of "rs_run_id (sr_spec run')"] Cons.prems(3) Cons.prems(4) [of run'] w1
        keeps_stops_stopped [OF append_keeps_stops specs_fall_lineage [OF Cons.prems(2)], of "rs_run_id (sr_spec run')"] app by (auto simp: image_iff)
    from Cons.IH [OF rest(1) falls _ this] Cons.prems(3)
    have ih: "(\<forall>run \<in> set runs. never_started run \<longrightarrow> rs_run_id (sr_spec run) \<in> set rest \<and> cancelled_from run (wo_sv w'))"
       "\<And>other. other \<notin> (rs_run_id \<circ> sr_spec) ` set runs \<Longrightarrow> get_run other (sv_store (wo_sv w')) = get_run other (sv_store (wo_sv w2))" by auto
    have "?nm \<notin> (rs_run_id \<circ> sr_spec) ` set runs" using Cons.prems(3) by simp
    from ih(2) [OF this] cancel(2) have "cancelled_from run (wo_sv w')" by (simp add: cancelled_from_def)
    with ih cancel(1,3) rest(2) w1 show ?thesis by auto
  qed
qed

lemma filter_ends_filter: "filter_ends P xs = Some ys \<Longrightarrow> ys = filter (\<lambda>x. P x = Some True) xs"
  by (induction xs arbitrary: ys) (auto split: option.splits)

lemma listed_ids_distinct:
  assumes "runs_ok runs" and "filter_ends P (filter Q (filter T (map snd runs))) = Some found"
  shows "distinct (map (rs_run_id \<circ> sr_spec) found)"
proof -
  have "map (rs_run_id \<circ> sr_spec) (map snd runs) = map fst runs" using assms(1) by (auto simp: runs_ok_def list_all_iff)
  then have "distinct (map (rs_run_id \<circ> sr_spec) (map snd runs))" using assms(1) by (simp only: runs_ok_def)
  then show ?thesis unfolding filter_ends_filter [OF assms(2)] by (intro distinct_map_filter)
qed

lemma put_stop_frame:
  assumes "put_stop own scope s = (r, s')"
  shows "so_runs s' = so_runs s" "open_runs_under own' scope' s' = open_runs_under own' scope' s" "get_run nm s' = get_run nm s"
  using assms by (auto simp: put_stop_def lock_write_def Let_def open_runs_under_def get_run_def split: if_splits)


section \<open>Witnesses\<close>

text \<open>A server of one idle process, whose one token is a caller's, with a run of a principal that waits for the user.\<close>

definition sample_caller :: "string \<Rightarrow> caller" where
  "sample_caller subject = \<lparr>pr_issuer = ''iss'', pr_subject = subject, pr_tenant = ''ten''\<rparr>"

definition sample_api :: "string \<Rightarrow> (string list, unit, unit, unit) api" where
  "sample_api subject =
     \<lparr>ap_wk = idle_worker, ap_queue = True, ap_webhook_key = None,
      ap_auth = (\<lambda>token. if token = ''k'' then Inr (sample_caller subject) else Inl AuthUnauthorized),
      ap_cron = minutely, ap_hmac = toy_hmac, ap_parse = (\<lambda>path. None)\<rparr>"

definition sample_headers :: "string \<Rightarrow> string option" where
  "sample_headers = [''authorization'' \<mapsto> ''Bearer k'']"

definition asking_run :: stored_run where
  "asking_run = \<lparr>sr_spec = sample_spec, sr_events = map sample_event [RunStarted, UserAsked (MessageId 3) ''q'']\<rparr>"

definition world_of :: "stored_run \<Rightarrow> (string list, unit) world" where
  "world_of run =
     \<lparr>wo_sv = \<lparr>sv_store = snd (put_run 1 run store_default), sv_redis = redis_empty\<rparr>,
      wo_n = 0, wo_host = [], wo_mem = run_memory_new (), wo_seen = 0, wo_refused = None, wo_stuck = False\<rparr>"

lemma sample_api_simps [simp]:
  "ap_wk (sample_api subject) = idle_worker" "ap_queue (sample_api subject)" "owner_of (sample_caller subject) = \<lparr>ow_issuer = ''iss'', ow_subject = subject, ow_tenant = ''ten''\<rparr>"
  by (simp_all add: sample_api_def sample_caller_def owner_of_def)

lemma sample_auth: "authenticated (ap_auth (sample_api subject)) sample_headers = Inr (sample_caller subject)"
proof -
  have "trim_start ''k'' = ''k''" "trim_start ''Bearer k'' = ''Bearer k''"
    by (subst trim_start.simps, simp add: white_space_def is_prefix_def)+
  moreover have "trim_end ''k'' = ''k''" "trim_end ''Bearer k'' = ''Bearer k''"
    by (subst trim_end.simps, simp add: white_space_def is_prefix_def)+
  ultimately show ?thesis
    by (simp add: authenticated_def bearer_def sample_headers_def header_value_def strip_prefix_def is_prefix_def sample_api_def Let_def)
qed

lemma world_of_runs:
  assumes "terminal_last (sr_events run)"
  shows "mx_value (so_runs (sv_store (wo_sv (world_of run)))) = [(rs_run_id (sr_spec run), run)]" "wo_n (world_of run) = 0"
proof -
  have "check_one_terminal (sr_events run) = Inr ()" using check_one_terminal_iff assms by simp
  then show "mx_value (so_runs (sv_store (wo_sv (world_of run)))) = [(rs_run_id (sr_spec run), run)]"
    by (simp add: world_of_def put_run_def store_default_def mutex_new_def lock_write_def number_def Let_def count_of_def)
qed (simp add: world_of_def)

lemma asking_runs: "mx_value (so_runs (sv_store (wo_sv (world_of asking_run)))) = [(RunId 1, asking_run)]"
  using world_of_runs(1) [of asking_run] by (simp add: asking_run_def terminal_last_def sample_spec_def)

lemma asking_get: "get_run run (sv_store (wo_sv (world_of asking_run))) = (if run = RunId 1 then Some asking_run else None)"
  by (simp add: get_run_def lock_read_def asking_runs)

lemma asking_specs: "specs_of (wo_sv (world_of asking_run)) = [(RunId 1, sample_spec)]"
  by (simp add: specs_of_def asking_runs) (simp add: asking_run_def)

lemma asking_fits: "well_named (specs_of (wo_sv (world_of asking_run)))" "specs_fall (specs_of (wo_sv (world_of asking_run)))"
  unfolding asking_specs by (simp_all add: well_named_def specs_fall_def sample_spec_def lineage_default_def)

lemma asking_question: "open_question (sr_spec asking_run) (sr_events asking_run) = Some (MessageId 3, ''q'')"
proof -
  have "harness (fold_run sample_spec [sample_event RunStarted, sample_event (UserAsked (MessageId 3) ''q'')]) = HWaitingForMessage 1 0 (MessageId 3)"
    by (simp add: harness_fold_run reduce_defs)
  then show ?thesis by (simp add: asking_run_def open_question_def)
qed

lemma sample_others: "others_gain (sample_api s)" "others_fall (sample_api s)" "others_append (sample_api s)" "quiet (wk_calls (ap_wk (sample_api s)))"
  by (simp_all add: others_gain_def gains_same others_fall_def others_append_def log_grows_same quiet_def)


theorem request_spares_others_witness:
  "\<exists>r ss' w'. serve (sample_api ''bob'') sample_headers PostStop [] (world_of asking_run) = Some (r, ss', w')
     \<and> (caller_step (sample_api ''bob'') (sample_caller ''bob''))\<^sup>*\<^sup>* (wo_sv (world_of asking_run)) (wo_sv w')"
proof -
  have "stop_owner (sample_api ''bob'') (sample_caller ''bob'') (world_of asking_run) \<noteq> None"
    by (rule stops_return [OF sample_others(2) asking_fits(2)])
  then obtain r ss' w' where served: "serve (sample_api ''bob'') sample_headers PostStop [] (world_of asking_run) = Some (r, ss', w')"
    by (auto simp: serve_def sample_auth answer_if_def answer_with_def)
  from request_spares_others [OF sample_auth served sample_others(1) asking_fits(1)] served show ?thesis by blast
qed

theorem foreign_run_is_missing_witness:
  "\<exists>e w'. route (sample_api ''bob'') (sample_caller ''bob'') (PostStopRun (RunId 1)) [] (world_of asking_run) = Some (Inl e, [], w')
     \<and> wo_sv w' = wo_sv (world_of asking_run)"
proof -
  have same: "after_others (sample_api ''bob'') (world_of asking_run) = wo_sv (world_of asking_run)" by (simp add: after_others_def)
  have "hidden_from (sample_caller ''bob'') (RunId 1) (wo_sv (world_of asking_run))"
    by (simp add: hidden_from_def asking_get) (simp add: asking_run_def sample_spec_def same_principal_def)
  with foreign_run_is_missing [of "PostStopRun (RunId 1)" "RunId 1" "sample_caller ''bob''" "sample_api ''bob''" "[]"] show ?thesis
    by (auto simp: same) (metis same)
qed

theorem every_request_returns_witness:
  "\<exists>r ss' w'. serve (sample_api ''sub'') sample_headers (PostStopRun (RunId 1)) [] (world_of asking_run) = Some (r, ss', w')"
  by (rule every_request_returns [OF sample_others(2) asking_fits(2)])

theorem board_label_round_trip_witness:
  "\<exists>task. which_task (waiting_on_user [asking_run]) (''T'' @ dec 1 @ '':'' @ ''yes'') = Inr (task, trim_end (trim_start ''yes'')) \<and> wt_run_id task = RunId 1"
proof -
  let ?card = "card_of 1 asking_run"
  have "?card \<in> set (board_cards None 0 5 [asking_run])" by (simp add: board_cards_def)
  moreover have "bc_question ?card = Some (MessageId 3, ''q'')" by (simp add: card_of_def Let_def asking_question)
  ultimately obtain task where "which_task (waiting_on_user [asking_run]) (''T'' @ dec (bc_label ?card) @ '':'' @ ''yes'') = Inr (task, trim_end (trim_start ''yes''))"
    "wt_run_id task = bc_run_id ?card"
    using board_label_round_trip [of "[asking_run]" ?card None 0 5 "MessageId 3" "''q''" "''yes''"] by (auto simp: BOARD_RUNS_def)
  then show ?thesis by (simp add: card_of_def Let_def) (simp add: asking_run_def sample_spec_def)
qed

lemma world_of_sound:
  "\<not> mx_poisoned (so_runs (sv_store (wo_sv (world_of run))))" "\<not> mx_poisoned (so_outbox (sv_store (wo_sv (world_of run))))"
  "\<not> mx_poisoned (so_stops (sv_store (wo_sv (world_of run))))"
  by (auto simp: world_of_def put_run_def store_default_def mutex_new_def lock_write_def number_def Let_def count_of_def split: sum.split)

lemma append_sound:
  assumes "\<not> mx_poisoned (so_runs s)" "\<not> mx_poisoned (so_outbox s)" "get_run nm s = Some run" "\<not> list_ex is_end_event (sr_events run)"
  shows "\<exists>s'. append_checked t nm (Some (length (sr_events run))) [ev] s = (Inr Appended, s')"
  using assms by (auto simp: append_checked_def check_one_terminal_def lock_write_def get_run_def lock_read_def number_def Let_def split: sum.splits)

lemma world_of_rest [simp]: "sv_redis (wo_sv (world_of run)) = redis_empty" "wo_n (world_of run) = 0"
  by (simp_all add: world_of_def)

theorem answer_meets_its_question_witness:
  "\<exists>w'. answer_question (sample_api ''sub'') (RunId 1) ''yes'' (Some (MessageId 3)) (world_of asking_run) = (Inr (), w')
     \<and> answered (sample_api ''sub'') (RunId 1) ''yes'' (Some (MessageId 3)) (wo_sv (world_of asking_run)) (wo_sv w')"
proof -
  let ?ap = "sample_api ''sub''" and ?w = "world_of asking_run"
  have "trim_start ''yes'' = ''yes''" by (subst trim_start.simps) (simp add: white_space_def is_prefix_def)
  moreover have "trim_end ''yes'' = ''yes''" by (subst trim_end.simps) (simp add: white_space_def is_prefix_def)
  ultimately have trim: "trim_end (trim_start ''yes'') = ''yes''" by simp
  have open_run: "get_run (RunId 1) (sv_store (wo_sv ?w)) = Some asking_run" "\<not> list_ex is_end_event (sr_events asking_run)"
    by (simp_all add: asking_get) (simp add: asking_run_def)
  let ?w1 = "?w\<lparr>wo_n := Suc 0\<rparr>"
  let ?ev = "user_answer (env_now idle_worker ?w1) (sr_spec asking_run) (MessageId 3) ''yes''"
  obtain s' where app: "append_checked (en_store_now (env_at idle_worker (Suc 0))) (RunId 1) (Some (length (sr_events asking_run))) [?ev] (sv_store (wo_sv ?w))
      = (Inr Appended, s')"
    using append_sound [OF world_of_sound(1,2) open_run] by blast
  have rd: "a_read ?ap (get_run (RunId 1)) ?w = (Some asking_run, ?w1)"
    by (simp add: a_read_def wcall_def call_def asking_get)
  have wr: "a_write ?ap (\<lambda>env. append_events_after (en_store_now env) (RunId 1) (length (sr_events asking_run)) [?ev]) ?w1
      = (Inr Appended, ?w1\<lparr>wo_sv := (wo_sv ?w)\<lparr>sv_store := s'\<rparr>, wo_n := Suc (Suc 0)\<rparr>)"
    by (simp add: a_write_def wcall_def call_def on_store_def append_events_after_def app)
  have "\<exists>w'. answer_loop ?ap (RunId 1) ''yes'' 3 (Some (MessageId 3)) ?w = (Inr (), w')"
    unfolding numeral_3_eq_3 by (subst answer_loop.simps) (simp add: rd asking_question Let_def wr)
  then obtain w' where "answer_question ?ap (RunId 1) ''yes'' (Some (MessageId 3)) ?w = (Inr (), w')"
    by (auto simp: answer_question_def trim MAX_MESSAGE_BYTES_def)
  with answer_meets_its_question [OF sample_others(3) [of "''sub''"], where run = "RunId 1" and raw = "''yes''" and asked = "Some (MessageId 3)" and w = ?w] trim show ?thesis by auto
qed

definition queued_run :: stored_run where
  "queued_run = \<lparr>sr_spec = sample_spec, sr_events = [sample_event RunQueued]\<rparr>"

lemma queued_facts:
  "mx_value (so_runs (sv_store (wo_sv (world_of queued_run)))) = [(RunId 1, queued_run)]" "never_started queued_run"
  "\<not> list_ex is_end_event (sr_events queued_run)"
proof -
  show "mx_value (so_runs (sv_store (wo_sv (world_of queued_run)))) = [(RunId 1, queued_run)]"
    using world_of_runs(1) [of queued_run] by (simp add: queued_run_def terminal_last_def sample_spec_def)
  have "dispatch (fold_run sample_spec [sample_event RunQueued]) = DQueued" by code_simp
  then show "never_started queued_run" by (simp add: never_started_def queued_run_def)
qed (simp add: queued_run_def)


end
