(* ===== verification/Spec2Isabelle.thy ===== *)
theory Spec2Isabelle
  imports Driver_Correct Workflow_Host Worker_Correct Http_Correct
begin

text \<open>
  A verification development of gol, a server that runs agents: an agent's run is an event log, a
  pure reducer folds the log to a state, a driver decides effects, has them authorized, performs
  them and records what happened, and a store keeps the logs, the messages between agents, the
  stops and the triggers.

  \<^bold>\<open>Parts and theories.\<close>

  \<^item> \<open>crates/protocol\<close>: \<open>Protocol_Types\<close> has the data (ids, specs, effects, events, phases).
    \<open>Run_Identity\<close> has the builder of a spec, the id and lineage of a child run and the id that keys
    a run's memory (\<open>spec.rs\<close>, \<open>effect.rs\<close>); \<open>Harness_Reduce\<close> has the two state machines
    (\<open>reduce.rs\<close>, \<open>phase.rs\<close>) and the fold of a log with its counters (\<open>fold.rs\<close>);
    \<open>Authorizer\<close> has the policy (\<open>authorizer.rs\<close>).
  \<^item> \<open>crates/harness\<close>: \<open>Driver\<close> has the driver and its loop (\<open>driver.rs\<close>, \<open>spawner.rs\<close>,
    \<open>message.rs\<close>, \<open>decider.rs\<close>), with the decider, tools, model, memory, spawner, deliverer, clock
    and ids as the operations of a record whose state is arbitrary. \<open>Driver_Log\<close> has the abstract
    machine of logs (which event may follow which) and shows that the loop returns;
    \<open>Driver_Correct\<close> shows that the driver refines that machine and stays within its budget.
    \<open>Harness_Memory\<close> has the memory interface as a locale and the in-memory and per-run memories
    (\<open>memory.rs\<close>).
  \<^item> \<open>crates/workflow-core\<close>, \<open>crates/harness-core\<close>: \<open>Workflow\<close> has workflow programs, the walk
    that evaluates them over a history, and the transition of a workflow run, with the contract of a
    driver as a locale interpreted on the three drivers.
  \<^item> \<open>crates/runtime-tokio\<close>: \<open>Journal\<close> has the journal of a workflow run, a file as its bytes, with its frames,
    its reader, and the opening and the commits of it; what the disk does with each call is an argument.
    \<open>Workflow_Host\<close> has the replay of a workflow over its journal, the start of its children and the join
    of two tools. Kills in the middle of an operation are steps of the relations \<open>journal_step\<close> and
    \<open>host_step\<close>.
  \<^item> \<open>crates/server/src/store.rs\<close>: \<open>Store_Base\<close> has the data, the locks and the state of
    \<open>InMemoryStore\<close>; \<open>Run_Store\<close> has agents, runs, artifacts and the outbox; \<open>Message_Store\<close> has
    messages; \<open>Trigger_Store\<close> has triggers; \<open>Stop_Store\<close> has stops and threads;
    \<open>Store_Machine\<close> composes them into one machine of calls and panics.
  \<^item> \<open>crates/server/src/queue.rs\<close>: \<open>Run_Queue\<close> has the Redis keys of the queue as a record, each
    Lua script as a function on it, the calls that run them (a reply may be lost after the script
    ran) and the pool of connections.
  \<^item> \<open>crates/server/src/spawner.rs\<close>, \<open>deliverer.rs\<close>: \<open>Server_Spawner\<close> has how a run is stored and
    queued, how a fire is settled and how a child is built and started; \<open>Server_Deliverer\<close> has
    messages and replies between runs, the state of an ask in a log and the answer a task gives.
    Both work on a record of the store and the Redis keys; what each Redis call comes to is a
    parameter.
  \<^item> \<open>crates/server/src/webhook.rs\<close>, \<open>triggers.rs\<close>, \<open>scheduler.rs\<close>: \<open>Webhook\<close> has the headers, the
    signature check and a trigger's secret; \<open>Trigger_Fire\<close> has the fires of a trigger (by hand, by
    tick, by webhook event), the gate that holds a stale one, and the handler of a webhook request
    (\<open>http.rs\<close>); \<open>Scheduler\<close> has the next tick of a schedule through clock changes, and the passes
    over due triggers.
  \<^item> \<open>crates/server/src/inference.rs\<close>: \<open>Turns\<close> has coworker turns (opening, finishing, completing and
    failing them), the gateway call with its fixture proxy, the names of sandboxes, and the in-memory and
    Docker sandbox hosts; the locale \<open>sandbox_host\<close> states what a turn relies on of a host.
  \<^item> \<open>crates/server/src/worker.rs\<close>, \<open>tools.rs\<close>: \<open>Sweeps\<close> has the timing of the queue and the sweeps over
    pending runs, parked runs, overdue asks and left sandboxes; \<open>Queue_Worker\<close> has the worker (claim,
    prepare, execute, record, acknowledge), the background turns and the driver in the worker's
    world. Before each call on the store or on Redis the others may have changed the server; what
    they may do is a condition of each lemma. \<open>Worker_Keeps\<close> shows what every call keeps and interprets
    a locale of the driver's invariants on the worker's world; \<open>Worker_Correct\<close> has the claims on a worker.
  \<^item> \<open>crates/server/src/stream.rs\<close>, \<open>surface.rs\<close>: \<open>Streams\<close> has the slots of open streams and the two
    streams (a principal's outbox, a run's log) as what is sent over a sequence of reads; \<open>Surface\<close> has
    the AG-UI events of a log and the texts of a rendered run.
  \<^item> \<open>crates/server/src/http.rs\<close>: \<open>Http_Api\<close> has the caller of a request, every handler with its checks, its
    calls and its errors, and the routes; a request is the values its path, query and body stand for. As
    for the worker, others may change the server before each call. \<open>Http_Frame\<close> and \<open>Http_Keeps\<close> show
    once, in the locales \<open>frame\<close> and \<open>request_frame\<close>, what a handler keeps: a relation between servers
    that the others keep and that the writes of a request keep. \<open>Http_Isolation\<close> interprets them for
    refused requests and for what belongs to other principals, \<open>Http_Correct\<close> for the hops of lineages, and has
    the claims on answers, boards and stops.

  \<^bold>\<open>State and effects.\<close> A struct is a record, an enum a datatype, a \<open>u32\<close> a 32-bit word with its
  saturating and checked operations, a string its bytes. A method that writes returns its result
  with the new state; an error is the left side of a sum. A \<open>HashMap\<close> is an association list with
  one binding per key. A \<open>Mutex\<close> carries its poison flag: reads go on, writes are refused. What is not
  under the sources (the uuid crate, HMAC, the cron and time-zone crates, models, tools) is a
  parameter, and what the code relies on of it is a locale or a named condition.

  \<^bold>\<open>What is shown.\<close> Of the reducer: reachable states are well formed, a phase that ended never
  changes, a wait is left only by its own answer, and the counters count what they name. Of the
  driver: it always returns, every event it writes is allowed after the ones before it, what it
  performs was decided and authorized, its steps and model calls stay in the budget with its
  children's, and a log has at most one terminal event, the last. Of ids: the name of a child
  determines its request, and two runs share a memory id exactly when they share its owner. Of
  workflows: evaluation never panics, a verdict is final, and a run ends; a journal reads back as what was
  written to it over kills and failures of the disk, a child is asked for alike however often its process is
  killed, and a hosted workflow comes to its verdict. Of the store, over any
  sequence of calls and panics: logs only grow and end at their terminal event, one of the writers
  that read the same log stores its batch, the outbox has no gap and is always readable, a refused
  write changes nothing, a stop reaches every open run it covers and stays, a decision sends one
  message, an ask is answered once, triggers are isolated, capped and their ticks are moved once. Of
  the queue, over any sequence of calls: a run is not lost until it is acknowledged, a claim is
  exclusive while its lease lasts and the reaper brings back exactly the runs without one. Of the
  server: a run stored is known to the queue whatever fails, a started child is one its parent may
  have, an answer ends its own wait and is delivered once, and (in this theory) what a driver
  writes is what the store then keeps. Of triggers: a tick or a webhook event is one run however
  often it is fired, a fire whose trigger was paused or resumed since is held, only a signed fresh
  request fires, a signature binds its request, the next tick is the first one after now through
  skipped and repeated clock times, and a pass fires what is due and nothing else. Of turns: nothing is
  stored of a Box turn while its sandbox is up, and a gateway turn ends. Of sweeps: a sweep strands
  no run, hands on the ones a dead producer left, and the sandbox sweep spares open runs. Of the worker: a claimed
  run stays in the queue or has ended whatever fails and whatever the others do between its calls, a
  Box turn ends without sandboxes, attempts are bounded, and a run started too often is failed. Of
  streams: a principal's streams are counted and capped, its outbox is sent without a gap, and a run's
  stream is its log and reaches its end. Of requests: each is answered, a refused one changes nothing, none
  changes what belongs to another principal, a run of another is answered for like a missing one, a stop
  cancels the queued runs it covers, an answer meets the question it was meant for, and the labels of a
  board are addresses of its tasks.

  \<^bold>\<open>Bounds and fuel.\<close> The driver's loop and the loops up a lineage in the store are partial functions in
  the option monad, with no fuel; a worker's question about stops goes up such a lineage, and an
  operation of the worker or of a request that asks it is \<open>None\<close> when it does not return. The driver's loop is shown to return for every environment, by the
  budget left and the phase of the harness (\<open>Driver_Log\<close>); the loops up a lineage are shown to return
  when the hop of a stored child is above its parent's. Counters the source keeps as \<open>u64\<close> (outbox numbers, the
  store's order, a trigger's generation) count stored events and calls and are naturals.

  \<^bold>\<open>Not modelled.\<close> JSON encodings, Postgres and its SQL, the check of tokens, the async runtime and
  sockets, cryptography, and the embedded script engines: they are input and output or code of
  third-party crates. The threads that repeat the worker and the sweeps for
  ever and the typestate builders are left out. So are the tool catalog and the built-in deciders of the
  harness, which call outside services. That the journal reaches the disk past the death of the machine is
  claimed neither here nor by the sources, which do not call \<open>fsync\<close>.
\<close>

section \<open>Driver and store\<close>

lemma terminal_last_suffix: "terminal_last (xs @ ys) \<Longrightarrow> terminal_last ys"
  by (auto simp: terminal_last_def butlast_append list_all_iff split: if_splits)

lemma append_after_stored:
  assumes "get_run nm s = Some run" and "\<not> list_ex is_end_event (sr_events run)" and "terminal_last events"
    and "\<not> mx_poisoned (so_runs s)" and "\<not> mx_poisoned (so_outbox s)"
  shows "\<exists>s'. append_events_after now nm (length (sr_events run)) events s = (Inr Appended, s')
    \<and> get_run nm s' = Some (run\<lparr>sr_events := sr_events run @ events\<rparr>)"
proof -
  have "check_one_terminal events = Inr ()" using assms(3) by (simp add: check_one_terminal_iff)
  then show ?thesis
    using assms
    by (auto simp: append_events_after_def append_checked_def lock_write_def get_run_def lock_read_def number_def Let_def)
qed

text \<open>C5. What a driver writes is what the store keeps: a driver that loaded a stored run's open log and
  ran, until a boundary stopped it or to its end, returns a log that extends the stored one, and the
  store takes the new events in one batch when nothing else was appended, so that the stored log
  is then the driver's log, event by event.\<close>

theorem driver_batch_stored:
  assumes "driver_ok d" and "run_until io b (d, w) = Some (r, (d', w'))"
    and "get_run nm s = Some run" and "sr_events run = dv_events d" and "\<not> log_ended d"
    and "\<not> mx_poisoned (so_runs s)" and "\<not> mx_poisoned (so_outbox s)"
  shows "\<exists>events s'. dv_events d' = dv_events d @ events
    \<and> append_events_after now nm (length (dv_events d)) events s = (Inr Appended, s')
    \<and> get_run nm s' = Some (run\<lparr>sr_events := dv_events d'\<rparr>)"
proof -
  have steps: "log_steps (io_uuid io) (descriptors io) (\<lambda>given lims. True) (dv_spec d) (dv_events d) (dv_events d')"
    using run_until_steps [OF assms(1) children_ok_trivial assms(2)] by blast
  then obtain events where more: "dv_events d' = dv_events d @ events" using log_steps_extend by blast
  have open_log: "\<not> list_ex is_end_event (sr_events run)"
    using assms(4,5) by (auto simp: log_ended_def list_ex_iff)
  then have "terminal_last (dv_events d)"
    using assms(4) by (auto simp: terminal_last_def list_all_iff list_ex_iff dest: in_set_butlastD)
  with steps have "terminal_last (dv_events d')" by (rule terminal_last_steps)
  then have "terminal_last events" unfolding more by (rule terminal_last_suffix)
  from append_after_stored [OF assms(3) open_log this assms(6,7), of now] show ?thesis
    unfolding assms(4) using more by auto
qed

theorem driver_batch_stored_witness:
  "\<exists>events s'. append_events_after 9 (RunId 1) (length (dv_events sample_driver)) events
      (snd (put_run 5 \<lparr>sr_spec = sample_spec, sr_events = dv_events sample_driver\<rparr> store_default)) = (Inr Appended, s')"
proof -
  obtain r d' w' where run: "run_until sample_io (\<lambda>d w. (Continue, w)) (sample_driver, 1) = Some (r, (d', w'))"
    using sample_run by (auto simp: run_to_completion_def)
  have log: "map ev_payload (dv_events sample_driver) = [RunStarted]"
    by (simp add: boot_def push_def driver_new_def sample_io_def)
  then have last: "check_one_terminal (dv_events sample_driver) = Inr ()" and live: "\<not> log_ended sample_driver"
    by (auto simp: check_one_terminal_def log_ended_def map_eq_Cons_conv)
  let ?run = "\<lparr>sr_spec = sample_spec, sr_events = dv_events sample_driver\<rparr>"
  let ?s = "snd (put_run 5 ?run store_default)"
  have "get_run (RunId 1) ?s = Some ?run" "\<not> mx_poisoned (so_runs ?s)" "\<not> mx_poisoned (so_outbox ?s)"
    using last by (simp_all add: put_run_def store_default_def mutex_new_def lock_write_def
      number_def Let_def count_of_def get_run_def lock_read_def sample_spec_def)
  from driver_batch_stored [OF boot_ok run this(1) _ live this(2,3), where now = 9] show ?thesis by auto
qed

end
